(* ===== verification/Prelude.thy ===== *)
theory Prelude
  imports Main "HOL-Library.Word"
begin

unbundle bit_operations_syntax

text \<open>
  Shared vocabulary of the development.

  \<^item> Machine integers at the widths of the C sources (\<open>uint8_t\<close> ... \<open>uint64_t\<close>, and the 24 bit
    fields of the index keys) are words.
  \<^item> The return codes of \<open>smmr.h\<close> (\<open>RET_OK\<close>, \<open>RET_NG\<close>, \<open>RET_WARN\<close>, \<open>RET_MOREDATA\<close>).
  \<^item> Little-endian codecs between a word and its bytes (the platform of the sources, gcc on
    x86/x86-64, is little-endian), with both round trips, and the byte swap of
    \<open>htonl\<close>/\<open>htons\<close> as the codec read backwards.
  \<^item> Byte-addressed memory: the shared files of the program are mapped into memory and accessed
    through casts of a \<open>char*\<close>; a mapped file is a function from offsets to bytes, and every
    structure access of the C code is a load or a store of a few bytes at an offset. The
    collection \<open>mem_simps\<close> holds the read-over-write laws.
\<close>

section \<open>Machine integers and return codes\<close>

type_synonym u8 = "8 word"
type_synonym u16 = "16 word"
type_synonym u24 = "24 word"
type_synonym u32 = "32 word"
type_synonym u64 = "64 word"
type_synonym bytes = "u8 list"

abbreviation RET_OK :: int where "RET_OK \<equiv> 0"
abbreviation RET_NG :: int where "RET_NG \<equiv> - 1"
abbreviation RET_WARN :: int where "RET_WARN \<equiv> 1"
abbreviation RET_MOREDATA :: int where "RET_MOREDATA \<equiv> 2"

lemma unat_of_nat_small:
  "n < 2 ^ LENGTH('a) \<Longrightarrow> unat (of_nat n :: 'a::len word) = n"
  by (simp add: unsigned_of_nat take_bit_nat_eq_self)

lemma ucast_of_unat: "ucast (x :: u64) = (of_nat (unat x) :: u32)"
  by simp

named_theorems mem_simps "read-over-write laws of byte memory"

section \<open>Little-endian codecs\<close>

definition to_le :: "nat \<Rightarrow> 'a::len word \<Rightarrow> bytes" where
  "to_le n x = map (\<lambda>i. ucast (drop_bit (8 * i) x)) [0..<n]"

fun of_le :: "bytes \<Rightarrow> 'a::len word" where
  "of_le [] = 0"
| "of_le (b # bs) = ucast b OR push_bit 8 (of_le bs)"

lemma length_to_le [simp]: "length (to_le n x) = n"
  by (simp add: to_le_def)

lemma nth_to_le [simp]: "i < n \<Longrightarrow> to_le n x ! i = ucast (drop_bit (8 * i) x)"
  by (simp add: to_le_def)

lemma bit_of_le:
  "bit (of_le bs :: 'a::len word) i \<longleftrightarrow>
     i < LENGTH('a) \<and> i div 8 < length bs \<and> bit (bs ! (i div 8)) (i mod 8)"
proof (induction bs arbitrary: i)
  case Nil
  then show ?case by simp
next
  case (Cons b bs)
  show ?case
  proof (cases "i < 8")
    case True
    then show ?thesis
      by (auto simp: bit_or_iff bit_push_bit_iff bit_ucast_iff dest: bit_imp_le_length)
  next
    case False
    then have "i div 8 = Suc ((i - 8) div 8)" "i mod 8 = (i - 8) mod 8"
      by (simp_all add: le_div_geq le_mod_geq)
    with False Cons.IH [of "i - 8"] show ?thesis
      by (auto simp: bit_or_iff bit_push_bit_iff bit_ucast_iff dest: bit_imp_le_length)
  qed
qed

lemma of_le_to_le [simp]:
  fixes x :: "'a::len word"
  assumes "LENGTH('a) \<le> 8 * n"
  shows "of_le (to_le n x) = x"
proof (rule bit_eqI)
  fix i
  have n: "i div 8 < n" if "i < LENGTH('a)" using that assms by simp
  show "bit (of_le (to_le n x) :: 'a word) i \<longleftrightarrow> bit x i"
    by (cases "i < LENGTH('a)")
       (auto simp: bit_of_le n bit_ucast_iff bit_drop_bit_eq dest: bit_imp_le_length)
qed

lemma to_le_of_le [simp]:
  assumes "length bs = n" and "8 * n \<le> LENGTH('a::len)"
  shows "to_le n (of_le bs :: 'a word) = bs"
proof (rule nth_equalityI)
  show "length (to_le n (of_le bs :: 'a word)) = length bs"
    using assms by simp
next
  fix i
  assume "i < length (to_le n (of_le bs :: 'a word))"
  then have i: "i < n" by simp
  show "to_le n (of_le bs :: 'a word) ! i = bs ! i"
  proof (rule bit_eqI)
    fix j
    show "bit (to_le n (of_le bs :: 'a word) ! i) j \<longleftrightarrow> bit (bs ! i) j"
    proof (cases "j < 8")
      case True
      with i assms have "8 * i + j < LENGTH('a)" by linarith
      with True i assms show ?thesis
        by (simp add: bit_ucast_iff bit_drop_bit_eq bit_of_le)
    next
      case False
      then show ?thesis
        using i by (auto simp: bit_ucast_iff dest: bit_imp_le_length)
    qed
  qed
qed

text \<open>
  A packed struct is a sequence of fields of fixed widths; \<open>chunks\<close> cuts a byte string at those
  widths, and putting the pieces together again is the identity on strings of the struct's size.
\<close>

fun chunks :: "nat list \<Rightarrow> bytes \<Rightarrow> bytes list" where
  "chunks [] p = []"
| "chunks (w # ws) p = take w p # chunks ws (drop w p)"

lemma concat_chunks: "length p = sum_list ws \<Longrightarrow> concat (chunks ws p) = p"
  by (induction ws arbitrary: p) auto

lemma take_1_drop: "k < length p \<Longrightarrow> take (Suc 0) (drop k p) = [p ! k]"
  by (simp add: take_Suc hd_drop_conv_nth)

lemma take_1: "0 < length p \<Longrightarrow> take (Suc 0) p = [p ! 0]"
  using take_1_drop [of 0 p] by simp

text \<open>\<open>htonl\<close>/\<open>ntohl\<close> and \<open>htons\<close>/\<open>ntohs\<close> on a little-endian host: the bytes reversed.\<close>

definition htonl :: "u32 \<Rightarrow> u32" where
  "htonl x = of_le (rev (to_le 4 x))"

definition htons :: "u16 \<Rightarrow> u16" where
  "htons x = of_le (rev (to_le 2 x))"

lemma htonl_htonl [simp]: "htonl (htonl x) = x"
  by (simp add: htonl_def)

lemma htons_htons [simp]: "htons (htons x) = x"
  by (simp add: htons_def)

lemma htonl_inj: "htonl x = htonl y \<longleftrightarrow> x = y"
  by (metis htonl_htonl)

lemma htons_inj: "htons x = htons y \<longleftrightarrow> x = y"
  by (metis htons_htons)

lemma htonl_0 [simp]: "htonl 0 = 0"
  by (simp add: htonl_def to_le_def upt_rec)

lemma htonl_eq_0 [simp]: "htonl x = 0 \<longleftrightarrow> x = 0"
  by (metis htonl_0 htonl_htonl)

section \<open>Byte-addressed memory\<close>

type_synonym mem = "nat \<Rightarrow> u8"

definition ld_bytes :: "mem \<Rightarrow> nat \<Rightarrow> nat \<Rightarrow> bytes" where
  "ld_bytes m a n = map (\<lambda>i. m (a + i)) [0..<n]"

definition st_bytes :: "nat \<Rightarrow> bytes \<Rightarrow> mem \<Rightarrow> mem" where
  "st_bytes a bs m = (\<lambda>i. if a \<le> i \<and> i < a + length bs then bs ! (i - a) else m i)"

definition ld16 :: "mem \<Rightarrow> nat \<Rightarrow> u16" where
  "ld16 m a = of_le (ld_bytes m a 2)"

definition st16 :: "nat \<Rightarrow> u16 \<Rightarrow> mem \<Rightarrow> mem" where
  "st16 a v = st_bytes a (to_le 2 v)"

definition ld32 :: "mem \<Rightarrow> nat \<Rightarrow> u32" where
  "ld32 m a = of_le (ld_bytes m a 4)"

definition st32 :: "nat \<Rightarrow> u32 \<Rightarrow> mem \<Rightarrow> mem" where
  "st32 a v = st_bytes a (to_le 4 v)"

definition ld64 :: "mem \<Rightarrow> nat \<Rightarrow> u64" where
  "ld64 m a = of_le (ld_bytes m a 8)"

definition st64 :: "nat \<Rightarrow> u64 \<Rightarrow> mem \<Rightarrow> mem" where
  "st64 a v = st_bytes a (to_le 8 v)"

definition st8 :: "nat \<Rightarrow> u8 \<Rightarrow> mem \<Rightarrow> mem" where
  "st8 a v = st_bytes a [v]"

text \<open>\<open>memset(p, 0, n)\<close> on mapped memory.\<close>

definition memzero :: "nat \<Rightarrow> nat \<Rightarrow> mem \<Rightarrow> mem" where
  "memzero a n m = (\<lambda>i. if a \<le> i \<and> i < a + n then 0 else m i)"

lemma length_ld_bytes [simp]: "length (ld_bytes m a n) = n"
  by (simp add: ld_bytes_def)

lemma nth_ld_bytes [simp]: "i < n \<Longrightarrow> ld_bytes m a n ! i = m (a + i)"
  by (simp add: ld_bytes_def)

lemma ld_bytes_cong:
  "(\<And>i. a \<le> i \<Longrightarrow> i < a + n \<Longrightarrow> m i = m' i) \<Longrightarrow> ld_bytes m a n = ld_bytes m' a n"
  by (simp add: ld_bytes_def)

lemma ld_st_bytes_same [mem_simps]:
  "n = length bs \<Longrightarrow> ld_bytes (st_bytes a bs m) a n = bs"
  by (rule nth_equalityI) (auto simp: st_bytes_def)

lemma ld_st_bytes_other [mem_simps]:
  "b + n \<le> a \<or> a + length bs \<le> b \<Longrightarrow> ld_bytes (st_bytes a bs m) b n = ld_bytes m b n"
  by (rule ld_bytes_cong) (auto simp: st_bytes_def)

lemma ld_memzero_other [mem_simps]:
  "b + n \<le> a \<or> a + k \<le> b \<Longrightarrow> ld_bytes (memzero a k m) b n = ld_bytes m b n"
  by (rule ld_bytes_cong) (auto simp: memzero_def)

lemma ld_memzero_inside [mem_simps]:
  "a \<le> b \<Longrightarrow> b + n \<le> a + k \<Longrightarrow> ld_bytes (memzero a k m) b n = replicate n 0"
  by (rule nth_equalityI) (auto simp: memzero_def)

lemma st_bytes_outside:
  "i < a \<or> a + length bs \<le> i \<Longrightarrow> st_bytes a bs m i = m i"
  by (auto simp: st_bytes_def)

lemma ld32_cong:
  "(\<And>i. a \<le> i \<Longrightarrow> i < a + 4 \<Longrightarrow> m i = m' i) \<Longrightarrow> ld32 m a = ld32 m' a"
  unfolding ld32_def by (metis ld_bytes_cong)

lemma ld32_st32_same [mem_simps]: "ld32 (st32 a v m) a = v"
  by (simp add: ld32_def st32_def mem_simps)

lemma ld32_st32_other [mem_simps]:
  "b + 4 \<le> a \<or> a + 4 \<le> b \<Longrightarrow> ld32 (st32 a v m) b = ld32 m b"
  by (simp add: ld32_def st32_def mem_simps)

lemma ld32_st_bytes_other [mem_simps]:
  "b + 4 \<le> a \<or> a + length bs \<le> b \<Longrightarrow> ld32 (st_bytes a bs m) b = ld32 m b"
  by (simp add: ld32_def mem_simps)

lemma ld32_memzero_other [mem_simps]:
  "b + 4 \<le> a \<or> a + k \<le> b \<Longrightarrow> ld32 (memzero a k m) b = ld32 m b"
  by (simp add: ld32_def mem_simps)

lemma ld_bytes_st32_other [mem_simps]:
  "b + n \<le> a \<or> a + 4 \<le> b \<Longrightarrow> ld_bytes (st32 a v m) b n = ld_bytes m b n"
  by (simp add: st32_def mem_simps)

lemma ld64_st64_same [mem_simps]: "ld64 (st64 a v m) a = v"
  by (simp add: ld64_def st64_def mem_simps)

lemma ld64_st64_other [mem_simps]:
  "b + 8 \<le> a \<or> a + 8 \<le> b \<Longrightarrow> ld64 (st64 a v m) b = ld64 m b"
  by (simp add: ld64_def st64_def mem_simps)

lemma st32_outside: "i < a \<or> a + 4 \<le> i \<Longrightarrow> st32 a v m i = m i"
  by (simp add: st32_def st_bytes_outside)

lemma memzero_outside: "i < a \<or> a + k \<le> i \<Longrightarrow> memzero a k m i = m i"
  by (auto simp: memzero_def)

end
