(* ===== verification/Smmr_Base.thy ===== *)
theory Smmr_Base
  imports Prelude
begin

text \<open>
  The inline helpers of \<open>smmr.inl\<close> that the library and the daemon share: the key hash
  \<open>safe_hash\<close>, the page bitmaps (\<open>PAGEBIT_ON\<close>, \<open>PAGEBIT_OFF\<close>, \<open>ISPAGEBIT\<close> of \<open>smmr.h\<close>) and the
  mutex wrapper. A \<open>pthread_mutex_lock\<close> is a call of the system library: its return code is
  a parameter, and \<open>isvalid_lock\<close> is what the code makes of it.
\<close>

section \<open>Hash\<close>

definition hash_step :: "u32 \<Rightarrow> u8 \<Rightarrow> u32" where
  "hash_step h b = (push_bit 5 h + h) XOR ucast b"

text \<open>The loop reads the key from its last byte to its first.\<close>

definition safe_hash :: "bytes \<Rightarrow> u32" where
  "safe_hash key = foldl hash_step 5381 (rev key)"

lemma safe_hash_Nil: "safe_hash [] = 5381"
  by (simp add: safe_hash_def)

lemma safe_hash_Cons: "safe_hash (b # bs) = hash_step (safe_hash bs) b"
  by (simp add: safe_hash_def)

section \<open>Locks\<close>

definition isvalid_lock :: "int \<Rightarrow> int" where
  "isvalid_lock result = (if result = 0 then RET_OK else RET_NG)"

lemma isvalid_lock_OK [simp]: "isvalid_lock rc = RET_OK \<longleftrightarrow> rc = 0"
  by (simp add: isvalid_lock_def)

section \<open>Page bitmaps\<close>

text \<open>A bitmap is an array of bytes in mapped memory; bit \<open>p\<close> is bit \<open>p % 8\<close> of byte \<open>p / 8\<close>.\<close>

definition page_mask :: "nat \<Rightarrow> u8" where
  "page_mask p = push_bit (p mod 8) 1"

definition PAGEBIT_ON :: "nat \<Rightarrow> nat \<Rightarrow> mem \<Rightarrow> mem" where
  "PAGEBIT_ON a p m = m(a + p div 8 := m (a + p div 8) OR page_mask p)"

definition PAGEBIT_OFF :: "nat \<Rightarrow> nat \<Rightarrow> mem \<Rightarrow> mem" where
  "PAGEBIT_OFF a p m = m(a + p div 8 := m (a + p div 8) AND NOT (page_mask p))"

definition ISPAGEBIT :: "mem \<Rightarrow> nat \<Rightarrow> nat \<Rightarrow> bool" where
  "ISPAGEBIT m a p \<longleftrightarrow> m (a + p div 8) AND page_mask p \<noteq> 0"

lemma bit_page_mask: "bit (page_mask p) j \<longleftrightarrow> j = p mod 8"
proof -
  have "p mod 8 < 8" by simp
  then show ?thesis
    unfolding page_mask_def bit_push_bit_iff bit_1_iff by auto
qed

lemma ISPAGEBIT_bit: "ISPAGEBIT m a p \<longleftrightarrow> bit (m (a + p div 8)) (p mod 8)"
proof -
  have "bit (m (a + p div 8) AND page_mask p) (p mod 8) = bit (m (a + p div 8)) (p mod 8)"
    by (simp add: bit_and_iff bit_page_mask)
  moreover have "m (a + p div 8) AND page_mask p = 0" if "\<not> bit (m (a + p div 8)) (p mod 8)"
    using that by (intro bit_eqI) (auto simp: bit_and_iff bit_page_mask)
  ultimately show ?thesis unfolding ISPAGEBIT_def by fastforce
qed

lemma div_mod_8_eq: "p div 8 = q div 8 \<Longrightarrow> p mod 8 = q mod 8 \<Longrightarrow> p = (q :: nat)"
  by (metis div_mult_mod_eq)

lemma ISPAGEBIT_ON [mem_simps]:
  "ISPAGEBIT (PAGEBIT_ON a p m) a q \<longleftrightarrow> p = q \<or> ISPAGEBIT m a q"
  unfolding ISPAGEBIT_bit PAGEBIT_ON_def
  by (auto simp: bit_or_iff bit_page_mask dest: div_mod_8_eq)

lemma ISPAGEBIT_OFF [mem_simps]:
  "ISPAGEBIT (PAGEBIT_OFF a p m) a q \<longleftrightarrow> p \<noteq> q \<and> ISPAGEBIT m a q"
  unfolding ISPAGEBIT_bit PAGEBIT_OFF_def
  by (auto simp: bit_and_iff bit_not_iff bit_page_mask dest: div_mod_8_eq bit_imp_le_length)

text \<open>A bitmap of \<open>n\<close> pages occupies the bytes \<open>a .. a + n div 8\<close>; other bytes keep their value.\<close>

lemma PAGEBIT_outside:
  "i \<noteq> a + p div 8 \<Longrightarrow> PAGEBIT_ON a p m i = m i"
  "i \<noteq> a + p div 8 \<Longrightarrow> PAGEBIT_OFF a p m i = m i"
  by (simp_all add: PAGEBIT_ON_def PAGEBIT_OFF_def)

lemma ISPAGEBIT_cong: "m (a + p div 8) = m' (a + p div 8) \<Longrightarrow> ISPAGEBIT m a p = ISPAGEBIT m' a p"
  by (simp add: ISPAGEBIT_def)

end
