(* ===== verification/Bfd_Packet.thy ===== *)
theory Bfd_Packet
  imports Prelude
begin

text \<open>
  The BFD control packet (\<open>struct bfd\<close>, declared identically in \<open>bfdd.h\<close>, \<open>bfdd_netmap.h\<close> and
  \<open>bfdd_cpp.h\<close>) and its constants. The C code casts the received buffer to the packed struct and
  sends the struct's own bytes: \<open>decode_bfd\<close> and \<open>encode_bfd\<close> are that cast, with the bit fields
  laid out from the least significant bit as gcc does on a little-endian machine, and with the
  multi-byte fields read in host order (they stay in network order, as in the code). The
  validity checks, identical in \<open>recv_bfd_event\<close> and in the C++ \<open>Server::recieve\<close>, are
  \<open>bfd_valid\<close>.
\<close>

section \<open>Constants\<close>

definition BFDDFLT_DETECTMULT :: u32 where "BFDDFLT_DETECTMULT = 3"
definition BFDDFLT_DESIREDMINTX :: u32 where "BFDDFLT_DESIREDMINTX = 1000000"
definition BFDDFLT_REQUIREDMINRX :: u32 where "BFDDFLT_REQUIREDMINRX = 1000000"
definition BFDDFLT_UDPPORT :: u16 where "BFDDFLT_UDPPORT = 3784"

abbreviation BFD_VERSION :: "3 word" where "BFD_VERSION \<equiv> 1"
abbreviation BFD_MINPKTLEN :: nat where "BFD_MINPKTLEN \<equiv> 24"

text \<open>The states are compared both as the 2 bit wire field and as \<open>uint32_t\<close> session fields.\<close>

abbreviation BFDSTATE_ADMINDOWN :: "'a::len word" where "BFDSTATE_ADMINDOWN \<equiv> 0"
abbreviation BFDSTATE_DOWN :: "'a::len word" where "BFDSTATE_DOWN \<equiv> 1"
abbreviation BFDSTATE_INIT :: "'a::len word" where "BFDSTATE_INIT \<equiv> 2"
abbreviation BFDSTATE_UP :: "'a::len word" where "BFDSTATE_UP \<equiv> 3"

abbreviation BFDDIAG_NEIGHBORSAIDDOWN :: u32 where "BFDDIAG_NEIGHBORSAIDDOWN \<equiv> 3"

abbreviation BFD_ON :: "'a::len word" where "BFD_ON \<equiv> 1"
abbreviation BFD_OFF :: "'a::len word" where "BFD_OFF \<equiv> 0"

section \<open>The packet\<close>

record bfd =
  diag :: "5 word"
  vers :: "3 word"
  multipoint :: "1 word"
  demand :: "1 word"
  auth :: "1 word"
  cpi :: "1 word"
  final :: "1 word"
  poll :: "1 word"
  state :: "2 word"
  pdetect_mult :: u8
  plength :: u8
  my_discr :: u32
  your_discr :: u32
  min_tx_int :: u32
  min_rx_int :: u32
  min_echo_rx_int :: u32

text \<open>\<open>memset(&bfd, 0, sizeof(bfd))\<close>.\<close>

definition bfd_zero :: bfd where
  "bfd_zero = \<lparr>diag = 0, vers = 0, multipoint = 0, demand = 0, auth = 0, cpi = 0, final = 0,
     poll = 0, state = 0, pdetect_mult = 0, plength = 0, my_discr = 0, your_discr = 0,
     min_tx_int = 0, min_rx_int = 0, min_echo_rx_int = 0\<rparr>"

text \<open>A bit field of width \<open>LENGTH('a)\<close> at bit \<open>k\<close> of a byte.\<close>

definition get_field :: "nat \<Rightarrow> u8 \<Rightarrow> 'a::len word" where
  "get_field k b = ucast (drop_bit k b)"

definition put_field :: "nat \<Rightarrow> 'a::len word \<Rightarrow> u8" where
  "put_field k x = push_bit k (ucast x)"

definition decode_bfd :: "bytes \<Rightarrow> bfd" where
  "decode_bfd p =
     \<lparr>diag = get_field 0 (p ! 0), vers = get_field 5 (p ! 0),
      multipoint = get_field 0 (p ! 1), demand = get_field 1 (p ! 1), auth = get_field 2 (p ! 1),
      cpi = get_field 3 (p ! 1), final = get_field 4 (p ! 1), poll = get_field 5 (p ! 1),
      state = get_field 6 (p ! 1),
      pdetect_mult = p ! 2, plength = p ! 3,
      my_discr = of_le (take 4 (drop 4 p)), your_discr = of_le (take 4 (drop 8 p)),
      min_tx_int = of_le (take 4 (drop 12 p)), min_rx_int = of_le (take 4 (drop 16 p)),
      min_echo_rx_int = of_le (take 4 (drop 20 p))\<rparr>"

definition encode_bfd :: "bfd \<Rightarrow> bytes" where
  "encode_bfd b =
     [put_field 0 (diag b) OR put_field 5 (vers b),
      put_field 0 (multipoint b) OR put_field 1 (demand b) OR put_field 2 (auth b) OR
      put_field 3 (cpi b) OR put_field 4 (final b) OR put_field 5 (poll b) OR
      put_field 6 (state b),
      pdetect_mult b, plength b] @
     to_le 4 (my_discr b) @ to_le 4 (your_discr b) @ to_le 4 (min_tx_int b) @
     to_le 4 (min_rx_int b) @ to_le 4 (min_echo_rx_int b)"

lemma length_encode_bfd [simp]: "length (encode_bfd b) = BFD_MINPKTLEN"
  by (simp add: encode_bfd_def)

subsection \<open>Bit fields\<close>

lemma bit_get_field:
  "bit (get_field k b :: 'a::len word) j \<longleftrightarrow> j < LENGTH('a) \<and> bit b (k + j)"
  by (simp add: get_field_def bit_ucast_iff bit_drop_bit_eq)

lemma bit_put_field:
  "bit (put_field k (x :: 'a::len word)) j \<longleftrightarrow> k \<le> j \<and> j < 8 \<and> bit x (j - k)"
  by (auto simp: put_field_def bit_push_bit_iff bit_ucast_iff dest: bit_imp_le_length)

lemma get_put_field_same:
  "k + LENGTH('a) \<le> 8 \<Longrightarrow> get_field k (put_field k (x :: 'a::len word)) = x"
  by (rule bit_eqI) (auto simp: bit_get_field bit_put_field dest: bit_imp_le_length)

lemma get_put_field_other:
  "k + LENGTH('a) \<le> l \<or> l + LENGTH('b) \<le> k \<Longrightarrow>
     get_field k (put_field l (x :: 'b::len word)) = (0 :: 'a::len word)"
  by (rule bit_eqI) (auto simp: bit_get_field bit_put_field dest: bit_imp_le_length)

lemma get_field_or:
  "get_field k (x OR y) = (get_field k x OR get_field k y :: 'a::len word)"
  by (rule bit_eqI) (auto simp: bit_get_field bit_or_iff)

lemmas field_simps_bfd = get_field_or get_put_field_same get_put_field_other

lemma head_byte_fields:
  "put_field 0 (get_field 0 b :: 5 word) OR put_field 5 (get_field 5 b :: 3 word) = b"
proof (rule bit_eqI)
  fix n
  show "bit (put_field 0 (get_field 0 b :: 5 word) OR put_field 5 (get_field 5 b :: 3 word)) n
        \<longleftrightarrow> bit b n"
    by (cases "n < 8"; cases "n < 5")
       (auto simp: bit_or_iff bit_put_field bit_get_field dest: bit_imp_le_length)
qed

lemma flag_byte_fields:
  "put_field 0 (get_field 0 b :: 1 word) OR put_field 1 (get_field 1 b :: 1 word) OR
   put_field 2 (get_field 2 b :: 1 word) OR put_field 3 (get_field 3 b :: 1 word) OR
   put_field 4 (get_field 4 b :: 1 word) OR put_field 5 (get_field 5 b :: 1 word) OR
   put_field 6 (get_field 6 b :: 2 word) = b" (is "?l = b")
proof (rule bit_eqI)
  fix n :: nat
  have "n = 0 \<or> n = 1 \<or> n = 2 \<or> n = 3 \<or> n = 4 \<or> n = 5 \<or> n = 6 \<or> n = 7 \<or> 8 \<le> n" by arith
  then show "bit ?l n \<longleftrightarrow> bit b n"
    by (elim disjE) (auto simp: bit_or_iff bit_put_field bit_get_field dest: bit_imp_le_length)
qed

subsection \<open>Round trips\<close>

lemma decode_encode_bfd: "decode_bfd (encode_bfd b) = b"
  by (cases b) (simp add: decode_bfd_def encode_bfd_def field_simps_bfd)

lemma encode_decode_bfd:
  assumes "length p = 24"
  shows "encode_bfd (decode_bfd p) = p"
proof -
  have "encode_bfd (decode_bfd p) = concat (chunks [1, 1, 1, 1, 4, 4, 4, 4, 4] p)"
    using assms
    by (simp add: encode_bfd_def decode_bfd_def head_byte_fields flag_byte_fields [simplified]
        take_1 take_1_drop) (simp add: numeral_eq_Suc)
  also have "\<dots> = p" using assms by (intro concat_chunks) simp
  finally show ?thesis .
qed

section \<open>Validity checks\<close>

text \<open>
  The checks at the head of \<open>recv_bfd_event\<close> (and, with the same text, of \<open>Server::recieve\<close>):
  each disjunct is one \<open>return(RET_NG)\<close>.
\<close>

definition bfd_valid :: "nat \<Rightarrow> bfd \<Rightarrow> bool" where
  "bfd_valid len b \<longleftrightarrow>
     \<not> (len \<noteq> BFD_MINPKTLEN) \<and>
     \<not> (multipoint b \<noteq> BFD_OFF) \<and>
     \<not> (vers b \<noteq> BFD_VERSION) \<and>
     \<not> (auth b \<noteq> BFD_OFF) \<and>
     \<not> (my_discr b = BFD_OFF) \<and>
     \<not> (pdetect_mult b = BFD_OFF) \<and>
     \<not> (your_discr b = BFD_OFF \<and>
        \<not> (state b = BFDSTATE_DOWN \<or> state b = BFDSTATE_ADMINDOWN))"

end
