(* ===== verification/Bfd_Session.thy ===== *)
theory Bfd_Session
  imports Smmr_Base Bfd_Packet "HOL-Library.Monad_Syntax"
begin

text \<open>
  The session table of the C daemon (\<open>bfdd_session.c\<close>): the session structure, its bytes in the
  database, \<open>init_session\<close>, \<open>find_session\<close>, \<open>insert_session\<close> and \<open>iterate_all_session\<close>.

  The table lives in the smmr key-value store. The operations take the store's two calls as a
  record \<open>kv_ops\<close>: \<open>kv_store\<close> is \<open>store\<close> with \<open>expire = 0\<close>, and \<open>kv_search\<close> is \<open>search\<close>, whose
  first argument says whether the caller's \<open>*val\<close> is already non-null (\<open>search\<close> refuses such a
  call) and whose result is \<open>Some v\<close> exactly when the C function returns \<open>RET_OK\<close> with the value
  \<open>v\<close>. Both may fail to return (\<open>None\<close>: the code below them dereferences a null pointer or reads
  out of bounds), so every operation here is a computation in the option monad over the store's
  state.
\<close>

record 's kv_ops =
  kv_store :: "bytes \<Rightarrow> bytes \<Rightarrow> 's \<Rightarrow> (int \<times> 's) option"
  kv_search :: "bool \<Rightarrow> bytes \<Rightarrow> 's \<Rightarrow> (bytes option \<times> 's) option"

abbreviation SESSION_KEYS_MANGE :: u32 where "SESSION_KEYS_MANGE \<equiv> 1000"
abbreviation SESSION_KEYS_BASE :: u32 where "SESSION_KEYS_BASE \<equiv> 2000"
abbreviation SESSION_KEYS_MAX :: nat where "SESSION_KEYS_MAX \<equiv> 32"
abbreviation SESSION_KEYS_LISTCNT :: nat where "SESSION_KEYS_LISTCNT \<equiv> 128"

section \<open>Structures\<close>

record sockaddr_in =
  sin_family :: u16
  sin_port :: u16
  s_addr :: u32
  sin_zero :: u64

text \<open>\<open>struct bfd_sess\<close>; \<open>padding\<close> is the hole the compiler leaves before the 64 bit field.\<close>

record bfd_sess =
  session_state :: u32
  remote_session_state :: u32
  local_discr :: u32
  remote_discr :: u32
  local_diag :: u32
  desired_min_tx_interval :: u32
  required_min_rx_interval :: u32
  remote_min_rx_interval :: u32
  demand_mode :: u32
  remote_demand_mode :: u32
  detect_mult :: u32
  auth_type :: u32
  rcv_auth_seq :: u32
  xmit_auth_seq :: u32
  auth_seq_known :: u32
  must_cease_tx_echo :: u32
  must_terminate :: u32
  padding :: u32
  detect_time :: u64
  pollbit_on :: u32
  received_min_rx_interval :: u32
  client_addr :: sockaddr_in
  client_addrlen :: u32
  attached :: u32

record bfd_sess_manage =
  keys_bits :: u32
  keys_incnt :: "u32 list"

record bfd_sess_key =
  key_addr :: u32
  key_port :: u16
  key_padd :: u16

type_synonym bfd_sess_key_list = "bfd_sess_key list"

section \<open>Bytes of the structures\<close>

abbreviation SIZEOF_SESS :: nat where "SIZEOF_SESS \<equiv> 112"
abbreviation SIZEOF_MANAGE :: nat where "SIZEOF_MANAGE \<equiv> 132"
abbreviation SIZEOF_KEYLIST :: nat where "SIZEOF_KEYLIST \<equiv> 1024"

definition encode_sockaddr :: "sockaddr_in \<Rightarrow> bytes" where
  "encode_sockaddr a =
     to_le 2 (sin_family a) @ to_le 2 (sin_port a) @ to_le 4 (s_addr a) @ to_le 8 (sin_zero a)"

definition decode_sockaddr :: "bytes \<Rightarrow> sockaddr_in" where
  "decode_sockaddr p =
     \<lparr>sin_family = of_le (take 2 p), sin_port = of_le (take 2 (drop 2 p)),
      s_addr = of_le (take 4 (drop 4 p)), sin_zero = of_le (take 8 (drop 8 p))\<rparr>"

definition encode_sess :: "bfd_sess \<Rightarrow> bytes" where
  "encode_sess s =
     to_le 4 (session_state s) @ to_le 4 (remote_session_state s) @
     to_le 4 (local_discr s) @ to_le 4 (remote_discr s) @ to_le 4 (local_diag s) @
     to_le 4 (desired_min_tx_interval s) @ to_le 4 (required_min_rx_interval s) @
     to_le 4 (remote_min_rx_interval s) @ to_le 4 (demand_mode s) @
     to_le 4 (remote_demand_mode s) @ to_le 4 (detect_mult s) @ to_le 4 (auth_type s) @
     to_le 4 (rcv_auth_seq s) @ to_le 4 (xmit_auth_seq s) @ to_le 4 (auth_seq_known s) @
     to_le 4 (must_cease_tx_echo s) @ to_le 4 (must_terminate s) @ to_le 4 (padding s) @
     to_le 8 (detect_time s) @ to_le 4 (pollbit_on s) @ to_le 4 (received_min_rx_interval s) @
     encode_sockaddr (client_addr s) @ to_le 4 (client_addrlen s) @ to_le 4 (attached s)"

definition decode_sess :: "bytes \<Rightarrow> bfd_sess" where
  "decode_sess p = (let w = (\<lambda>i. of_le (take 4 (drop i p)) :: u32) in
     \<lparr>session_state = w 0, remote_session_state = w 4, local_discr = w 8, remote_discr = w 12,
      local_diag = w 16, desired_min_tx_interval = w 20, required_min_rx_interval = w 24,
      remote_min_rx_interval = w 28, demand_mode = w 32, remote_demand_mode = w 36,
      detect_mult = w 40, auth_type = w 44, rcv_auth_seq = w 48, xmit_auth_seq = w 52,
      auth_seq_known = w 56, must_cease_tx_echo = w 60, must_terminate = w 64, padding = w 68,
      detect_time = of_le (take 8 (drop 72 p)), pollbit_on = w 80,
      received_min_rx_interval = w 84, client_addr = decode_sockaddr (take 16 (drop 88 p)),
      client_addrlen = w 104, attached = w 108\<rparr>)"

definition encode_sess_key :: "bfd_sess_key \<Rightarrow> bytes" where
  "encode_sess_key k = to_le 4 (key_addr k) @ to_le 2 (key_port k) @ to_le 2 (key_padd k)"

definition decode_sess_key :: "bytes \<Rightarrow> bfd_sess_key" where
  "decode_sess_key p =
     \<lparr>key_addr = of_le (take 4 p), key_port = of_le (take 2 (drop 4 p)),
      key_padd = of_le (take 2 (drop 6 p))\<rparr>"

definition encode_manage :: "bfd_sess_manage \<Rightarrow> bytes" where
  "encode_manage g = to_le 4 (keys_bits g) @ concat (map (to_le 4) (keys_incnt g))"

definition decode_manage :: "bytes \<Rightarrow> bfd_sess_manage" where
  "decode_manage p =
     \<lparr>keys_bits = of_le (take 4 p),
      keys_incnt = map of_le (chunks (replicate SESSION_KEYS_MAX 4) (drop 4 p))\<rparr>"

definition encode_keylist :: "bfd_sess_key_list \<Rightarrow> bytes" where
  "encode_keylist ks = concat (map encode_sess_key ks)"

definition decode_keylist :: "bytes \<Rightarrow> bfd_sess_key_list" where
  "decode_keylist p = map decode_sess_key (chunks (replicate SESSION_KEYS_LISTCNT 8) p)"

lemma length_encode_sockaddr [simp]: "length (encode_sockaddr a) = 16"
  by (simp add: encode_sockaddr_def)

lemma length_encode_sess [simp]: "length (encode_sess s) = SIZEOF_SESS"
  by (simp add: encode_sess_def)

lemma length_encode_sess_key [simp]: "length (encode_sess_key k) = 8"
  by (simp add: encode_sess_key_def)

lemma decode_encode_sockaddr [simp]: "decode_sockaddr (encode_sockaddr a) = a"
  by (simp add: decode_sockaddr_def encode_sockaddr_def)

lemma decode_encode_sess [simp]: "decode_sess (encode_sess s) = s"
  by (simp add: decode_sess_def encode_sess_def Let_def)

lemma decode_encode_sess_key [simp]: "decode_sess_key (encode_sess_key k) = k"
  by (simp add: decode_sess_key_def encode_sess_key_def)

lemma encode_sess_key_inj: "encode_sess_key k = encode_sess_key k' \<longleftrightarrow> k = k'"
  by (metis decode_encode_sess_key)

lemma chunks_concat_map:
  "(\<And>x. length (f x) = w) \<Longrightarrow> chunks (replicate (length xs) w) (concat (map f xs)) = map f xs"
  by (induction xs) auto

lemma length_concat_map: "(\<And>x. length (f x) = w) \<Longrightarrow> length (concat (map f xs)) = w * length xs"
  by (induction xs) auto

lemma decode_encode_manage:
  assumes "length (keys_incnt g) = SESSION_KEYS_MAX"
  shows "decode_manage (encode_manage g) = g"
  using chunks_concat_map [of "to_le 4 :: u32 \<Rightarrow> bytes" 4 "keys_incnt g"] assms
  unfolding decode_manage_def encode_manage_def
  by (cases g) (simp add: comp_def)

lemma decode_encode_keylist:
  assumes "length ks = SESSION_KEYS_LISTCNT"
  shows "decode_keylist (encode_keylist ks) = ks"
  using chunks_concat_map [of encode_sess_key 8 ks] assms
  unfolding decode_keylist_def encode_keylist_def
  by (simp add: comp_def)

lemma length_encode_manage:
  "length (keys_incnt g) = SESSION_KEYS_MAX \<Longrightarrow> length (encode_manage g) = SIZEOF_MANAGE"
  by (simp add: encode_manage_def length_concat_map [where w = 4])

lemma length_encode_keylist:
  "length ks = SESSION_KEYS_LISTCNT \<Longrightarrow> length (encode_keylist ks) = SIZEOF_KEYLIST"
  by (simp add: encode_keylist_def length_concat_map [where w = 8])

section \<open>Operations\<close>

definition AF_INET :: u16 where "AF_INET = 2"

definition init_session :: "bfd_sess \<Rightarrow> sockaddr_in \<Rightarrow> u32 \<Rightarrow> bfd_sess" where
  "init_session psess c_addr c_addrlen = psess
     \<lparr>session_state := BFDSTATE_DOWN, remote_session_state := BFDSTATE_DOWN,
      local_discr := BFD_OFF, remote_discr := BFD_OFF, local_diag := BFD_OFF,
      desired_min_tx_interval := BFDDFLT_DESIREDMINTX,
      required_min_rx_interval := BFDDFLT_REQUIREDMINRX,
      remote_min_rx_interval := BFD_OFF, demand_mode := BFD_OFF, remote_demand_mode := BFD_OFF,
      detect_mult := BFDDFLT_DETECTMULT, auth_type := BFD_OFF, rcv_auth_seq := BFD_OFF,
      xmit_auth_seq := BFD_OFF, auth_seq_known := BFD_OFF, must_cease_tx_echo := BFD_OFF,
      must_terminate := BFD_OFF, detect_time := 0, pollbit_on := BFD_OFF,
      received_min_rx_interval := BFD_OFF, attached := BFD_OFF,
      client_addr := (client_addr psess)
        \<lparr>sin_port := htons BFDDFLT_UDPPORT, sin_family := AF_INET, s_addr := s_addr c_addr\<rparr>,
      client_addrlen := c_addrlen\<rparr>"

definition sess_key :: "sockaddr_in \<Rightarrow> bfd_sess_key" where
  "sess_key c_addr = \<lparr>key_addr = s_addr c_addr, key_port = sin_port c_addr, key_padd = 0\<rparr>"

definition get_sess_manage :: "'s kv_ops \<Rightarrow> 's \<Rightarrow> (bfd_sess_manage option \<times> 's) option" where
  "get_sess_manage ops s = do {
     (r, s) \<leftarrow> kv_search ops False (to_le 4 SESSION_KEYS_MANGE) s;
     Some (case r of
         None \<Rightarrow> (None, s)
       | Some resp \<Rightarrow> if length resp \<noteq> SIZEOF_MANAGE then (None, s)
                      else (Some (decode_manage resp), s))
   }"

definition get_sess_manage_keylist ::
  "'s kv_ops \<Rightarrow> u32 \<Rightarrow> 's \<Rightarrow> (bfd_sess_key_list option \<times> 's) option" where
  "get_sess_manage_keylist ops key s = do {
     (r, s) \<leftarrow> kv_search ops False (to_le 4 key) s;
     Some (case r of
         None \<Rightarrow> (None, s)
       | Some resp \<Rightarrow> if length resp \<noteq> SIZEOF_KEYLIST then (None, s)
                      else (Some (decode_keylist resp), s))
   }"

text \<open>
  \<open>find_session\<close>: the result is the session that \<open>memcpy\<close> puts into \<open>*psess\<close>, or \<open>None\<close> when
  the function returns \<open>RET_NG\<close> and leaves \<open>*psess\<close> as it was.
\<close>

definition find_session ::
  "'s kv_ops \<Rightarrow> sockaddr_in \<Rightarrow> u32 \<Rightarrow> 's \<Rightarrow> (bfd_sess option \<times> 's) option" where
  "find_session ops c_addr c_addrlen s =
     (if c_addrlen = 0 then Some (None, s)
      else do {
        (r, s) \<leftarrow> kv_search ops False (encode_sess_key (sess_key c_addr)) s;
        Some (case r of
            None \<Rightarrow> (None, s)
          | Some resp \<Rightarrow> if length resp \<noteq> SIZEOF_SESS then (None, s)
                         else (Some (decode_sess resp), s))
      })"

definition sess_group :: "bfd_sess_key \<Rightarrow> nat" where
  "sess_group k = unat (safe_hash (encode_sess_key k)) mod SESSION_KEYS_MAX"

text \<open>The three stores of \<open>insert_session\<close>: the session, then for a new key the two tables.\<close>

definition insert_session ::
  "'s kv_ops \<Rightarrow> bfd_sess \<Rightarrow> sockaddr_in \<Rightarrow> u32 \<Rightarrow> 's \<Rightarrow> (int \<times> 's) option" where
  "insert_session ops psess c_addr c_addrlen s =
     (if c_addrlen = 0 then Some (RET_NG, s)
      else let keyt = sess_key c_addr; hashed = sess_group keyt in do {
        (rm, s) \<leftarrow> get_sess_manage ops s;
        case rm of None \<Rightarrow> Some (RET_NG, s) | Some mng \<Rightarrow> do {
        (rl, s) \<leftarrow> get_sess_manage_keylist ops (SESSION_KEYS_BASE + of_nat hashed) s;
        case rl of None \<Rightarrow> Some (RET_NG, s) | Some list \<Rightarrow>
          let cnt = unat (keys_incnt mng ! hashed) in
          if cnt \<ge> SESSION_KEYS_LISTCNT then Some (RET_NG, s)
          else let isupdate = keyt \<in> set (take (min SESSION_KEYS_LISTCNT cnt) list) in do {
            (ret, s) \<leftarrow> kv_store ops (encode_sess_key keyt) (encode_sess psess) s;
            if ret = RET_OK \<and> \<not> isupdate then do {
              let mng' = mng\<lparr>keys_bits := keys_bits mng OR push_bit hashed 1,
                             keys_incnt := (keys_incnt mng)[hashed := keys_incnt mng ! hashed + 1]\<rparr>;
              let list' = list[cnt := keyt];
              (r1, s) \<leftarrow> kv_store ops (to_le 4 SESSION_KEYS_MANGE) (encode_manage mng') s;
              if r1 \<noteq> RET_OK then Some (1, s) else do {
                (r2, s) \<leftarrow> kv_store ops (to_le 4 (SESSION_KEYS_BASE + of_nat hashed))
                              (encode_keylist list') s;
                Some (if r2 \<noteq> RET_OK then 1 else ret, s)
              }
            } else Some (ret, s)
          }
        }
      })"

text \<open>
  The second half of \<open>initialize_bfd_session_table\<close>: the empty summary and the 32 empty key
  lists (the first half creates directories, maps the files and builds the tree root).
\<close>

definition zero_manage :: bfd_sess_manage where
  "zero_manage = \<lparr>keys_bits = 0, keys_incnt = replicate SESSION_KEYS_MAX 0\<rparr>"

definition zero_keylist :: bfd_sess_key_list where
  "zero_keylist = replicate SESSION_KEYS_LISTCNT \<lparr>key_addr = 0, key_port = 0, key_padd = 0\<rparr>"

fun init_keylists :: "'s kv_ops \<Rightarrow> nat list \<Rightarrow> 's \<Rightarrow> (int \<times> 's) option" where
  "init_keylists ops [] s = Some (0, s)"
| "init_keylists ops (n # ns) s = do {
     (r, s) \<leftarrow> kv_store ops (to_le 4 (SESSION_KEYS_BASE + of_nat n)) (encode_keylist zero_keylist) s;
     if r \<noteq> RET_OK then Some (1, s) else init_keylists ops ns s
   }"

definition initialize_bfd_session_table :: "'s kv_ops \<Rightarrow> 's \<Rightarrow> (int \<times> 's) option" where
  "initialize_bfd_session_table ops s = do {
     (r, s) \<leftarrow> kv_store ops (to_le 4 SESSION_KEYS_MANGE) (encode_manage zero_manage) s;
     if r \<noteq> RET_OK then Some (1, s) else init_keylists ops [0..<SESSION_KEYS_MAX] s
   }"

section \<open>Iteration\<close>

text \<open>
  The inner loop of \<open>iterate_all_session\<close>. The flag \<open>rs\<close> says that \<open>resp_sess\<close> is non-null; it
  stays non-null after a \<open>break\<close> and after a value of the wrong length, and \<open>search\<close> then fails.
  An entry \<open>None\<close> of the key list is a read past the end of \<open>list.keys\<close>.
\<close>

fun iterate_keys ::
  "'s kv_ops \<Rightarrow> (bfd_sess \<Rightarrow> 'w \<Rightarrow> int \<times> 'w) \<Rightarrow> bfd_sess_key option list \<Rightarrow> bool \<Rightarrow> 's \<Rightarrow> 'w \<Rightarrow>
     (bool \<times> 's \<times> 'w) option" where
  "iterate_keys ops itr [] rs s w = Some (rs, s, w)"
| "iterate_keys ops itr (None # ks) rs s w = None"
| "iterate_keys ops itr (Some k # ks) rs s w = do {
     (r, s) \<leftarrow> kv_search ops rs (encode_sess_key k) s;
     case r of
       None \<Rightarrow> iterate_keys ops itr ks rs s w
     | Some resp \<Rightarrow>
         if length resp = SIZEOF_SESS then
           (let (ret, w) = itr (decode_sess resp) w in
            if ret \<noteq> 0 then Some (True, s, w) else iterate_keys ops itr ks False s w)
         else iterate_keys ops itr ks True s w
   }"

definition keys_upto :: "bfd_sess_key_list \<Rightarrow> nat \<Rightarrow> bfd_sess_key option list" where
  "keys_upto list cnt = map (\<lambda>m. if m < length list then Some (list ! m) else None) [0..<cnt]"

fun iterate_groups ::
  "'s kv_ops \<Rightarrow> (bfd_sess \<Rightarrow> 'w \<Rightarrow> int \<times> 'w) \<Rightarrow> bfd_sess_manage \<Rightarrow> nat list \<Rightarrow> bool \<Rightarrow> 's \<Rightarrow> 'w \<Rightarrow>
     ('s \<times> 'w) option" where
  "iterate_groups ops itr mng [] rs s w = Some (s, w)"
| "iterate_groups ops itr mng (n # ns) rs s w =
     (if bit (keys_bits mng) n \<and> keys_incnt mng ! n \<noteq> 0 then do {
        (rl, s) \<leftarrow> get_sess_manage_keylist ops (SESSION_KEYS_BASE + of_nat n) s;
        case rl of
          None \<Rightarrow> iterate_groups ops itr mng ns rs s w
        | Some list \<Rightarrow> do {
            (rs, s, w) \<leftarrow> iterate_keys ops itr (keys_upto list (unat (keys_incnt mng ! n))) rs s w;
            iterate_groups ops itr mng ns rs s w
          }
      } else iterate_groups ops itr mng ns rs s w)"

definition iterate_all_session ::
  "'s kv_ops \<Rightarrow> (bfd_sess \<Rightarrow> 'w \<Rightarrow> int \<times> 'w) \<Rightarrow> 's \<Rightarrow> 'w \<Rightarrow> ('s \<times> 'w) option" where
  "iterate_all_session ops itr s w = do {
     (rm, s) \<leftarrow> get_sess_manage ops s;
     case rm of
       None \<Rightarrow> Some (s, w)
     | Some mng \<Rightarrow> iterate_groups ops itr mng [0..<SESSION_KEYS_MAX] False s w
   }"

end
