(* ===== verification/Bfd_Event.thy ===== *)
theory Bfd_Event
  imports Bfd_Session
begin

text \<open>
  The packet events of the C daemon (\<open>bfdd_event.c\<close>): \<open>recv_bfd_event\<close> with its state machine,
  the sender \<open>iterate_on_session\<close>, \<open>send_bfd_event\<close>, and the \<open>select\<close> loop of \<open>main\<close> as a function
  of one round.

  The state of the daemon is the store's state, the static counter \<open>local_discriminator_incr\<close> and
  the list of the \<open>sendto\<close> calls made so far, oldest first. The system calls are parameters: the
  return value of \<open>sendto\<close> for an address and a packet, and the clock reading \<open>now\<close> of
  \<open>get_microsecond\<close>. \<open>sess0\<close> is the uninitialised local \<open>sess\<close> of the C function, whose unset
  bytes (\<open>sin_zero\<close>, the padding) reach the database.
\<close>

type_synonym sends = "(sockaddr_in \<times> bytes) list"

record 's daemon =
  kv :: 's
  local_discriminator_incr :: u64
  sent :: sends

section \<open>Sending\<close>

definition session_packet :: "bfd_sess \<Rightarrow> bfd" where
  "session_packet psess = bfd_zero
     \<lparr>vers := BFD_VERSION, diag := ucast (local_diag psess),
      state := (if local_discr psess \<noteq> 0 then ucast (session_state psess) else BFDSTATE_DOWN),
      poll := BFD_OFF,
      final := (if pollbit_on psess = BFD_ON then BFD_ON else BFD_OFF),
      cpi := BFD_ON, auth := BFD_OFF, demand := BFD_OFF, multipoint := BFD_OFF,
      pdetect_mult := ucast (detect_mult psess), plength := 24,
      my_discr := local_discr psess, your_discr := remote_discr psess,
      min_tx_int := htonl (desired_min_tx_interval psess),
      min_rx_int := htonl (required_min_rx_interval psess),
      min_echo_rx_int := htonl (received_min_rx_interval psess)\<rparr>"

definition iterate_on_session ::
  "(sockaddr_in \<Rightarrow> bytes \<Rightarrow> int) \<Rightarrow> bfd_sess \<Rightarrow> sends \<Rightarrow> int \<times> sends" where
  "iterate_on_session sendto psess w =
     (let bfd = session_packet psess in
      if attached psess = BFD_OFF then (0, w)
      else if (your_discr bfd = 0 \<or> my_discr bfd = 0) \<and> state bfd \<noteq> BFDSTATE_DOWN then (0, w)
      else let ret = sendto (client_addr psess) (encode_bfd bfd) in
        (if ret > 0 then 0 else -1, w @ [(client_addr psess, encode_bfd bfd)]))"

definition send_bfd_event ::
  "'s kv_ops \<Rightarrow> (sockaddr_in \<Rightarrow> bytes \<Rightarrow> int) \<Rightarrow> 's daemon \<Rightarrow> (int \<times> 's daemon) option" where
  "send_bfd_event ops sendto d = do {
     (s, w) \<leftarrow> iterate_all_session ops (iterate_on_session sendto) (kv d) (sent d);
     Some (0, d\<lparr>kv := s, sent := w\<rparr>)
   }"

section \<open>The state machine\<close>

text \<open>
  The session update of \<open>recv_bfd_event\<close>, in the order of the code: the fields copied from the
  packet, then the transition. \<open>MAX\<close> compares the packet's interval as it was read, in network
  byte order, with the session's in host order, and the product with \<open>detect_mult\<close> is a 32 bit
  product.
\<close>

definition absorb_packet :: "u64 \<Rightarrow> bfd \<Rightarrow> bfd_sess \<Rightarrow> bfd_sess" where
  "absorb_packet now bfd sess =
     (let sess = sess
        \<lparr>remote_session_state := ucast (state bfd),
         remote_demand_mode := ucast (demand bfd),
         remote_discr := my_discr bfd,
         remote_min_rx_interval := min_rx_int bfd,
         received_min_rx_interval := min (received_min_rx_interval sess) (min_rx_int bfd)\<rparr>;
        sess = (if final bfd \<noteq> 0 then sess\<lparr>must_terminate := BFD_ON\<rparr> else sess)
      in sess\<lparr>detect_time := now + ucast (ucast (pdetect_mult bfd) *
                max (min_rx_int bfd) (desired_min_tx_interval sess) :: u32)\<rparr>)"

definition session_down :: "bfd_sess \<Rightarrow> bfd_sess" where
  "session_down sess =
     sess\<lparr>local_diag := BFDDIAG_NEIGHBORSAIDDOWN, session_state := BFDSTATE_DOWN\<rparr>"

definition state_machine :: "bfd_sess \<Rightarrow> bfd_sess" where
  "state_machine sess =
     (if remote_session_state sess = BFDSTATE_ADMINDOWN then
        (if session_state sess \<noteq> BFDSTATE_DOWN then session_down sess else sess)
      else if session_state sess = BFDSTATE_DOWN then
        (if remote_session_state sess = BFDSTATE_DOWN then sess\<lparr>session_state := BFDSTATE_INIT\<rparr>
         else if remote_session_state sess = BFDSTATE_INIT then sess\<lparr>session_state := BFDSTATE_UP\<rparr>
         else sess)
      else if session_state sess = BFDSTATE_INIT then
        (if remote_session_state sess = BFDSTATE_INIT \<or> remote_session_state sess = BFDSTATE_UP
         then sess\<lparr>session_state := BFDSTATE_UP\<rparr>
         else sess\<lparr>session_state := BFDSTATE_DOWN\<rparr>)
      else
        (if remote_session_state sess = BFDSTATE_DOWN then session_down sess else sess))"

section \<open>Receiving\<close>

text \<open>
  The new discriminator of a session that is not yet attached:
  \<open>htonl(++local_discriminator_incr)\<close>, then the counter restarts at 0 once above 0x7fffffff.
\<close>

definition next_discr :: "u64 \<Rightarrow> u32 \<times> u64" where
  "next_discr c = (htonl (ucast (c + 1)), if c + 1 > 0x7fffffff then 0 else c + 1)"

definition attach_session :: "bfd_sess \<Rightarrow> u64 \<Rightarrow> bfd_sess \<times> u64" where
  "attach_session sess c =
     (if attached sess = BFD_OFF then
        (let (dscr, c) = next_discr c in (sess\<lparr>local_discr := dscr, attached := BFD_ON\<rparr>, c))
      else (sess, c))"

text \<open>
  A packet that names a discriminator of ours from a peer we do not know: the session is created
  down and the reply is left to \<open>iterate_on_session\<close> (which declines, the session is not attached).
\<close>

definition recv_unknown_peer ::
  "'s kv_ops \<Rightarrow> (sockaddr_in \<Rightarrow> bytes \<Rightarrow> int) \<Rightarrow> bfd \<Rightarrow> bfd_sess \<Rightarrow> sockaddr_in \<Rightarrow> u32 \<Rightarrow> 's daemon \<Rightarrow>
     (int \<times> 's daemon) option" where
  "recv_unknown_peer ops sendto bfd sess0 c_addr c_addrlen d = do {
     let sess = (init_session sess0 c_addr c_addrlen)
           \<lparr>remote_discr := my_discr bfd, local_discr := your_discr bfd,
            session_state := BFDSTATE_DOWN\<rparr>;
     (_, s) \<leftarrow> insert_session ops sess c_addr c_addrlen (kv d);
     let (ret, w) = iterate_on_session sendto sess (sent d);
     Some (ret, d\<lparr>kv := s, sent := w\<rparr>)
   }"

text \<open>The second lookup, which creates the session for a peer that is down.\<close>

definition recv_lookup ::
  "'s kv_ops \<Rightarrow> bfd \<Rightarrow> bfd_sess \<Rightarrow> sockaddr_in \<Rightarrow> u32 \<Rightarrow> 's \<Rightarrow> (bfd_sess option \<times> 's) option" where
  "recv_lookup ops bfd sess1 c_addr c_addrlen s = do {
     (r1, s) \<leftarrow> find_session ops c_addr c_addrlen s;
     case r1 of
       Some sess \<Rightarrow> Some (Some sess, s)
     | None \<Rightarrow> do {
         (_, s) \<leftarrow> (if state bfd = BFDSTATE_DOWN
                    then insert_session ops (init_session sess1 c_addr c_addrlen) c_addr c_addrlen s
                    else Some (RET_OK, s));
         find_session ops c_addr c_addrlen s
       }
   }"

text \<open>From the new session's discriminator to the final \<open>insert_session\<close>.\<close>

definition recv_update ::
  "'s kv_ops \<Rightarrow> (sockaddr_in \<Rightarrow> bytes \<Rightarrow> int) \<Rightarrow> u64 \<Rightarrow> bfd \<Rightarrow> bfd_sess \<Rightarrow> sockaddr_in \<Rightarrow> u32 \<Rightarrow>
     's daemon \<Rightarrow> (int \<times> 's daemon) option" where
  "recv_update ops sendto now bfd sess c_addr c_addrlen d = do {
     let (sess, c) = attach_session sess (local_discriminator_incr d);
     let sess = absorb_packet now bfd sess;
     let d = d\<lparr>local_discriminator_incr := c\<rparr>;
     if session_state sess = BFDSTATE_ADMINDOWN then Some (RET_NG, d)
     else do {
       let sess = state_machine sess;
       let (sess, w) =
         (if poll bfd = BFD_ON then
            (let sess = sess\<lparr>pollbit_on := BFD_ON\<rparr>
             in (sess, snd (iterate_on_session sendto sess (sent d))))
          else (sess, sent d));
       (ret, s) \<leftarrow> insert_session ops sess c_addr c_addrlen (kv d);
       Some (ret, d\<lparr>kv := s, sent := w\<rparr>)
     }
   }"

definition recv_bfd_event ::
  "'s kv_ops \<Rightarrow> (sockaddr_in \<Rightarrow> bytes \<Rightarrow> int) \<Rightarrow> u64 \<Rightarrow> bfd_sess \<Rightarrow> sockaddr_in \<Rightarrow> u32 \<Rightarrow> bytes \<Rightarrow>
     's daemon \<Rightarrow> (int \<times> 's daemon) option" where
  "recv_bfd_event ops sendto now sess0 c_addr c_addrlen pkt d =
     (let bfd = decode_bfd pkt in
      if \<not> bfd_valid (length pkt) bfd then Some (RET_NG, d)
      else do {
        (r0, s) \<leftarrow> (if your_discr bfd \<noteq> BFD_OFF then find_session ops c_addr c_addrlen (kv d)
                   else Some (Some sess0, kv d));
        case r0 of
          None \<Rightarrow> recv_unknown_peer ops sendto bfd sess0 c_addr c_addrlen (d\<lparr>kv := s\<rparr>)
        | Some sess1 \<Rightarrow> do {
            (r2, s) \<leftarrow> recv_lookup ops bfd sess1 c_addr c_addrlen s;
            case r2 of
              None \<Rightarrow> Some (RET_NG, d\<lparr>kv := s\<rparr>)
            | Some sess \<Rightarrow> recv_update ops sendto now bfd sess c_addr c_addrlen (d\<lparr>kv := s\<rparr>)
          }
      })"

section \<open>The main loop\<close>

text \<open>
  One round of the loop in \<open>main\<close>: \<open>select\<close> reports a packet (\<open>Packet addr addrlen pkt now\<close>), a
  failed \<open>recvfrom\<close>, the signal that sets \<open>QUIT\<close>, or nothing (\<open>Quiet now now'\<close>, the two clock readings of the idle branch).
  The loop state is the daemon, \<open>ptime\<close>, and whether the loop goes on.
\<close>

datatype round_event =
    Packet sockaddr_in u32 bytes u64
  | Recv_Error
  | Sigint
  | Quiet u64 u64

record 's main_state =
  daemon_state :: "'s daemon"
  ptime :: u64
  running :: bool

definition main_round ::
  "'s kv_ops \<Rightarrow> (sockaddr_in \<Rightarrow> bytes \<Rightarrow> int) \<Rightarrow> bfd_sess \<Rightarrow> u64 \<Rightarrow> round_event \<Rightarrow> 's main_state \<Rightarrow>
     's main_state option" where
  "main_round ops sendto sess0 delay ev st =
     (case ev of
        Packet c_addr c_addrlen pkt now \<Rightarrow> do {
          (_, d) \<leftarrow> recv_bfd_event ops sendto now sess0 c_addr c_addrlen pkt (daemon_state st);
          Some (st\<lparr>daemon_state := d\<rparr>)
        }
      | Recv_Error \<Rightarrow> Some (st\<lparr>running := False\<rparr>)
      | Sigint \<Rightarrow> Some (st\<lparr>running := False\<rparr>)
      | Quiet now now' \<Rightarrow>
          if now - ptime st > delay then do {
            (_, d) \<leftarrow> send_bfd_event ops sendto (daemon_state st);
            Some (st\<lparr>daemon_state := d, ptime := now'\<rparr>)
          } else Some st)"

fun main_loop ::
  "'s kv_ops \<Rightarrow> (sockaddr_in \<Rightarrow> bytes \<Rightarrow> int) \<Rightarrow> bfd_sess \<Rightarrow> u64 \<Rightarrow> round_event list \<Rightarrow> 's main_state \<Rightarrow>
     's main_state option" where
  "main_loop ops sendto sess0 delay [] st = Some st"
| "main_loop ops sendto sess0 delay (ev # evs) st =
     (if running st then do {
        st \<leftarrow> main_round ops sendto sess0 delay ev st;
        main_loop ops sendto sess0 delay evs st
      } else Some st)"

end
