(* ===== verification/Session_Map.thy ===== *)
theory Session_Map
  imports Bfd_Event
begin

text \<open>
  The session table over a store that behaves as a map: \<open>map_ops\<close> instantiates the store's two calls
  with a look-up and an update of a map from key bytes to value bytes, and keeps the list of all
  writes. It is what the table needs of the database; \<open>Database_Map\<close> shows that \<open>store\<close> and \<open>search\<close> are
  such a map for look-ups and new keys (a present key is stored a second time). \<open>sess_table\<close> says
  that a map holds the summary and the 32 key lists for given groups of peers. The lemmas give the exact effect of the table's
  operations on such a map: what is found, the one write of a known peer, the three of a new one,
  and the packets of one iteration over all sessions.
\<close>

section \<open>A map as the store\<close>

record map_db =
  contents :: "bytes \<rightharpoonup> bytes"
  writes :: "(bytes \<times> bytes) list"

definition map_put :: "bytes \<Rightarrow> bytes \<Rightarrow> map_db \<Rightarrow> map_db" where
  "map_put k v s = \<lparr>contents = (contents s)(k \<mapsto> v), writes = writes s @ [(k, v)]\<rparr>"

definition map_ops :: "map_db kv_ops" where
  "map_ops = \<lparr>kv_store = (\<lambda>k v s. Some (RET_OK, map_put k v s)),
     kv_search = (\<lambda>held k s. Some (if held then None else contents s k, s))\<rparr>"

lemma map_ops_simps [simp]:
  "kv_store map_ops k v s = Some (RET_OK, map_put k v s)"
  "kv_search map_ops held k s = Some (if held then None else contents s k, s)"
  by (simp_all add: map_ops_def)

lemma map_put_simps [simp]:
  "contents (map_put k v s) = (contents s)(k \<mapsto> v)"
  "writes (map_put k v s) = writes s @ [(k, v)]"
  by (simp_all add: map_put_def)

section \<open>The keys of the table\<close>

abbreviation manage_key :: bytes where
  "manage_key \<equiv> to_le 4 SESSION_KEYS_MANGE"

abbreviation group_key :: "nat \<Rightarrow> bytes" where
  "group_key n \<equiv> to_le 4 (SESSION_KEYS_BASE + of_nat n)"

lemma to_le_4_inj: "to_le 4 x = to_le 4 y \<longleftrightarrow> x = (y :: u32)"
proof -
  have "of_le (to_le 4 z) = z" for z :: u32 by simp
  then show ?thesis by metis
qed

lemma unat_group: "n < 32 \<Longrightarrow> unat (SESSION_KEYS_BASE + of_nat n :: u32) = 2000 + n"
  using unat_of_nat_small [of "2000 + n", where 'a = 32] by simp

lemma group_key_inj: "n < 32 \<Longrightarrow> m < 32 \<Longrightarrow> group_key n = group_key m \<longleftrightarrow> n = m"
  unfolding to_le_4_inj using unat_group by (metis add_left_cancel)

lemma group_key_manage: "n < 32 \<Longrightarrow> group_key n \<noteq> manage_key"
proof -
  assume "n < 32"
  then have "unat (SESSION_KEYS_BASE + of_nat n :: u32) \<noteq> unat SESSION_KEYS_MANGE"
    using unat_group [of n] by simp
  then show ?thesis unfolding to_le_4_inj by metis
qed

lemma sess_key_keys: "encode_sess_key k \<noteq> to_le 4 (x :: u32)"
  by (rule notI, drule arg_cong [of _ _ length]) simp

lemma sess_group_bound: "sess_group k < 32"
  by (simp add: sess_group_def)

section \<open>The tables for groups of peers\<close>

text \<open>
  The map \<open>M\<close> holds the tables of the peers \<open>G n\<close>, \<open>n < 32\<close>: the summary has a bit and a count for each
  group, and each key list starts with the keys of its group.
\<close>

definition sess_table :: "(bytes \<rightharpoonup> bytes) \<Rightarrow> (nat \<Rightarrow> bfd_sess_key list) \<Rightarrow> bool" where
  "sess_table M G \<longleftrightarrow>
     (\<exists>bits. M manage_key = Some (encode_manage
          \<lparr>keys_bits = bits, keys_incnt = map (\<lambda>n. of_nat (length (G n))) [0..<SESSION_KEYS_MAX]\<rparr>) \<and>
        (\<forall>n<SESSION_KEYS_MAX. G n \<noteq> [] \<longrightarrow> bit bits n)) \<and>
     (\<forall>n<SESSION_KEYS_MAX. (\<forall>k\<in>set (G n). sess_group k = n) \<and>
        (\<exists>rest. length (G n @ rest) = SESSION_KEYS_LISTCNT \<and>
           M (group_key n) = Some (encode_keylist (G n @ rest))))"

lemma sess_tableE:
  assumes "sess_table M G"
  obtains bits rest where
    "M manage_key = Some (encode_manage
       \<lparr>keys_bits = bits, keys_incnt = map (\<lambda>n. of_nat (length (G n))) [0..<SESSION_KEYS_MAX]\<rparr>)"
    "\<forall>n<SESSION_KEYS_MAX. G n \<noteq> [] \<longrightarrow> bit bits n"
    "\<forall>n<SESSION_KEYS_MAX. length (G n) + length (rest n) = SESSION_KEYS_LISTCNT"
    "\<forall>n<SESSION_KEYS_MAX. M (group_key n) = Some (encode_keylist (G n @ rest n))"
proof -
  note result = that
  obtain bits where b: "M manage_key = Some (encode_manage
       \<lparr>keys_bits = bits, keys_incnt = map (\<lambda>n. of_nat (length (G n))) [0..<SESSION_KEYS_MAX]\<rparr>)"
    "\<forall>n<SESSION_KEYS_MAX. G n \<noteq> [] \<longrightarrow> bit bits n"
    using assms unfolding sess_table_def by blast
  have "\<forall>n. \<exists>rest. n < SESSION_KEYS_MAX \<longrightarrow> length (G n @ rest) = SESSION_KEYS_LISTCNT \<and>
      M (group_key n) = Some (encode_keylist (G n @ rest))"
    using assms unfolding sess_table_def by blast
  then obtain rest where "\<forall>n<SESSION_KEYS_MAX. length (G n @ rest n) = SESSION_KEYS_LISTCNT \<and>
      M (group_key n) = Some (encode_keylist (G n @ rest n))" by metis
  with result [OF b, of rest] show thesis by simp
qed

text \<open>A session's own entry is no part of the tables.\<close>

lemma sess_table_put [simp]: "sess_table (M(encode_sess_key k \<mapsto> v)) G \<longleftrightarrow> sess_table M G"
  using sess_key_keys [of k] by (simp add: sess_table_def not_sym [OF sess_key_keys])

section \<open>Finding\<close>

lemma find_session_map:
  "find_session map_ops c_addr c_addrlen s =
     Some (if c_addrlen = 0 then None
           else case contents s (encode_sess_key (sess_key c_addr)) of
               None \<Rightarrow> None
             | Some v \<Rightarrow> if length v = SIZEOF_SESS then Some (decode_sess v) else None, s)"
  by (simp add: find_session_def split: option.split)

lemma get_manage_map:
  assumes "contents s manage_key = Some (encode_manage mng)" "length (keys_incnt mng) = SESSION_KEYS_MAX"
  shows "get_sess_manage map_ops s = Some (Some mng, s)"
  using assms by (simp add: get_sess_manage_def length_encode_manage decode_encode_manage)

lemma get_keylist_map:
  assumes "contents s (to_le 4 key) = Some (encode_keylist ks)" "length ks = SESSION_KEYS_LISTCNT"
  shows "get_sess_manage_keylist map_ops key s = Some (Some ks, s)"
  using assms by (simp add: get_sess_manage_keylist_def length_encode_keylist decode_encode_keylist)

section \<open>Inserting\<close>

definition with_peer :: "bfd_sess_key \<Rightarrow> (nat \<Rightarrow> bfd_sess_key list) \<Rightarrow> nat \<Rightarrow> bfd_sess_key list" where
  "with_peer k G = G(sess_group k := G (sess_group k) @ [k])"

lemma insert_session_reads:
  assumes "sess_table (contents s) G" "c_addrlen \<noteq> 0" and k: "k = sess_key c_addr"
    and "length (G (sess_group k)) < SESSION_KEYS_LISTCNT"
  obtains bits rest where
    "insert_session map_ops psess c_addr c_addrlen s =
       (if k \<in> set (G (sess_group k)) then Some (RET_OK, map_put (encode_sess_key k) (encode_sess psess) s)
        else Some (RET_OK,
          map_put (group_key (sess_group k)) (encode_keylist (with_peer k G (sess_group k) @ rest))
            (map_put manage_key (encode_manage
               \<lparr>keys_bits = bits OR push_bit (sess_group k) 1,
                keys_incnt = map (\<lambda>n. of_nat (length (with_peer k G n))) [0..<SESSION_KEYS_MAX]\<rparr>)
              (map_put (encode_sess_key k) (encode_sess psess) s))))"
    "\<forall>n<SESSION_KEYS_MAX. G n \<noteq> [] \<longrightarrow> bit bits n"
    "length (with_peer k G (sess_group k) @ rest) = SESSION_KEYS_LISTCNT"
proof -
  note result = that
  let ?g = "sess_group k"
  obtain bits rest where t: "contents s manage_key = Some (encode_manage
       \<lparr>keys_bits = bits, keys_incnt = map (\<lambda>n. of_nat (length (G n))) [0..<SESSION_KEYS_MAX]\<rparr>)"
    "\<forall>n<SESSION_KEYS_MAX. G n \<noteq> [] \<longrightarrow> bit bits n"
    "\<forall>n<SESSION_KEYS_MAX. length (G n) + length (rest n) = SESSION_KEYS_LISTCNT"
    "\<forall>n<SESSION_KEYS_MAX. contents s (group_key n) = Some (encode_keylist (G n @ rest n))"
    by (rule sess_tableE [OF assms(1)])
  let ?mng = "\<lparr>keys_bits = bits, keys_incnt = map (\<lambda>n. of_nat (length (G n)) :: u32) [0..<SESSION_KEYS_MAX]\<rparr>"
  note g = sess_group_bound [of k]
  obtain x xs where rest: "rest ?g = x # xs" using t(3) [rule_format, OF g] assms(4) by (cases "rest ?g") auto
  have m: "get_sess_manage map_ops s = Some (Some ?mng, s)" by (rule get_manage_map [OF t(1)]) simp
  have l: "get_sess_manage_keylist map_ops (SESSION_KEYS_BASE + of_nat ?g) s = Some (Some (G ?g @ rest ?g), s)"
    by (rule get_keylist_map [OF t(4) [rule_format, OF g]]) (use t(3) [rule_format, OF g] in simp)
  have cnt: "unat (keys_incnt ?mng ! ?g) = length (G ?g)"
    using g assms(4) by (simp add: unat_of_nat_small)
  have inc: "(keys_incnt ?mng)[?g := keys_incnt ?mng ! ?g + 1] =
      map (\<lambda>n. of_nat (length (with_peer k G n))) [0..<SESSION_KEYS_MAX]"
    using g by (intro nth_equalityI) (auto simp: with_peer_def nth_list_update)
  have upd: "(G ?g @ rest ?g)[length (G ?g) := k] = with_peer k G ?g @ xs"
    by (simp add: rest with_peer_def)
  have tk: "set (take (min SESSION_KEYS_LISTCNT (length (G ?g))) (G ?g @ rest ?g)) = set (G ?g)"
    using assms(4) by simp
  have "insert_session map_ops psess c_addr c_addrlen s =
       (if k \<in> set (G ?g) then Some (RET_OK, map_put (encode_sess_key k) (encode_sess psess) s)
        else Some (RET_OK,
          map_put (group_key ?g) (encode_keylist (with_peer k G ?g @ xs))
            (map_put manage_key (encode_manage
               \<lparr>keys_bits = bits OR push_bit ?g 1,
                keys_incnt = map (\<lambda>n. of_nat (length (with_peer k G n))) [0..<SESSION_KEYS_MAX]\<rparr>)
              (map_put (encode_sess_key k) (encode_sess psess) s))))"
    unfolding insert_session_def Let_def k [symmetric]
    using assms(2,4) by (simp only: m l cnt inc upd tk if_False bind.bind_lunit option.case
        prod.case map_ops_simps) simp
  moreover have "length (with_peer k G ?g @ xs) = SESSION_KEYS_LISTCNT"
    using t(3) [rule_format, OF g] by (simp add: rest with_peer_def)
  ultimately show thesis using result t(2) by blast
qed

lemma insert_known_peer:
  assumes "sess_table (contents s) G" "c_addrlen \<noteq> 0"
    and "sess_key c_addr \<in> set (G (sess_group (sess_key c_addr)))"
    and "length (G (sess_group (sess_key c_addr))) < SESSION_KEYS_LISTCNT"
  shows "insert_session map_ops psess c_addr c_addrlen s =
    Some (RET_OK, map_put (encode_sess_key (sess_key c_addr)) (encode_sess psess) s)"
  by (rule insert_session_reads [OF assms(1,2) refl assms(4), of psess]) (simp add: assms(3))

text \<open>A full group refuses every session, also one that it has.\<close>

lemma insert_full_group:
  assumes "sess_table (contents s) G" "c_addrlen \<noteq> 0"
    and "length (G (sess_group (sess_key c_addr))) = SESSION_KEYS_LISTCNT"
  shows "insert_session map_ops psess c_addr c_addrlen s = Some (RET_NG, s)"
proof -
  let ?g = "sess_group (sess_key c_addr)"
  obtain bits rest where t: "contents s manage_key = Some (encode_manage
       \<lparr>keys_bits = bits, keys_incnt = map (\<lambda>n. of_nat (length (G n))) [0..<SESSION_KEYS_MAX]\<rparr>)"
    "\<forall>n<SESSION_KEYS_MAX. length (G n) + length (rest n) = SESSION_KEYS_LISTCNT"
    "\<forall>n<SESSION_KEYS_MAX. contents s (group_key n) = Some (encode_keylist (G n @ rest n))"
    by (rule sess_tableE [OF assms(1)])
  let ?mng = "\<lparr>keys_bits = bits, keys_incnt = map (\<lambda>n. of_nat (length (G n)) :: u32) [0..<SESSION_KEYS_MAX]\<rparr>"
  note g = sess_group_bound [of "sess_key c_addr"]
  have "get_sess_manage map_ops s = Some (Some ?mng, s)" by (rule get_manage_map [OF t(1)]) simp
  moreover have "get_sess_manage_keylist map_ops (SESSION_KEYS_BASE + of_nat ?g) s = Some (Some (G ?g @ rest ?g), s)"
    by (rule get_keylist_map) (use t(2,3) g in auto)
  moreover have "unat (keys_incnt ?mng ! ?g) = SESSION_KEYS_LISTCNT"
    using g assms(3) by (simp add: unat_of_nat_small)
  ultimately show ?thesis using assms(2) by (simp add: insert_session_def Let_def)
qed

lemma group_length:
  assumes "sess_table M G" "n < SESSION_KEYS_MAX"
  shows "length (G n) \<le> SESSION_KEYS_LISTCNT"
  using assms unfolding sess_table_def by (metis length_append le_add1)

lemma bit_with_peer:
  assumes "n < SESSION_KEYS_MAX" "bit bits n \<or> n = g"
  shows "bit (bits OR push_bit g 1 :: u32) n"
  using assms by (auto simp: bit_or_iff bit_push_bit_iff bit_1_iff simp del: push_bit_of_1)

text \<open>A new peer: its session, the summary and the key list of its group are written.\<close>

lemma insert_new_peer:
  fixes c_addr :: sockaddr_in
  defines "k \<equiv> sess_key c_addr"
  assumes t: "sess_table (contents s) G" "c_addrlen \<noteq> 0"
    and new: "k \<notin> set (G (sess_group k))" "length (G (sess_group k)) < SESSION_KEYS_LISTCNT"
  obtains s' where "insert_session map_ops psess c_addr c_addrlen s = Some (RET_OK, s')"
    "contents s' (encode_sess_key k) = Some (encode_sess psess)"
    "sess_table (contents s') (with_peer k G)"
    "\<And>j. j \<noteq> k \<Longrightarrow> contents s' (encode_sess_key j) = contents s (encode_sess_key j)"
    "map fst (writes s') = map fst (writes s) @ [encode_sess_key k, manage_key, group_key (sess_group k)]"
proof -
  note result = that
  let ?g = "sess_group k" and ?G = "with_peer k G"
  obtain bits rest where i: "insert_session map_ops psess c_addr c_addrlen s = Some (RET_OK,
          map_put (group_key ?g) (encode_keylist (?G ?g @ rest))
            (map_put manage_key (encode_manage
               \<lparr>keys_bits = bits OR push_bit ?g 1,
                keys_incnt = map (\<lambda>n. of_nat (length (?G n))) [0..<SESSION_KEYS_MAX]\<rparr>)
              (map_put (encode_sess_key k) (encode_sess psess) s)))" (is "_ = Some (_, ?s)")
    and b: "\<forall>n<SESSION_KEYS_MAX. G n \<noteq> [] \<longrightarrow> bit bits n" "length (?G ?g @ rest) = SESSION_KEYS_LISTCNT"
    by (rule insert_session_reads [OF t k_def [THEN meta_eq_to_obj_eq] new(2), of psess]) (simp add: new(1))
  note g = sess_group_bound [of k]
  have man: "contents ?s manage_key = Some (encode_manage
      \<lparr>keys_bits = bits OR push_bit ?g 1, keys_incnt = map (\<lambda>n. of_nat (length (?G n))) [0..<SESSION_KEYS_MAX]\<rparr>)"
    using not_sym [OF group_key_manage [OF g]] by simp
  have lists: "(\<forall>j\<in>set (?G n). sess_group j = n) \<and> (\<exists>rest. length (?G n @ rest) = SESSION_KEYS_LISTCNT \<and>
      contents ?s (group_key n) = Some (encode_keylist (?G n @ rest)))" if n: "n < SESSION_KEYS_MAX" for n
  proof (cases "n = ?g")
    case True
    then show ?thesis using t(1) g b(2) by (auto simp: with_peer_def sess_table_def)
  next
    case False
    then have "contents ?s (group_key n) = contents s (group_key n)"
      using group_key_inj [OF n g] group_key_manage [OF n] not_sym [OF sess_key_keys] by simp
    with False t(1) n show ?thesis unfolding sess_table_def with_peer_def by simp
  qed
  have bits: "bit (bits OR push_bit ?g 1) n" if "n < SESSION_KEYS_MAX" "?G n \<noteq> []" for n
    using that b(1) by (intro bit_with_peer) (auto simp: with_peer_def split: if_splits)
  have "sess_table (contents ?s) ?G"
    unfolding sess_table_def using man bits lists by blast
  then show thesis
    by (rule result [OF i, rotated])
       (auto simp: sess_key_keys not_sym [OF sess_key_keys] encode_sess_key_inj)
qed

text \<open>The table that \<open>initialize_bfd_session_table\<close> leaves on an empty store has no peers.\<close>

lemma init_keylists_map:
  assumes "distinct ns" "\<forall>n\<in>set ns. n < SESSION_KEYS_MAX"
  shows "\<exists>s'. init_keylists map_ops ns s = Some (0, s') \<and>
    (\<forall>n\<in>set ns. contents s' (group_key n) = Some (encode_keylist zero_keylist)) \<and>
    (\<forall>k. k \<notin> group_key ` set ns \<longrightarrow> contents s' k = contents s k)"
  using assms
proof (induction ns arbitrary: s)
  case (Cons n ns)
  let ?s = "map_put (group_key n) (encode_keylist zero_keylist) s"
  obtain s' where s': "init_keylists map_ops ns ?s = Some (0, s')"
    "\<forall>n\<in>set ns. contents s' (group_key n) = Some (encode_keylist zero_keylist)"
    "\<forall>k. k \<notin> group_key ` set ns \<longrightarrow> contents s' k = contents ?s k"
    using Cons.IH [of ?s] Cons.prems by auto
  have "group_key n \<notin> group_key ` set ns" using Cons.prems group_key_inj by fastforce
  then show ?case using s' by (auto simp: map_put_def)
qed simp

lemma initialize_map:
  obtains s' where "initialize_bfd_session_table map_ops s = Some (0, s')" "sess_table (contents s') (\<lambda>_. [])"
    "\<forall>k. contents s' (encode_sess_key k) = contents s (encode_sess_key k)"
proof -
  note result = that
  let ?s = "map_put manage_key (encode_manage zero_manage) s"
  obtain s' where s': "init_keylists map_ops [0..<SESSION_KEYS_MAX] ?s = Some (0, s')"
    "\<forall>n\<in>set [0..<SESSION_KEYS_MAX]. contents s' (group_key n) = Some (encode_keylist zero_keylist)"
    "\<forall>k. k \<notin> group_key ` set [0..<SESSION_KEYS_MAX] \<longrightarrow> contents s' k = contents ?s k"
    using init_keylists_map [of "[0..<SESSION_KEYS_MAX]" ?s] by auto
  have "manage_key \<notin> group_key ` set [0..<SESSION_KEYS_MAX]" using group_key_manage by fastforce
  then have "contents s' manage_key = Some (encode_manage zero_manage)" using s'(3) by simp
  moreover have "zero_manage = \<lparr>keys_bits = 0, keys_incnt = map (\<lambda>n. of_nat (length [])) [0..<SESSION_KEYS_MAX]\<rparr>"
    by (simp add: zero_manage_def map_replicate_const)
  ultimately have "\<exists>bits. contents s' manage_key = Some (encode_manage
      \<lparr>keys_bits = bits, keys_incnt = map (\<lambda>n. of_nat (length [])) [0..<SESSION_KEYS_MAX]\<rparr>)" by metis
  moreover have "\<exists>rest. length ([] @ rest) = SESSION_KEYS_LISTCNT \<and>
      contents s' (group_key n) = Some (encode_keylist ([] @ rest))" if "n < SESSION_KEYS_MAX" for n
    using s'(2) that by (intro exI [of _ zero_keylist]) (simp add: zero_keylist_def)
  ultimately have "sess_table (contents s') (\<lambda>_. [])"
    unfolding sess_table_def by simp
  moreover have "contents s' (encode_sess_key k) = contents s (encode_sess_key k)" for k
  proof -
    have "encode_sess_key k \<notin> group_key ` set [0..<SESSION_KEYS_MAX]" using sess_key_keys [of k] by blast
    then show ?thesis using s'(3) sess_key_keys [of k] by simp
  qed
  ultimately show thesis using result s'(1) by (simp add: initialize_bfd_session_table_def)
qed

section \<open>Iterating\<close>

text \<open>The packets of a session: one, unless \<open>iterate_on_session\<close> declines.\<close>

definition session_sends :: "bfd_sess \<Rightarrow> sends" where
  "session_sends sess =
     (if attached sess = BFD_OFF \<or>
         (remote_discr sess = 0 \<or> local_discr sess = 0) \<and> state (session_packet sess) \<noteq> BFDSTATE_DOWN
      then [] else [(client_addr sess, encode_bfd (session_packet sess))])"

text \<open>What goes out of a list of packets: up to and with the first one for which \<open>sendto\<close> fails.\<close>

fun until_failure :: "(sockaddr_in \<Rightarrow> bytes \<Rightarrow> int) \<Rightarrow> sends \<Rightarrow> sends" where
  "until_failure sendto [] = []"
| "until_failure sendto ((to, pkt) # w) =
     (to, pkt) # (if sendto to pkt > 0 then until_failure sendto w else [])"

abbreviation all_sent :: "(sockaddr_in \<Rightarrow> bytes \<Rightarrow> int) \<Rightarrow> sends \<Rightarrow> bool" where
  "all_sent sendto w \<equiv> \<forall>(to, pkt)\<in>set w. sendto to pkt > 0"

lemma until_failure_append:
  "until_failure sendto (v @ w) =
     until_failure sendto v @ (if all_sent sendto v then until_failure sendto w else [])"
  by (induction sendto v rule: until_failure.induct) auto

lemma until_failure_all: "all_sent sendto w \<Longrightarrow> until_failure sendto w = w"
  by (induction sendto w rule: until_failure.induct) auto

lemma iterate_on_session_eq:
  "iterate_on_session sendto sess w =
     (if all_sent sendto (session_sends sess) then 0 else -1, w @ session_sends sess)"
  by (auto simp: iterate_on_session_def session_sends_def session_packet_def bfd_zero_def Let_def)

definition sess_at :: "(bytes \<rightharpoonup> bytes) \<Rightarrow> bfd_sess_key \<Rightarrow> bfd_sess" where
  "sess_at M k = decode_sess (the (M (encode_sess_key k)))"

abbreviation key_sends :: "(bytes \<rightharpoonup> bytes) \<Rightarrow> bfd_sess_key list \<Rightarrow> sends" where
  "key_sends M ks \<equiv> concat (map (\<lambda>k. session_sends (sess_at M k)) ks)"

definition has_session :: "(bytes \<rightharpoonup> bytes) \<Rightarrow> bfd_sess_key \<Rightarrow> bool" where
  "has_session M k \<longleftrightarrow> (\<exists>v. M (encode_sess_key k) = Some v \<and> length v = SIZEOF_SESS)"

text \<open>After a failure \<open>resp_sess\<close> is not null, every further \<open>search\<close> is refused and nothing is sent.\<close>

lemma iterate_keys_stuck: "iterate_keys map_ops itr (map Some ks) True s w = Some (True, s, w)"
  by (induction ks) simp_all

lemma iterate_keys_map:
  assumes "\<forall>k\<in>set ks. has_session (contents s) k"
  shows "iterate_keys map_ops (iterate_on_session sendto) (map Some ks) False s w =
    Some (\<not> all_sent sendto (key_sends (contents s) ks), s,
      w @ until_failure sendto (key_sends (contents s) ks))"
  using assms
proof (induction ks arbitrary: w)
  case (Cons k ks)
  obtain v where v: "contents s (encode_sess_key k) = Some v" "length v = SIZEOF_SESS"
    using Cons.prems by (auto simp: has_session_def)
  then have at: "sess_at (contents s) k = decode_sess v" by (simp add: sess_at_def)
  show ?case
  proof (cases "all_sent sendto (session_sends (decode_sess v))")
    case True
    then show ?thesis using v Cons.IH [of "w @ session_sends (decode_sess v)"] Cons.prems
      by (simp add: iterate_on_session_eq at until_failure_append until_failure_all ball_Un)
  next
    case False
    then show ?thesis using v
      by (auto simp: iterate_on_session_eq at until_failure_append) 
         (auto simp: session_sends_def split: if_splits)
  qed
qed simp

lemma keys_upto_prefix: "keys_upto (ks @ rest) (length ks) = map Some ks"
  by (auto simp: keys_upto_def nth_append intro!: nth_equalityI)

lemma iterate_groups_map:
  assumes t: "sess_table (contents s) G"
    and man: "contents s manage_key = Some (encode_manage mng)" "length (keys_incnt mng) = SESSION_KEYS_MAX"
    and sess: "\<forall>n<SESSION_KEYS_MAX. \<forall>k\<in>set (G n). has_session (contents s) k"
    and ns: "\<forall>n\<in>set ns. n < SESSION_KEYS_MAX"
  shows "iterate_groups map_ops (iterate_on_session sendto) mng ns rs s w =
    Some (s, w @ (if rs then [] else until_failure sendto (key_sends (contents s) (concat (map G ns)))))"
  using ns
proof (induction ns arbitrary: rs w)
  case (Cons n ns)
  obtain bits rest where m: "contents s manage_key = Some (encode_manage
       \<lparr>keys_bits = bits, keys_incnt = map (\<lambda>n. of_nat (length (G n))) [0..<SESSION_KEYS_MAX]\<rparr>)"
    and b: "\<forall>n<SESSION_KEYS_MAX. G n \<noteq> [] \<longrightarrow> bit bits n"
    and l: "\<forall>n<SESSION_KEYS_MAX. length (G n) + length (rest n) = SESSION_KEYS_LISTCNT"
    and k: "\<forall>n<SESSION_KEYS_MAX. contents s (group_key n) = Some (encode_keylist (G n @ rest n))"
    by (rule sess_tableE [OF t])
  have mng: "mng = \<lparr>keys_bits = bits, keys_incnt = map (\<lambda>n. of_nat (length (G n))) [0..<SESSION_KEYS_MAX]\<rparr>"
  proof -
    have "decode_manage (encode_manage mng) = mng" by (rule decode_encode_manage [OF man(2)])
    then show ?thesis using m man(1) by (simp add: decode_encode_manage)
  qed
  have n: "n < SESSION_KEYS_MAX" using Cons.prems by simp
  have cnt: "unat (keys_incnt mng ! n) = length (G n)"
  proof -
    have "length (G n) \<le> SESSION_KEYS_LISTCNT" using l n by (metis le_add1)
    then have "unat (of_nat (length (G n)) :: u32) = length (G n)" by (intro unat_of_nat_small) simp
    then show ?thesis using n by (simp add: mng)
  qed
  show ?case
  proof (cases "G n = []")
    case True
    then have "keys_incnt mng ! n = 0" using cnt by (simp add: unat_eq_0)
    with True Cons show ?thesis by simp
  next
    case False
    then have on: "bit (keys_bits mng) n \<and> keys_incnt mng ! n \<noteq> 0" using b n cnt by (auto simp: mng)
    have "get_sess_manage_keylist map_ops (SESSION_KEYS_BASE + of_nat n) s = Some (Some (G n @ rest n), s)"
      by (rule get_keylist_map) (use l k n in auto)
    then show ?thesis using on Cons n sess
      by (cases rs) (simp_all add: cnt keys_upto_prefix iterate_keys_stuck iterate_keys_map until_failure_append)
  qed
qed simp

text \<open>One iteration over the table, group by group.\<close>

lemma iterate_all_map:
  assumes "sess_table (contents s) G" "\<forall>n<SESSION_KEYS_MAX. \<forall>k\<in>set (G n). has_session (contents s) k"
  shows "iterate_all_session map_ops (iterate_on_session sendto) s w =
    Some (s, w @ until_failure sendto (key_sends (contents s) (concat (map G [0..<SESSION_KEYS_MAX]))))"
proof -
  obtain bits where m: "contents s manage_key = Some (encode_manage
       \<lparr>keys_bits = bits, keys_incnt = map (\<lambda>n. of_nat (length (G n))) [0..<SESSION_KEYS_MAX]\<rparr>)"
    by (rule sess_tableE [OF assms(1)])
  have "get_sess_manage map_ops s = Some (Some
      \<lparr>keys_bits = bits, keys_incnt = map (\<lambda>n. of_nat (length (G n))) [0..<SESSION_KEYS_MAX]\<rparr>, s)"
    by (rule get_manage_map [OF m]) simp
  then show ?thesis
    using iterate_groups_map [OF assms(1) m _ assms(2), of "[0..<SESSION_KEYS_MAX]" sendto False w]
    by (simp add: iterate_all_session_def)
qed

end
