(* ===== verification/Bfd_Protocol.thy ===== *)
theory Bfd_Protocol
  imports Bfd_Packet "HOL-Library.Monad_Syntax"
begin

text \<open>
  The abstract side of the protocol: the four session states, the transition table of RFC 5880
  section 6.8.6, and two ways in which two endpoints are joined.

  A \<open>link\<close> may lose, repeat and reorder packets, and an endpoint may put its packet on it at any
  time, whether or not the program would send just then: that is more than the programs do, which
  is what a safety property needs. The locale \<open>bfd_endpoint\<close> has the laws of an endpoint that make
  the link safe: no endpoint is up before both have heard the other.

  A \<open>sent_round\<close> is lossless and carries only what the programs send: an endpoint is given by the
  bytes it really sends at a clock reading, after all its guards, and by what it does with received
  bytes, its checks included. The locale \<open>bfd_peer\<close> has the laws that bring two such endpoints up.
  The C daemon and the C++ service interpret both.
\<close>

datatype bfd_state = AdminDown | Down | Init | Up

definition to_state :: "'a::len word \<Rightarrow> bfd_state" where
  "to_state x = (if x = 0 then AdminDown else if x = 1 then Down else if x = 2 then Init else Up)"

lemma word2_cases:
  fixes x :: "2 word"
  obtains "x = 0" | "x = 1" | "x = 2" | "x = 3"
proof -
  have "unat x < 4" using unsigned_less [of x] by simp
  then have "unat x = 0 \<or> unat x = 1 \<or> unat x = 2 \<or> unat x = 3" by arith
  then have "x = 0 \<or> x = 1 \<or> x = 2 \<or> x = 3"
    by (auto simp: unat_eq_0 dest!: arg_cong [where f = "word_of_nat :: nat \<Rightarrow> 2 word"])
  then show thesis using that by auto
qed

lemma to_state_ucast2 [simp]: "to_state (ucast (x :: 2 word) :: u32) = to_state x"
  by (cases x rule: word2_cases) (simp_all add: to_state_def)

lemma ucast2_eqs [simp]:
  "(ucast (x :: 2 word) :: u32) = 0 \<longleftrightarrow> x = 0"
  "(ucast (x :: 2 word) :: u32) = 1 \<longleftrightarrow> x = 1"
  "(ucast (x :: 2 word) :: u32) = 2 \<longleftrightarrow> x = 2"
  "(ucast (x :: 2 word) :: u32) = 3 \<longleftrightarrow> x = 3"
  by (cases x rule: word2_cases; simp)+

lemma to_state_eqs [simp]:
  "to_state x = AdminDown \<longleftrightarrow> x = 0"
  "to_state x = Down \<longleftrightarrow> x = 1 \<and> x \<noteq> 0"
  "to_state x = Init \<longleftrightarrow> x = 2 \<and> x \<noteq> 0 \<and> x \<noteq> 1"
  by (auto simp: to_state_def)

lemma to_state_nums [simp]:
  "to_state (0 :: u32) = AdminDown" "to_state (1 :: u32) = Down" "to_state (2 :: u32) = Init"
  "to_state (3 :: u32) = Up"
  "to_state (0 :: 2 word) = AdminDown" "to_state (1 :: 2 word) = Down"
  "to_state (2 :: 2 word) = Init" "to_state (3 :: 2 word) = Up"
  by (simp_all add: to_state_def)

text \<open>The table of RFC 5880, section 6.8.6: local state, received state, new local state.\<close>

fun rfc_next :: "bfd_state \<Rightarrow> bfd_state \<Rightarrow> bfd_state" where
  "rfc_next AdminDown _ = AdminDown"
| "rfc_next _ AdminDown = Down"
| "rfc_next Down Down = Init"
| "rfc_next Down Init = Up"
| "rfc_next Down Up = Down"
| "rfc_next Init Down = Init"
| "rfc_next Init _ = Up"
| "rfc_next Up Down = Down"
| "rfc_next Up _ = Up"

section \<open>A link between two endpoints\<close>

text \<open>
  \<open>to_a\<close> and \<open>to_b\<close> are the packets ever sent in each direction: a packet stays there after it is
  received (it may be repeated or overtaken) and need never be received (it may be lost). The
  flags record that an endpoint has received a packet of the other.
\<close>

record 'p link =
  peer_a :: 'p
  peer_b :: 'p
  to_a :: "bfd set"
  to_b :: "bfd set"
  heard_a :: bool
  heard_b :: bool

inductive link_step ::
  "(u64 \<Rightarrow> bfd \<Rightarrow> 'p \<Rightarrow> 'p) \<Rightarrow> ('p \<Rightarrow> bfd) \<Rightarrow> 'p link \<Rightarrow> 'p link \<Rightarrow> bool"
  for recv :: "u64 \<Rightarrow> bfd \<Rightarrow> 'p \<Rightarrow> 'p" and mkpkt :: "'p \<Rightarrow> bfd"
where
  send_a: "link_step recv mkpkt l (l\<lparr>to_b := insert (mkpkt (peer_a l)) (to_b l)\<rparr>)"
| send_b: "link_step recv mkpkt l (l\<lparr>to_a := insert (mkpkt (peer_b l)) (to_a l)\<rparr>)"
| recv_a: "p \<in> to_a l \<Longrightarrow>
    link_step recv mkpkt l (l\<lparr>peer_a := recv now p (peer_a l), heard_a := True\<rparr>)"
| recv_b: "p \<in> to_b l \<Longrightarrow>
    link_step recv mkpkt l (l\<lparr>peer_b := recv now p (peer_b l), heard_b := True\<rparr>)"

inductive_cases link_stepE: "link_step recv mkpkt l l'"

inductive link_reachable ::
  "(u64 \<Rightarrow> bfd \<Rightarrow> 'p \<Rightarrow> 'p) \<Rightarrow> ('p \<Rightarrow> bfd) \<Rightarrow> 'p link \<Rightarrow> 'p link \<Rightarrow> bool"
  for recv :: "u64 \<Rightarrow> bfd \<Rightarrow> 'p \<Rightarrow> 'p" and mkpkt :: "'p \<Rightarrow> bfd" and l0 :: "'p link"
where
  start: "link_reachable recv mkpkt l0 l0"
| step: "link_reachable recv mkpkt l0 l \<Longrightarrow> link_step recv mkpkt l l' \<Longrightarrow>
    link_reachable recv mkpkt l0 l'"

text \<open>A link on which nothing has happened yet.\<close>

definition fresh_link :: "'p \<Rightarrow> 'p \<Rightarrow> 'p link" where
  "fresh_link a b =
     \<lparr>peer_a = a, peer_b = b, to_a = {}, to_b = {}, heard_a = False, heard_b = False\<rparr>"

text \<open>One exchange without loss: \<open>a\<close> sends to \<open>b\<close>, then \<open>b\<close> to \<open>a\<close>.\<close>

definition exchange ::
  "(u64 \<Rightarrow> bfd \<Rightarrow> 'p \<Rightarrow> 'p) \<Rightarrow> ('p \<Rightarrow> bfd) \<Rightarrow> u64 \<Rightarrow> 'p \<times> 'p \<Rightarrow> 'p \<times> 'p" where
  "exchange recv mkpkt now ab =
     (let b = recv now (mkpkt (fst ab)) (snd ab) in (recv now (mkpkt b) (fst ab), b))"

text \<open>An exchange is a run of the link: send, receive, send back, receive.\<close>

lemma exchange_reachable:
  "\<exists>l. link_reachable recv mkpkt (fresh_link a b) l \<and>
     (peer_a l, peer_b l) = exchange recv mkpkt now (a, b)"
proof -
  define l0 where "l0 = fresh_link a b"
  define l1 where "l1 = l0\<lparr>to_b := insert (mkpkt (peer_a l0)) (to_b l0)\<rparr>"
  define l2 where "l2 = l1\<lparr>peer_b := recv now (mkpkt a) (peer_b l1), heard_b := True\<rparr>"
  define l3 where "l3 = l2\<lparr>to_a := insert (mkpkt (peer_b l2)) (to_a l2)\<rparr>"
  define l4 where "l4 = l3\<lparr>peer_a := recv now (mkpkt (peer_b l2)) (peer_a l3), heard_a := True\<rparr>"
  note defs = l0_def l1_def l2_def l3_def l4_def
  have "link_step recv mkpkt l0 l1" by (simp add: l1_def link_step.send_a)
  moreover have "link_step recv mkpkt l1 l2"
    unfolding l2_def by (rule link_step.recv_b) (simp add: l1_def l0_def fresh_link_def)
  moreover have "link_step recv mkpkt l2 l3" by (simp add: l3_def link_step.send_b)
  moreover have "link_step recv mkpkt l3 l4"
    unfolding l4_def by (rule link_step.recv_a) (simp add: l3_def)
  ultimately have "link_reachable recv mkpkt l0 l4"
    by (meson link_reachable.start link_reachable.step)
  moreover have "(peer_a l4, peer_b l4) = exchange recv mkpkt now (a, b)"
    by (simp add: defs exchange_def fresh_link_def Let_def)
  ultimately show ?thesis unfolding l0_def by blast
qed

section \<open>Laws of an endpoint\<close>

locale bfd_endpoint =
  fixes recv :: "u64 \<Rightarrow> bfd \<Rightarrow> 'p \<Rightarrow> 'p"
    and mkpkt :: "'p \<Rightarrow> bfd"
    and lstate :: "'p \<Rightarrow> bfd_state"
  assumes pkt_state:
      "to_state (state (mkpkt p)) \<in> {Init, Up} \<Longrightarrow> lstate p \<in> {Init, Up}"
    and up_step:
      "lstate (recv now b p) = Up \<Longrightarrow> lstate p = Up \<or> to_state (state b) \<in> {Init, Up}"
begin

definition link_inv :: "'p link \<Rightarrow> bool" where
  "link_inv l \<longleftrightarrow>
     (lstate (peer_a l) \<in> {Init, Up} \<longrightarrow> heard_a l) \<and>
     (lstate (peer_b l) \<in> {Init, Up} \<longrightarrow> heard_b l) \<and>
     (lstate (peer_a l) = Up \<longrightarrow> heard_b l) \<and>
     (lstate (peer_b l) = Up \<longrightarrow> heard_a l) \<and>
     (\<forall>p\<in>to_b l. to_state (state p) \<in> {Init, Up} \<longrightarrow> heard_a l) \<and>
     (\<forall>p\<in>to_a l. to_state (state p) \<in> {Init, Up} \<longrightarrow> heard_b l)"

lemma link_step_inv: "link_step recv mkpkt l l' \<Longrightarrow> link_inv l \<Longrightarrow> link_inv l'"
proof (induction rule: link_step.induct)
  case (send_a l)
  then show ?case using pkt_state [of "peer_a l"] by (auto simp: link_inv_def)
next
  case (send_b l)
  then show ?case using pkt_state [of "peer_b l"] by (auto simp: link_inv_def)
next
  case (recv_a p l now)
  then show ?case using up_step [of now p "peer_a l"] by (auto simp: link_inv_def)
next
  case (recv_b p l now)
  then show ?case using up_step [of now p "peer_b l"] by (auto simp: link_inv_def)
qed

lemma fresh_link_inv:
  "lstate a \<in> {AdminDown, Down} \<Longrightarrow> lstate b \<in> {AdminDown, Down} \<Longrightarrow> link_inv (fresh_link a b)"
  by (auto simp: link_inv_def fresh_link_def)

lemma reachable_inv:
  "link_reachable recv mkpkt l0 l \<Longrightarrow> link_inv l0 \<Longrightarrow> link_inv l"
  by (induction rule: link_reachable.induct) (auto intro: link_step_inv)

lemma up_is_bidirectional:
  assumes "link_reachable recv mkpkt (fresh_link a b) l"
    and "lstate a \<in> {AdminDown, Down}" and "lstate b \<in> {AdminDown, Down}"
    and "lstate (peer_a l) = Up \<or> lstate (peer_b l) = Up"
  shows "heard_a l \<and> heard_b l"
  using reachable_inv [OF assms(1) fresh_link_inv [OF assms(2,3)]] assms(4)
  by (auto simp: link_inv_def)

end

text \<open>
  An endpoint whose packets carry its state and that follows the table. The state an endpoint in
  \<open>Init\<close> takes on a received \<open>Down\<close> is left open, because the two implementations differ there.
\<close>

locale bfd_fsm = bfd_endpoint +
  fixes wf :: "'a \<Rightarrow> bool"
  assumes wf_recv: "wf p \<Longrightarrow> wf (recv now b p)"
    and wf_pkt: "wf p \<Longrightarrow> to_state (state (mkpkt p)) = lstate p"
    and wf_not_admin: "wf p \<Longrightarrow> lstate p \<noteq> AdminDown"
    and init_down: "wf p \<Longrightarrow> lstate p = Init \<Longrightarrow> to_state (state b) = Down \<Longrightarrow>
      lstate (recv now b p) \<in> {Init, Down}"
    and table: "wf p \<Longrightarrow> \<not> (lstate p = Init \<and> to_state (state b) = Down) \<Longrightarrow>
      lstate (recv now b p) = rfc_next (lstate p) (to_state (state b))"
begin

abbreviation states :: "'a \<times> 'a \<Rightarrow> bfd_state \<times> bfd_state" where
  "states ab \<equiv> (lstate (fst ab), lstate (snd ab))"

abbreviation exch :: "u64 \<Rightarrow> 'a \<times> 'a \<Rightarrow> 'a \<times> 'a" where
  "exch now ab \<equiv> exchange recv mkpkt now ab"

lemma wf_exch: "wf (fst ab) \<Longrightarrow> wf (snd ab) \<Longrightarrow> wf (fst (exch now ab)) \<and> wf (snd (exch now ab))"
  by (simp add: exchange_def Let_def wf_recv)

lemma recv_table:
  assumes "wf p" "wf q"
  shows "lstate (recv now (mkpkt q) p) = rfc_next (lstate p) (lstate q) \<or>
         (lstate p = Init \<and> lstate q = Down \<and> lstate (recv now (mkpkt q) p) = Down)"
proof (cases "lstate p = Init \<and> lstate q = Down")
  case True
  with assms init_down [of p "mkpkt q" now] show ?thesis by (auto simp: wf_pkt)
next
  case False
  with assms table [of p "mkpkt q" now] show ?thesis by (auto simp: wf_pkt)
qed

text \<open>One exchange from each pair of states.\<close>

lemma exch_table:
  assumes wf: "wf (fst ab)" "wf (snd ab)"
  shows "states (exch now ab) \<in>
    (case states ab of
       (Down, Down) \<Rightarrow> {(Up, Init)} | (Down, Init) \<Rightarrow> {(Up, Init), (Init, Down)}
     | (Down, Up) \<Rightarrow> {(Init, Down)}
     | (Init, Down) \<Rightarrow> {(Up, Up)} | (Init, Init) \<Rightarrow> {(Up, Up)} | (Init, Up) \<Rightarrow> {(Up, Up)}
     | (Up, Down) \<Rightarrow> {(Down, Down)} | (Up, Init) \<Rightarrow> {(Up, Up)} | (Up, Up) \<Rightarrow> {(Up, Up)}
     | _ \<Rightarrow> {})"
  using wf_not_admin [OF wf(1)] wf_not_admin [OF wf(2)]
    recv_table [OF wf(2,1), of now]
    recv_table [OF wf(1) wf_recv [OF wf(2)], of now now "mkpkt (fst ab)"]
  by (cases "lstate (fst ab)"; cases "lstate (snd ab)")
     (auto simp: exchange_def Let_def)

end

section \<open>Rounds of the packets that are sent\<close>

text \<open>Bytes handed to the receiver one after the other; \<open>None\<close> when it does not go on.\<close>

fun deliver :: "(u64 \<Rightarrow> bytes \<Rightarrow> 'p \<Rightarrow> 'p option) \<Rightarrow> u64 \<Rightarrow> bytes list \<Rightarrow> 'p \<Rightarrow> 'p option" where
  "deliver receives t [] p = Some p"
| "deliver receives t (pkt # pkts) p = do { p \<leftarrow> receives t pkt p; deliver receives t pkts p }"

text \<open>
  One round at the clock readings \<open>(t1, t2, t3, t4)\<close>: \<open>a\<close> sends what it has to send at \<open>t1\<close>, \<open>b\<close> receives
  it at \<open>t2\<close> and sends at \<open>t3\<close>, and \<open>a\<close> receives that at \<open>t4\<close>. The readings of \<open>a\<close> and of \<open>b\<close> are those of
  their own clocks. An endpoint that sends nothing makes its half of the round empty.
\<close>

type_synonym round_times = "u64 \<times> u64 \<times> u64 \<times> u64"

definition sent_round ::
  "(u64 \<Rightarrow> 'p \<Rightarrow> bytes list) \<Rightarrow> (u64 \<Rightarrow> bytes \<Rightarrow> 'p \<Rightarrow> 'p option) \<Rightarrow> round_times \<Rightarrow> 'p \<times> 'p \<Rightarrow>
     ('p \<times> 'p) option" where
  "sent_round sends receives ts ab =
     (let (t1, t2, t3, t4) = ts; (a, b) = ab in do {
        b \<leftarrow> deliver receives t2 (sends t1 a) b;
        a \<leftarrow> deliver receives t4 (sends t3 b) a;
        Some (a, b)
      })"

fun sent_rounds ::
  "(u64 \<Rightarrow> 'p \<Rightarrow> bytes list) \<Rightarrow> (u64 \<Rightarrow> bytes \<Rightarrow> 'p \<Rightarrow> 'p option) \<Rightarrow> round_times list \<Rightarrow> 'p \<times> 'p \<Rightarrow>
     ('p \<times> 'p) option" where
  "sent_rounds sends receives [] ab = Some ab"
| "sent_rounds sends receives (ts # tss) ab = do {
     ab \<leftarrow> sent_round sends receives ts ab;
     sent_rounds sends receives tss ab
   }"

text \<open>
  Rounds in time: \<open>in_time r t\<close> says that an endpoint that last received at \<open>r\<close> may still send at \<open>t\<close>;
  \<open>a\<close> last received at \<open>r\<close>.
\<close>

fun paced :: "(u64 \<Rightarrow> u64 \<Rightarrow> bool) \<Rightarrow> u64 \<Rightarrow> round_times list \<Rightarrow> bool" where
  "paced in_time r [] = True"
| "paced in_time r ((t1, t2, t3, t4) # tss) = (in_time r t1 \<and> in_time t2 t3 \<and> paced in_time t4 tss)"

lemma paced_always: "paced (\<lambda>_ _. True) r tss"
  by (induction tss arbitrary: r) auto

lemma silent_rounds:
  assumes "\<And>t. sends t a = []" "\<And>t. sends t b = []"
  shows "sent_rounds sends receives tss (a, b) = Some (a, b)"
  using assms by (induction tss) (auto simp: sent_round_def)

text \<open>The states \<open>z\<close> that a session in \<open>x\<close> may take on receiving \<open>y\<close>.\<close>

definition next_state :: "bfd_state \<Rightarrow> bfd_state \<Rightarrow> bfd_state \<Rightarrow> bool" where
  "next_state x y z \<longleftrightarrow> z = rfc_next x y \<or> x = Init \<and> y = Down \<and> z = Down"

text \<open>The rounds that two states are away from both being up, the first one sending first.\<close>

definition rounds_left :: "bfd_state \<Rightarrow> bfd_state \<Rightarrow> nat" where
  "rounds_left x y =
     (if x = Up \<and> y = Up then 0 else if x = Init \<or> x = Up \<and> y = Init then 1
      else if x = Down then 2 else 3)"

lemma rounds_left_bound: "rounds_left x y \<le> 3"
  by (simp add: rounds_left_def)

lemma rounds_left_step:
  assumes "x \<noteq> AdminDown" "y \<noteq> AdminDown" "next_state y x y'" "next_state x y' x'"
  shows "rounds_left x' y' \<le> rounds_left x y - 1"
  using assms by (cases x; cases y; auto simp: next_state_def rounds_left_def)

lemma rounds_left_0: "x \<noteq> AdminDown \<Longrightarrow> rounds_left x y = 0 \<Longrightarrow> x = Up \<and> y = Up"
  by (auto simp: rounds_left_def split: if_splits)

text \<open>
  The laws of an endpoint. \<open>live\<close>: it has a session, not administratively down, that can use a good
  packet; \<open>ready r\<close>: it has received one at \<open>r\<close>, and as long as it is in time it sends a good packet
  with its state. Every good packet makes a live endpoint ready.
\<close>

locale bfd_peer =
  fixes sends :: "u64 \<Rightarrow> 'p \<Rightarrow> bytes list"
    and receives :: "u64 \<Rightarrow> bytes \<Rightarrow> 'p \<Rightarrow> 'p option"
    and lstate :: "'p \<Rightarrow> bfd_state"
    and good :: "bfd \<Rightarrow> bool"
    and in_time :: "u64 \<Rightarrow> u64 \<Rightarrow> bool"
    and live :: "'p \<Rightarrow> bool"
    and ready :: "u64 \<Rightarrow> 'p \<Rightarrow> bool"
  assumes ready_live: "ready r p \<Longrightarrow> live p"
    and live_state: "live p \<Longrightarrow> lstate p \<noteq> AdminDown"
    and ready_sends: "ready r p \<Longrightarrow> in_time r t \<Longrightarrow>
      \<exists>b. sends t p = [encode_bfd b] \<and> good b \<and> to_state (state b) = lstate p"
    and live_receives: "live p \<Longrightarrow> good b \<Longrightarrow> to_state (state b) \<noteq> AdminDown \<Longrightarrow>
      \<exists>p'. receives t (encode_bfd b) p = Some p' \<and> ready t p' \<and>
        next_state (lstate p) (to_state (state b)) (lstate p')"
begin

lemma half_round:
  assumes "ready r a" "in_time r t1" "live b"
  obtains b' where "deliver receives t2 (sends t1 a) b = Some b'" "ready t2 b'"
    "next_state (lstate b) (lstate a) (lstate b')"
proof -
  obtain p where p: "sends t1 a = [encode_bfd p]" "good p" "to_state (state p) = lstate a"
    using ready_sends [OF assms(1,2)] by blast
  have "to_state (state p) \<noteq> AdminDown"
    using p(3) live_state [OF ready_live [OF assms(1)]] by simp
  from live_receives [OF assms(3) p(2) this, of t2] show thesis
    by (auto simp: p(1,3) intro: that)
qed

lemma sent_round_ready:
  assumes "ready r a" "live b" "in_time r t1" "in_time t2 t3"
  obtains a' b' where "sent_round sends receives (t1, t2, t3, t4) (a, b) = Some (a', b')"
    "ready t4 a'" "ready t2 b'"
    "rounds_left (lstate a') (lstate b') \<le> rounds_left (lstate a) (lstate b) - 1"
proof -
  obtain b' where b': "deliver receives t2 (sends t1 a) b = Some b'" "ready t2 b'"
    "next_state (lstate b) (lstate a) (lstate b')"
    by (rule half_round [OF assms(1,3,2)])
  obtain a' where a': "deliver receives t4 (sends t3 b') a = Some a'" "ready t4 a'"
    "next_state (lstate a) (lstate b') (lstate a')"
    by (rule half_round [OF b'(2) assms(4) ready_live [OF assms(1)]])
  have "rounds_left (lstate a') (lstate b') \<le> rounds_left (lstate a) (lstate b) - 1"
    using live_state [OF ready_live [OF assms(1)]] live_state [OF assms(2)] b'(3) a'(3)
    by (rule rounds_left_step)
  then show thesis
    using that a'(1,2) b'(1,2) by (simp add: sent_round_def)
qed

lemma sent_rounds_ready:
  assumes "ready r a" "live b" "paced in_time r tss"
  shows "\<exists>a' b' r'. sent_rounds sends receives tss (a, b) = Some (a', b') \<and> ready r' a' \<and> live b' \<and>
    rounds_left (lstate a') (lstate b') \<le> rounds_left (lstate a) (lstate b) - length tss"
  using assms
proof (induction tss arbitrary: r a b)
  case (Cons ts tss)
  obtain t1 t2 t3 t4 where ts: "ts = (t1, t2, t3, t4)" by (cases ts)
  obtain a1 b1 where ab: "sent_round sends receives ts (a, b) = Some (a1, b1)" "ready t4 a1" "ready t2 b1"
    "rounds_left (lstate a1) (lstate b1) \<le> rounds_left (lstate a) (lstate b) - 1"
    using sent_round_ready [of r a b t1 t2 t3 t4] Cons.prems unfolding ts by auto
  have "paced in_time t4 tss" using Cons.prems(3) by (simp add: ts)
  from Cons.IH [OF ab(2) ready_live [OF ab(3)] this] ab(1,4) show ?case by fastforce
qed auto

text \<open>An endpoint that is ready and sends first brings both up in three rounds.\<close>

lemma sent_rounds_up:
  assumes "ready r a" "live b" "paced in_time r tss" "3 \<le> length tss"
  shows "\<exists>a' b'. sent_rounds sends receives tss (a, b) = Some (a', b') \<and> lstate a' = Up \<and> lstate b' = Up"
proof -
  obtain a' b' r' where ab: "sent_rounds sends receives tss (a, b) = Some (a', b')" "ready r' a'"
    "rounds_left (lstate a') (lstate b') \<le> rounds_left (lstate a) (lstate b) - length tss"
    using sent_rounds_ready [OF assms(1-3)] by blast
  have "rounds_left (lstate a') (lstate b') = 0"
    using ab(3) rounds_left_bound [of "lstate a" "lstate b"] assms(4) by simp
  from rounds_left_0 [OF live_state [OF ready_live [OF ab(2)]] this] ab(1) show ?thesis by blast
qed

text \<open>If the first one has nothing to send, the other one's first packet makes it ready.\<close>

lemma sent_rounds_up_answer:
  assumes "live a" "ready r b" "\<And>t. sends t a = []" "in_time r t3" "paced in_time t4 tss"
    "3 \<le> length tss"
  shows "\<exists>a' b'. sent_rounds sends receives ((t1, t2, t3, t4) # tss) (a, b) = Some (a', b') \<and>
    lstate a' = Up \<and> lstate b' = Up"
proof -
  obtain a' where a': "deliver receives t4 (sends t3 b) a = Some a'" "ready t4 a'"
    by (rule half_round [OF assms(2,4,1)])
  have "sent_round sends receives (t1, t2, t3, t4) (a, b) = Some (a', b)"
    using a'(1) assms(3) by (simp add: sent_round_def)
  with sent_rounds_up [OF a'(2) ready_live [OF assms(2)] assms(5,6)] show ?thesis by simp
qed

end

end
