(* ===== verification/Bfd_Daemon.thy ===== *)
theory Bfd_Daemon
  imports Session_Map Bfd_Protocol
begin

text \<open>
  What the C daemon promises: its state machine against the table of RFC 5880, the packets it
  sends against the checks of its own receiver, the discriminators it hands out, and the effect
  of one received packet on the session table. Its session is an endpoint of the link of
  \<open>Bfd_Protocol\<close> (interpretation \<open>c_daemon\<close>), and the daemon itself, with its receiver, its table and
  what \<open>iterate_on_session\<close> really sends, is an endpoint of the rounds there (\<open>c_peer\<close>).
\<close>

section \<open>The session as an endpoint\<close>

text \<open>
  The update of an attached session by one valid packet: \<open>recv_bfd_event\<close> between
  \<open>find_session\<close> and \<open>insert_session\<close>.
\<close>

definition session_recv :: "u64 \<Rightarrow> bfd \<Rightarrow> bfd_sess \<Rightarrow> bfd_sess" where
  "session_recv now bfd sess =
     (let sess' = absorb_packet now bfd sess in
      if session_state sess' = BFDSTATE_ADMINDOWN then sess else state_machine sess')"

definition sess_state :: "bfd_sess \<Rightarrow> bfd_state" where
  "sess_state sess = to_state (session_state sess)"

definition sess_wf :: "bfd_sess \<Rightarrow> bool" where
  "sess_wf sess \<longleftrightarrow> session_state sess \<in> {1, 2, 3} \<and> local_discr sess \<noteq> 0"

lemma absorb_packet_simps [simp]:
  "session_state (absorb_packet now b s) = session_state s"
  "remote_session_state (absorb_packet now b s) = ucast (state b)"
  "local_discr (absorb_packet now b s) = local_discr s"
  "remote_discr (absorb_packet now b s) = my_discr b"
  "local_diag (absorb_packet now b s) = local_diag s"
  "attached (absorb_packet now b s) = attached s"
  by (simp_all add: absorb_packet_def Let_def)

lemma state_machine_simps [simp]:
  "local_discr (state_machine s) = local_discr s"
  "attached (state_machine s) = attached s"
  "remote_discr (state_machine s) = remote_discr s"
  by (simp_all add: state_machine_def session_down_def)

lemma session_state_machine:
  "session_state (state_machine s) =
     (if remote_session_state s = 0 then 1
      else if session_state s = 1 then
        (if remote_session_state s = 1 then 2 else if remote_session_state s = 2 then 3 else 1)
      else if session_state s = 2 then
        (if remote_session_state s = 2 \<or> remote_session_state s = 3 then 3 else 1)
      else if remote_session_state s = 1 then 1 else session_state s)"
  by (simp add: state_machine_def session_down_def)

lemma session_state_recv:
  "session_state (session_recv now b s) =
     (if session_state s = 0 then 0
      else session_state (state_machine (s\<lparr>remote_session_state := ucast (state b)\<rparr>)))"
  by (simp add: session_recv_def Let_def session_state_machine)

lemma sess_wf_recv: "sess_wf s \<Longrightarrow> sess_wf (session_recv now b s)"
  by (auto simp: sess_wf_def session_state_recv session_state_machine session_recv_def Let_def)

lemma sess_wf_packet: "sess_wf s \<Longrightarrow> to_state (state (session_packet s)) = sess_state s"
  by (auto simp: sess_wf_def sess_state_def session_packet_def)

lemma sess_state_recv:
  assumes "session_state s \<noteq> 0"
  shows "sess_state (session_recv now b s) =
    (if sess_state s = Init \<and> to_state (state b) = Down then Down
     else rfc_next (sess_state s) (to_state (state b)))"
  using assms
  by (cases "state b" rule: word2_cases)
     (auto simp: sess_state_def session_state_recv session_state_machine to_state_def)

lemma packet_state_up:
  "to_state (state (session_packet s)) \<in> {Init, Up} \<Longrightarrow> sess_state s \<in> {Init, Up}"
  by (auto simp: session_packet_def sess_state_def to_state_def bfd_zero_def split: if_splits)

interpretation c_daemon: bfd_fsm session_recv session_packet sess_state sess_wf
proof (unfold_locales, goal_cases)
  case (1 p)
  then show ?case by (rule packet_state_up)
next
  case (2 now b p)
  show ?case
  proof (cases "session_state p = 0")
    case True
    with 2 show ?thesis by (simp add: sess_state_def session_state_recv)
  next
    case False
    from 2 sess_state_recv [OF False, of now b] show ?thesis
      by (cases "sess_state p"; cases "to_state (state b)") (auto split: if_splits)
  qed
next
  case (3 p now b)
  then show ?case by (rule sess_wf_recv)
next
  case (4 p)
  then show ?case by (rule sess_wf_packet)
next
  case (5 p)
  then show ?case by (auto simp: sess_wf_def sess_state_def)
next
  case (6 p b now)
  then show ?case using sess_state_recv [of p now b] by (auto simp: sess_wf_def)
next
  case (7 p b now)
  then show ?case using sess_state_recv [of p now b] by (auto simp: sess_wf_def)
qed

section \<open>Discriminators\<close>

text \<open>The discriminators handed out by \<open>n\<close> successive new sessions, from counter \<open>c\<close>.\<close>

fun discrs :: "nat \<Rightarrow> u64 \<Rightarrow> u32 list" where
  "discrs 0 c = []"
| "discrs (Suc n) c = (let (d, c') = next_discr c in d # discrs n c')"

lemma discrs_eq:
  "k + n \<le> 2 ^ 31 \<Longrightarrow>
     discrs n (of_nat k) = map (\<lambda>i. htonl (of_nat (Suc i))) [k..<k + n]"
proof (induction n arbitrary: k)
  case 0
  then show ?case by simp
next
  case (Suc n)
  let ?c = "of_nat k + 1 :: u64"
  have c: "?c = of_nat (Suc k)" by simp
  have u: "unat ?c = Suc k"
    unfolding c by (rule unat_of_nat_small) (use Suc.prems in simp)
  have dscr: "ucast ?c = (of_nat (Suc k) :: u32)"
    by (metis u ucast_of_unat)
  show ?case
  proof (cases n)
    case 0
    then show ?thesis
      using dscr by (simp add: next_discr_def)
  next
    case (Suc m)
    with Suc.prems have "Suc k < 2 ^ 31" by simp
    then have "\<not> ?c > 0x7fffffff"
      using u by (simp add: word_less_nat_alt)
    then have "next_discr (of_nat k) = (htonl (of_nat (Suc k)), of_nat (Suc k))"
      using dscr by (simp add: next_discr_def add.commute)
    moreover have "[k..<k + Suc n] = k # [Suc k..<Suc k + n]"
      by (simp add: upt_conv_Cons del: upt_Suc)
    moreover have "discrs n (of_nat (Suc k)) =
        map (\<lambda>i. htonl (of_nat (Suc i))) [Suc k..<Suc k + n]"
      using Suc.prems by (intro Suc.IH) simp
    ultimately show ?thesis by (simp del: upt_Suc of_nat_Suc)
  qed
qed

lemma distinct_discrs:
  assumes "n \<le> 2 ^ 31"
  shows "distinct (discrs n 0) \<and> 0 \<notin> set (discrs n 0)"
proof -
  have eq: "discrs n 0 = map (\<lambda>i. htonl (of_nat (Suc i))) [0..<n]"
    using discrs_eq [of 0 n] assms by simp
  have u: "unat (of_nat (Suc i) :: u32) = Suc i" if "i < n" for i
    using that assms by (intro unat_of_nat_small) simp
  have "inj_on (\<lambda>i. htonl (of_nat (Suc i))) (set [0..<n])"
  proof (rule inj_onI)
    fix i j
    assume ij: "i \<in> set [0..<n]" "j \<in> set [0..<n]"
      and "htonl (of_nat (Suc i)) = htonl (of_nat (Suc j))"
    then have "unat (of_nat (Suc i) :: u32) = unat (of_nat (Suc j) :: u32)"
      by (simp only: htonl_inj)
    with ij show "i = j" by (simp only: u set_upt atLeastLessThan_iff)
  qed
  moreover have "0 \<noteq> htonl (of_nat (Suc i))" if "i < n" for i
    using u [OF that] by (metis htonl_eq_0 unsigned_0 nat.distinct(1))
  ultimately show ?thesis
    unfolding eq by (auto simp: distinct_map simp del: of_nat_Suc)
qed

section \<open>One received packet\<close>

lemma next_discr_bound: "c \<le> 0x7fffffff \<Longrightarrow> snd (next_discr c) \<le> 0x7fffffff"
  by (auto simp: next_discr_def not_less)

lemma attach_session_bound: "c \<le> 0x7fffffff \<Longrightarrow> snd (attach_session sess c) \<le> 0x7fffffff"
  using next_discr_bound [of c] by (auto simp: attach_session_def split: prod.splits)

lemma iterate_on_session_sends:
  "snd (iterate_on_session sendto psess w) = w \<or>
   (\<exists>p. snd (iterate_on_session sendto psess w) = w @ [p])"
  by (auto simp: iterate_on_session_def Let_def)

lemma recv_unknown_peer_frame:
  assumes "recv_unknown_peer ops sendto bfd sess0 c_addr c_addrlen d = Some (r, d')"
  shows "local_discriminator_incr d' = local_discriminator_incr d \<and>
    (sent d' = sent d \<or> (\<exists>p. sent d' = sent d @ [p]))"
  using assms
  by (auto simp: recv_unknown_peer_def iterate_on_session_def Let_def bind_eq_Some_conv
      split: if_splits)

lemma recv_update_frame:
  assumes "recv_update ops sendto now bfd sess c_addr c_addrlen d = Some (r, d')"
    and "local_discriminator_incr d \<le> 0x7fffffff"
  shows "local_discriminator_incr d' \<le> 0x7fffffff \<and>
    (sent d' = sent d \<or> (\<exists>p. sent d' = sent d @ [p]))"
proof -
  obtain s0 c where att: "attach_session sess (local_discriminator_incr d) = (s0, c)"
    by fastforce
  have "c \<le> 0x7fffffff" using attach_session_bound [OF assms(2), of sess] att by simp
  with assms(1) att show ?thesis
    by (auto simp: recv_update_def iterate_on_session_def Let_def bind_eq_Some_conv
        split: if_splits)
qed

lemma recv_bfd_event_frame:
  assumes "recv_bfd_event ops sendto now sess0 c_addr c_addrlen pkt d = Some (r, d')"
    and "local_discriminator_incr d \<le> 0x7fffffff"
  shows "local_discriminator_incr d' \<le> 0x7fffffff \<and>
    (sent d' = sent d \<or> (\<exists>p. sent d' = sent d @ [p]))"
  using assms
  by (auto simp: recv_bfd_event_def Let_def bind_eq_Some_conv split: if_splits option.splits
      dest!: recv_unknown_peer_frame recv_update_frame)

section \<open>Packets on the wire\<close>

lemma session_packet_fields [simp]:
  "multipoint (session_packet s) = 0" "vers (session_packet s) = 1" "auth (session_packet s) = 0"
  "my_discr (session_packet s) = local_discr s" "your_discr (session_packet s) = remote_discr s"
  "pdetect_mult (session_packet s) = ucast (detect_mult s)" "poll (session_packet s) = 0"
  by (simp_all add: session_packet_def bfd_zero_def)

lemma session_packet_valid:
  assumes "local_discr s \<noteq> 0" and "ucast (detect_mult s) \<noteq> (0 :: u8)"
    and "\<not> ((your_discr (session_packet s) = 0 \<or> my_discr (session_packet s) = 0) \<and>
            state (session_packet s) \<noteq> BFDSTATE_DOWN)"
  shows "bfd_valid 24 (session_packet s)"
  using assms by (auto simp: bfd_valid_def)

text \<open>
  The bytes on the wire are those of RFC 5880, section 4.1, field by field: version and diagnostic,
  state and flags, multiplier, length, the two discriminators as they are stored, and the three
  intervals in network byte order.
\<close>

lemma rev_to_le: "rev (to_le 4 x) = to_le 4 (htonl x)"
  by (simp add: htonl_def)

lemma session_packet_bytes:
  assumes "local_discr s \<noteq> 0"
  shows "encode_bfd (session_packet s) =
    [0x20 OR (ucast (local_diag s) AND 0x1f),
     push_bit 6 (ucast (session_state s) AND 3) OR (if pollbit_on s = BFD_ON then 0x10 else 0) OR 0x08,
     ucast (detect_mult s), 24] @
    to_le 4 (local_discr s) @ to_le 4 (remote_discr s) @ rev (to_le 4 (desired_min_tx_interval s)) @
    rev (to_le 4 (required_min_rx_interval s)) @ rev (to_le 4 (received_min_rx_interval s))"
proof -
  have d: "put_field 0 (ucast (local_diag s) :: 5 word) OR put_field 5 (1 :: 3 word) =
      0x20 OR (ucast (local_diag s) AND 0x1f)"
  proof (rule bit_eqI)
    fix n :: nat
    have "n = 0 \<or> n = 1 \<or> n = 2 \<or> n = 3 \<or> n = 4 \<or> n = 5 \<or> n = 6 \<or> n = 7 \<or> 8 \<le> n" by arith
    then show "bit (put_field 0 (ucast (local_diag s) :: 5 word) OR put_field 5 (1 :: 3 word)) n =
        bit (0x20 OR (ucast (local_diag s) AND 0x1f) :: u8) n"
      by (elim disjE) (simp_all add: bit_or_iff bit_and_iff bit_put_field bit_ucast_iff)
  qed
  have st: "put_field 6 (ucast (session_state s) :: 2 word) = push_bit 6 (ucast (session_state s) AND 3)"
  proof (rule bit_eqI)
    fix n :: nat
    have "n < 6 \<or> n = 6 \<or> n = 7 \<or> 8 \<le> n" by arith
    then show "bit (put_field 6 (ucast (session_state s) :: 2 word)) n = bit (push_bit 6 (ucast (session_state s) AND 3) :: u8) n"
      by (elim disjE) (simp_all add: bit_and_iff bit_push_bit_iff bit_put_field bit_ucast_iff)
  qed
  have f: "put_field k (0 :: 1 word) = 0" "put_field 4 (1 :: 1 word) = 0x10" "put_field 3 (1 :: 1 word) = 0x08" for k
    by (simp_all add: put_field_def)
  show ?thesis
    using assms by (simp add: encode_bfd_def session_packet_def bfd_zero_def d st f rev_to_le or.commute or.left_commute)
qed

section \<open>A received packet and the session table\<close>

text \<open>What the poll bit does to the session.\<close>

definition session_polled :: "bfd \<Rightarrow> bfd_sess \<Rightarrow> bfd_sess" where
  "session_polled bfd sess = (if poll bfd = BFD_ON then sess\<lparr>pollbit_on := BFD_ON\<rparr> else sess)"

lemma session_recv_simps [simp]:
  "attached (session_recv now b s) = attached s" "client_addr (session_recv now b s) = client_addr s"
  "local_discr (session_recv now b s) = local_discr s" "detect_mult (session_recv now b s) = detect_mult s"
  "pollbit_on (session_recv now b s) = pollbit_on s"
  by (simp_all add: session_recv_def absorb_packet_def state_machine_def session_down_def Let_def)

lemma session_polled_simps [simp]:
  "attached (session_polled b s) = attached s" "client_addr (session_polled b s) = client_addr s"
  "local_discr (session_polled b s) = local_discr s" "detect_mult (session_polled b s) = detect_mult s"
  "session_state (session_polled b s) = session_state s" "remote_discr (session_polled b s) = remote_discr s"
  "pollbit_on (session_polled b s) = (if poll b = 1 then 1 else pollbit_on s)"
  by (simp_all add: session_polled_def)

lemma remote_discr_recv: "session_state s \<noteq> 0 \<Longrightarrow> remote_discr (session_recv now b s) = my_discr b"
  by (simp add: session_recv_def Let_def)

lemma attach_session_simps [simp]:
  "attached (fst (attach_session s c)) = (if attached s = 0 then 1 else attached s)"
  "client_addr (fst (attach_session s c)) = client_addr s"
  "detect_mult (fst (attach_session s c)) = detect_mult s"
  "session_state (fst (attach_session s c)) = session_state s"
  "remote_discr (fst (attach_session s c)) = remote_discr s"
  "pollbit_on (fst (attach_session s c)) = pollbit_on s"
  by (simp_all add: attach_session_def next_discr_def Let_def)

text \<open>An attached session that has just received a packet of a peer always sends.\<close>

lemma polled_sends:
  assumes "attached s \<noteq> 0" "session_state s \<noteq> 0" "my_discr b \<noteq> 0"
  shows "session_sends (session_polled b (session_recv now b s)) =
    [(client_addr s, encode_bfd (session_packet (session_polled b (session_recv now b s))))]"
  using assms by (simp add: session_sends_def remote_discr_recv session_packet_def bfd_zero_def)

text \<open>The update of the session that was found, over a map as the store.\<close>

lemma recv_update_map:
  fixes c_addr :: sockaddr_in
  assumes v: "my_discr b \<noteq> 0"
    and t: "sess_table (contents (kv d)) G" "c_addrlen \<noteq> 0"
    and k: "sess_key c_addr \<in> set (G (sess_group (sess_key c_addr)))"
  shows "recv_update map_ops sendto now b sess c_addr c_addrlen d =
    (let (sess1, c) = attach_session sess (local_discriminator_incr d);
         sess2 = session_polled b (session_recv now b sess1);
         out = (if poll b = BFD_ON then [(client_addr sess, encode_bfd (session_packet sess2))] else []) in
     Some (if session_state sess = BFDSTATE_ADMINDOWN then (RET_NG, d\<lparr>local_discriminator_incr := c\<rparr>)
       else if length (G (sess_group (sess_key c_addr))) = SESSION_KEYS_LISTCNT
       then (RET_NG, d\<lparr>local_discriminator_incr := c, sent := sent d @ out\<rparr>)
       else (RET_OK, d\<lparr>local_discriminator_incr := c, sent := sent d @ out,
         kv := map_put (encode_sess_key (sess_key c_addr)) (encode_sess sess2) (kv d)\<rparr>)))"
proof -
  obtain s1 c where a: "attach_session sess (local_discriminator_incr d) = (s1, c)" by fastforce
  have s1: "attached s1 \<noteq> 0" "session_state s1 = session_state sess" "client_addr s1 = client_addr sess"
    using attach_session_simps [of sess "local_discriminator_incr d"] unfolding a by simp_all
  show ?thesis
  proof (cases "session_state sess = 0")
    case True
    then show ?thesis using s1 by (simp add: recv_update_def a Let_def)
  next
    case False
    have sm: "session_recv now b s1 = state_machine (absorb_packet now b s1)"
      using False s1(2) by (simp add: session_recv_def)
    have send: "session_sends ((session_recv now b s1)\<lparr>pollbit_on := 1\<rparr>) =
        [(client_addr sess, encode_bfd (session_packet ((session_recv now b s1)\<lparr>pollbit_on := 1\<rparr>)))]"
      if "poll b = 1"
      using polled_sends [OF s1(1) _ v, of now] False s1 that by (simp add: session_polled_def)
    have ins: "insert_session map_ops sess' c_addr c_addrlen (kv d) =
        (if length (G (sess_group (sess_key c_addr))) = SESSION_KEYS_LISTCNT then Some (RET_NG, kv d)
         else Some (RET_OK, map_put (encode_sess_key (sess_key c_addr)) (encode_sess sess') (kv d)))" for sess'
      using insert_known_peer [OF t k, where psess = sess'] insert_full_group [OF t, where psess = sess']
        group_length [OF t(1) sess_group_bound [of "sess_key c_addr"]] by simp
    show ?thesis
      using False s1 send by (cases "poll b = 1")
        (simp_all add: recv_update_def a ins iterate_on_session_eq session_polled_def sm Let_def)
  qed
qed

lemma recv_known_peer:
  fixes c_addr :: sockaddr_in
  assumes v: "bfd_valid (length pkt) (decode_bfd pkt)"
    and t: "sess_table (contents (kv d)) G" "c_addrlen \<noteq> 0"
    and k: "sess_key c_addr \<in> set (G (sess_group (sess_key c_addr)))"
    and s: "contents (kv d) (encode_sess_key (sess_key c_addr)) = Some (encode_sess sess)"
  shows "recv_bfd_event map_ops sendto now sess0 c_addr c_addrlen pkt d =
    recv_update map_ops sendto now (decode_bfd pkt) sess c_addr c_addrlen d"
  using v t(2) s
  by (simp add: recv_bfd_event_def recv_lookup_def find_session_map Let_def)



section \<open>The daemon as an endpoint\<close>

text \<open>
  A daemon over a map as the store, with the address of its peer. It sends what
  \<open>iterate_on_session\<close> sends for the session of the peer, as far as it is addressed to the BFD port of
  the peer, and receives with \<open>recv_bfd_event\<close>; the program stops where that is \<open>None\<close>.
\<close>

type_synonym daemon_end = "sockaddr_in \<times> map_db daemon"


definition addressed :: "sockaddr_in \<Rightarrow> sockaddr_in \<Rightarrow> bool" where
  "addressed to peer \<longleftrightarrow> s_addr to = s_addr peer \<and> sin_port to = htons BFDDFLT_UDPPORT"



text \<open>The daemon has the session \<open>sess\<close> for its peer, in a group that is not full.\<close>

definition end_session :: "daemon_end \<Rightarrow> bfd_sess \<Rightarrow> bool" where
  "end_session e sess \<longleftrightarrow>
     (let M = contents (kv (snd e)); k = sess_key (fst e) in
      M (encode_sess_key k) = Some (encode_sess sess) \<and>
      (\<exists>G. sess_table M G \<and> k \<in> set (G (sess_group k)) \<and> length (G (sess_group k)) < SESSION_KEYS_LISTCNT))"

text \<open>
  What \<open>init_session\<close> and the receiver keep of a session that is not administratively down: it is
  addressed to its peer, it has a discriminator once it is attached and is down before, and it has
  left Down only on a packet of the peer, whose discriminator it knows then.
\<close>

definition sess_fit :: "sockaddr_in \<Rightarrow> bfd_sess \<Rightarrow> bool" where
  "sess_fit peer sess \<longleftrightarrow> session_state sess \<in> {1, 2, 3} \<and> ucast (detect_mult sess) \<noteq> (0 :: u8) \<and>
     addressed (client_addr sess) peer \<and>
     (if attached sess = BFD_OFF then session_state sess = BFDSTATE_DOWN
      else local_discr sess \<noteq> 0 \<and> (session_state sess \<noteq> BFDSTATE_DOWN \<longrightarrow> remote_discr sess \<noteq> 0))"




definition daemon_good :: "bfd \<Rightarrow> bool" where
  "daemon_good b \<longleftrightarrow> bfd_valid 24 b \<and> poll b = BFD_OFF"

lemma end_session_at: "end_session e sess \<Longrightarrow> sess_at (contents (kv (snd e))) (sess_key (fst e)) = sess"
  by (simp add: end_session_def sess_at_def Let_def)





lemma fit_sends:
  assumes "sess_fit peer sess" "attached sess \<noteq> BFD_OFF"
  shows "session_sends sess = [(client_addr sess, encode_bfd (session_packet sess))]"
    and "daemon_good (session_packet sess)" and "to_state (state (session_packet sess)) = sess_state sess"
proof -
  have st: "state (session_packet sess) = ucast (session_state sess)" and l: "local_discr sess \<noteq> 0"
    using assms by (simp_all add: sess_fit_def session_packet_def)
  have d: "(state (session_packet sess) = 1) = (session_state sess = 1)"
    "to_state (state (session_packet sess)) = sess_state sess"
    using assms(1) by (auto simp: st sess_fit_def sess_state_def)
  show "session_sends sess = [(client_addr sess, encode_bfd (session_packet sess))]"
    using assms l d(1) by (auto simp: session_sends_def sess_fit_def)
  show "daemon_good (session_packet sess)"
    using assms l d(1) by (auto simp: daemon_good_def bfd_valid_def sess_fit_def)
  show "to_state (state (session_packet sess)) = sess_state sess" by (rule d(2))
qed




section \<open>Properties\<close>

text \<open>A session as \<open>init_session\<close> leaves it, with a discriminator; used in the witnesses.\<close>

definition sample_sess :: bfd_sess where
  "sample_sess = (init_session (decode_sess (replicate SIZEOF_SESS 0))
     (decode_sockaddr (replicate 16 7)) 16)\<lparr>local_discr := 0x01000000\<rparr>"

lemma sample_sess_simps [simp]:
  "session_state sample_sess = 1" "local_discr sample_sess = 0x01000000"
  "detect_mult sample_sess = 3" "remote_discr sample_sess = 0"
  by (simp_all add: sample_sess_def init_session_def BFDDFLT_DETECTMULT_def)

lemma sample_sess_wf: "sess_wf sample_sess"
  by (simp add: sess_wf_def)

text \<open>A daemon with one session, for the peer at \<open>sample_peer\<close>, in the table that the program makes.\<close>

definition sample_peer :: sockaddr_in where
  "sample_peer = decode_sockaddr (replicate 16 7)"

definition sample_attached :: bfd_sess where
  "sample_attached = sample_sess\<lparr>attached := BFD_ON\<rparr>"

lemma sample_fit: "sess_fit sample_peer sample_sess" "sess_fit sample_peer sample_attached"
  by (simp_all add: sess_fit_def sample_attached_def addressed_def sample_sess_def init_session_def
      sample_peer_def BFDDFLT_DETECTMULT_def)

lemma sample_daemon:
  obtains d :: "map_db daemon" and G where "contents (kv d) (encode_sess_key (sess_key sample_peer)) = Some (encode_sess sess)"
    "sess_table (contents (kv d)) G" "sess_key sample_peer \<in> set (G (sess_group (sess_key sample_peer)))"
    "length (G (sess_group (sess_key sample_peer))) = 1" "concat (map G [0..<SESSION_KEYS_MAX]) = [sess_key sample_peer]"
    "sent d = []" "local_discriminator_incr d = 5" "writes (kv d) = []" "end_session (sample_peer, d) sess"
proof -
  note result = that
  let ?k = "sess_key sample_peer" and ?G = "with_peer (sess_key sample_peer) (\<lambda>_. [])"
  obtain s0 :: map_db where s0: "sess_table (contents s0) (\<lambda>_. [])"
    by (rule initialize_map [of "\<lparr>contents = Map.empty, writes = []\<rparr>"])
  obtain s1 :: map_db where s1: "contents s1 (encode_sess_key ?k) = Some (encode_sess sess)" "sess_table (contents s1) ?G"
    by (rule insert_new_peer [OF s0, of 16 sample_peer sess]) simp_all
  let ?d = "\<lparr>kv = \<lparr>contents = contents s1, writes = []\<rparr>, local_discriminator_incr = 5, sent = []\<rparr>"
  have k: "?k \<in> set (?G (sess_group ?k))" "length (?G (sess_group ?k)) = 1" by (simp_all add: with_peer_def)
  have "concat (map ?G ns) = (if sess_group ?k \<in> set ns then [?k] else [])" if "distinct ns" for ns
    using that by (induction ns) (auto simp: with_peer_def)
  from this [of "[0..<SESSION_KEYS_MAX]"] have all: "concat (map ?G [0..<SESSION_KEYS_MAX]) = [?k]"
    using sess_group_bound [of ?k] by (simp only: distinct_upt set_upt atLeastLessThan_iff simp_thms zero_le if_True)
  have "end_session (sample_peer, ?d) sess"
    using s1 k unfolding end_session_def Let_def by (intro conjI exI [of _ ?G]) simp_all
  with result [of ?d ?G] s1 k all show thesis by simp
qed



text \<open>C5. On a link that may lose, repeat and reorder packets, no session of the C daemon that
  started down is ever up before both ends have received a packet of the other.\<close>

theorem daemon_up_is_bidirectional:
  assumes "link_reachable session_recv session_packet (fresh_link a b) l"
    and "sess_state a \<in> {AdminDown, Down}" "sess_state b \<in> {AdminDown, Down}"
    and "sess_state (peer_a l) = Up \<or> sess_state (peer_b l) = Up"
  shows "heard_a l \<and> heard_b l"
  using assms by (rule c_daemon.up_is_bidirectional)

theorem daemon_up_is_bidirectional_witness:
  "\<exists>l :: bfd_sess link. sess_state (peer_a l) = Up \<and> heard_a l \<and> heard_b l"
proof -
  obtain l where l: "link_reachable session_recv session_packet (fresh_link sample_sess sample_sess) l"
    and ab: "(peer_a l, peer_b l) = exchange session_recv session_packet 0 (sample_sess, sample_sess)"
    using exchange_reachable [of session_recv session_packet sample_sess sample_sess 0] by auto
  have up: "sess_state (peer_a l) = Up" and d: "sess_state sample_sess = Down"
    using c_daemon.exch_table [of "(sample_sess, sample_sess)" 0] sample_sess_wf
    by (auto simp: sess_state_def simp flip: ab)
  have "heard_a l \<and> heard_b l"
    by (rule daemon_up_is_bidirectional [OF l]) (simp_all add: up d)
  with up show ?thesis by blast
qed

text \<open>C8. The state machine of the C daemon is the table of RFC 5880, except that a session in Init
  that receives Down goes to Down, and that a session which is administratively down ignores
  every packet.\<close>

theorem daemon_state_table:
  "sess_state (session_recv now b s) =
     (if sess_state s = Init \<and> to_state (state b) = Down then Down
      else rfc_next (sess_state s) (to_state (state b)))"
proof (cases "session_state s = 0")
  case True
  then show ?thesis by (simp add: sess_state_def session_state_recv)
next
  case False
  then show ?thesis by (rule sess_state_recv)
qed

text \<open>C10. The discriminators handed out to successive new sessions of a daemon, up to 2^31 of them,
  are pairwise different, and none is 0.\<close>

theorem discriminators_distinct:
  assumes "n \<le> 2 ^ 31"
  shows "distinct (discrs n 0) \<and> 0 \<notin> set (discrs n 0)"
  using assms by (rule distinct_discrs)

theorem discriminators_distinct_witness:
  "distinct (discrs 5 0) \<and> 0 \<notin> set (discrs 5 0)"
  by (rule discriminators_distinct) simp

text \<open>C9. A packet that fails one of the checks at the head of \<open>recv_bfd_event\<close> changes nothing and
  is answered with \<open>RET_NG\<close>; any other keeps the discriminator counter within 31 bits and causes
  at most one \<open>sendto\<close>.\<close>

theorem recv_event_effect:
  assumes "recv_bfd_event ops sendto now sess0 c_addr c_addrlen pkt d = Some (r, d')"
    and "local_discriminator_incr d \<le> 0x7fffffff"
  shows "(if bfd_valid (length pkt) (decode_bfd pkt)
          then local_discriminator_incr d' \<le> 0x7fffffff \<and>
            (sent d' = sent d \<or> (\<exists>p. sent d' = sent d @ [p]))
          else r = RET_NG \<and> d' = d)"
  using assms recv_bfd_event_frame [OF assms]
  by (auto simp: recv_bfd_event_def Let_def)

lemma sample_packet_valid: "bfd_valid 24 (session_packet sample_sess)"
  by (rule session_packet_valid) (simp_all add: session_packet_def)

text \<open>A store that never finds anything, for the witnesses.\<close>

definition empty_ops :: "unit kv_ops" where
  "empty_ops = \<lparr>kv_store = (\<lambda>_ _ s. Some (0, s)), kv_search = (\<lambda>_ _ s. Some (None, s))\<rparr>"

theorem recv_event_effect_witness:
  "let d = \<lparr>kv = (), local_discriminator_incr = 5, sent = []\<rparr> in \<exists>r d'.
     recv_bfd_event empty_ops (\<lambda>_ _. 24) 0 sample_sess (client_addr sample_sess) 16
       (encode_bfd (session_packet sample_sess)) d = Some (r, d') \<and>
     local_discriminator_incr d' \<le> 0x7fffffff \<and> (sent d' = sent d \<or> (\<exists>p. sent d' = sent d @ [p]))"
proof -
  let ?d = "\<lparr>kv = (), local_discriminator_incr = 5, sent = []\<rparr>"
  let ?p = "encode_bfd (session_packet sample_sess)"
  have "your_discr (session_packet sample_sess) = 0"
    by simp
  then have "recv_bfd_event empty_ops (\<lambda>_ _. 24) 0 sample_sess (client_addr sample_sess) 16 ?p ?d
      = Some (RET_NG, ?d)"
    by (simp add: recv_bfd_event_def decode_encode_bfd sample_packet_valid recv_lookup_def
        find_session_def insert_session_def get_sess_manage_def empty_ops_def Let_def)
  from recv_event_effect [OF this] this show ?thesis
    by (auto simp: decode_encode_bfd sample_packet_valid)
qed

text \<open>C11. A valid packet of a known peer, over a map as the store: the only write, if there is one, puts the
  session after the update of the code at the key of the peer. A session that was not attached gets
  the next discriminator first. If the session is administratively down, the result is \<open>RET_NG\<close> and
  nothing is written or sent. Otherwise a packet with the poll bit is answered with one packet, that of
  the updated session, with the final bit; and the result is \<open>RET_OK\<close> and the session is written,
  unless the group of the peer is full: then the result is \<open>RET_NG\<close> and the update is lost.\<close>

theorem recv_updates_session:
  fixes c_addr :: sockaddr_in
  assumes "bfd_valid (length pkt) (decode_bfd pkt)" "c_addrlen \<noteq> 0"
    and "sess_table (contents (kv d)) G" "sess_key c_addr \<in> set (G (sess_group (sess_key c_addr)))"
    and "contents (kv d) (encode_sess_key (sess_key c_addr)) = Some (encode_sess sess)"
  shows "(let b = decode_bfd pkt; key = encode_sess_key (sess_key c_addr);
       (sess1, c) = attach_session sess (local_discriminator_incr d);
       sess2 = session_polled b (session_recv now b sess1);
       out = (if poll b = BFD_ON then [(client_addr sess, encode_bfd (session_packet sess2))] else []) in
    recv_bfd_event map_ops sendto now sess0 c_addr c_addrlen pkt d =
     Some (if session_state sess = BFDSTATE_ADMINDOWN then (RET_NG, d\<lparr>local_discriminator_incr := c\<rparr>)
       else if length (G (sess_group (sess_key c_addr))) = SESSION_KEYS_LISTCNT
       then (RET_NG, d\<lparr>local_discriminator_incr := c, sent := sent d @ out\<rparr>)
       else (RET_OK, d\<lparr>local_discriminator_incr := c, sent := sent d @ out,
         kv := \<lparr>contents = (contents (kv d))(key \<mapsto> encode_sess sess2),
                writes = writes (kv d) @ [(key, encode_sess sess2)]\<rparr>\<rparr>)) \<and>
    (poll b = BFD_ON \<longrightarrow> final (session_packet sess2) = BFD_ON) \<and>
    (if attached sess = BFD_OFF then attached sess1 = BFD_ON \<and> local_discr sess1 = htonl (ucast (local_discriminator_incr d + 1))
     else sess1 = sess \<and> c = local_discriminator_incr d))"
proof -
  have v: "my_discr (decode_bfd pkt) \<noteq> 0" using assms(1) by (simp add: bfd_valid_def)
  show ?thesis
    unfolding recv_known_peer [OF assms(1,3,2,4,5)] recv_update_map [OF v assms(3,2,4)]
    by (simp add: Let_def map_put_def session_packet_def split: prod.split)
       (auto simp: attach_session_def next_discr_def split: if_splits)
qed

theorem recv_updates_session_witness:
  "\<exists>(d :: map_db daemon) d' sess'. writes (kv d) = [] \<and>
    recv_bfd_event map_ops (\<lambda>_ _. 24) 0 sample_sess sample_peer 16 (encode_bfd (session_packet sample_sess)) d =
      Some (RET_OK, d') \<and> sess_state sess' = Init \<and> sent d' = [] \<and>
    writes (kv d') = [(encode_sess_key (sess_key sample_peer), encode_sess sess')]"
proof -
  let ?p = "encode_bfd (session_packet sample_sess)" and ?s = "session_recv 0 (session_packet sample_sess) sample_attached"
  obtain d :: "map_db daemon" and G where d: "contents (kv d) (encode_sess_key (sess_key sample_peer)) = Some (encode_sess sample_attached)"
    "sess_table (contents (kv d)) G" "sess_key sample_peer \<in> set (G (sess_group (sess_key sample_peer)))"
    "length (G (sess_group (sess_key sample_peer))) = 1" "sent d = []" "writes (kv d) = []"
    by (rule sample_daemon [of sample_attached])
  have v: "bfd_valid (length ?p) (decode_bfd ?p)" by (simp add: decode_encode_bfd sample_packet_valid)
  have a: "attach_session sample_attached c = (sample_attached, c)" for c
    by (simp add: attach_session_def sample_attached_def)
  have st: "session_state sample_attached = 1" by (simp add: sample_attached_def)
  have "recv_bfd_event map_ops (\<lambda>_ _. 24) 0 sample_sess sample_peer 16 ?p d = Some (RET_OK,
      d\<lparr>kv := \<lparr>contents = (contents (kv d))(encode_sess_key (sess_key sample_peer) \<mapsto> encode_sess ?s),
             writes = [(encode_sess_key (sess_key sample_peer), encode_sess ?s)]\<rparr>\<rparr>)"
    using recv_updates_session [OF v _ d(2,3,1), of 16 0 "\<lambda>_ _. 24" sample_sess] d(4-6)
    by (simp add: decode_encode_bfd a st Let_def session_polled_def)
  moreover have "sess_state ?s = Init"
    using sess_state_recv [of sample_attached 0 "session_packet sample_sess"] st
    by (simp add: sess_state_def session_packet_def)
  ultimately show ?thesis using d(5,6) by fastforce
qed



text \<open>C13. One round of sending, \<open>send_bfd_event\<close>, over a map as the store that has a session for every key in its
  tables: group by group and in the order of the key lists, each session that is attached and may be
  sent gets exactly one packet, to its address; the other sessions get none; and no session is
  changed. When one \<open>sendto\<close> fails, everything behind that packet is left out, in all groups.\<close>

theorem send_event_sends:
  assumes "sess_table (contents (kv d)) G"
    and "\<forall>n<SESSION_KEYS_MAX. \<forall>k\<in>set (G n). has_session (contents (kv d)) k"
  shows "send_bfd_event map_ops sendto d = Some (0, d\<lparr>sent := sent d @ until_failure sendto
    (concat (map (\<lambda>k. session_sends (sess_at (contents (kv d)) k)) (concat (map G [0..<SESSION_KEYS_MAX]))))\<rparr>)"
  using iterate_all_map [OF assms, of sendto "sent d"] by (simp add: send_bfd_event_def)

theorem send_event_sends_witness:
  "\<exists>d :: map_db daemon. send_bfd_event map_ops (\<lambda>_ _. 24) d =
    Some (0, d\<lparr>sent := [(client_addr sample_attached, encode_bfd (session_packet sample_attached))]\<rparr>)"
proof -
  obtain d :: "map_db daemon" and G where d: "contents (kv d) (encode_sess_key (sess_key sample_peer)) = Some (encode_sess sample_attached)"
    "sess_table (contents (kv d)) G" "concat (map G [0..<SESSION_KEYS_MAX]) = [sess_key sample_peer]" "sent d = []"
    "end_session (sample_peer, d) sample_attached"
    by (rule sample_daemon [of sample_attached])
  have "k = sess_key sample_peer" if "n < SESSION_KEYS_MAX" "k \<in> set (G n)" for n k
  proof -
    have "k \<in> set (concat (map G [0..<SESSION_KEYS_MAX]))" using that by auto
    then show ?thesis unfolding d(3) by simp
  qed
  then have all: "\<forall>n<SESSION_KEYS_MAX. \<forall>k\<in>set (G n). has_session (contents (kv d)) k"
    using d(1) by (auto simp: has_session_def)
  have "attached sample_attached \<noteq> BFD_OFF" by (simp add: sample_attached_def)
  note s = fit_sends(1) [OF sample_fit(2) this] end_session_at [OF d(5)]
  show ?thesis
    using send_event_sends [OF d(2) all, of "\<lambda>_ _. 24"] s d(3,4) by (auto simp: until_failure_all)
qed

end
