(* ===== verification/Bfd_Cpp.thy ===== *)
theory Bfd_Cpp
  imports Bfd_Protocol "HOL-Library.Monad_Syntax"
begin

text \<open>
  The C++ service (\<open>bfdd_cpp\<close>): \<open>BfdSession\<close>, \<open>BfdSessionManager\<close> and the checks of
  \<open>Server::recieve\<close>.

  The sessions are a \<open>std::map\<close> from the 64 bit key \<open>MAKE_ULL(ipaddr, port)\<close> to the session,
  modelled as the association list in key order that an iterator walks. A session is changed in
  place through the pointer \<open>find_unsafe\<close> returns, which is the entry at its key replaced. Every
  critical section of the manager's mutex is one function on the manager's state; \<open>cpp_step\<close>
  interleaves the sections of the receiving thread, of the sending thread and of the callers of
  \<open>subscribe\<close>/\<open>unsubscribe\<close>.

  The sockets are parameters: \<open>bind_ok\<close> says whether binding the client socket to an endpoint
  succeeds (boost throws when it does not, and nothing catches the exception: \<open>None\<close>), and the
  packets handed to \<open>async_send_to\<close> are listed in \<open>cpp_sent\<close>, oldest first.
\<close>

section \<open>std::map\<close>

type_synonym ('k, 'v) std_map = "('k \<times> 'v) list"

fun map_find :: "'k::linorder \<Rightarrow> ('k, 'v) std_map \<Rightarrow> 'v option" where
  "map_find k [] = None"
| "map_find k ((k', v') # m) =
     (if k = k' then Some v' else if k < k' then None else map_find k m)"

fun map_put :: "'k::linorder \<Rightarrow> 'v \<Rightarrow> ('k, 'v) std_map \<Rightarrow> ('k, 'v) std_map" where
  "map_put k v [] = [(k, v)]"
| "map_put k v ((k', v') # m) =
     (if k = k' then (k, v) # m else if k < k' then (k, v) # (k', v') # m
      else (k', v') # map_put k v m)"

fun map_erase :: "'k::linorder \<Rightarrow> ('k, 'v) std_map \<Rightarrow> ('k, 'v) std_map" where
  "map_erase k [] = []"
| "map_erase k ((k', v') # m) =
     (if k = k' then m else if k < k' then (k', v') # m else (k', v') # map_erase k m)"

definition map_ok :: "('k::linorder, 'v) std_map \<Rightarrow> bool" where
  "map_ok m \<longleftrightarrow> sorted_wrt (<) (map fst m)"

text \<open>What the manager relies on of its table.\<close>

locale session_table =
  fixes find :: "'k \<Rightarrow> 't \<Rightarrow> 'v option"
    and put :: "'k \<Rightarrow> 'v \<Rightarrow> 't \<Rightarrow> 't"
    and erase :: "'k \<Rightarrow> 't \<Rightarrow> 't"
    and ok :: "'t \<Rightarrow> bool"
  assumes find_put: "ok t \<Longrightarrow> find k (put l v t) = (if k = l then Some v else find k t)"
    and find_erase: "ok t \<Longrightarrow> find k (erase l t) = (if k = l then None else find k t)"
    and ok_put: "ok t \<Longrightarrow> ok (put l v t)"
    and ok_erase: "ok t \<Longrightarrow> ok (erase l t)"
begin

definition all_entries :: "('k \<Rightarrow> 'v \<Rightarrow> bool) \<Rightarrow> 't \<Rightarrow> bool" where
  "all_entries P t \<longleftrightarrow> ok t \<and> (\<forall>k v. find k t = Some v \<longrightarrow> P k v)"

lemma all_entries_put: "all_entries P t \<Longrightarrow> P l v \<Longrightarrow> all_entries P (put l v t)"
  by (auto simp: all_entries_def find_put ok_put split: if_splits)

lemma all_entries_erase: "all_entries P t \<Longrightarrow> all_entries P (erase l t)"
  by (auto simp: all_entries_def find_erase ok_erase split: if_splits)

lemma all_entries_find: "all_entries P t \<Longrightarrow> find k t = Some v \<Longrightarrow> P k v"
  by (auto simp: all_entries_def)

end

definition keys_of :: "('k, 'v) std_map \<Rightarrow> 'k set" where
  "keys_of m = fst ` set m"

lemma keys_of_simps [simp]: "keys_of [] = {}" "keys_of ((k, v) # m) = insert k (keys_of m)"
  by (simp_all add: keys_of_def)

lemma map_ok_simps [simp]:
  "map_ok []"
  "map_ok ((k, v) # m) \<longleftrightarrow> (\<forall>x\<in>keys_of m. k < x) \<and> map_ok m"
  by (auto simp: map_ok_def keys_of_def)

lemma map_find_less: "\<forall>x\<in>keys_of m. k < x \<Longrightarrow> map_find k m = None"
  by (cases m rule: list.exhaust) auto

lemma keys_of_put [simp]: "keys_of (map_put l v m) = insert l (keys_of m)"
  by (induction l v m rule: map_put.induct) auto

lemma keys_of_erase: "map_ok m \<Longrightarrow> keys_of (map_erase l m) = keys_of m - {l}"
  by (induction l m rule: map_erase.induct) (auto dest: bspec)

lemma map_ok_put: "map_ok m \<Longrightarrow> map_ok (map_put l v m)"
  by (induction l v m rule: map_put.induct) (auto intro: less_trans)

lemma map_find_put:
  "map_ok m \<Longrightarrow> map_find k (map_put l v m) = (if k = l then Some v else map_find k m)"
  by (induction l v m rule: map_put.induct) auto

lemma map_ok_erase: "map_ok m \<Longrightarrow> map_ok (map_erase l m)"
  by (induction l m rule: map_erase.induct) (auto simp: keys_of_erase)

lemma map_find_erase:
  "map_ok m \<Longrightarrow> map_find k (map_erase l m) = (if k = l then None else map_find k m)"
proof (induction l m rule: map_erase.induct)
  case (2 l l' v' m)
  have "map_find k m = None" if "k \<le> l'"
    using 2(2) that by (intro map_find_less) (auto intro: le_less_trans)
  with 2 show ?case by (auto simp: not_less)
qed simp

interpretation std_map: session_table map_find map_put map_erase map_ok
  by unfold_locales (simp_all add: map_find_put map_find_erase map_ok_put map_ok_erase)

lemma set_imp_keys: "(k, v) \<in> set m \<Longrightarrow> k \<in> keys_of m"
  by (force simp: keys_of_def)

lemma map_find_in_set: "map_ok m \<Longrightarrow> map_find k m = Some v \<longleftrightarrow> (k, v) \<in> set m"
  by (induction k m rule: map_find.induct) (auto dest: set_imp_keys bspec)

section \<open>Sessions and connections\<close>

record endpoint =
  ep_addr :: u32
  ep_port :: u16

text \<open>A \<open>Conn\<close> made by \<open>create_client_side_connection\<close>: the bound and the remote endpoint.\<close>

record conn =
  conn_bound :: endpoint
  conn_udpendp :: endpoint

record cpp_sess =
  p_session_state :: u32
  p_remote_session_state :: u32
  p_local_discr :: u32
  p_remote_discr :: u32
  p_local_diag :: u32
  p_desired_min_tx_interval :: u32
  p_required_min_rx_interval :: u32
  p_remote_min_rx_interval :: u32
  p_demand_mode :: u32
  p_remote_demand_mode :: u32
  p_detect_mult :: u32
  p_auth_type :: u32
  p_rcv_auth_seq :: u32
  p_xmit_auth_seq :: u32
  p_auth_seq_known :: u32
  p_must_cease_tx_echo :: u32
  p_must_terminate :: u32
  p_detect_time :: u64
  p_pollbit_on :: u32
  p_peer_addr :: u32
  p_peer_port :: u16
  p_received_min_rx_interval :: u32
  p_conn :: "conn option"

definition BfdSession :: "u32 \<Rightarrow> u16 \<Rightarrow> cpp_sess" where
  "BfdSession ipaddr port =
     \<lparr>p_session_state = BFDSTATE_DOWN, p_remote_session_state = BFDSTATE_DOWN, p_local_discr = 0,
      p_remote_discr = BFD_OFF, p_local_diag = BFD_OFF,
      p_desired_min_tx_interval = BFDDFLT_DESIREDMINTX,
      p_required_min_rx_interval = BFDDFLT_REQUIREDMINRX, p_remote_min_rx_interval = BFD_OFF,
      p_demand_mode = BFD_OFF, p_remote_demand_mode = BFD_OFF,
      p_detect_mult = BFDDFLT_DETECTMULT, p_auth_type = BFD_OFF, p_rcv_auth_seq = BFD_OFF,
      p_xmit_auth_seq = BFD_OFF, p_auth_seq_known = BFD_OFF, p_must_cease_tx_echo = BFD_OFF,
      p_must_terminate = BFD_OFF, p_detect_time = 0, p_pollbit_on = BFD_OFF,
      p_peer_addr = ipaddr, p_peer_port = port, p_received_min_rx_interval = BFD_OFF,
      p_conn = None\<rparr>"

definition MAKE_ULL :: "u32 \<Rightarrow> u16 \<Rightarrow> u64" where
  "MAKE_ULL hi lo =
     push_bit 32 (ucast hi AND 0xffffffff) OR (ucast lo AND 0xffffffff)"

record cpp_manager =
  bfd_sessions :: "(u64, cpp_sess) std_map"
  cpp_discriminator_incr :: u64
  cpp_sent :: "(endpoint \<times> bytes) list"

definition subscribe_unsafe :: "u32 \<Rightarrow> u16 \<Rightarrow> cpp_manager \<Rightarrow> cpp_manager" where
  "subscribe_unsafe ipaddr port m =
     m\<lparr>bfd_sessions := map_put (MAKE_ULL ipaddr port) (BfdSession ipaddr port) (bfd_sessions m)\<rparr>"

definition unsubscribe :: "u32 \<Rightarrow> u16 \<Rightarrow> cpp_manager \<Rightarrow> cpp_manager" where
  "unsubscribe ipaddr port m =
     (case map_find (MAKE_ULL ipaddr port) (bfd_sessions m) of
        Some _ \<Rightarrow> m\<lparr>bfd_sessions := map_erase (MAKE_ULL ipaddr port) (bfd_sessions m)\<rparr>
      | None \<Rightarrow> m)"

definition find_unsafe :: "u32 \<Rightarrow> u16 \<Rightarrow> cpp_manager \<Rightarrow> cpp_sess option" where
  "find_unsafe ipaddr port m = map_find (MAKE_ULL ipaddr port) (bfd_sessions m)"

text \<open>The session changed in place through the pointer of \<open>find_unsafe\<close>.\<close>

definition update_session :: "u32 \<Rightarrow> u16 \<Rightarrow> cpp_sess \<Rightarrow> cpp_manager \<Rightarrow> cpp_manager" where
  "update_session ipaddr port sess m =
     m\<lparr>bfd_sessions := map_put (MAKE_ULL ipaddr port) sess (bfd_sessions m)\<rparr>"

section \<open>Sending\<close>

definition cpp_packet :: "cpp_sess \<Rightarrow> bfd" where
  "cpp_packet psess = bfd_zero
     \<lparr>vers := BFD_VERSION, diag := ucast (p_local_diag psess),
      state := (if p_local_discr psess \<noteq> 0 then ucast (p_session_state psess) else BFDSTATE_DOWN),
      poll := BFD_OFF,
      final := (if p_pollbit_on psess = BFD_ON then BFD_ON else BFD_OFF),
      cpi := BFD_ON, auth := BFD_OFF, demand := BFD_OFF, multipoint := BFD_OFF,
      pdetect_mult := ucast (p_detect_mult psess), plength := 24,
      my_discr := p_local_discr psess, your_discr := p_remote_discr psess,
      min_tx_int := htonl (p_desired_min_tx_interval psess),
      min_rx_int := htonl (p_required_min_rx_interval psess),
      min_echo_rx_int := htonl (p_received_min_rx_interval psess)\<rparr>"

definition transmit_unsafe :: "cpp_sess \<Rightarrow> cpp_manager \<Rightarrow> cpp_manager" where
  "transmit_unsafe psess m =
     (let bfd = cpp_packet psess in
      if (your_discr bfd = 0 \<or> my_discr bfd = 0) \<and> state bfd \<noteq> BFDSTATE_DOWN then m
      else case p_conn psess of
          Some c \<Rightarrow> m\<lparr>cpp_sent := cpp_sent m @ [(conn_udpendp c, encode_bfd bfd)]\<rparr>
        | None \<Rightarrow> m)"

text \<open>One round of \<open>on_bfd_thread\<close>, at the clock reading \<open>curms\<close>.\<close>

definition thread_sends :: "u64 \<Rightarrow> cpp_sess \<Rightarrow> bool" where
  "thread_sends curms sess \<longleftrightarrow>
     p_detect_time sess > curms \<and> p_must_cease_tx_echo sess = BFD_OFF \<and>
     p_must_terminate sess = BFD_OFF \<and> p_remote_discr sess \<noteq> 0 \<and>
     p_remote_min_rx_interval sess \<noteq> 0"

definition thread_round :: "u64 \<Rightarrow> cpp_manager \<Rightarrow> cpp_manager" where
  "thread_round curms m =
     fold (\<lambda>(_, sess) m. if thread_sends curms sess then transmit_unsafe sess m else m)
       (bfd_sessions m) m"

section \<open>Receiving\<close>

text \<open>
  The two critical sections of \<open>on_bfd_recieved\<close>. The first one answers a packet that names a
  discriminator of ours from an unknown peer and says whether the second one runs.
\<close>

definition recv_section1 :: "endpoint \<Rightarrow> bfd \<Rightarrow> cpp_manager \<Rightarrow> bool \<times> cpp_manager" where
  "recv_section1 peer bfd m =
     (if your_discr bfd \<noteq> BFD_OFF then
        case find_unsafe (ep_addr peer) (ep_port peer) m of
          None \<Rightarrow>
            (let m = subscribe_unsafe (ep_addr peer) (ep_port peer) m in
             case find_unsafe (ep_addr peer) (ep_port peer) m of
               Some psess \<Rightarrow>
                 (let psess = psess\<lparr>p_remote_discr := my_discr bfd,
                        p_local_discr := your_discr bfd, p_session_state := BFDSTATE_DOWN\<rparr>
                  in (False, transmit_unsafe psess
                               (update_session (ep_addr peer) (ep_port peer) psess m)))
             | None \<Rightarrow> (False, m))
        | Some _ \<Rightarrow> (True, m)
      else (True, m))"

definition recv_find :: "endpoint \<Rightarrow> bfd \<Rightarrow> cpp_manager \<Rightarrow> cpp_sess option \<times> cpp_manager" where
  "recv_find peer bfd m =
     (case find_unsafe (ep_addr peer) (ep_port peer) m of
        Some psess \<Rightarrow> (Some psess, m)
      | None \<Rightarrow>
          if state bfd = BFDSTATE_DOWN then
            (let m = subscribe_unsafe (ep_addr peer) (ep_port peer) m
             in (find_unsafe (ep_addr peer) (ep_port peer) m, m))
          else (None, m))"

text \<open>
  The connection of a session that has none: a socket bound to any local address and the peer's
  port, sending to the peer's BFD port, and a fresh discriminator.
\<close>

definition cpp_next_discr :: "u64 \<Rightarrow> u32 \<times> u64" where
  "cpp_next_discr c = (htonl (ucast (c + 1)), if c + 1 > 0x7fffffff then 0 else c + 1)"

definition cpp_connect ::
  "(endpoint \<Rightarrow> bool) \<Rightarrow> endpoint \<Rightarrow> cpp_sess \<Rightarrow> u64 \<Rightarrow> (cpp_sess \<times> u64) option" where
  "cpp_connect bind_ok peer psess c =
     (case p_conn psess of
        Some _ \<Rightarrow> Some (psess, c)
      | None \<Rightarrow>
          (let endp_l = \<lparr>ep_addr = 0, ep_port = ep_port peer\<rparr>;
               endp_r = peer\<lparr>ep_port := BFDDFLT_UDPPORT\<rparr> in
           if bind_ok endp_l then
             (let (dscr, c) = cpp_next_discr c in
              Some (psess\<lparr>p_conn := Some \<lparr>conn_bound = endp_l, conn_udpendp = endp_r\<rparr>,
                          p_local_discr := dscr\<rparr>, c))
           else None))"

definition cpp_absorb :: "u64 \<Rightarrow> bfd \<Rightarrow> cpp_sess \<Rightarrow> cpp_sess" where
  "cpp_absorb curms bfd psess =
     (let psess = psess
        \<lparr>p_remote_session_state := ucast (state bfd),
         p_remote_demand_mode := ucast (demand bfd),
         p_remote_discr := my_discr bfd,
         p_remote_min_rx_interval := min_rx_int bfd,
         p_received_min_rx_interval := min (p_received_min_rx_interval psess) (min_rx_int bfd)\<rparr>;
        psess = (if final bfd \<noteq> 0 then psess\<lparr>p_must_terminate := BFD_ON\<rparr> else psess)
      in psess\<lparr>p_detect_time := curms + ucast (ucast (pdetect_mult bfd) *
                 max (min_rx_int bfd) (p_desired_min_tx_interval psess) :: u32)\<rparr>)"

definition cpp_session_down :: "cpp_sess \<Rightarrow> cpp_sess" where
  "cpp_session_down psess =
     psess\<lparr>p_local_diag := BFDDIAG_NEIGHBORSAIDDOWN, p_session_state := BFDSTATE_DOWN\<rparr>"

definition cpp_state_machine :: "cpp_sess \<Rightarrow> cpp_sess" where
  "cpp_state_machine psess =
     (if p_remote_session_state psess = BFDSTATE_ADMINDOWN then
        (if p_session_state psess \<noteq> BFDSTATE_DOWN then cpp_session_down psess else psess)
      else if p_session_state psess = BFDSTATE_DOWN then
        (if p_remote_session_state psess = BFDSTATE_DOWN
           then psess\<lparr>p_session_state := BFDSTATE_INIT\<rparr>
         else if p_remote_session_state psess = BFDSTATE_INIT
           then psess\<lparr>p_session_state := BFDSTATE_UP\<rparr>
         else psess)
      else if p_session_state psess = BFDSTATE_INIT then
        (if p_remote_session_state psess = BFDSTATE_INIT \<or>
            p_remote_session_state psess = BFDSTATE_UP
         then psess\<lparr>p_session_state := BFDSTATE_UP\<rparr> else psess)
      else
        (if p_remote_session_state psess = BFDSTATE_DOWN then cpp_session_down psess else psess))"

definition recv_section2 ::
  "(endpoint \<Rightarrow> bool) \<Rightarrow> u64 \<Rightarrow> endpoint \<Rightarrow> bfd \<Rightarrow> cpp_manager \<Rightarrow> cpp_manager option" where
  "recv_section2 bind_ok curms peer bfd m =
     (let (r, m) = recv_find peer bfd m in
      case r of
        None \<Rightarrow> Some m
      | Some psess \<Rightarrow> do {
          (psess, c) \<leftarrow> cpp_connect bind_ok peer psess (cpp_discriminator_incr m);
          let m = m\<lparr>cpp_discriminator_incr := c\<rparr>;
          let psess = cpp_absorb curms bfd psess;
          if p_session_state psess = BFDSTATE_ADMINDOWN then
            Some (update_session (ep_addr peer) (ep_port peer) psess m)
          else do {
            let psess = cpp_state_machine psess;
            if poll bfd = BFD_ON then do {
              let psess = psess\<lparr>p_pollbit_on := BFD_ON\<rparr>;
              Some (transmit_unsafe psess (update_session (ep_addr peer) (ep_port peer) psess m))
            } else Some (update_session (ep_addr peer) (ep_port peer) psess m)
          }
        })"

definition on_bfd_recieved ::
  "(endpoint \<Rightarrow> bool) \<Rightarrow> u64 \<Rightarrow> endpoint \<Rightarrow> bfd \<Rightarrow> cpp_manager \<Rightarrow> cpp_manager option" where
  "on_bfd_recieved bind_ok curms peer bfd m =
     (let (go_on, m) = recv_section1 peer bfd m in
      if go_on then recv_section2 bind_ok curms peer bfd m else Some m)"

definition server_recieve ::
  "(endpoint \<Rightarrow> bool) \<Rightarrow> u64 \<Rightarrow> bool \<Rightarrow> endpoint \<Rightarrow> bytes \<Rightarrow> cpp_manager \<Rightarrow> cpp_manager option" where
  "server_recieve bind_ok curms err peer pkt m =
     (if \<not> err \<and> bfd_valid (length pkt) (decode_bfd pkt)
      then on_bfd_recieved bind_ok curms peer (decode_bfd pkt) m else Some m)"

end
