(* ===== verification/Bfd_Manager.thy ===== *)
theory Bfd_Manager
  imports Bfd_Cpp
begin

text \<open>
  What the C++ service promises: its state machine is the table of RFC 5880, its sessions are
  endpoints of the link of \<open>Bfd_Protocol\<close> (interpretation \<open>cpp_service\<close>), a received packet
  changes the session of its sender only and does what the map-level specification
  \<open>peer_after\<close> says, and under every interleaving of its threads each packet it sends passes the
  validity checks of a receiver. The service itself, with its receiver, its table and what its
  sending thread really transmits, is an endpoint of the rounds of \<open>Bfd_Protocol\<close> (\<open>cpp_peer\<close>).
\<close>

section \<open>Keys\<close>

lemma bit_MAKE_ULL:
  "bit (MAKE_ULL a p) i \<longleftrightarrow> (if i < 32 then bit p i else i < 64 \<and> bit a (i - 32))"
proof -
  have m32: "(0xffffffff :: u64) = mask 32" by (simp add: mask_eq_exp_minus_1)
  show ?thesis
    unfolding MAKE_ULL_def m32
    by (auto simp: bit_or_iff bit_and_iff bit_push_bit_iff bit_ucast_iff bit_mask_iff
        dest: bit_imp_le_length)
qed

lemma MAKE_ULL_inj: "MAKE_ULL a p = MAKE_ULL b q \<longleftrightarrow> a = b \<and> p = q"
proof
  assume eq: "MAKE_ULL a p = MAKE_ULL b q"
  have "bit p i = bit q i" for i
    using arg_cong [OF eq, of "\<lambda>x. bit x i"] by (cases "i < 16")
      (auto simp: bit_MAKE_ULL dest: bit_imp_le_length)
  moreover have "bit a i = bit b i" for i
    using arg_cong [OF eq, of "\<lambda>x. bit x (i + 32)"] by (cases "i < 32")
      (auto simp: bit_MAKE_ULL dest: bit_imp_le_length)
  ultimately show "a = b \<and> p = q" by (simp add: bit_eq_iff)
qed simp

definition lookup :: "cpp_manager \<Rightarrow> endpoint \<Rightarrow> cpp_sess option" where
  "lookup m peer = find_unsafe (ep_addr peer) (ep_port peer) m"

definition table_ok :: "cpp_manager \<Rightarrow> bool" where
  "table_ok m \<longleftrightarrow> map_ok (bfd_sessions m)"

lemma endpoint_eq: "(p :: endpoint) = q \<longleftrightarrow> ep_addr p = ep_addr q \<and> ep_port p = ep_port q"
  by (cases p; cases q) simp

lemma lookup_update:
  "table_ok m \<Longrightarrow> lookup (update_session (ep_addr p) (ep_port p) sess m) = (lookup m)(p := Some sess)"
  by (rule ext)
     (auto simp: lookup_def update_session_def find_unsafe_def table_ok_def std_map.find_put
        MAKE_ULL_inj endpoint_eq)

lemma lookup_subscribe:
  "table_ok m \<Longrightarrow> lookup (subscribe_unsafe (ep_addr p) (ep_port p) m) =
     (lookup m)(p := Some (BfdSession (ep_addr p) (ep_port p)))"
  by (rule ext)
     (auto simp: lookup_def subscribe_unsafe_def find_unsafe_def table_ok_def std_map.find_put
        MAKE_ULL_inj endpoint_eq)

lemma lookup_unsubscribe:
  "table_ok m \<Longrightarrow> lookup (unsubscribe (ep_addr p) (ep_port p) m) = (lookup m)(p := None)"
  by (rule ext)
     (auto simp: lookup_def unsubscribe_def find_unsafe_def table_ok_def std_map.find_erase
        MAKE_ULL_inj endpoint_eq split: option.splits)

lemma table_ok_simps [simp]:
  "table_ok m \<Longrightarrow> table_ok (update_session a p sess m)"
  "table_ok m \<Longrightarrow> table_ok (subscribe_unsafe a p m)"
  "table_ok m \<Longrightarrow> table_ok (unsubscribe a p m)"
  "table_ok (transmit_unsafe sess m) = table_ok m"
  "table_ok (m\<lparr>cpp_discriminator_incr := c\<rparr>) = table_ok m"
  by (auto simp: table_ok_def update_session_def subscribe_unsafe_def unsubscribe_def
      transmit_unsafe_def Let_def std_map.ok_put std_map.ok_erase split: option.splits)

lemma lookup_simps [simp]:
  "lookup (transmit_unsafe sess m) = lookup m"
  "lookup (m\<lparr>cpp_discriminator_incr := c\<rparr>) = lookup m"
  by (rule ext, auto simp: lookup_def find_unsafe_def transmit_unsafe_def Let_def
      split: option.splits)+

lemma incr_simps [simp]:
  "cpp_discriminator_incr (transmit_unsafe sess m) = cpp_discriminator_incr m"
  "cpp_discriminator_incr (update_session a p s m) = cpp_discriminator_incr m"
  "cpp_discriminator_incr (subscribe_unsafe a p m) = cpp_discriminator_incr m"
  "cpp_discriminator_incr (unsubscribe a p m) = cpp_discriminator_incr m"
  by (auto simp: transmit_unsafe_def update_session_def subscribe_unsafe_def unsubscribe_def
      Let_def split: option.splits)

lemma sent_simps [simp]:
  "cpp_sent (update_session a p s m) = cpp_sent m"
  "cpp_sent (subscribe_unsafe a p m) = cpp_sent m"
  "cpp_sent (unsubscribe a p m) = cpp_sent m"
  by (auto simp: update_session_def subscribe_unsafe_def unsubscribe_def split: option.splits)

section \<open>The session as an endpoint\<close>

text \<open>The update of a connected session by one valid packet (\<open>recv_section2\<close> without the reply).\<close>

definition cpp_recv :: "u64 \<Rightarrow> bfd \<Rightarrow> cpp_sess \<Rightarrow> cpp_sess" where
  "cpp_recv now bfd psess =
     (let psess = cpp_absorb now bfd psess in
      if p_session_state psess = BFDSTATE_ADMINDOWN then psess
      else let psess = cpp_state_machine psess in
        if poll bfd = BFD_ON then psess\<lparr>p_pollbit_on := BFD_ON\<rparr> else psess)"

definition cpp_state :: "cpp_sess \<Rightarrow> bfd_state" where
  "cpp_state psess = to_state (p_session_state psess)"

definition cpp_wf :: "cpp_sess \<Rightarrow> bool" where
  "cpp_wf psess \<longleftrightarrow> p_session_state psess \<in> {1, 2, 3} \<and> p_local_discr psess \<noteq> 0"

lemma cpp_absorb_simps [simp]:
  "p_session_state (cpp_absorb now b s) = p_session_state s"
  "p_remote_session_state (cpp_absorb now b s) = ucast (state b)"
  "p_local_discr (cpp_absorb now b s) = p_local_discr s"
  "p_remote_discr (cpp_absorb now b s) = my_discr b"
  "p_detect_mult (cpp_absorb now b s) = p_detect_mult s"
  "p_conn (cpp_absorb now b s) = p_conn s"
  "p_peer_addr (cpp_absorb now b s) = p_peer_addr s"
  "p_peer_port (cpp_absorb now b s) = p_peer_port s"
  by (simp_all add: cpp_absorb_def Let_def)

lemma cpp_state_machine_simps [simp]:
  "p_local_discr (cpp_state_machine s) = p_local_discr s"
  "p_remote_discr (cpp_state_machine s) = p_remote_discr s"
  "p_detect_mult (cpp_state_machine s) = p_detect_mult s"
  "p_conn (cpp_state_machine s) = p_conn s"
  "p_peer_addr (cpp_state_machine s) = p_peer_addr s"
  "p_peer_port (cpp_state_machine s) = p_peer_port s"
  by (simp_all add: cpp_state_machine_def cpp_session_down_def)

lemma p_session_state_machine:
  "p_session_state (cpp_state_machine s) =
     (if p_remote_session_state s = 0 then 1
      else if p_session_state s = 1 then
        (if p_remote_session_state s = 1 then 2 else if p_remote_session_state s = 2 then 3 else 1)
      else if p_session_state s = 2 then
        (if p_remote_session_state s = 2 \<or> p_remote_session_state s = 3 then 3 else 2)
      else if p_remote_session_state s = 1 then 1 else p_session_state s)"
  by (simp add: cpp_state_machine_def cpp_session_down_def)

lemma cpp_recv_simps [simp]:
  "p_local_discr (cpp_recv now b s) = p_local_discr s"
  "p_detect_mult (cpp_recv now b s) = p_detect_mult s"
  "p_conn (cpp_recv now b s) = p_conn s"
  "p_peer_addr (cpp_recv now b s) = p_peer_addr s"
  "p_peer_port (cpp_recv now b s) = p_peer_port s"
  by (simp_all add: cpp_recv_def Let_def)

lemma p_session_state_recv:
  "p_session_state (cpp_recv now b s) =
     (if p_session_state s = 0 then 0
      else p_session_state (cpp_state_machine (s\<lparr>p_remote_session_state := ucast (state b)\<rparr>)))"
  by (simp add: cpp_recv_def Let_def p_session_state_machine)

lemma cpp_wf_recv: "cpp_wf s \<Longrightarrow> cpp_wf (cpp_recv now b s)"
  by (auto simp: cpp_wf_def p_session_state_recv p_session_state_machine)

lemma cpp_state_recv: "cpp_state (cpp_recv now b s) = rfc_next (cpp_state s) (to_state (state b))"
  by (cases "state b" rule: word2_cases)
     (auto simp: cpp_state_def p_session_state_recv p_session_state_machine to_state_def)

lemma cpp_packet_state: "cpp_wf s \<Longrightarrow> to_state (state (cpp_packet s)) = cpp_state s"
  by (auto simp: cpp_wf_def cpp_state_def cpp_packet_def)

lemma cpp_packet_up:
  "to_state (state (cpp_packet s)) \<in> {Init, Up} \<Longrightarrow> cpp_state s \<in> {Init, Up}"
  by (auto simp: cpp_packet_def cpp_state_def to_state_def bfd_zero_def split: if_splits)

interpretation cpp_service: bfd_fsm cpp_recv cpp_packet cpp_state cpp_wf
proof (unfold_locales, goal_cases)
  case (1 p)
  then show ?case by (rule cpp_packet_up)
next
  case (2 now b p)
  then show ?case
    by (cases "cpp_state p"; cases "to_state (state b)") (auto simp: cpp_state_recv)
next
  case (3 p now b)
  then show ?case by (rule cpp_wf_recv)
next
  case (4 p)
  then show ?case by (rule cpp_packet_state)
next
  case (5 p)
  then show ?case by (auto simp: cpp_wf_def cpp_state_def)
next
  case (6 p b now)
  then show ?case by (simp add: cpp_state_recv)
next
  case (7 p b now)
  then show ?case by (simp add: cpp_state_recv)
qed

section \<open>One received packet\<close>

text \<open>
  The specification on the map from peers to sessions: the session of the sender after the packet
  (\<open>None\<close> when there is none) and the discriminator counter; \<open>None\<close> when the socket cannot be bound.
\<close>

definition session_after ::
  "(endpoint \<Rightarrow> bool) \<Rightarrow> u64 \<Rightarrow> endpoint \<Rightarrow> bfd \<Rightarrow> cpp_sess \<Rightarrow> u64 \<Rightarrow>
     (cpp_sess option \<times> u64) option" where
  "session_after bind_ok now peer bfd s c =
     map_option (\<lambda>(s, c). (Some (cpp_recv now bfd s), c)) (cpp_connect bind_ok peer s c)"

definition peer_after ::
  "(endpoint \<Rightarrow> bool) \<Rightarrow> u64 \<Rightarrow> endpoint \<Rightarrow> bfd \<Rightarrow> cpp_sess option \<Rightarrow> u64 \<Rightarrow>
     (cpp_sess option \<times> u64) option" where
  "peer_after bind_ok now peer bfd so c =
     (let fresh = BfdSession (ep_addr peer) (ep_port peer) in
      case so of
        Some s \<Rightarrow> session_after bind_ok now peer bfd s c
      | None \<Rightarrow>
          if your_discr bfd \<noteq> 0 then
            Some (Some (fresh\<lparr>p_remote_discr := my_discr bfd,
                              p_local_discr := your_discr bfd\<rparr>), c)
          else if to_state (state bfd) = Down then session_after bind_ok now peer bfd fresh c
          else Some (None, c))"

definition refines_peer ::
  "endpoint \<Rightarrow> cpp_manager \<Rightarrow> (cpp_sess option \<times> u64) option \<Rightarrow> cpp_manager option \<Rightarrow> bool" where
  "refines_peer peer m spec r \<longleftrightarrow>
     (case spec of
        None \<Rightarrow> r = None
      | Some (so, c) \<Rightarrow> \<exists>m'. r = Some m' \<and> table_ok m' \<and>
          lookup m' = (lookup m)(peer := so) \<and> cpp_discriminator_incr m' = c)"

lemma section1_known:
  "your_discr b = 0 \<or> lookup m peer \<noteq> None \<Longrightarrow> recv_section1 peer b m = (True, m)"
  by (auto simp: recv_section1_def lookup_def split: option.splits)

lemma section1_unknown:
  assumes "your_discr b \<noteq> 0" "lookup m peer = None" "table_ok m"
  obtains m' where "recv_section1 peer b m = (False, m')" and "table_ok m'"
    and "lookup m' = (lookup m)(peer := Some ((BfdSession (ep_addr peer) (ep_port peer))
           \<lparr>p_remote_discr := my_discr b, p_local_discr := your_discr b\<rparr>))"
    and "cpp_discriminator_incr m' = cpp_discriminator_incr m"
proof -
  let ?m = "subscribe_unsafe (ep_addr peer) (ep_port peer) m"
  let ?s = "(BfdSession (ep_addr peer) (ep_port peer))
    \<lparr>p_remote_discr := my_discr b, p_local_discr := your_discr b\<rparr>"
  have "find_unsafe (ep_addr peer) (ep_port peer) ?m = Some (BfdSession (ep_addr peer) (ep_port peer))"
    using lookup_subscribe [OF assms(3), of peer] by (metis lookup_def fun_upd_same)
  then have "recv_section1 peer b m =
      (False, transmit_unsafe ?s (update_session (ep_addr peer) (ep_port peer) ?s ?m))"
    using assms(1,2)
    by (simp add: recv_section1_def lookup_def Let_def) (simp add: BfdSession_def)
  with that show thesis
    using assms(3) by (simp add: lookup_update lookup_subscribe)
qed

text \<open>The second section for a session that is there.\<close>

definition section2_result :: "u64 \<Rightarrow> endpoint \<Rightarrow> bfd \<Rightarrow> cpp_sess \<Rightarrow> cpp_manager \<Rightarrow> cpp_manager" where
  "section2_result now peer b s m =
     (let m' = update_session (ep_addr peer) (ep_port peer) (cpp_recv now b s) m
      in if p_session_state s \<noteq> 0 \<and> poll b = 1 then transmit_unsafe (cpp_recv now b s) m' else m')"

lemma section2_result_simps [simp]:
  "table_ok m \<Longrightarrow> table_ok (section2_result now peer b s m)"
  "table_ok m \<Longrightarrow> lookup (section2_result now peer b s m) = (lookup m)(peer := Some (cpp_recv now b s))"
  "cpp_discriminator_incr (section2_result now peer b s m) = cpp_discriminator_incr m"
  by (simp_all add: section2_result_def Let_def lookup_update)

lemma section2_step:
  assumes "recv_find peer b m = (Some s, m1)"
  shows "recv_section2 bind_ok now peer b m =
    map_option (\<lambda>(s, c). section2_result now peer b s (m1\<lparr>cpp_discriminator_incr := c\<rparr>))
      (cpp_connect bind_ok peer s (cpp_discriminator_incr m1))"
proof (cases "cpp_connect bind_ok peer s (cpp_discriminator_incr m1)")
  case None
  with assms show ?thesis by (simp add: recv_section2_def)
next
  case (Some sc)
  with assms show ?thesis
    by (cases sc) (simp add: recv_section2_def section2_result_def cpp_recv_def Let_def)
qed

lemma recv_find_eq:
  assumes "table_ok m"
  shows "recv_find peer b m =
    (case lookup m peer of
       Some s \<Rightarrow> (Some s, m)
     | None \<Rightarrow> if state b = 1 then (Some (BfdSession (ep_addr peer) (ep_port peer)),
                                  subscribe_unsafe (ep_addr peer) (ep_port peer) m)
              else (None, m))"
proof -
  let ?m = "subscribe_unsafe (ep_addr peer) (ep_port peer) m"
  have "find_unsafe (ep_addr peer) (ep_port peer) ?m = Some (BfdSession (ep_addr peer) (ep_port peer))"
    using lookup_subscribe [OF assms, of peer] by (metis lookup_def fun_upd_same)
  then show ?thesis by (simp add: recv_find_def lookup_def split: option.split)
qed

lemma section2_refines:
  assumes "table_ok m1" and "recv_find peer b m = (Some s, m1)"
    and "lookup m1 = (lookup m)(peer := so)" "cpp_discriminator_incr m1 = cpp_discriminator_incr m"
  shows "refines_peer peer m (session_after bind_ok now peer b s (cpp_discriminator_incr m))
    (recv_section2 bind_ok now peer b m)"
proof (cases "cpp_connect bind_ok peer s (cpp_discriminator_incr m)")
  case None
  with section2_step [OF assms(2)] assms(4) show ?thesis
    by (simp add: refines_peer_def session_after_def)
next
  case (Some sc)
  with section2_step [OF assms(2)] assms(1,3,4) show ?thesis
    by (cases sc) (auto simp: refines_peer_def session_after_def)
qed

lemma recv_refines:
  assumes ok: "table_ok m"
  shows "refines_peer peer m
    (peer_after bind_ok now peer b (lookup m peer) (cpp_discriminator_incr m))
    (on_bfd_recieved bind_ok now peer b m)"
proof (cases "lookup m peer")
  case (Some s)
  then have f: "recv_find peer b m = (Some s, m)" using ok by (simp add: recv_find_eq)
  have "(lookup m)(peer := Some s) = lookup m" using Some by auto
  with Some section2_refines [OF ok f, where so = "Some s"] show ?thesis
    by (simp add: on_bfd_recieved_def section1_known peer_after_def)
next
  case None
  let ?fresh = "BfdSession (ep_addr peer) (ep_port peer)"
  let ?m = "subscribe_unsafe (ep_addr peer) (ep_port peer) m"
  consider (reply) "your_discr b \<noteq> 0" | (new) "your_discr b = 0" "state b = 1"
    | (drop) "your_discr b = 0" "state b \<noteq> 1" by blast
  then show ?thesis
  proof cases
    case reply
    with None ok show ?thesis
      by (auto simp: peer_after_def on_bfd_recieved_def refines_peer_def elim!: section1_unknown)
  next
    case new
    with None ok have f: "recv_find peer b m = (Some ?fresh, ?m)" by (simp add: recv_find_eq)
    have "table_ok ?m" using ok by simp
    from section2_refines [OF this f, where so = "Some ?fresh"] None new ok show ?thesis
      by (simp add: on_bfd_recieved_def section1_known peer_after_def lookup_subscribe)
  next
    case drop
    with None ok have "recv_find peer b m = (None, m)" by (simp add: recv_find_eq)
    then have "recv_section2 bind_ok now peer b m = Some m" by (simp add: recv_section2_def)
    moreover have "(lookup m)(peer := None) = lookup m" using None by auto
    moreover have "to_state (state b) \<noteq> Down" using drop by simp
    ultimately show ?thesis using None drop ok
      by (auto simp: on_bfd_recieved_def section1_known peer_after_def refines_peer_def Let_def)
  qed
qed

section \<open>Interleavings\<close>

text \<open>
  The threads of the service at the grain of the mutex. The receiving thread is waiting for a
  packet or stands between its two critical sections; the sending thread and the callers of
  \<open>subscribe\<close> and \<open>unsubscribe\<close> may take the mutex at any time.
\<close>

datatype recv_phase = Waiting | Between endpoint bfd

inductive cpp_step ::
  "(endpoint \<Rightarrow> bool) \<Rightarrow> cpp_manager \<times> recv_phase \<Rightarrow> cpp_manager \<times> recv_phase \<Rightarrow> bool"
  for bind_ok :: "endpoint \<Rightarrow> bool"
where
  first: "bfd_valid 24 b \<Longrightarrow> recv_section1 peer b m = (True, m') \<Longrightarrow>
    cpp_step bind_ok (m, Waiting) (m', Between peer b)"
| reply: "bfd_valid 24 b \<Longrightarrow> recv_section1 peer b m = (False, m') \<Longrightarrow>
    cpp_step bind_ok (m, Waiting) (m', Waiting)"
| second: "recv_section2 bind_ok now peer b m = Some m' \<Longrightarrow>
    cpp_step bind_ok (m, Between peer b) (m', Waiting)"
| send: "cpp_step bind_ok (m, ph) (thread_round curms m, ph)"
| subscribe: "cpp_step bind_ok (m, ph) (subscribe_unsafe a p m, ph)"
| unsubscribe: "cpp_step bind_ok (m, ph) (unsubscribe a p m, ph)"

definition cpp_init :: cpp_manager where
  "cpp_init = \<lparr>bfd_sessions = [], cpp_discriminator_incr = 0, cpp_sent = []\<rparr>"

inductive cpp_reachable :: "(endpoint \<Rightarrow> bool) \<Rightarrow> cpp_manager \<times> recv_phase \<Rightarrow> bool"
  for bind_ok :: "endpoint \<Rightarrow> bool"
where
  init: "cpp_reachable bind_ok (cpp_init, Waiting)"
| step: "cpp_reachable bind_ok c \<Longrightarrow> cpp_step bind_ok c c' \<Longrightarrow> cpp_reachable bind_ok c'"

definition sess_ok :: "u64 \<Rightarrow> cpp_sess \<Rightarrow> bool" where
  "sess_ok k s \<longleftrightarrow> k = MAKE_ULL (p_peer_addr s) (p_peer_port s) \<and>
     p_session_state s \<in> {1, 2, 3} \<and> p_detect_mult s = 3 \<and>
     (\<forall>c. p_conn s = Some c \<longrightarrow> p_local_discr s \<noteq> 0 \<and>
        conn_udpendp c = \<lparr>ep_addr = p_peer_addr s, ep_port = BFDDFLT_UDPPORT\<rparr>)"

definition sent_ok :: "endpoint \<times> bytes \<Rightarrow> bool" where
  "sent_ok x \<longleftrightarrow> ep_port (fst x) = BFDDFLT_UDPPORT \<and>
     bfd_valid (length (snd x)) (decode_bfd (snd x))"

definition manager_inv :: "cpp_manager \<Rightarrow> bool" where
  "manager_inv m \<longleftrightarrow> std_map.all_entries sess_ok (bfd_sessions m) \<and>
     cpp_discriminator_incr m \<le> 0x7fffffff \<and> (\<forall>x\<in>set (cpp_sent m). sent_ok x)"

lemma sess_ok_fresh: "sess_ok (MAKE_ULL a p) (BfdSession a p)"
  by (simp add: sess_ok_def BfdSession_def BFDDFLT_DETECTMULT_def)

lemma sess_ok_recv: "sess_ok k s \<Longrightarrow> sess_ok k (cpp_recv now b s)"
  by (auto simp: sess_ok_def p_session_state_recv p_session_state_machine)

lemma cpp_packet_fields [simp]:
  "multipoint (cpp_packet s) = 0" "vers (cpp_packet s) = 1" "auth (cpp_packet s) = 0"
  "my_discr (cpp_packet s) = p_local_discr s" "your_discr (cpp_packet s) = p_remote_discr s"
  "pdetect_mult (cpp_packet s) = ucast (p_detect_mult s)"
  by (simp_all add: cpp_packet_def bfd_zero_def)

lemma manager_inv_transmit:
  assumes "manager_inv m" and "sess_ok k s"
  shows "manager_inv (transmit_unsafe s m)"
proof -
  have "sent_ok (conn_udpendp c, encode_bfd (cpp_packet s))"
    if "p_conn s = Some c" and "p_remote_discr s = 0 \<longrightarrow> state (cpp_packet s) = 1" for c
    using that assms(2) by (auto simp: sent_ok_def sess_ok_def decode_encode_bfd bfd_valid_def)
  with assms show ?thesis
    by (auto simp: manager_inv_def transmit_unsafe_def Let_def sess_ok_def split: option.split)
qed

lemma manager_inv_update:
  "manager_inv m \<Longrightarrow> sess_ok (MAKE_ULL a p) s \<Longrightarrow> manager_inv (update_session a p s m)"
  by (simp add: manager_inv_def update_session_def std_map.all_entries_put)

lemma manager_inv_subscribe: "manager_inv m \<Longrightarrow> manager_inv (subscribe_unsafe a p m)"
  by (simp add: manager_inv_def subscribe_unsafe_def std_map.all_entries_put sess_ok_fresh)

lemma manager_inv_unsubscribe: "manager_inv m \<Longrightarrow> manager_inv (unsubscribe a p m)"
  by (auto simp: manager_inv_def unsubscribe_def std_map.all_entries_erase split: option.split)

lemma manager_inv_table: "manager_inv m \<Longrightarrow> table_ok m"
  by (simp add: manager_inv_def table_ok_def std_map.all_entries_def)

lemma manager_inv_lookup:
  "manager_inv m \<Longrightarrow> lookup m peer = Some s \<Longrightarrow> sess_ok (MAKE_ULL (ep_addr peer) (ep_port peer)) s"
  by (auto simp: manager_inv_def lookup_def find_unsafe_def dest: std_map.all_entries_find)

lemma manager_inv_round: "manager_inv m \<Longrightarrow> manager_inv (thread_round curms m)"
proof -
  assume inv: "manager_inv m"
  have "manager_inv (fold (\<lambda>(_, s) m. if thread_sends curms s then transmit_unsafe s m else m) l m')"
    if "manager_inv m'" and "\<forall>(k, s)\<in>set l. sess_ok k s" for l m'
    using that
  proof (induction l arbitrary: m')
    case (Cons ks l)
    then show ?case using manager_inv_transmit [of m' "fst ks" "snd ks"]
      by (auto simp: split_beta)
  qed simp
  moreover have "\<forall>(k, s)\<in>set (bfd_sessions m). sess_ok k s"
    using inv by (auto simp: manager_inv_def std_map.all_entries_def map_find_in_set)
  ultimately show ?thesis using inv by (simp add: thread_round_def)
qed

lemma manager_inv_section1:
  assumes inv: "manager_inv m" and v: "bfd_valid 24 b"
    and r: "recv_section1 peer b m = (g, m')"
  shows "manager_inv m'"
proof (cases "your_discr b = 0 \<or> lookup m peer \<noteq> None")
  case True
  with r inv section1_known [OF True] show ?thesis by simp
next
  case False
  let ?s = "(BfdSession (ep_addr peer) (ep_port peer))
    \<lparr>p_remote_discr := my_discr b, p_local_discr := your_discr b, p_session_state := 1\<rparr>"
  let ?m = "subscribe_unsafe (ep_addr peer) (ep_port peer) m"
  have "find_unsafe (ep_addr peer) (ep_port peer) ?m = Some (BfdSession (ep_addr peer) (ep_port peer))"
    using lookup_subscribe [OF manager_inv_table [OF inv], of peer] by (metis lookup_def fun_upd_same)
  with False r have m': "m' = transmit_unsafe ?s (update_session (ep_addr peer) (ep_port peer) ?s ?m)"
    by (auto simp: recv_section1_def lookup_def Let_def)
  have "sess_ok (MAKE_ULL (ep_addr peer) (ep_port peer)) ?s"
    using sess_ok_fresh [of "ep_addr peer" "ep_port peer"] by (simp add: sess_ok_def BfdSession_def)
  then show ?thesis
    unfolding m' by (intro manager_inv_transmit manager_inv_update manager_inv_subscribe inv)
qed

lemma next_discr_ok:
  assumes "c \<le> 0x7fffffff" and "cpp_next_discr c = (d, c')"
  shows "d \<noteq> 0" and "c' \<le> 0x7fffffff"
proof -
  have "unat c \<le> unat (0x7fffffff :: u64)" using assms(1) by (simp only: word_le_nat_alt)
  then have u: "unat c < 2 ^ 31" by simp
  have "c + 1 = of_nat (Suc (unat c))" by (simp add: add.commute)
  moreover have "unat (of_nat (Suc (unat c)) :: u64) = Suc (unat c)"
    using u by (intro unat_of_nat_small) simp
  ultimately have "(ucast (c + 1) :: u32) = of_nat (Suc (unat c))"
    by (metis ucast_of_unat)
  moreover have "unat (of_nat (Suc (unat c)) :: u32) = Suc (unat c)"
    using u by (intro unat_of_nat_small) simp
  ultimately have "(ucast (c + 1) :: u32) \<noteq> 0" by (metis unsigned_0 nat.distinct(1))
  with assms(2) show "d \<noteq> 0" by (auto simp: cpp_next_discr_def)
  from assms show "c' \<le> 0x7fffffff" by (auto simp: cpp_next_discr_def not_less split: if_splits)
qed

lemma connect_ok:
  assumes "sess_ok (MAKE_ULL (ep_addr peer) (ep_port peer)) s" and "c \<le> 0x7fffffff"
    and "cpp_connect bind_ok peer s c = Some (s', c')"
  shows "sess_ok (MAKE_ULL (ep_addr peer) (ep_port peer)) s' \<and> c' \<le> 0x7fffffff"
proof (cases "p_conn s")
  case None
  obtain d e where nd: "cpp_next_discr c = (d, e)" by fastforce
  with None assms next_discr_ok [OF assms(2) nd] show ?thesis
    by (auto simp: cpp_connect_def Let_def sess_ok_def MAKE_ULL_inj endpoint_eq split: if_splits)
next
  case (Some x)
  with assms show ?thesis by (simp add: cpp_connect_def)
qed

lemma manager_inv_incr: "manager_inv m \<Longrightarrow> c \<le> 0x7fffffff \<Longrightarrow> manager_inv (m\<lparr>cpp_discriminator_incr := c\<rparr>)"
  by (simp add: manager_inv_def)

lemma manager_inv_section2:
  assumes inv: "manager_inv m" and r: "recv_section2 bind_ok now peer b m = Some m'"
  shows "manager_inv m'"
proof -
  note [simp] = recv_find_eq [OF manager_inv_table [OF inv]]
  let ?k = "MAKE_ULL (ep_addr peer) (ep_port peer)"
  have step: "manager_inv m'" if f: "recv_find peer b m = (Some s, m1)"
    and inv1: "manager_inv m1" and ok: "sess_ok ?k s" for s m1
  proof -
    obtain s' c' where c: "cpp_connect bind_ok peer s (cpp_discriminator_incr m1) = Some (s', c')"
      and m': "m' = section2_result now peer b s' (m1\<lparr>cpp_discriminator_incr := c'\<rparr>)"
      using r section2_step [OF f, of bind_ok now] by auto
    have "cpp_discriminator_incr m1 \<le> 0x7fffffff" using inv1 by (simp add: manager_inv_def)
    from connect_ok [OF ok this c] have k: "sess_ok ?k (cpp_recv now b s')" and "c' \<le> 0x7fffffff"
      by (auto intro: sess_ok_recv)
    with inv1 show ?thesis
      unfolding m' section2_result_def Let_def
      by (auto intro!: manager_inv_transmit [OF _ k] manager_inv_update manager_inv_incr)
  qed
  show ?thesis
  proof (cases "lookup m peer")
    case (Some s)
    with step [of s m] inv manager_inv_lookup [OF inv Some] show ?thesis by simp
  next
    case None
    show ?thesis
    proof (cases "state b = 1")
      case True
      with None step manager_inv_subscribe [OF inv] sess_ok_fresh show ?thesis by simp
    next
      case False
      with None r inv show ?thesis by (simp add: recv_section2_def)
    qed
  qed
qed

lemma cpp_step_inv: "cpp_step bind_ok c c' \<Longrightarrow> manager_inv (fst c) \<Longrightarrow> manager_inv (fst c')"
  by (induction rule: cpp_step.induct)
     (auto intro: manager_inv_section1 manager_inv_section2 manager_inv_round
       manager_inv_subscribe manager_inv_unsubscribe)

lemma cpp_reachable_inv: "cpp_reachable bind_ok c \<Longrightarrow> manager_inv (fst c)"
proof (induction rule: cpp_reachable.induct)
  case init
  show ?case by (simp add: manager_inv_def cpp_init_def std_map.all_entries_def)
next
  case (step c c')
  then show ?case by (blast intro: cpp_step_inv)
qed

section \<open>The service as an endpoint\<close>

text \<open>
  A manager with the endpoint of its peer. It sends what one round of the sending thread transmits
  for the session of the peer, as far as it is addressed to the BFD port of the peer, and receives
  with \<open>Server::recieve\<close>; the program stops where that is \<open>None\<close>.
\<close>

type_synonym cpp_end = "endpoint \<times> cpp_manager"

definition cpp_sends :: "u64 \<Rightarrow> cpp_end \<Rightarrow> bytes list" where
  "cpp_sends curms e =
     (let (peer, m) = e in
      case find_unsafe (ep_addr peer) (ep_port peer) m of
        None \<Rightarrow> []
      | Some sess \<Rightarrow>
          if thread_sends curms sess
          then map snd (filter (\<lambda>(to, _). to = peer\<lparr>ep_port := BFDDFLT_UDPPORT\<rparr>)
                 (drop (length (cpp_sent m)) (cpp_sent (transmit_unsafe sess m))))
          else [])"

definition cpp_receives :: "(endpoint \<Rightarrow> bool) \<Rightarrow> u64 \<Rightarrow> bytes \<Rightarrow> cpp_end \<Rightarrow> cpp_end option" where
  "cpp_receives bind_ok now pkt e =
     (let (peer, m) = e in do {
        m \<leftarrow> server_recieve bind_ok now False peer pkt m;
        Some (peer, m)
      })"

definition cpp_sess_of :: "cpp_end \<Rightarrow> cpp_sess" where
  "cpp_sess_of e = the (lookup (snd e) (fst e))"

definition cpp_lstate :: "cpp_end \<Rightarrow> bfd_state" where
  "cpp_lstate e = cpp_state (cpp_sess_of e)"

text \<open>
  A session as the constructor and the receiver keep it when it is not administratively down and no
  packet with the poll or the final bit has come: the parameters are those of the constructor, and a
  connected session has a discriminator and is connected to the BFD port of its peer.
\<close>

definition cpp_fit :: "endpoint \<Rightarrow> cpp_sess \<Rightarrow> bool" where
  "cpp_fit peer s \<longleftrightarrow> p_session_state s \<in> {1, 2, 3} \<and> p_detect_mult s = 3 \<and>
     p_desired_min_tx_interval s = 1000000 \<and> p_required_min_rx_interval s = 1000000 \<and>
     p_pollbit_on s = BFD_OFF \<and> p_must_cease_tx_echo s = BFD_OFF \<and> p_must_terminate s = BFD_OFF \<and>
     (\<forall>c. p_conn s = Some c \<longrightarrow> p_local_discr s \<noteq> 0 \<and> conn_udpendp c = peer\<lparr>ep_port := BFDDFLT_UDPPORT\<rparr>)"

definition cpp_live :: "(endpoint \<Rightarrow> bool) \<Rightarrow> cpp_end \<Rightarrow> bool" where
  "cpp_live bind_ok e \<longleftrightarrow> table_ok (snd e) \<and> cpp_discriminator_incr (snd e) \<le> 0x7fffffff \<and>
     (\<exists>s. lookup (snd e) (fst e) = Some s \<and> cpp_fit (fst e) s \<and>
        (p_conn s = None \<longrightarrow> bind_ok \<lparr>ep_addr = 0, ep_port = ep_port (fst e)\<rparr>))"

text \<open>
  The detection time in microseconds: three times the interval 1000000 of the packet, which is compared and
  multiplied in network byte order, as 1078071040.
\<close>

abbreviation DETECTION :: nat where
  "DETECTION \<equiv> 3234213120"

definition in_detection_time :: "u64 \<Rightarrow> u64 \<Rightarrow> bool" where
  "in_detection_time r t \<longleftrightarrow> unat r + DETECTION < 2 ^ 64 \<and> unat t < unat r + DETECTION"

definition cpp_ready :: "u64 \<Rightarrow> cpp_end \<Rightarrow> bool" where
  "cpp_ready r e \<longleftrightarrow> table_ok (snd e) \<and> cpp_discriminator_incr (snd e) \<le> 0x7fffffff \<and>
     (\<exists>s. lookup (snd e) (fst e) = Some s \<and> cpp_fit (fst e) s \<and> p_conn s \<noteq> None \<and>
        p_remote_discr s \<noteq> 0 \<and> p_remote_min_rx_interval s \<noteq> 0 \<and> p_detect_time s = r + of_nat DETECTION)"

definition cpp_good :: "bfd \<Rightarrow> bool" where
  "cpp_good b \<longleftrightarrow> bfd_valid 24 b \<and> poll b = BFD_OFF \<and> final b = BFD_OFF \<and> pdetect_mult b = 3 \<and>
     min_rx_int b = htonl 1000000"

lemma htonl_million: "htonl 1000000 = 1078071040"
  by code_simp

lemma cpp_sess_of_eq: "lookup (snd e) (fst e) = Some s \<Longrightarrow> cpp_sess_of e = s"
  by (simp add: cpp_sess_of_def)

lemma cpp_recv_more [simp]:
  "p_desired_min_tx_interval (cpp_recv now b s) = p_desired_min_tx_interval s"
  "p_required_min_rx_interval (cpp_recv now b s) = p_required_min_rx_interval s"
  "p_must_cease_tx_echo (cpp_recv now b s) = p_must_cease_tx_echo s"
  "p_must_terminate (cpp_recv now b s) = (if final b \<noteq> 0 then 1 else p_must_terminate s)"
  "p_remote_discr (cpp_recv now b s) = my_discr b"
  "p_remote_min_rx_interval (cpp_recv now b s) = min_rx_int b"
  "p_detect_time (cpp_recv now b s) =
     now + ucast (ucast (pdetect_mult b) * max (min_rx_int b) (p_desired_min_tx_interval s) :: u32)"
  "poll b = 0 \<Longrightarrow> p_pollbit_on (cpp_recv now b s) = p_pollbit_on s"
  by (simp_all add: cpp_recv_def cpp_absorb_def cpp_state_machine_def cpp_session_down_def Let_def)

lemma cpp_connect_fit:
  assumes "cpp_fit peer s" "c \<le> 0x7fffffff" "p_conn s = None \<longrightarrow> bind_ok \<lparr>ep_addr = 0, ep_port = ep_port peer\<rparr>"
  obtains s' c' where "cpp_connect bind_ok peer s c = Some (s', c')" "cpp_fit peer s'" "c' \<le> 0x7fffffff"
    "p_conn s' \<noteq> None" "p_session_state s' = p_session_state s"
proof (cases "p_conn s")
  case None
  obtain d e where nd: "cpp_next_discr c = (d, e)" by fastforce
  let ?s = "s\<lparr>p_conn := Some \<lparr>conn_bound = \<lparr>ep_addr = 0, ep_port = ep_port peer\<rparr>,
      conn_udpendp = peer\<lparr>ep_port := BFDDFLT_UDPPORT\<rparr>\<rparr>, p_local_discr := d\<rparr>"
  from None assms next_discr_ok [OF assms(2) nd] nd show thesis
    by (intro that [of ?s e]) (simp_all add: cpp_connect_def cpp_fit_def Let_def)
next
  case (Some x)
  with assms that [of s c] show thesis by (simp add: cpp_connect_def)
qed

lemma cpp_recv_fit:
  assumes "cpp_fit peer s" "cpp_good b"
  shows "cpp_fit peer (cpp_recv now b s)"
    and "p_detect_time (cpp_recv now b s) = now + of_nat DETECTION"
  using assms
  by (auto simp: cpp_fit_def cpp_good_def p_session_state_recv p_session_state_machine htonl_million max_def)

lemma cpp_receives_good:
  assumes live: "cpp_live bind_ok e" and good: "cpp_good b"
  shows "\<exists>e'. cpp_receives bind_ok t (encode_bfd b) e = Some e' \<and> cpp_ready t e' \<and>
    cpp_lstate e' = rfc_next (cpp_lstate e) (to_state (state b))"
proof -
  obtain peer m where e: "e = (peer, m)" by fastforce
  obtain s where s: "table_ok m" "cpp_discriminator_incr m \<le> 0x7fffffff" "lookup m peer = Some s" "cpp_fit peer s"
    "p_conn s = None \<longrightarrow> bind_ok \<lparr>ep_addr = 0, ep_port = ep_port peer\<rparr>"
    using live by (auto simp: cpp_live_def e)
  obtain s' c' where c: "cpp_connect bind_ok peer s (cpp_discriminator_incr m) = Some (s', c')" "cpp_fit peer s'"
    "c' \<le> 0x7fffffff" "p_conn s' \<noteq> None" "p_session_state s' = p_session_state s"
    by (rule cpp_connect_fit [where bind_ok = bind_ok and peer = peer, OF s(4,2,5)])
  obtain m' where m': "on_bfd_recieved bind_ok t peer b m = Some m'" "table_ok m'"
    "lookup m' = (lookup m)(peer := Some (cpp_recv t b s'))" "cpp_discriminator_incr m' = c'"
    using recv_refines [OF s(1), of peer bind_ok t b] s(3) c(1)
    by (auto simp: refines_peer_def peer_after_def session_after_def Let_def)
  have v: "bfd_valid 24 b" using good by (simp add: cpp_good_def)
  have r: "cpp_receives bind_ok t (encode_bfd b) e = Some (peer, m')"
    using v m'(1) by (simp add: cpp_receives_def server_recieve_def decode_encode_bfd e)
  have l: "lookup m' peer = Some (cpp_recv t b s')" using m'(3) by simp
  have nz: "my_discr b \<noteq> 0" "min_rx_int b \<noteq> 0"
    using good by (simp_all add: cpp_good_def bfd_valid_def htonl_million)
  have "cpp_ready t (peer, m')"
    using m'(2,4) c(3,4) l nz cpp_recv_fit [OF c(2) good] by (auto simp: cpp_ready_def)
  moreover have "cpp_lstate (peer, m') = rfc_next (cpp_lstate e) (to_state (state b))"
    using l s(3) c(5) by (simp add: cpp_lstate_def cpp_sess_of_def e cpp_state_recv) (simp add: cpp_state_def)
  ultimately show ?thesis using r by blast
qed

lemma unat_detection: "unat r + DETECTION < 2 ^ 64 \<Longrightarrow> unat (r + of_nat DETECTION :: u64) = unat r + DETECTION"
  using unat_of_nat_small [of "unat r + DETECTION", where 'a = 64] by simp

lemma cpp_ready_sends:
  assumes "cpp_ready r e" "in_detection_time r t"
  shows "\<exists>b. cpp_sends t e = [encode_bfd b] \<and> cpp_good b \<and> to_state (state b) = cpp_lstate e"
proof -
  obtain peer m where e: "e = (peer, m)" by fastforce
  obtain s where s: "lookup m peer = Some s" "cpp_fit peer s" "p_conn s \<noteq> None" "p_remote_discr s \<noteq> 0"
    "p_remote_min_rx_interval s \<noteq> 0" "p_detect_time s = r + of_nat DETECTION"
    using assms(1) by (auto simp: cpp_ready_def e)
  obtain c where c: "p_conn s = Some c" using s(3) by blast
  have "unat t < unat (p_detect_time s)"
    using assms(2) unat_detection [of r] by (simp add: in_detection_time_def s(6))
  then have th: "thread_sends t s"
    using s by (simp add: thread_sends_def cpp_fit_def word_less_nat_alt)
  have local: "p_local_discr s \<noteq> 0" "conn_udpendp c = peer\<lparr>ep_port := BFDDFLT_UDPPORT\<rparr>"
    using s(2) c by (simp_all add: cpp_fit_def)
  have "cpp_sends t e = [encode_bfd (cpp_packet s)]"
    using th s(1,4) local c by (simp add: cpp_sends_def lookup_def transmit_unsafe_def e Let_def)
  moreover have "cpp_good (cpp_packet s)"
    using s(2,4) local(1) by (simp add: cpp_good_def bfd_valid_def cpp_fit_def) (simp add: cpp_packet_def)
  moreover have "to_state (state (cpp_packet s)) = cpp_lstate e"
    using cpp_packet_state [of s] s(1,2) local(1) by (simp add: cpp_wf_def cpp_fit_def cpp_lstate_def cpp_sess_of_def e)
  ultimately show ?thesis by blast
qed

interpretation cpp_peer: bfd_peer cpp_sends "cpp_receives bind_ok" cpp_lstate cpp_good
  in_detection_time "cpp_live bind_ok" cpp_ready for bind_ok
proof (unfold_locales, goal_cases)
  case (1 r p)
  then show ?case by (auto simp: cpp_ready_def cpp_live_def)
next
  case (2 p)
  then show ?case
    by (auto simp: cpp_live_def cpp_lstate_def cpp_sess_of_def cpp_fit_def cpp_state_def)
next
  case (3 r p t)
  then show ?case by (rule cpp_ready_sends)
next
  case (4 p b t)
  then show ?case using cpp_receives_good [of bind_ok p b t] by (auto simp: next_state_def)
qed

text \<open>A session that has not received anything is never sent.\<close>

lemma cpp_silent:
  assumes "cpp_live bind_ok e" "p_detect_time (cpp_sess_of e) = 0"
  shows "cpp_sends t e = []"
  using assms by (cases e) (auto simp: cpp_live_def cpp_sends_def cpp_sess_of_def lookup_def thread_sends_def)

section \<open>Properties\<close>

text \<open>A new session with a discriminator; used in the witnesses.\<close>

definition sample_cpp :: cpp_sess where
  "sample_cpp = (BfdSession 0x7f000001 49152)\<lparr>p_local_discr := 0x01000000\<rparr>"

lemma sample_cpp_wf: "cpp_wf sample_cpp" and sample_cpp_down: "cpp_state sample_cpp = Down"
  by (simp_all add: sample_cpp_def BfdSession_def cpp_wf_def cpp_state_def)

text \<open>C4. Every packet takes a session of the C++ service to the state RFC 5880, section 6.8.6,
  prescribes for its state and the packet's.\<close>

theorem cpp_state_table:
  "cpp_state (cpp_recv now b s) = rfc_next (cpp_state s) (to_state (state b))"
  by (rule cpp_state_recv)

text \<open>C7. Two managers of the C++ service, each with a session for the other one that is not
  administratively down, has the parameters of the constructor and never received the poll or the final
  bit. In lossless rounds in which each
  side sends exactly what one round of its sending thread transmits for the session and receives with
  \<open>Server::recieve\<close>: if the first one has received a packet of such a session at \<open>r\<close>, and every side's
  rounds follow its last packet within the detection time, both are up after three or more rounds. If
  neither has ever received a packet, nothing is ever sent and nothing changes.\<close>

theorem cpp_sessions_come_up:
  assumes "cpp_live bind_ok a" "cpp_live bind_ok b"
  shows "(cpp_ready r a \<and> paced in_detection_time r tss \<and> 3 \<le> length tss \<longrightarrow>
      (\<exists>a' b'. sent_rounds cpp_sends (cpp_receives bind_ok) tss (a, b) = Some (a', b') \<and>
         cpp_lstate a' = Up \<and> cpp_lstate b' = Up)) \<and>
    (p_detect_time (cpp_sess_of a) = 0 \<and> p_detect_time (cpp_sess_of b) = 0 \<longrightarrow>
      sent_rounds cpp_sends (cpp_receives bind_ok) tss (a, b) = Some (a, b))"
  using cpp_peer.sent_rounds_up [OF _ assms(2)] silent_rounds [of cpp_sends a b]
    cpp_silent [OF assms(1)] cpp_silent [OF assms(2)] by blast

text \<open>A manager with a fresh session for \<open>sample_endpoint\<close>.\<close>

definition sample_endpoint :: endpoint where
  "sample_endpoint = \<lparr>ep_addr = 5, ep_port = 49152\<rparr>"

definition sample_end :: cpp_end where
  "sample_end = (sample_endpoint, subscribe_unsafe 5 49152 cpp_init)"

lemma sample_end_live: "cpp_live (\<lambda>_. True) sample_end" and sample_end_sess: "cpp_sess_of sample_end = BfdSession 5 49152"
proof -
  have "table_ok cpp_init" by (simp add: table_ok_def cpp_init_def)
  from lookup_subscribe [OF this, of sample_endpoint] this
  have l: "lookup (snd sample_end) sample_endpoint = Some (BfdSession 5 49152)" "table_ok (snd sample_end)"
    by (simp_all add: sample_end_def sample_endpoint_def)
  then show "cpp_sess_of sample_end = BfdSession 5 49152"
    by (simp add: cpp_sess_of_def sample_end_def)
  show "cpp_live (\<lambda>_. True) sample_end"
    using l by (simp add: cpp_live_def sample_end_def cpp_fit_def)
      (simp add: BfdSession_def BFDDFLT_DETECTMULT_def BFDDFLT_DESIREDMINTX_def BFDDFLT_REQUIREDMINRX_def cpp_init_def)
qed

lemma sample_end_down: "cpp_lstate sample_end = Down"
  by (simp add: cpp_lstate_def sample_end_sess cpp_state_def BfdSession_def)

lemma sample_cpp_good: "cpp_good (cpp_packet sample_cpp)"
  by (simp add: cpp_good_def bfd_valid_def)
     (simp add: sample_cpp_def BfdSession_def cpp_packet_def BFDDFLT_DETECTMULT_def BFDDFLT_REQUIREDMINRX_def)

text \<open>That session after one packet of its peer.\<close>

lemma sample_ready:
  obtains a where "cpp_ready 1000 a" "cpp_lstate a = Init" "cpp_sends 2000 a \<noteq> []"
proof -
  have "to_state (state (cpp_packet sample_cpp)) = Down"
    using cpp_packet_state [OF sample_cpp_wf] sample_cpp_down by simp
  then obtain a where a: "cpp_ready 1000 a" "cpp_lstate a = Init"
    using cpp_peer.live_receives [OF sample_end_live sample_cpp_good, of 1000] sample_end_down
    by (auto simp: next_state_def)
  have "cpp_sends 2000 a \<noteq> []"
    using cpp_peer.ready_sends [OF a(1), of 2000] by (auto simp: in_detection_time_def)
  with that a show thesis by blast
qed

theorem cpp_sessions_come_up_witness:
  "\<exists>a a' b'. cpp_sends 2000 a \<noteq> [] \<and> cpp_lstate a = Init \<and> cpp_lstate sample_end = Down \<and>
    sent_rounds cpp_sends (cpp_receives (\<lambda>_. True)) [(2000, 77, 78, 3000), (4000, 99, 100, 5000), (6000, 111, 112, 7000)]
      (a, sample_end) = Some (a', b') \<and> cpp_lstate a' = Up \<and> cpp_lstate b' = Up"
proof -
  obtain a where a: "cpp_ready 1000 a" "cpp_lstate a = Init" "cpp_sends 2000 a \<noteq> []" by (rule sample_ready)
  have live: "cpp_live (\<lambda>_. True) a" by (rule cpp_peer.ready_live [OF a(1)])
  let ?ts = "[(2000, 77, 78, 3000), (4000, 99, 100, 5000), (6000, 111, 112, 7000)]"
  have "paced in_detection_time 1000 ?ts" by (simp add: in_detection_time_def)
  then obtain a' b' where "sent_rounds cpp_sends (cpp_receives (\<lambda>_. True)) ?ts (a, sample_end) = Some (a', b')"
    "cpp_lstate a' = Up" "cpp_lstate b' = Up"
    using cpp_sessions_come_up [OF live sample_end_live, of 1000 ?ts] a(1) by auto
  then show ?thesis using a(2,3) sample_end_down
    by (intro exI [of _ a] exI [of _ a'] exI [of _ b']) simp
qed

text \<open>C6. On a link that may lose, repeat and reorder packets, no session of the C++ service that
  started down is ever up before both ends have received a packet of the other.\<close>

theorem cpp_up_is_bidirectional:
  assumes "link_reachable cpp_recv cpp_packet (fresh_link a b) l"
    and "cpp_state a \<in> {AdminDown, Down}" "cpp_state b \<in> {AdminDown, Down}"
    and "cpp_state (peer_a l) = Up \<or> cpp_state (peer_b l) = Up"
  shows "heard_a l \<and> heard_b l"
  using assms by (rule cpp_service.up_is_bidirectional)

theorem cpp_up_is_bidirectional_witness:
  "\<exists>l :: cpp_sess link. cpp_state (peer_a l) = Up \<and> heard_a l \<and> heard_b l"
proof -
  obtain l where l: "link_reachable cpp_recv cpp_packet (fresh_link sample_cpp sample_cpp) l"
    and ab: "(peer_a l, peer_b l) = exchange cpp_recv cpp_packet 0 (sample_cpp, sample_cpp)"
    using exchange_reachable [of cpp_recv cpp_packet sample_cpp sample_cpp 0] by auto
  have up: "cpp_state (peer_a l) = Up"
    using cpp_service.exch_table [of "(sample_cpp, sample_cpp)" 0] sample_cpp_wf
    by (auto simp: sample_cpp_down simp flip: ab)
  have "heard_a l \<and> heard_b l"
    by (rule cpp_up_is_bidirectional [OF l]) (simp_all add: up sample_cpp_down)
  with up show ?thesis by blast
qed

text \<open>C2. A received packet does to the manager exactly what \<open>peer_after\<close> says: the sessions of all
  other peers stay as they were, the sender's session and the discriminator counter become the
  specified ones, and the service stops exactly when the client socket cannot be bound.\<close>

theorem cpp_receive_refines:
  assumes "table_ok m"
  shows "(case peer_after bind_ok now peer b (lookup m peer) (cpp_discriminator_incr m) of
      None \<Rightarrow> on_bfd_recieved bind_ok now peer b m = None
    | Some (so, c) \<Rightarrow> \<exists>m'. on_bfd_recieved bind_ok now peer b m = Some m' \<and> table_ok m' \<and>
        lookup m' = (lookup m)(peer := so) \<and> cpp_discriminator_incr m' = c)"
  using recv_refines [OF assms] unfolding refines_peer_def .

theorem cpp_receive_refines_witness:
  "\<exists>m'. on_bfd_recieved (\<lambda>_. True) 9 \<lparr>ep_addr = 5, ep_port = 49152\<rparr>
     (cpp_packet sample_cpp) cpp_init = Some m' \<and> cpp_discriminator_incr m' = 1 \<and>
     (\<exists>s. lookup m' \<lparr>ep_addr = 5, ep_port = 49152\<rparr> = Some s \<and> cpp_state s = Init)"
proof -
  have none: "lookup cpp_init p = None" for p
    by (simp add: lookup_def find_unsafe_def cpp_init_def)
  have y: "your_discr (cpp_packet sample_cpp) = 0" and st: "state (cpp_packet sample_cpp) = 1"
    by (simp_all add: sample_cpp_def BfdSession_def cpp_packet_def)
  let ?p = "\<lparr>ep_addr = 5, ep_port = 49152\<rparr>"
  have "table_ok cpp_init" by (simp add: table_ok_def cpp_init_def)
  from cpp_receive_refines [OF this, of "\<lambda>_. True" 9 ?p "cpp_packet sample_cpp"]
  obtain s c m' where m': "on_bfd_recieved (\<lambda>_. True) 9 ?p (cpp_packet sample_cpp) cpp_init = Some m'"
    "lookup m' = (lookup cpp_init)(?p := Some (cpp_recv 9 (cpp_packet sample_cpp) s))"
    "cpp_discriminator_incr m' = 1" "cpp_state s = Down"
    using none y st
    by (auto simp: peer_after_def session_after_def cpp_connect_def cpp_next_discr_def
        BfdSession_def cpp_init_def cpp_state_def Let_def)
  then have "lookup m' ?p = Some (cpp_recv 9 (cpp_packet sample_cpp) s)" by simp
  moreover have "cpp_state (cpp_recv 9 (cpp_packet sample_cpp) s) = Init"
    using m'(4) st by (simp add: cpp_state_recv)
  ultimately show ?thesis using m'(1,3) by blast
qed

text \<open>C3. Under every interleaving of the receiving thread, the sending thread and the callers of
  \<open>subscribe\<close> and \<open>unsubscribe\<close>, each packet the service sends goes to the BFD port and passes the
  checks of a receiver; the table stays ordered and the counter within 31 bits.\<close>

theorem cpp_sends_valid_packets:
  assumes "cpp_reachable bind_ok (m, ph)"
  shows "table_ok m \<and> cpp_discriminator_incr m \<le> 0x7fffffff \<and>
    (\<forall>(ep, pkt)\<in>set (cpp_sent m).
       ep_port ep = BFDDFLT_UDPPORT \<and> bfd_valid (length pkt) (decode_bfd pkt))"
  using cpp_reachable_inv [OF assms] manager_inv_table [of m]
  by (auto simp: manager_inv_def sent_ok_def)

theorem cpp_sends_valid_packets_witness:
  "table_ok (thread_round 7 (subscribe_unsafe 1 2 cpp_init))"
proof -
  have "cpp_reachable (\<lambda>_. True) (thread_round 7 (subscribe_unsafe 1 2 cpp_init), Waiting)"
    by (meson cpp_reachable.init cpp_reachable.step cpp_step.send cpp_step.subscribe)
  from cpp_sends_valid_packets [OF this] show ?thesis by blast
qed

end
