(* ===== verification/Bfd_Netmap.thy ===== *)
theory Bfd_Netmap
  imports Bfd_Packet
begin

text \<open>
  The netmap reflector (\<open>bfdd_netmap\<close>): it answers each BFD frame in place and hands the buffer
  from the receive ring to the transmit ring by swapping buffer indices.

  The rings are structures of \<open>net/netmap_user.h\<close>; the records below have the fields that the code
  reads or writes. The inline functions of that header (\<open>nm_ring_space\<close>, \<open>nm_ring_empty\<close>,
  \<open>nm_ring_next\<close>) and its constant \<open>NS_BUF_CHANGED\<close> are parameters, collected in \<open>netmap_api\<close>;
  \<open>api_laws\<close> states what their documentation promises. A packet buffer is byte memory, found by
  its index in a store shared by all rings. Frames are read at the offsets of the Ethernet, IPv4
  and UDP headers.
\<close>

section \<open>Frames\<close>

definition ETHERTYPE_IP :: u16 where "ETHERTYPE_IP = 0x0800"
definition ETHERTYPE_ARP :: u16 where "ETHERTYPE_ARP = 0x0806"
definition ETHERTYPE_VLAN :: u16 where "ETHERTYPE_VLAN = 0x8100"

abbreviation IPPROTO_ICMP :: u8 where "IPPROTO_ICMP \<equiv> 1"
abbreviation IPPROTO_UDP :: u8 where "IPPROTO_UDP \<equiv> 17"

definition ether_type :: "mem \<Rightarrow> u16" where
  "ether_type m = ld16 m 12"

definition LEN_VLAN :: "mem \<Rightarrow> nat" where
  "LEN_VLAN m = (if ether_type m = htons ETHERTYPE_VLAN then 4 else 0)"

text \<open>Offsets of \<open>struct ip\<close>, \<open>struct udphdr\<close> and \<open>struct bfd\<close> in a frame.\<close>

definition ip_off :: "mem \<Rightarrow> nat" where
  "ip_off m = 14 + LEN_VLAN m"

definition ip_hl :: "mem \<Rightarrow> nat" where
  "ip_hl m = unat (m (ip_off m) AND 0x0f)"

definition udp_off :: "mem \<Rightarrow> nat" where
  "udp_off m = ip_off m + ip_hl m * 4"

definition bfd_off :: "mem \<Rightarrow> nat" where
  "bfd_off m = udp_off m + 8"

definition swap_mac :: "mem \<Rightarrow> mem" where
  "swap_mac m =
     (let tmp_mac = ld_bytes m 0 6;
          m = st_bytes 0 (ld_bytes m 6 6) m
      in st_bytes 6 tmp_mac m)"

definition swap_ip :: "nat \<Rightarrow> u8 \<Rightarrow> mem \<Rightarrow> mem" where
  "swap_ip ip ttl m =
     (let tmp_addr = ld32 m (ip + 16);
          m = st32 (ip + 16) (ld32 m (ip + 12)) m;
          m = st32 (ip + 12) tmp_addr m
      in st8 (ip + 8) ttl m)"

definition swap_bfd :: "bfd \<Rightarrow> bfd" where
  "swap_bfd b = (let tmp_discr = your_discr b in b\<lparr>your_discr := my_discr b, my_discr := tmp_discr\<rparr>)"

definition MYDSCR :: u32 where "MYDSCR = 10000"

text \<open>\<open>swap_bfd\<close> and the state machine of \<open>recv_packet\<close>.\<close>

definition reply_bfd :: "bfd \<Rightarrow> bfd" where
  "reply_bfd bfd =
     (let TMPDSCR = your_discr bfd; bfd = swap_bfd bfd in
      if state bfd = BFDSTATE_DOWN then
        (if TMPDSCR = 0 then bfd\<lparr>state := BFDSTATE_INIT, my_discr := MYDSCR\<rparr>
         else bfd\<lparr>state := BFDSTATE_DOWN, my_discr := MYDSCR\<rparr>)
      else if state bfd = BFDSTATE_ADMINDOWN then bfd\<lparr>state := BFDSTATE_DOWN\<rparr>
      else if state bfd = BFDSTATE_INIT then bfd\<lparr>state := BFDSTATE_UP, my_discr := MYDSCR\<rparr>
      else if state bfd = BFDSTATE_UP then bfd\<lparr>state := BFDSTATE_UP, my_discr := MYDSCR\<rparr>
      else bfd\<lparr>state := BFDSTATE_DOWN, my_discr := MYDSCR, your_discr := 0\<rparr>)"

text \<open>What \<open>recv_packet\<close> does to the frame; the header pointers are computed before the swaps.\<close>

definition reply_frame :: "mem \<Rightarrow> mem" where
  "reply_frame m =
     (let ip = ip_off m; udp = udp_off m; b = bfd_off m;
          m = swap_mac m;
          m = swap_ip ip 0xff m;
          m = st16 (udp + 6) 0 m
      in st_bytes b (encode_bfd (reply_bfd (decode_bfd (ld_bytes m b 24)))) m)"

definition is_bfd_packet :: "mem \<Rightarrow> nat \<Rightarrow> int" where
  "is_bfd_packet m len =
     (let ip = ip_off m; udp = udp_off m; udplen = udp_off m + 8 in
      if len \<ge> 14 \<and> ether_type m = htons ETHERTYPE_ARP then -1
      else if len \<ge> 14 + 20 \<and> ether_type m = htons ETHERTYPE_IP \<and> m (ip + 9) = IPPROTO_ICMP \<and>
        m (ip + 8) \<noteq> 0 then -1
      else if len \<ge> udplen \<and> htons (ld16 m (udp + 4)) = 32 \<and>
        ether_type m = htons ETHERTYPE_IP \<and> m (ip + 9) = IPPROTO_UDP
      then (if htons (ld16 m (udp + 2)) = BFDDFLT_UDPPORT then 0 else -1)
      else -1)"

section \<open>Rings\<close>

record netmap_slot =
  buf_idx :: u32
  slot_len :: u16
  slot_flags :: u16

record netmap_ring =
  num_slots :: u32
  ring_head :: u32
  ring_cur :: u32
  ring_tail :: u32
  ring_flags :: u32
  slot :: "netmap_slot list"

record netmap_api =
  nm_ring_space :: "netmap_ring \<Rightarrow> u32"
  nm_ring_empty :: "netmap_ring \<Rightarrow> bool"
  nm_ring_next :: "netmap_ring \<Rightarrow> u32 \<Rightarrow> u32"
  NS_BUF_CHANGED :: u16

text \<open>
  \<open>struct process_handle\<close> while a slot pair is processed: the two slots, the frame \<open>req\<close> points to
  and the two lengths.
\<close>

record process_handle =
  rs :: netmap_slot
  ts :: netmap_slot
  req :: mem
  reslen :: u16
  reqlen :: u16

definition swap_index :: "netmap_api \<Rightarrow> process_handle \<Rightarrow> process_handle" where
  "swap_index api ph =
     (let pkt = buf_idx (ts ph);
          ph = ph\<lparr>ts := (ts ph)\<lparr>buf_idx := buf_idx (rs ph)\<rparr>\<rparr>;
          ph = ph\<lparr>rs := (rs ph)\<lparr>buf_idx := pkt\<rparr>\<rparr>;
          ph = ph\<lparr>ts := (ts ph)\<lparr>slot_len := reqlen ph\<rparr>\<rparr>;
          ph = ph\<lparr>ts := (ts ph)\<lparr>slot_flags := slot_flags (ts ph) OR NS_BUF_CHANGED api\<rparr>\<rparr>
      in ph\<lparr>rs := (rs ph)\<lparr>slot_flags := slot_flags (rs ph) OR NS_BUF_CHANGED api\<rparr>\<rparr>)"

definition recv_packet :: "netmap_api \<Rightarrow> process_handle \<Rightarrow> process_handle" where
  "recv_packet api ph = swap_index api (ph\<lparr>req := reply_frame (req ph)\<rparr>)"

text \<open>The body of the loop in \<open>process_rings\<close> for one pair of slots.\<close>

definition process_slots ::
  "(process_handle \<Rightarrow> process_handle) option \<Rightarrow> netmap_slot \<Rightarrow> netmap_slot \<Rightarrow> (u32 \<Rightarrow> mem) \<Rightarrow>
     netmap_slot \<times> netmap_slot \<times> (u32 \<Rightarrow> mem)" where
  "process_slots event_func r t bufs =
     (let ph = \<lparr>rs = r, ts = t, req = bufs (buf_idx r), reslen = slot_len r, reqlen = slot_len r\<rparr>;
          ph = (if slot_len (rs ph) > 2048 then ph\<lparr>rs := (rs ph)\<lparr>slot_len := 0\<rparr>\<rparr> else ph);
          ph = (case event_func of
                  None \<Rightarrow> ph
                | Some f \<Rightarrow>
                    if is_bfd_packet (req ph) (unat (slot_len (rs ph))) = 0 then f ph else ph)
      in (rs ph, ts ph, bufs(buf_idx r := req ph)))"

record rings =
  rxring :: netmap_ring
  txring :: netmap_ring
  bufs :: "u32 \<Rightarrow> mem"

definition process_step ::
  "(process_handle \<Rightarrow> process_handle) option \<Rightarrow> u32 \<Rightarrow> u32 \<Rightarrow> rings \<Rightarrow> rings" where
  "process_step f rx_cur tx_cur g =
     (let (r, t, b) = process_slots f (slot (rxring g) ! unat rx_cur) (slot (txring g) ! unat tx_cur)
                        (bufs g)
      in g\<lparr>rxring := (rxring g)\<lparr>slot := (slot (rxring g))[unat rx_cur := r]\<rparr>,
           txring := (txring g)\<lparr>slot := (slot (txring g))[unat tx_cur := t]\<rparr>, bufs := b\<rparr>)"

text \<open>The loop: \<open>limit\<close> rounds from the positions \<open>rx_cur\<close> and \<open>tx_cur\<close>.\<close>

fun process_loop ::
  "netmap_api \<Rightarrow> (process_handle \<Rightarrow> process_handle) option \<Rightarrow> nat \<Rightarrow> u32 \<Rightarrow> u32 \<Rightarrow> rings \<Rightarrow>
     u32 \<times> u32 \<times> rings" where
  "process_loop api f 0 rx_cur tx_cur g = (rx_cur, tx_cur, g)"
| "process_loop api f (Suc limit) rx_cur tx_cur g =
     (let g = process_step f rx_cur tx_cur g
      in process_loop api f limit (nm_ring_next api (rxring g) rx_cur)
           (nm_ring_next api (txring g) tx_cur) g)"

definition process_rings ::
  "netmap_api \<Rightarrow> (process_handle \<Rightarrow> process_handle) option \<Rightarrow> rings \<Rightarrow> u32 \<times> rings" where
  "process_rings api f g =
     (let limit = num_slots (rxring g);
          g = (if ring_flags (rxring g) \<noteq> 0 \<or> ring_flags (txring g) \<noteq> 0 then
                 g\<lparr>rxring := (rxring g)\<lparr>ring_flags := 0\<rparr>, txring := (txring g)\<lparr>ring_flags := 0\<rparr>\<rparr>
               else g);
          limit = min limit (nm_ring_space api (rxring g));
          limit = min limit (nm_ring_space api (txring g));
          (rx_cur, tx_cur, g) =
            process_loop api f (unat limit) (ring_cur (rxring g)) (ring_cur (txring g)) g
      in (limit, g\<lparr>rxring := (rxring g)\<lparr>ring_cur := rx_cur, ring_head := rx_cur\<rparr>,
                        txring := (txring g)\<lparr>ring_cur := tx_cur, ring_head := tx_cur\<rparr>\<rparr>))"

section \<open>All rings of the interface\<close>

record nm_desc =
  first_rx_ring :: u16
  last_rx_ring :: u16
  first_tx_ring :: u16
  last_tx_ring :: u16

record interface =
  rxrings :: "u16 \<Rightarrow> netmap_ring"
  txrings :: "u16 \<Rightarrow> netmap_ring"
  if_bufs :: "u32 \<Rightarrow> mem"

text \<open>
  The loop of \<open>move\<close> from a pair of ring indices, with the count \<open>m\<close>; \<open>None\<close> when it does not end
  (the 16 bit indices wrap around when the last ring is 65535).
\<close>

partial_function (option) move_loop ::
  "netmap_api \<Rightarrow> nm_desc \<Rightarrow> (process_handle \<Rightarrow> process_handle) option \<Rightarrow> u16 \<Rightarrow> u16 \<Rightarrow> u32 \<Rightarrow>
     interface \<Rightarrow> (u32 \<times> interface) option" where
  "move_loop api nmd f rxringidx txringidx m i =
     (if rxringidx \<le> last_rx_ring nmd \<and> txringidx \<le> last_tx_ring nmd then
        (if nm_ring_empty api (rxrings i rxringidx) then
           move_loop api nmd f (rxringidx + 1) txringidx m i
         else if nm_ring_empty api (txrings i txringidx) then
           move_loop api nmd f rxringidx (txringidx + 1) m i
         else
           (let (n, g) = process_rings api f
                  \<lparr>rxring = rxrings i rxringidx, txring = txrings i txringidx, bufs = if_bufs i\<rparr>
            in move_loop api nmd f rxringidx txringidx (m + n)
                 \<lparr>rxrings = (rxrings i)(rxringidx := rxring g),
                  txrings = (txrings i)(txringidx := txring g), if_bufs = bufs g\<rparr>))
      else Some (m, i))"

definition move ::
  "netmap_api \<Rightarrow> nm_desc \<Rightarrow> (process_handle \<Rightarrow> process_handle) option \<Rightarrow> interface \<Rightarrow>
     (u32 \<times> interface) option" where
  "move api nmd f i = move_loop api nmd f (first_rx_ring nmd) (first_tx_ring nmd) 0 i"

text \<open>
  One round of the loop in \<open>main\<close>: \<open>poll\<close> fails with \<open>POLLERR\<close>, fails otherwise, reports events,
  or times out (\<open>send_packet\<close> does nothing). The result says whether the loop goes on.
\<close>

datatype poll_event = Poll_Err | Poll_Fail | Poll_In | Poll_Other | Poll_Timeout

definition netmap_round ::
  "netmap_api \<Rightarrow> nm_desc \<Rightarrow> poll_event \<Rightarrow> interface \<Rightarrow> (bool \<times> interface) option" where
  "netmap_round api nmd ev i =
     (case ev of
        Poll_Err \<Rightarrow> Some (False, i)
      | Poll_In \<Rightarrow> map_option (\<lambda>(_, i). (True, i)) (move api nmd (Some (recv_packet api)) i)
      | _ \<Rightarrow> Some (True, i))"

end
