(* ===== verification/Bfd_Reflector.thy ===== *)
theory Bfd_Reflector
  imports Bfd_Netmap Bfd_Daemon Bfd_Manager "HOL-Library.Multiset"
begin

text \<open>
  What the netmap reflector promises: the answer to a frame, the rings after \<open>process_rings\<close> (the
  buffers are the same ones, each ring advanced by the same count), the end of \<open>move\<close>, and the
  effect of the answers on a session of the C daemon or the C++ service.
\<close>

section \<open>Laws of the netmap interface\<close>

text \<open>
  A ring as the kernel hands it out, and the documented results of the inline functions of
  \<open>net/netmap_user.h\<close> on such rings.
\<close>

definition ring_ok :: "netmap_ring \<Rightarrow> bool" where
  "ring_ok r \<longleftrightarrow> length (slot r) = unat (num_slots r) \<and> ring_cur r < num_slots r \<and>
     ring_tail r < num_slots r"

definition ring_space :: "netmap_ring \<Rightarrow> nat" where
  "ring_space r =
     (unat (ring_tail r) + unat (num_slots r) - unat (ring_cur r)) mod unat (num_slots r)"

definition api_laws :: "netmap_api \<Rightarrow> bool" where
  "api_laws api \<longleftrightarrow>
     (\<forall>r. ring_ok r \<longrightarrow> unat (nm_ring_space api r) = ring_space r \<and>
        (nm_ring_empty api r \<longleftrightarrow> ring_space r = 0)) \<and>
     (\<forall>r i. i < num_slots r \<longrightarrow>
        unat (nm_ring_next api r i) = (unat i + 1) mod unat (num_slots r))"

lemma ring_space_less: "ring_ok r \<Longrightarrow> ring_space r < unat (num_slots r)"
  by (auto simp: ring_ok_def ring_space_def word_less_nat_alt)

lemma mod_window: "x < n \<Longrightarrow> (x + n) mod n = (x :: nat)"
  by (metis mod_add_self2 mod_less)

lemma space_arith:
  fixes t c n k :: nat
  assumes t: "t < n" and c: "c < n" and k: "k \<le> (t + n - c) mod n"
  shows "(t + n - (c + k) mod n) mod n = (t + n - c) mod n - k"
proof (cases "c \<le> t")
  case True
  then have "t + n - c = (t - c) + n" by arith
  then have s: "(t + n - c) mod n = t - c" using t by (simp only: mod_window)
  with k True have ck: "c + k \<le> t" by arith
  then have "(c + k) mod n = c + k" using t by (intro mod_less) arith
  moreover have "t + n - (c + k) = (t - c - k) + n" using ck by arith
  moreover have "t - c - k < n" using t by arith
  ultimately show ?thesis unfolding s by (simp only: mod_window)
next
  case False
  have sn: "t + n - c < n" using False c by arith
  then have s: "(t + n - c) mod n = t + n - c" by (rule mod_less)
  with k have kn: "k \<le> t + n - c" by simp
  have less: "t + n - c - k < n" using sn by arith
  show ?thesis
  proof (cases "c + k < n")
    case True
    then have "(c + k) mod n = c + k" by (rule mod_less)
    then have "t + n - (c + k) mod n = t + n - c - k" by simp
    then show ?thesis unfolding s using less by (metis mod_less)
  next
    case wrap: False
    then have "n \<le> c + k" by arith
    then have "(c + k) mod n = (c + k - n) mod n" by (rule le_mod_geq)
    also have "\<dots> = c + k - n" using kn t c by (intro mod_less) linarith
    finally have "t + n - (c + k) mod n = t + n - (c + k - n)" by simp
    also have "\<dots> = (t + n - c - k) + n" using wrap kn c by arith
    finally show ?thesis unfolding s using less by (metis mod_window)
  qed
qed

section \<open>The answer to a frame\<close>

lemma reply_state:
  "to_state (state (reply_bfd b)) =
     (case to_state (state b) of
        AdminDown \<Rightarrow> Down | Down \<Rightarrow> if your_discr b = 0 then Init else Down | _ \<Rightarrow> Up)"
  by (cases "state b" rule: word2_cases) (simp_all add: reply_bfd_def swap_bfd_def Let_def)

lemma reply_fields [simp]:
  "multipoint (reply_bfd b) = multipoint b" "vers (reply_bfd b) = vers b"
  "auth (reply_bfd b) = auth b" "pdetect_mult (reply_bfd b) = pdetect_mult b"
  "poll (reply_bfd b) = poll b" "final (reply_bfd b) = final b" "min_rx_int (reply_bfd b) = min_rx_int b"
  by (simp_all add: reply_bfd_def swap_bfd_def Let_def)

lemma reply_discrs:
  "state b \<noteq> 0 \<Longrightarrow> my_discr (reply_bfd b) = MYDSCR \<and> your_discr (reply_bfd b) = my_discr b"
  by (cases "state b" rule: word2_cases) (simp_all add: reply_bfd_def swap_bfd_def Let_def)

lemma reply_valid:
  assumes "bfd_valid 24 b" "state b \<noteq> 0"
  shows "bfd_valid 24 (reply_bfd b)"
  using assms reply_discrs [OF assms(2)] by (simp add: bfd_valid_def MYDSCR_def)

lemma accepted_frame:
  assumes "is_bfd_packet m len = 0"
  shows "ether_type m = htons ETHERTYPE_IP" "ip_off m = 14" "m 23 = IPPROTO_UDP"
    "htons (ld16 m (udp_off m + 2)) = BFDDFLT_UDPPORT" "bfd_off m + 24 \<le> len + 24"
proof -
  have t: "ether_type m = htons ETHERTYPE_IP"
    using assms by (auto simp: is_bfd_packet_def Let_def split: if_splits)
  then have "ether_type m \<noteq> htons ETHERTYPE_VLAN"
    by (simp add: htons_inj ETHERTYPE_IP_def ETHERTYPE_VLAN_def)
  then show "ip_off m = 14" by (simp add: ip_off_def LEN_VLAN_def)
  with assms t show "ether_type m = htons ETHERTYPE_IP"  "m 23 = IPPROTO_UDP"
    "htons (ld16 m (udp_off m + 2)) = BFDDFLT_UDPPORT" "bfd_off m + 24 \<le> len + 24"
    by (auto simp: is_bfd_packet_def Let_def bfd_off_def split: if_splits)
qed

lemma reply_frame_spec:
  assumes "ip_off m = 14" "5 \<le> ip_hl m"
  defines "m' \<equiv> reply_frame m"
  shows "ld_bytes m' 0 6 = ld_bytes m 6 6" "ld_bytes m' 6 6 = ld_bytes m 0 6"
    "ld32 m' 26 = ld32 m 30" "ld32 m' 30 = ld32 m 26" "m' 22 = 0xff"
    "ld16 m' (udp_off m + 6) = 0"
    "decode_bfd (ld_bytes m' (bfd_off m) 24) = reply_bfd (decode_bfd (ld_bytes m (bfd_off m) 24))"
proof -
  have u: "udp_off m = 14 + ip_hl m * 4" "bfd_off m = 22 + ip_hl m * 4" 
    using assms by (simp_all add: udp_off_def bfd_off_def)
  note d = m'_def reply_frame_def swap_mac_def swap_ip_def Let_def st8_def st16_def st32_def ld16_def ld32_def
  show "ld_bytes m' 0 6 = ld_bytes m 6 6" "ld_bytes m' 6 6 = ld_bytes m 0 6"
    "ld32 m' 26 = ld32 m 30" "ld32 m' 30 = ld32 m 26" "ld16 m' (udp_off m + 6) = 0"
    using assms(2) unfolding d by (simp_all add: mem_simps u assms(1))
  show "decode_bfd (ld_bytes m' (bfd_off m) 24) = reply_bfd (decode_bfd (ld_bytes m (bfd_off m) 24))"
    using assms(2) unfolding d by (simp add: mem_simps u assms(1) decode_encode_bfd)
  show "m' 22 = 0xff"
    using assms(2) unfolding d by (simp add: u assms(1) st_bytes_def)
qed
lemma reply_frame_rest:
  assumes "ip_off m = 14" "5 \<le> ip_hl m" "12 \<le> i" "i \<noteq> 22" "i < 26 \<or> 34 \<le> i" 
   "i < udp_off m + 6 \<or> bfd_off m + 24 \<le> i"
  shows "reply_frame m i = m i"
proof -
  have u: "udp_off m = 14 + ip_hl m * 4" "bfd_off m = 22 + ip_hl m * 4" 
    using assms by (simp_all add: udp_off_def bfd_off_def)
  show ?thesis
    using assms u
   by (auto simp: reply_frame_def swap_mac_def swap_ip_def Let_def st8_def st16_def st32_def st_bytes_def)
qed


section \<open>A session against the reflector\<close>









section \<open>The loop over a pair of rings\<close>

definition idxs :: "netmap_ring \<Rightarrow> u32 list" where
  "idxs r = map buf_idx (slot r)"

text \<open>The events of the reflector: none, or \<open>recv_packet\<close>.\<close>

definition reflector_event :: "netmap_api \<Rightarrow> (process_handle \<Rightarrow> process_handle) option \<Rightarrow> bool" where
  "reflector_event api f \<longleftrightarrow> f = None \<or> f = Some (recv_packet api)"

lemma recv_packet_idx:
  "buf_idx (rs (recv_packet api ph)) = buf_idx (ts ph)"
  "buf_idx (ts (recv_packet api ph)) = buf_idx (rs ph)"
  "slot_len (ts (recv_packet api ph)) = reqlen ph"
  "req (recv_packet api ph) = reply_frame (req ph)"
  by (simp_all add: recv_packet_def swap_index_def Let_def)

lemma process_slots_idx:
  assumes "reflector_event api f" and "process_slots f r t b = (r', t', b')"
  shows "(buf_idx r' = buf_idx r \<and> buf_idx t' = buf_idx t) \<or>
         (buf_idx r' = buf_idx t \<and> buf_idx t' = buf_idx r)"
  using assms
  by (auto simp: reflector_event_def process_slots_def Let_def recv_packet_idx split: if_splits)

lemma mset_exchange:
  assumes "i < length xs" "j < length ys"
    and "(x = xs ! i \<and> y = ys ! j) \<or> (x = ys ! j \<and> y = xs ! i)"
  shows "mset (xs[i := x]) + mset (ys[j := y]) = mset xs + mset ys"
proof -
  have "xs ! i \<in># mset xs" "ys ! j \<in># mset ys" using assms(1,2) by simp_all
  then obtain A B where AB: "mset xs = add_mset (xs ! i) A" "mset ys = add_mset (ys ! j) B"
    by (metis multi_member_split)
  show ?thesis using assms by (elim disjE) (simp_all add: mset_update AB)
qed

text \<open>What the loop leaves alone, and the positions it ends at.\<close>

definition same_frame :: "netmap_ring \<Rightarrow> netmap_ring \<Rightarrow> bool" where
  "same_frame r r' \<longleftrightarrow> num_slots r' = num_slots r \<and> ring_tail r' = ring_tail r \<and>
     ring_cur r' = ring_cur r \<and> ring_head r' = ring_head r \<and> length (slot r') = length (slot r)"

lemma process_step_frame:
  assumes ev: "reflector_event api f"
    and ix: "unat rx < length (slot (rxring g))" "unat tx < length (slot (txring g))"
  shows "same_frame (rxring g) (rxring (process_step f rx tx g))"
    and "same_frame (txring g) (txring (process_step f rx tx g))"
    and "mset (idxs (rxring (process_step f rx tx g))) + mset (idxs (txring (process_step f rx tx g)))
      = mset (idxs (rxring g)) + mset (idxs (txring g))"
proof -
  obtain r t b where ps: "process_slots f (slot (rxring g) ! unat rx) (slot (txring g) ! unat tx)
      (bufs g) = (r, t, b)"
    by (metis prod_cases3)
  show "same_frame (rxring g) (rxring (process_step f rx tx g))"
    "same_frame (txring g) (txring (process_step f rx tx g))"
    by (simp_all add: process_step_def ps same_frame_def)
  show "mset (idxs (rxring (process_step f rx tx g))) + mset (idxs (txring (process_step f rx tx g)))
      = mset (idxs (rxring g)) + mset (idxs (txring g))"
    using mset_exchange [of "unat rx" "idxs (rxring g)" "unat tx" "idxs (txring g)"
        "buf_idx r" "buf_idx t"] process_slots_idx [OF ev ps] ix
    by (auto simp: process_step_def ps idxs_def map_update)
qed

definition cursors_ok :: "u32 \<Rightarrow> u32 \<Rightarrow> rings \<Rightarrow> bool" where
  "cursors_ok rx tx g \<longleftrightarrow> rx < num_slots (rxring g) \<and> tx < num_slots (txring g) \<and>
     length (slot (rxring g)) = unat (num_slots (rxring g)) \<and>
     length (slot (txring g)) = unat (num_slots (txring g))"

lemma same_frame_trans: "same_frame r s \<Longrightarrow> same_frame s t \<Longrightarrow> same_frame r t"
  by (simp add: same_frame_def)

lemma next_cursor:
  assumes "api_laws api" "i < num_slots r"
  shows "unat (nm_ring_next api r i) = (unat i + 1) mod unat (num_slots r)"
    and "nm_ring_next api r i < num_slots r"
proof -
  show u: "unat (nm_ring_next api r i) = (unat i + 1) mod unat (num_slots r)"
    using assms unfolding api_laws_def by blast
  have "0 < unat (num_slots r)" using assms(2) by (simp add: word_less_nat_alt)
  then show "nm_ring_next api r i < num_slots r"
    unfolding word_less_nat_alt u by (rule mod_less_divisor)
qed

lemma process_loop_frame:
  assumes laws: "api_laws api" and ev: "reflector_event api f"
    and "process_loop api f n rx tx g = (rx', tx', g')" and "cursors_ok rx tx g"
  shows "same_frame (rxring g) (rxring g') \<and> same_frame (txring g) (txring g') \<and>
    cursors_ok rx' tx' g' \<and>
    unat rx' = (unat rx + n) mod unat (num_slots (rxring g)) \<and>
    unat tx' = (unat tx + n) mod unat (num_slots (txring g)) \<and>
    mset (idxs (rxring g')) + mset (idxs (txring g')) =
      mset (idxs (rxring g)) + mset (idxs (txring g))"
  using assms(3-)
proof (induction n arbitrary: rx tx g)
  case 0
  then show ?case by (auto simp: same_frame_def cursors_ok_def word_less_nat_alt)
next
  case (Suc n)
  define g1 where "g1 = process_step f rx tx g"
  let ?rx = "nm_ring_next api (rxring g1) rx" and ?tx = "nm_ring_next api (txring g1) tx"
  have ix: "unat rx < length (slot (rxring g))" "unat tx < length (slot (txring g))"
    using Suc.prems(2) by (simp_all add: cursors_ok_def word_less_nat_alt)
  note st = process_step_frame [OF ev ix, folded g1_def]
  have eq: "num_slots (rxring g1) = num_slots (rxring g)" "num_slots (txring g1) = num_slots (txring g)"
    using st(1,2) by (simp_all add: same_frame_def)
  have rt: "rx < num_slots (rxring g1)" "tx < num_slots (txring g1)"
    using Suc.prems(2) by (simp_all add: eq cursors_ok_def)
  note nx = next_cursor [OF laws rt(1)] next_cursor [OF laws rt(2)]
  have "cursors_ok ?rx ?tx g1"
    using nx st(1,2) Suc.prems(2) by (simp add: cursors_ok_def same_frame_def)
  moreover have "process_loop api f n ?rx ?tx g1 = (rx', tx', g')"
    using Suc.prems(1) by (simp add: g1_def Let_def)
  ultimately have IH: "same_frame (rxring g1) (rxring g') \<and> same_frame (txring g1) (txring g') \<and>
    cursors_ok rx' tx' g' \<and>
    unat rx' = (unat ?rx + n) mod unat (num_slots (rxring g1)) \<and>
    unat tx' = (unat ?tx + n) mod unat (num_slots (txring g1)) \<and>
    mset (idxs (rxring g')) + mset (idxs (txring g')) =
      mset (idxs (rxring g1)) + mset (idxs (txring g1))"
    by (intro Suc.IH)
  have "(unat ?rx + n) mod unat (num_slots (rxring g1)) =
      (unat rx + Suc n) mod unat (num_slots (rxring g))"
    "(unat ?tx + n) mod unat (num_slots (txring g1)) =
      (unat tx + Suc n) mod unat (num_slots (txring g))"
    unfolding nx eq mod_add_left_eq by simp_all
  with IH st show ?case by (auto intro: same_frame_trans)
qed

lemma ring_ok_cursor:
  assumes "ring_ok r" "same_frame r r'" "c < num_slots r"
    and "unat c = (unat (ring_cur r) + k) mod unat (num_slots r)" "k \<le> ring_space r"
  shows "ring_ok (r'\<lparr>ring_cur := c, ring_head := c\<rparr>) \<and>
    ring_space (r'\<lparr>ring_cur := c, ring_head := c\<rparr>) = ring_space r - k"
proof -
  have "unat (ring_tail r) < unat (num_slots r)" "unat (ring_cur r) < unat (num_slots r)"
    using assms(1) by (simp_all add: ring_ok_def word_less_nat_alt)
  from space_arith [OF this assms(5) [unfolded ring_space_def]] assms show ?thesis
    by (simp add: ring_ok_def ring_space_def same_frame_def)
qed

lemma process_rings_spec:
  assumes laws: "api_laws api" and ev: "reflector_event api f"
    and ok: "ring_ok (rxring g)" "ring_ok (txring g)"
    and r: "process_rings api f g = (m, g')"
  shows "unat m = min (ring_space (rxring g)) (ring_space (txring g)) \<and>
    ring_ok (rxring g') \<and> ring_ok (txring g') \<and>
    ring_space (rxring g') = ring_space (rxring g) - unat m \<and>
    ring_space (txring g') = ring_space (txring g) - unat m \<and>
    mset (idxs (rxring g')) + mset (idxs (txring g')) =
      mset (idxs (rxring g)) + mset (idxs (txring g))"
proof -
  define g0 where "g0 = (if ring_flags (rxring g) \<noteq> 0 \<or> ring_flags (txring g) \<noteq> 0
    then g\<lparr>rxring := (rxring g)\<lparr>ring_flags := 0\<rparr>, txring := (txring g)\<lparr>ring_flags := 0\<rparr>\<rparr> else g)"
  have ok0: "ring_ok (rxring g0)" "ring_ok (txring g0)"
    using ok by (simp_all add: g0_def ring_ok_def)
  have sp0: "ring_space (rxring g0) = ring_space (rxring g)"
    "ring_space (txring g0) = ring_space (txring g)"
    "slot (rxring g0) = slot (rxring g)" "slot (txring g0) = slot (txring g)"
    by (simp_all add: g0_def ring_space_def)
  define n where "n = min (min (num_slots (rxring g)) (nm_ring_space api (rxring g0)))
    (nm_ring_space api (txring g0))"
  have u: "unat (nm_ring_space api (rxring g0)) = ring_space (rxring g0)"
    "unat (nm_ring_space api (txring g0)) = ring_space (txring g0)"
    using laws ok0 by (simp_all add: api_laws_def)
  have n: "unat n = min (ring_space (rxring g)) (ring_space (txring g))"
    using ring_space_less [OF ok(1)] u sp0
    by (auto simp: n_def min_def word_le_nat_alt)
  obtain rx tx g1 where
    l: "process_loop api f (unat n) (ring_cur (rxring g0)) (ring_cur (txring g0)) g0 = (rx, tx, g1)"
    by (metis prod_cases3)
  have g': "g' = g1\<lparr>rxring := (rxring g1)\<lparr>ring_cur := rx, ring_head := rx\<rparr>,
                   txring := (txring g1)\<lparr>ring_cur := tx, ring_head := tx\<rparr>\<rparr>" and m: "m = n"
    using r l unfolding process_rings_def Let_def g0_def [symmetric] n_def [symmetric]
    by simp_all
  have c0: "cursors_ok (ring_cur (rxring g0)) (ring_cur (txring g0)) g0"
    using ok0 by (simp add: cursors_ok_def ring_ok_def)
  note fr = process_loop_frame [OF laws ev l c0]
  have "rx < num_slots (rxring g0)" "tx < num_slots (txring g0)"
    using fr by (auto simp: cursors_ok_def same_frame_def)
  with ring_ok_cursor [OF ok0(1), of "rxring g1" rx "unat n"]
    ring_ok_cursor [OF ok0(2), of "txring g1" tx "unat n"] fr n sp0
  show ?thesis unfolding g' m by (simp add: idxs_def)
qed

section \<open>The end of \<open>move\<close>\<close>

definition interface_ok :: "interface \<Rightarrow> bool" where
  "interface_ok i \<longleftrightarrow> (\<forall>k. ring_ok (rxrings i k) \<and> ring_ok (txrings i k))"

text \<open>All rings from \<open>a\<close> up to, and without, \<open>b\<close> have no slot to process.\<close>

definition drained :: "(u16 \<Rightarrow> netmap_ring) \<Rightarrow> u16 \<Rightarrow> u16 \<Rightarrow> bool" where
  "drained rings a b \<longleftrightarrow> (\<forall>k. a \<le> k \<longrightarrow> k < b \<longrightarrow> ring_space (rings k) = 0)"

lemma unat_next:
  assumes "(b :: u16) \<le> c" "c < 0xffff"
  shows "unat (b + 1) = unat b + 1"
proof -
  have "unat b \<le> unat c" "unat c < unat (0xffff :: u16)"
    using assms by (simp_all only: word_le_nat_alt word_less_nat_alt)
  then have "unat b + 1 < 2 ^ LENGTH(16)" by simp
  then show ?thesis by (simp add: unat_word_ariths)
qed

lemma drained_next:
  assumes "drained rings a b" "ring_space (rings b) = 0" "b \<le> c" "c < 0xffff"
  shows "drained rings a (b + 1)"
  unfolding drained_def
proof (intro allI impI)
  fix k
  assume k: "a \<le> k" "k < b + 1"
  then have "k < b \<or> k = b"
    using unat_next [OF assms(3,4)] by (auto simp: word_less_nat_alt word_unat_eq_iff)
  with k assms(1,2) show "ring_space (rings k) = 0" by (auto simp: drained_def)
qed

text \<open>
  \<open>move\<close> returns: each round passes a ring, or processes slots until one of the two rings is
  empty. When it returns, all receive rings or all transmit rings have been used up.
\<close>

definition move_measure :: "nm_desc \<Rightarrow> u16 \<Rightarrow> u16 \<Rightarrow> interface \<Rightarrow> nat" where
  "move_measure nmd rx tx i =
     2 * ((unat (last_rx_ring nmd) + 1 - unat rx) + (unat (last_tx_ring nmd) + 1 - unat tx)) +
     (if ring_space (rxrings i rx) \<noteq> 0 \<and> ring_space (txrings i tx) \<noteq> 0 then 1 else 0)"

lemma move_loop_ends:
  assumes laws: "api_laws api" and ev: "reflector_event api f"
    and last: "last_rx_ring nmd < 0xffff" "last_tx_ring nmd < 0xffff"
    and "interface_ok i" "drained (rxrings i) a rx" "drained (txrings i) b tx"
  shows "\<exists>m' i'. move_loop api nmd f rx tx m i = Some (m', i') \<and> interface_ok i' \<and>
    (drained (rxrings i') a (last_rx_ring nmd + 1) \<or> drained (txrings i') b (last_tx_ring nmd + 1))"
  using assms(5-)
proof (induction "move_measure nmd rx tx i" arbitrary: rx tx m i rule: less_induct)
  case less
  have ok: "ring_ok (rxrings i rx)" "ring_ok (txrings i tx)"
    using less.prems(1) by (simp_all add: interface_ok_def)
  then have em: "nm_ring_empty api (rxrings i rx) \<longleftrightarrow> ring_space (rxrings i rx) = 0"
    "nm_ring_empty api (txrings i tx) \<longleftrightarrow> ring_space (txrings i tx) = 0"
    using laws by (simp_all add: api_laws_def)
  consider (stop) "\<not> (rx \<le> last_rx_ring nmd \<and> tx \<le> last_tx_ring nmd)"
    | (rx) "rx \<le> last_rx_ring nmd" "tx \<le> last_tx_ring nmd" "ring_space (rxrings i rx) = 0"
    | (tx) "rx \<le> last_rx_ring nmd" "tx \<le> last_tx_ring nmd" "ring_space (rxrings i rx) \<noteq> 0"
        "ring_space (txrings i tx) = 0"
    | (both) "rx \<le> last_rx_ring nmd" "tx \<le> last_tx_ring nmd" "ring_space (rxrings i rx) \<noteq> 0"
        "ring_space (txrings i tx) \<noteq> 0"
    by blast
  then show ?case
  proof cases
    case stop
    then have "drained (rxrings i) a (last_rx_ring nmd + 1) \<or>
        drained (txrings i) b (last_tx_ring nmd + 1)"
      using less.prems(2,3) unat_next [OF order_refl last(1)] unat_next [OF order_refl last(2)]
      by (auto simp: drained_def word_less_nat_alt word_le_nat_alt)
    moreover have "move_loop api nmd f rx tx m i = Some (m, i)"
      using stop by (subst move_loop.simps) (simp only: if_False)
    ultimately show ?thesis using less.prems(1) by blast
  next
    case rx
    have "move_measure nmd (rx + 1) tx i < move_measure nmd rx tx i"
      using rx unat_next [OF rx(1) last(1)] by (auto simp: move_measure_def word_le_nat_alt)
    from less.hyps [OF this less.prems(1) drained_next [OF less.prems(2) rx(3,1) last(1)] less.prems(3)]
    show ?thesis using rx em by (subst move_loop.simps) simp
  next
    case tx
    have "move_measure nmd rx (tx + 1) i < move_measure nmd rx tx i"
      using tx unat_next [OF tx(2) last(2)] by (auto simp: move_measure_def word_le_nat_alt)
    from less.hyps [OF this less.prems(1,2) drained_next [OF less.prems(3) tx(4,2) last(2)]]
    show ?thesis using tx em by (subst move_loop.simps) simp
  next
    case both
    let ?g = "\<lparr>rxring = rxrings i rx, txring = txrings i tx, bufs = if_bufs i\<rparr>"
    obtain n g where pr: "process_rings api f ?g = (n, g)" by fastforce
    note sp = process_rings_spec [OF laws ev _ _ pr, simplified, OF ok]
    let ?i = "\<lparr>rxrings = (rxrings i)(rx := rxring g), txrings = (txrings i)(tx := txring g),
      if_bufs = bufs g\<rparr>"
    have "interface_ok ?i" using less.prems(1) sp by (simp add: interface_ok_def)
    moreover have "drained (rxrings ?i) a rx" "drained (txrings ?i) b tx"
      using less.prems(2,3) by (auto simp: drained_def)
    moreover have "move_measure nmd rx tx ?i < move_measure nmd rx tx i"
      using both sp by (auto simp: move_measure_def min_def)
    ultimately have "\<exists>m' i'. move_loop api nmd f rx tx (m + n) ?i = Some (m', i') \<and> interface_ok i' \<and>
      (drained (rxrings i') a (last_rx_ring nmd + 1) \<or> drained (txrings i') b (last_tx_ring nmd + 1))"
      by (intro less.hyps)
    with both em pr show ?thesis by (subst move_loop.simps) simp
  qed
qed

section \<open>Properties\<close>

text \<open>A frame with a BFD packet and the interface functions as documented; used in the witnesses.\<close>

definition sample_frame :: mem where
  "sample_frame = (\<lambda>_. 0)(12 := 8, 14 := 0x45, 23 := 17, 36 := 0x0e, 37 := 0xc8, 39 := 32,
     42 := 0x20, 43 := 0x40, 44 := 3, 45 := 24, 46 := 1)"

lemma sample_frame_bfd: "is_bfd_packet sample_frame 66 = 0 \<and> ip_hl sample_frame = 5"
  by code_simp

definition sample_api :: netmap_api where
  "sample_api = \<lparr>nm_ring_space = (\<lambda>r. of_nat (ring_space r)),
     nm_ring_empty = (\<lambda>r. ring_space r = 0),
     nm_ring_next = (\<lambda>r i. of_nat ((unat i + 1) mod unat (num_slots r))), NS_BUF_CHANGED = 1\<rparr>"

lemma sample_api_laws: "api_laws sample_api"
proof -
  have u: "unat (of_nat k :: u32) = k" if "k < unat n" for k and n :: u32
    using that unsigned_less [of n, where 'a = nat] by (intro unat_of_nat_small) simp
  have "unat (of_nat (ring_space r) :: u32) = ring_space r" if "ring_ok r" for r
    using ring_space_less [OF that] by (rule u)
  moreover have "unat (of_nat ((unat i + 1) mod unat (num_slots r)) :: u32) =
      (unat i + 1) mod unat (num_slots r)" if "i < num_slots r" for r :: netmap_ring and i
    using that by (intro u [of _ "num_slots r"] mod_less_divisor) (simp add: word_less_nat_alt)
  ultimately show ?thesis by (simp add: api_laws_def sample_api_def)
qed

definition sample_ring :: "u32 \<Rightarrow> netmap_ring" where
  "sample_ring k = \<lparr>num_slots = 2, ring_head = 0, ring_cur = 0, ring_tail = 1, ring_flags = 0,
     slot = [\<lparr>buf_idx = k, slot_len = 66, slot_flags = 0\<rparr>,
             \<lparr>buf_idx = k + 1, slot_len = 66, slot_flags = 0\<rparr>]\<rparr>"

lemma sample_ring_ok: "ring_ok (sample_ring k)" and sample_ring_space: "ring_space (sample_ring k) = 1"
  by (simp_all add: ring_ok_def ring_space_def sample_ring_def)

text \<open>C23. A slot with a BFD frame (IPv4 header of at least 20 bytes) is answered without a copy: the
  slots exchange their buffers, the transmit slot gets the received length, and in the buffer the
  MAC and IP addresses are exchanged, the TTL is 255, the UDP checksum 0 and the BFD packet is
  the answer of the state machine; all other bytes stay, and everything written lies within the
  2048 bytes of a buffer.\<close>

theorem reflect_answers_frame:
  assumes "is_bfd_packet (B (buf_idx r)) (unat (slot_len r)) = 0" "slot_len r \<le> 2048"
    and "5 \<le> ip_hl (B (buf_idx r))"
    and "process_slots (Some (recv_packet api)) r t B = (r', t', B2)"
  shows "(let m = B (buf_idx r); m' = B2 (buf_idx r) in
    buf_idx r' = buf_idx t \<and> buf_idx t' = buf_idx r \<and> slot_len t' = slot_len r \<and>
    (\<forall>k. k \<noteq> buf_idx r \<longrightarrow> B2 k = B k) \<and>
    ld_bytes m' 0 6 = ld_bytes m 6 6 \<and> ld_bytes m' 6 6 = ld_bytes m 0 6 \<and>
    ld32 m' 26 = ld32 m 30 \<and> ld32 m' 30 = ld32 m 26 \<and> m' 22 = 0xff \<and>
    ld16 m' (udp_off m + 6) = 0 \<and>
    decode_bfd (ld_bytes m' (bfd_off m) 24) = reply_bfd (decode_bfd (ld_bytes m (bfd_off m) 24)) \<and>
    bfd_off m + 24 \<le> 2048 \<and>
    (\<forall>i. 12 \<le> i \<and> i \<noteq> 22 \<and> (i < 26 \<or> 34 \<le> i) \<and> (i < udp_off m + 6 \<or> bfd_off m + 24 \<le> i) \<longrightarrow>
       m' i = m i))"
proof -
  let ?m = "B (buf_idx r)"
  note off = accepted_frame(2) [OF assms(1)]
  have m': "B2 = B(buf_idx r := reply_frame ?m)"
    and sl: "buf_idx r' = buf_idx t" "buf_idx t' = buf_idx r" "slot_len t' = slot_len r"
    using assms(1,2,4) by (auto simp: process_slots_def Let_def recv_packet_idx)
  have "unat (?m (ip_off ?m) AND 0x0f) < 16"
    using word_and_le1 [of "?m (ip_off ?m)" 15] by (simp add: word_le_nat_alt)
  then have "bfd_off ?m + 24 \<le> 2048"
    by (simp add: bfd_off_def udp_off_def off ip_hl_def)
  with reply_frame_spec [OF off assms(3)] reply_frame_rest [OF off assms(3)] show ?thesis
    unfolding Let_def m' by (simp add: sl)
qed

theorem reflect_answers_frame_witness:
  "let r = \<lparr>buf_idx = 3, slot_len = 66, slot_flags = 0\<rparr>; t = \<lparr>buf_idx = 4, slot_len = 0, slot_flags = 0\<rparr>;
       (r', t', B2) = process_slots (Some (recv_packet sample_api)) r t (\<lambda>_. sample_frame)
   in buf_idx r' = 4 \<and> buf_idx t' = 3 \<and> slot_len t' = 66 \<and> B2 3 22 = 0xff"
proof -
  let ?r = "\<lparr>buf_idx = 3, slot_len = 66, slot_flags = 0\<rparr>"
  let ?t = "\<lparr>buf_idx = 4, slot_len = 0, slot_flags = 0\<rparr>"
  obtain r' t' B2 where p: "process_slots (Some (recv_packet sample_api)) ?r ?t (\<lambda>_. sample_frame)
      = (r', t', B2)"
    by (metis prod_cases3)
  have "is_bfd_packet sample_frame (unat (slot_len ?r)) = 0" "slot_len ?r \<le> 2048"
    "5 \<le> ip_hl sample_frame"
    using sample_frame_bfd by simp_all
  from reflect_answers_frame [OF this p] p show ?thesis by (simp add: Let_def)
qed

text \<open>C21. \<open>process_rings\<close> with the event of the reflector handles as many slots as both rings have,
  advances both rings by that count and keeps them well formed, and the buffers of the two rings
  are afterwards the same ones as before, each owned once as before: none is lost or doubled.\<close>

theorem process_rings_keeps_buffers:
  assumes "api_laws api" "f = None \<or> f = Some (recv_packet api)"
    and "ring_ok (rxring g)" "ring_ok (txring g)" "process_rings api f g = (m, g')"
  shows "unat m = min (ring_space (rxring g)) (ring_space (txring g)) \<and>
    ring_ok (rxring g') \<and> ring_ok (txring g') \<and>
    ring_space (rxring g') = ring_space (rxring g) - unat m \<and>
    ring_space (txring g') = ring_space (txring g) - unat m \<and>
    mset (map buf_idx (slot (rxring g'))) + mset (map buf_idx (slot (txring g'))) =
      mset (map buf_idx (slot (rxring g))) + mset (map buf_idx (slot (txring g)))"
  using process_rings_spec [OF assms(1) _ assms(3-5)] assms(2)
  unfolding reflector_event_def idxs_def by blast

theorem process_rings_keeps_buffers_witness:
  "let g = \<lparr>rxring = sample_ring 3, txring = sample_ring 8, bufs = (\<lambda>_. sample_frame)\<rparr>;
       (m, g') = process_rings sample_api (Some (recv_packet sample_api)) g
   in unat m = 1 \<and>
      mset (map buf_idx (slot (rxring g'))) + mset (map buf_idx (slot (txring g'))) = {#3, 4, 8, 9#}"
proof -
  let ?g = "\<lparr>rxring = sample_ring 3, txring = sample_ring 8, bufs = (\<lambda>_. sample_frame)\<rparr>"
  obtain m g' where p: "process_rings sample_api (Some (recv_packet sample_api)) ?g = (m, g')"
    by fastforce
  from process_rings_keeps_buffers [OF sample_api_laws _ _ _ p] show ?thesis
    by (simp add: sample_ring_ok sample_ring_space p)
       (simp add: sample_ring_def add_mset_commute)
qed

text \<open>C22. \<open>move\<close> returns when the last ring index is below 65535, keeps all rings well formed, and
  leaves no slot to process in any receive ring or none in any transmit ring of the interface.\<close>

theorem move_returns:
  assumes "api_laws api" "f = None \<or> f = Some (recv_packet api)"
    and "last_rx_ring nmd < 0xffff" "last_tx_ring nmd < 0xffff"
    and "\<forall>k. ring_ok (rxrings i k) \<and> ring_ok (txrings i k)"
  shows "\<exists>m i'. move api nmd f i = Some (m, i') \<and>
    (\<forall>k. ring_ok (rxrings i' k) \<and> ring_ok (txrings i' k)) \<and>
    ((\<forall>k. first_rx_ring nmd \<le> k \<and> k \<le> last_rx_ring nmd \<longrightarrow> ring_space (rxrings i' k) = 0) \<or>
     (\<forall>k. first_tx_ring nmd \<le> k \<and> k \<le> last_tx_ring nmd \<longrightarrow> ring_space (txrings i' k) = 0))"
proof -
  have le: "k < l + 1" if "k \<le> l" "l < 0xffff" for k l :: u16
    using that unat_next [OF order_refl that(2)] by (simp add: word_less_nat_alt word_le_nat_alt)
  have "\<exists>m i'. move api nmd f i = Some (m, i') \<and> interface_ok i' \<and>
    (drained (rxrings i') (first_rx_ring nmd) (last_rx_ring nmd + 1) \<or>
     drained (txrings i') (first_tx_ring nmd) (last_tx_ring nmd + 1))"
    unfolding move_def using assms
    by (intro move_loop_ends) (auto simp: interface_ok_def reflector_event_def drained_def)
  then show ?thesis
    unfolding interface_ok_def drained_def using le assms(3,4) by metis
qed

theorem move_returns_witness:
  "let nmd = \<lparr>first_rx_ring = 0, last_rx_ring = 1, first_tx_ring = 0, last_tx_ring = 1\<rparr>;
       i = \<lparr>rxrings = (\<lambda>_. sample_ring 3), txrings = (\<lambda>_. sample_ring 8), if_bufs = (\<lambda>_. sample_frame)\<rparr>
   in \<exists>m i'. move sample_api nmd (Some (recv_packet sample_api)) i = Some (m, i')"
  using move_returns [OF sample_api_laws, of "Some (recv_packet sample_api)"
      "\<lparr>first_rx_ring = 0, last_rx_ring = 1, first_tx_ring = 0, last_tx_ring = 1\<rparr>"
      "\<lparr>rxrings = (\<lambda>_. sample_ring 3), txrings = (\<lambda>_. sample_ring 8), if_bufs = (\<lambda>_. sample_frame)\<rparr>"]
  by (auto simp: sample_ring_ok Let_def)



text \<open>C25. The answer of the reflector to a valid packet names the neighbour's discriminator, and its state
  is Init or Down for Down (as the packet names no discriminator or one), Up for Init and Up, and Down
  for AdminDown. It carries the reflector's discriminator, except that for an AdminDown packet its own
  discriminator stays the one that the packet names; so the answer is valid unless the packet is AdminDown
  and names none: then it is invalid, and its receiver drops it.\<close>

theorem reflector_answer_valid:
  assumes "bfd_valid 24 b"
  shows "your_discr (reply_bfd b) = my_discr b \<and>
    my_discr (reply_bfd b) = (if state b = BFDSTATE_ADMINDOWN then your_discr b else MYDSCR) \<and>
    to_state (state (reply_bfd b)) =
      (case to_state (state b) of AdminDown \<Rightarrow> Down | Down \<Rightarrow> if your_discr b = 0 then Init else Down | _ \<Rightarrow> Up) \<and>
    (bfd_valid 24 (reply_bfd b) \<longleftrightarrow> state b \<noteq> BFDSTATE_ADMINDOWN \<or> your_discr b \<noteq> 0)"
proof (cases "state b = 0")
  case True
  have "my_discr (reply_bfd b) = your_discr b" "your_discr (reply_bfd b) = my_discr b" "state (reply_bfd b) = 1"
    using True by (simp_all add: reply_bfd_def swap_bfd_def Let_def)
  then show ?thesis using True assms by (auto simp: bfd_valid_def)
next
  case False
  then show ?thesis using reply_valid [OF assms] reply_discrs [of b] reply_state [of b] by simp
qed

theorem reflector_answer_valid_witness:
  "bfd_valid 24 (reply_bfd (session_packet sample_sess)) \<and>
   \<not> bfd_valid 24 (reply_bfd ((session_packet sample_sess)\<lparr>state := BFDSTATE_ADMINDOWN\<rparr>))"
proof -
  have "bfd_valid 24 ((session_packet sample_sess)\<lparr>state := BFDSTATE_ADMINDOWN\<rparr>)"
    using sample_packet_valid by (auto simp: bfd_valid_def)
  from reflector_answer_valid [OF this] reflector_answer_valid [OF sample_packet_valid] show ?thesis
    by (simp add: session_packet_def)
qed

end
