(* ===== verification/Smmr_Memory.thy ===== *)
theory Smmr_Memory
  imports Smmr_Base
begin

text \<open>
  The shared-memory allocator (\<open>smmr_memory.c\<close>). A category is one mapped file of 1024 pages of
  128 KiB: page 0 holds the bitmaps, each other page a root item of the used list, one of the
  free (recycle) list, one of the bucket, and then the items, each with a head of four words and
  a foot of four words around the user's bytes. All of it is bytes of the category's memory, read
  and written at the offsets below; the lists are doubly linked by offsets into the page.

  The loops over a list are two functions. \<open>find_item\<close> is the loop of \<open>attach\<close>,
  \<open>_find_freeitem_over_size\<close> and \<open>shmfree\<close>, which looks for the first item with a property;
  \<open>fold_items\<close> is the loop of \<open>_rebuild_bitmap_and_pagesummary\<close>, which visits all of them. Both
  end as the code does: on an invalid head or foot, on \<open>MMFLG_CLOSE\<close>, and on the counter that
  guards against a cycle. \<open>now\<close> is the result of \<open>time(0)\<close>. The category's pointer is taken to be
  a mapped file; a broken offset that leads outside of it reads unspecified bytes.
\<close>

section \<open>Layout\<close>

abbreviation PAGE_SIZE :: nat where "PAGE_SIZE \<equiv> 131072"
abbreviation PAGE_CNT :: nat where "PAGE_CNT \<equiv> 1024"
abbreviation SYSPAGE_SIZE :: nat where "SYSPAGE_SIZE \<equiv> 2048"

abbreviation SIZEOF_HEAD :: nat where "SIZEOF_HEAD \<equiv> 16"
abbreviation SIZEOF_FOOT :: nat where "SIZEOF_FOOT \<equiv> 16"

abbreviation MMPOS_USED_ROOT :: nat where "MMPOS_USED_ROOT \<equiv> 0"
abbreviation MMPOS_FREE_ROOT :: nat where "MMPOS_FREE_ROOT \<equiv> 56"
abbreviation MMPOS_BCKT_ROOT :: nat where "MMPOS_BCKT_ROOT \<equiv> 112"
abbreviation MMPOS_BCKT_INIT :: nat where "MMPOS_BCKT_INIT \<equiv> 168"
abbreviation MMPOS_MIN_OFST :: nat where "MMPOS_MIN_OFST \<equiv> 32"
abbreviation MMPOS_ROOT_SIZE :: nat where "MMPOS_ROOT_SIZE \<equiv> 56"
abbreviation MMPOS_ROOT_FOOT :: nat where "MMPOS_ROOT_FOOT \<equiv> 40"
abbreviation MMPOS_ROOT_DTL :: nat where "MMPOS_ROOT_DTL \<equiv> 16"
abbreviation MMSIZ_HF_SIZE :: nat where "MMSIZ_HF_SIZE \<equiv> 32"
abbreviation MMSIZ_ALL_ROOT :: nat where "MMSIZ_ALL_ROOT \<equiv> 224"
abbreviation MMSIZ_BCKT_INIT_SIZE :: nat where "MMSIZ_BCKT_INIT_SIZE \<equiv> 130848"

abbreviation MMSIG_USED :: u32 where "MMSIG_USED \<equiv> 0xDB00C0DE"
abbreviation MMSIG_FREE :: u32 where "MMSIG_FREE \<equiv> 0xDB55C0DE"
abbreviation MMSIG_BCKT :: u32 where "MMSIG_BCKT \<equiv> 0xDB77C0DE"
abbreviation MMSIG_SUFX :: u32 where "MMSIG_SUFX \<equiv> 0xDEADC0DE"
abbreviation MMFLG_CLOSE :: u32 where "MMFLG_CLOSE \<equiv> 0xFFFFFFFF"

definition MMPOS_USRPAGE :: "nat \<Rightarrow> nat" where
  "MMPOS_USRPAGE n = n * PAGE_SIZE"

definition MMPOS_SYSPAGE_BMP :: "nat \<Rightarrow> nat" where
  "MMPOS_SYSPAGE_BMP a = a * SYSPAGE_SIZE"

text \<open>The bitmaps of the system page (\<open>IPCSHM_SYSPAGE_ENUM\<close>).\<close>

abbreviation DC_032 :: nat where "DC_032 \<equiv> 1"
abbreviation DC_128 :: nat where "DC_128 \<equiv> 2"
abbreviation DC_512 :: nat where "DC_512 \<equiv> 3"
abbreviation DC_2K :: nat where "DC_2K \<equiv> 4"
abbreviation FREE_000 :: nat where "FREE_000 \<equiv> 5"
abbreviation FREE_032 :: nat where "FREE_032 \<equiv> 6"
abbreviation FREE_128 :: nat where "FREE_128 \<equiv> 7"
abbreviation FREE_512 :: nat where "FREE_512 \<equiv> 8"
abbreviation FREE_2K :: nat where "FREE_2K \<equiv> 9"
abbreviation SYSPAGE_ERR :: nat where "SYSPAGE_ERR \<equiv> 10"

definition bit_on :: "nat \<Rightarrow> nat \<Rightarrow> mem \<Rightarrow> mem" where
  "bit_on bmp pageid m = PAGEBIT_ON (MMPOS_SYSPAGE_BMP bmp) pageid m"

definition bit_off :: "nat \<Rightarrow> nat \<Rightarrow> mem \<Rightarrow> mem" where
  "bit_off bmp pageid m = PAGEBIT_OFF (MMPOS_SYSPAGE_BMP bmp) pageid m"

definition is_bit :: "mem \<Rightarrow> nat \<Rightarrow> nat \<Rightarrow> bool" where
  "is_bit m bmp pageid = ISPAGEBIT m (MMPOS_SYSPAGE_BMP bmp) pageid"

text \<open>
  The fields of \<open>struct memitem_head\<close>, \<open>memitem_foot\<close> and \<open>memitem_root_detail\<close> at an address.
\<close>

definition h_signature :: "mem \<Rightarrow> nat \<Rightarrow> u32" where "h_signature m a = ld32 m a"
definition h_prev :: "mem \<Rightarrow> nat \<Rightarrow> u32" where "h_prev m a = ld32 m (a + 4)"
definition h_next :: "mem \<Rightarrow> nat \<Rightarrow> u32" where "h_next m a = ld32 m (a + 8)"
definition h_len :: "mem \<Rightarrow> nat \<Rightarrow> u32" where "h_len m a = ld32 m (a + 12)"
definition f_suffix :: "mem \<Rightarrow> nat \<Rightarrow> u32" where "f_suffix m a = ld32 m (a + 4)"
definition f_category_id :: "mem \<Rightarrow> nat \<Rightarrow> u32" where "f_category_id m a = ld32 m (a + 8)"
definition r_last :: "mem \<Rightarrow> nat \<Rightarrow> u32" where "r_last m a = ld32 m (a + 20)"
definition r_free_size :: "mem \<Rightarrow> nat \<Rightarrow> u32" where "r_free_size m a = ld32 m (a + 24)"
definition r_free_cnt :: "mem \<Rightarrow> nat \<Rightarrow> u32" where "r_free_cnt m a = ld32 m (a + 28)"
definition r_use_size :: "mem \<Rightarrow> nat \<Rightarrow> u32" where "r_use_size m a = ld32 m (a + 32)"
definition r_use_cnt :: "mem \<Rightarrow> nat \<Rightarrow> u32" where "r_use_cnt m a = ld32 m (a + 36)"

definition set_signature :: "nat \<Rightarrow> u32 \<Rightarrow> mem \<Rightarrow> mem" where "set_signature a v = st32 a v"
definition set_prev :: "nat \<Rightarrow> u32 \<Rightarrow> mem \<Rightarrow> mem" where "set_prev a v = st32 (a + 4) v"
definition set_next :: "nat \<Rightarrow> u32 \<Rightarrow> mem \<Rightarrow> mem" where "set_next a v = st32 (a + 8) v"
definition set_len :: "nat \<Rightarrow> u32 \<Rightarrow> mem \<Rightarrow> mem" where "set_len a v = st32 (a + 12) v"
definition set_created :: "nat \<Rightarrow> u32 \<Rightarrow> mem \<Rightarrow> mem" where "set_created a v = st32 a v"
definition set_suffix :: "nat \<Rightarrow> u32 \<Rightarrow> mem \<Rightarrow> mem" where "set_suffix a v = st32 (a + 4) v"
definition set_category_id :: "nat \<Rightarrow> u32 \<Rightarrow> mem \<Rightarrow> mem" where
  "set_category_id a v = st32 (a + 8) v"
definition set_first :: "nat \<Rightarrow> u32 \<Rightarrow> mem \<Rightarrow> mem" where "set_first a v = st32 (a + 16) v"
definition set_last :: "nat \<Rightarrow> u32 \<Rightarrow> mem \<Rightarrow> mem" where "set_last a v = st32 (a + 20) v"
definition set_free_size :: "nat \<Rightarrow> u32 \<Rightarrow> mem \<Rightarrow> mem" where "set_free_size a v = st32 (a + 24) v"
definition set_free_cnt :: "nat \<Rightarrow> u32 \<Rightarrow> mem \<Rightarrow> mem" where "set_free_cnt a v = st32 (a + 28) v"
definition set_use_size :: "nat \<Rightarrow> u32 \<Rightarrow> mem \<Rightarrow> mem" where "set_use_size a v = st32 (a + 32) v"
definition set_use_cnt :: "nat \<Rightarrow> u32 \<Rightarrow> mem \<Rightarrow> mem" where "set_use_cnt a v = st32 (a + 36) v"

section \<open>Loops over a list of items\<close>

text \<open>The address of an item's foot, from its head.\<close>

definition foot_of :: "mem \<Rightarrow> nat \<Rightarrow> nat" where
  "foot_of m a = a + unat (h_len m a) - SIZEOF_FOOT"

definition item_valid :: "u32 \<Rightarrow> nat \<Rightarrow> mem \<Rightarrow> nat \<Rightarrow> nat \<Rightarrow> bool" where
  "item_valid sig minlen m a foot \<longleftrightarrow>
     h_signature m a = sig \<and> minlen \<le> unat (h_len m a) \<and> f_suffix m foot = MMSIG_SUFX"

function find_item ::
  "u32 \<Rightarrow> nat \<Rightarrow> (nat \<Rightarrow> bool) \<Rightarrow> mem \<Rightarrow> nat \<Rightarrow> nat \<Rightarrow> nat \<Rightarrow> nat \<Rightarrow> nat option" where
  "find_item sig minlen hit m page check_counter offset foot =
     (if \<not> offset < PAGE_SIZE then None
      else if \<not> item_valid sig minlen m (page + offset) foot then None
      else if hit offset then Some offset
      else if h_next m (page + offset) = MMFLG_CLOSE then None
      else if check_counter > 0xFFFFFFFF then None
      else let offset' = unat (h_next m (page + offset)) in
        find_item sig minlen hit m page (check_counter + 1) offset' (foot_of m (page + offset')))"
  by pat_completeness auto
termination
  by (relation "measure (\<lambda>(_, _, _, _, _, c, _, _). 0x100000000 - c)") auto

text \<open>The visit may change the memory; the result says whether the end of the list was reached.\<close>

function fold_items ::
  "u32 \<Rightarrow> (nat \<Rightarrow> mem \<times> 'a \<Rightarrow> mem \<times> 'a) \<Rightarrow> nat \<Rightarrow> nat \<Rightarrow> nat \<Rightarrow> nat \<Rightarrow> mem \<times> 'a \<Rightarrow>
     bool \<times> mem \<times> 'a" where
  "fold_items sig visit page check_counter offset foot ma =
     (if \<not> offset < PAGE_SIZE then (False, ma)
      else if \<not> item_valid sig MMPOS_MIN_OFST (fst ma) (page + offset) foot then (False, ma)
      else let ma = visit offset ma in
        if h_next (fst ma) (page + offset) = MMFLG_CLOSE then (True, ma)
        else if check_counter > 0xFFFFFFFF then (False, ma)
        else let offset' = unat (h_next (fst ma) (page + offset)) in
          fold_items sig visit page (check_counter + 1) offset' (foot_of (fst ma) (page + offset')) ma)"
  by pat_completeness auto
termination
  by (relation "measure (\<lambda>(_, _, _, c, _, _, _). 0x100000000 - c)") auto

declare find_item.simps [simp del] fold_items.simps [simp del]

section \<open>Moving items between lists\<close>

text \<open>
  Taking the item at \<open>offset\<close> out of the list of the root at \<open>root\<close>, and putting it at the end of
  the list of \<open>root\<close> with the signature \<open>sig\<close>: the statements that \<open>_operate_recycle\<close> and both
  branches of \<open>shmfree\<close> share.
\<close>

definition unlink_item :: "nat \<Rightarrow> nat \<Rightarrow> nat \<Rightarrow> mem \<Rightarrow> mem" where
  "unlink_item page root offset m =
     (let mhpt = page + offset;
          mhpt_prev = page + unat (h_prev m mhpt);
          nxt = h_next m mhpt;
          m = set_next mhpt_prev nxt m
      in if nxt = MMFLG_CLOSE then set_last (page + root) (h_prev m mhpt) m
         else set_prev (page + unat nxt) (h_prev m mhpt) m)"

definition link_last :: "nat \<Rightarrow> nat \<Rightarrow> u32 \<Rightarrow> nat \<Rightarrow> mem \<Rightarrow> mem" where
  "link_last page root sig offset m =
     (let mhpt = page + offset;
          m = set_signature mhpt sig m;
          last = r_last m (page + root);
          m = set_next mhpt MMFLG_CLOSE m;
          m = set_prev mhpt last m;
          m = set_next (page + unat last) (of_nat offset) m
      in set_last (page + root) (of_nat offset) m)"

section \<open>Allocation\<close>

definition find_freeitem_over_size :: "mem \<Rightarrow> nat \<Rightarrow> nat \<Rightarrow> nat" where
  "find_freeitem_over_size m page sz =
     (case find_item MMSIG_FREE MMPOS_MIN_OFST
             (\<lambda>offset. offset \<noteq> MMPOS_FREE_ROOT \<and> unat (h_len m (page + offset)) \<ge> MMSIZ_HF_SIZE + sz)
             m page 0 MMPOS_FREE_ROOT (page + MMPOS_FREE_ROOT + MMPOS_ROOT_FOOT) of
        Some offset \<Rightarrow> offset
      | None \<Rightarrow> 0)"

definition operate_recycle :: "nat \<Rightarrow> nat \<Rightarrow> mem \<Rightarrow> nat \<times> mem" where
  "operate_recycle page aligned_size m =
     (let finded_offset = find_freeitem_over_size m page aligned_size in
      if finded_offset = 0 then (0, m)
      else (finded_offset,
            link_last page MMPOS_USED_ROOT MMSIG_USED finded_offset
              (unlink_item page MMPOS_FREE_ROOT finded_offset m)))"

text \<open>The bucket's head after its first \<open>need\<close> bytes are given away.\<close>

definition advance_bucket :: "nat \<Rightarrow> nat \<Rightarrow> mem \<Rightarrow> mem" where
  "advance_bucket page need m =
     (let bckt_root = page + MMPOS_BCKT_ROOT;
          bckt = page + unat (h_next m bckt_root);
          backet_len_bk = h_len m bckt;
          m = set_next bckt_root (h_next m bckt_root + of_nat need) m;
          bckt = page + unat (h_next m bckt_root);
          m = set_signature bckt MMSIG_BCKT m;
          m = set_prev bckt (of_nat MMPOS_BCKT_ROOT) m;
          m = set_next bckt MMFLG_CLOSE m
      in set_len bckt (backet_len_bk - of_nat need) m)"

definition new_item :: "u32 \<Rightarrow> u32 \<Rightarrow> nat \<Rightarrow> u32 \<Rightarrow> nat \<Rightarrow> nat \<Rightarrow> mem \<Rightarrow> mem" where
  "new_item now category_id page lst inserted_offset aligned_size m =
     (let mhpt_new = page + inserted_offset;
          m = set_signature mhpt_new MMSIG_USED m;
          m = set_prev mhpt_new lst m;
          m = set_next mhpt_new MMFLG_CLOSE m;
          m = set_len mhpt_new (of_nat (aligned_size + MMSIZ_HF_SIZE)) m;
          m = memzero (mhpt_new + SIZEOF_HEAD) aligned_size m;
          mfpt_new = foot_of m mhpt_new;
          m = set_created mfpt_new now m;
          m = set_suffix mfpt_new MMSIG_SUFX m
      in set_category_id mfpt_new category_id m)"

definition operate_insert :: "u32 \<Rightarrow> u32 \<Rightarrow> nat \<Rightarrow> nat \<Rightarrow> mem \<Rightarrow> nat \<times> mem" where
  "operate_insert now category_id page aligned_size m =
     (let used_root = page + MMPOS_USED_ROOT;
          mhpt_used_last = page + unat (r_last m used_root);
          inserted_offset = unat (h_next m (page + MMPOS_BCKT_ROOT));
          mhpt_bckt = page + inserted_offset in
      if unat (h_len m mhpt_bckt) < aligned_size + MMSIZ_HF_SIZE then (0, m)
      else
        (let m = advance_bucket page (aligned_size + MMSIZ_HF_SIZE) m;
             m = new_item now category_id page (r_last m used_root) inserted_offset aligned_size m;
             m = set_last used_root (of_nat inserted_offset) m
         in (inserted_offset, set_next mhpt_used_last (of_nat inserted_offset) m)))"

definition align4 :: "nat \<Rightarrow> nat" where
  "align4 sz = (if sz mod 4 = 0 then sz else (sz div 4 + 1) * 4)"

text \<open>\<open>bitmapids\<close>: the bitmap of untouched space and the one of recycled space, by size class.\<close>

definition bitmapids :: "(nat \<times> nat) list" where
  "bitmapids = [(DC_032, FREE_000), (DC_032, FREE_032), (DC_128, FREE_128), (DC_512, FREE_512),
     (DC_2K, FREE_2K)]"

definition start_bmp_id :: "nat \<Rightarrow> nat" where
  "start_bmp_id aligned_size =
     (if aligned_size > 0x0200 then 3 else if aligned_size > 0x0080 then 2
      else if aligned_size > 0x0020 then 1 else 0)"

text \<open>One round of the two loops of \<open>shmalloc\<close>; \<open>Some\<close> is a return from the function.\<close>

definition alloc_from_page ::
  "u32 \<Rightarrow> u32 \<Rightarrow> nat \<Rightarrow> nat \<times> nat \<Rightarrow> nat \<Rightarrow> mem \<Rightarrow> (nat \<times> nat) option option \<times> mem" where
  "alloc_from_page now category_id aligned_size bmps n m =
     (let page = MMPOS_USRPAGE n; (dc, free) = bmps in
      if is_bit m SYSPAGE_ERR n then (None, m)
      else
        let (found, m) = (if is_bit m free n then operate_recycle page aligned_size m else (0, m)) in
        if found \<noteq> 0 then (Some (if found > PAGE_SIZE then None else Some (n, found)), m)
        else
          let (found, m) =
            (if is_bit m dc n then operate_insert now category_id page aligned_size m else (0, m)) in
          if found \<noteq> 0 then (Some (if found > PAGE_SIZE then None else Some (n, found)), m)
          else (None, m))"

fun alloc_scan ::
  "u32 \<Rightarrow> u32 \<Rightarrow> nat \<Rightarrow> ((nat \<times> nat) \<times> nat) list \<Rightarrow> mem \<Rightarrow> (nat \<times> nat) option \<times> mem" where
  "alloc_scan now category_id aligned_size [] m = (None, m)"
| "alloc_scan now category_id aligned_size ((bmps, n) # rest) m =
     (case alloc_from_page now category_id aligned_size bmps n m of
        (Some r, m) \<Rightarrow> (r, m)
      | (None, m) \<Rightarrow> alloc_scan now category_id aligned_size rest m)"

text \<open>The result is the page and the offset of the new item's head.\<close>

definition shmalloc :: "u32 \<Rightarrow> u32 \<Rightarrow> nat \<Rightarrow> mem \<Rightarrow> (nat \<times> nat) option \<times> mem" where
  "shmalloc now category_id sz m =
     (if sz = 0 \<or> sz > 2048 then (None, m)
      else alloc_scan now category_id (align4 sz)
        [(bmps, n). bmps \<leftarrow> drop (start_bmp_id (align4 sz)) bitmapids, n \<leftarrow> [1..<PAGE_CNT]] m)"

section \<open>Release\<close>

fun free_scan :: "nat \<Rightarrow> nat list \<Rightarrow> mem \<Rightarrow> mem" where
  "free_scan mhpt_free [] m = m"
| "free_scan mhpt_free (n # ns) m =
     (let page = MMPOS_USRPAGE n in
      if is_bit m SYSPAGE_ERR n then free_scan mhpt_free ns m
      else case find_item MMSIG_USED (MMPOS_MIN_OFST + 1) (\<lambda>offset. page + offset = mhpt_free) m page 0
                  MMPOS_USED_ROOT (page + MMPOS_USED_ROOT + MMPOS_ROOT_FOOT) of
          Some offset \<Rightarrow>
            link_last page MMPOS_FREE_ROOT MMSIG_FREE offset
              (unlink_item page MMPOS_USED_ROOT offset m)
        | None \<Rightarrow> free_scan mhpt_free ns m)"

text \<open>\<open>pointer\<close> is the user's address, relative to the start of the category's memory.\<close>

definition shmfree :: "u32 \<Rightarrow> nat \<Rightarrow> mem \<Rightarrow> mem" where
  "shmfree category_id pointer m =
     (if MMPOS_BCKT_INIT + SIZEOF_HEAD > pointer then m
      else
        let mhpt_free = pointer - SIZEOF_HEAD; mfpt_free = foot_of m mhpt_free in
        if h_signature m mhpt_free \<noteq> MMSIG_USED \<or> h_len m mhpt_free = 0 \<or>
           unat (h_len m mhpt_free) \<le> MMPOS_MIN_OFST \<or> f_suffix m mfpt_free \<noteq> MMSIG_SUFX \<or>
           f_category_id m mfpt_free \<noteq> category_id then m
        else free_scan mhpt_free [1..<PAGE_CNT] m)"

section \<open>Attaching by signature\<close>

fun attach_scan :: "nat \<Rightarrow> u32 \<Rightarrow> nat list \<Rightarrow> mem \<Rightarrow> nat option" where
  "attach_scan aligned_size itemid [] m = None"
| "attach_scan aligned_size itemid (n # ns) m =
     (let page = MMPOS_USRPAGE n in
      case find_item MMSIG_USED MMPOS_MIN_OFST
             (\<lambda>offset. offset \<noteq> MMPOS_USED_ROOT \<and>
                unat (h_len m (page + offset)) = MMSIZ_HF_SIZE + aligned_size \<and>
                ld32 m (page + offset + SIZEOF_HEAD) = itemid)
             m page 0 MMPOS_USED_ROOT (page + MMPOS_USED_ROOT + MMPOS_ROOT_FOOT) of
        Some offset \<Rightarrow> Some (page + offset + SIZEOF_HEAD)
      | None \<Rightarrow> attach_scan aligned_size itemid ns m)"

definition attach :: "nat \<Rightarrow> u32 \<Rightarrow> mem \<Rightarrow> nat option" where
  "attach sz itemid m =
     (if sz = 0 then None else attach_scan (align4 sz) itemid [1..<PAGE_CNT] m)"

end
