(* ===== verification/Smmr_Page.thy ===== *)
theory Smmr_Page
  imports Smmr_Memory
begin

text \<open>
  The invariant of one page of the allocator and its preservation: the used list and the free
  list are doubly linked, their items and the bucket tile disjoint parts of the page, and every
  item has a valid head and foot. The operations of \<open>Smmr_Memory\<close> move an item from one list to
  the other or cut a new one from the bucket.
\<close>

section \<open>Doubly linked lists of offsets\<close>

fun chain :: "(nat \<Rightarrow> u32) \<Rightarrow> nat \<Rightarrow> nat list \<Rightarrow> bool" where
  "chain nx r [] \<longleftrightarrow> nx r = MMFLG_CLOSE"
| "chain nx r (x # xs) \<longleftrightarrow> nx r = of_nat x \<and> chain nx x xs"

fun rchain :: "(nat \<Rightarrow> u32) \<Rightarrow> nat \<Rightarrow> nat list \<Rightarrow> bool" where
  "rchain pv r [] \<longleftrightarrow> True"
| "rchain pv r (x # xs) \<longleftrightarrow> pv x = of_nat r \<and> rchain pv x xs"

lemma chain_cong:
  "(\<And>o'. o' \<in> set (r # xs) \<Longrightarrow> nx o' = nx' o') \<Longrightarrow> chain nx r xs = chain nx' r xs"
  by (induction xs arbitrary: r) auto

lemma rchain_cong: "(\<And>o'. o' \<in> set xs \<Longrightarrow> pv o' = pv' o') \<Longrightarrow> rchain pv r xs = rchain pv' r xs"
  by (induction xs arbitrary: r) auto

lemma chain_append:
  "chain nx r xs \<Longrightarrow> distinct (r # xs @ [x]) \<Longrightarrow>
     chain (nx(last (r # xs) := of_nat x, x := MMFLG_CLOSE)) r (xs @ [x])"
proof (induction xs arbitrary: r)
  case (Cons y ys)
  then have "chain (nx(last (y # ys) := of_nat x, x := MMFLG_CLOSE)) y (ys @ [x])"
    by (intro Cons.IH) auto
  moreover have "last (y # ys) \<noteq> r" "x \<noteq> r" using Cons.prems(2) by (auto simp: last_in_set)
  moreover have "last (r # y # ys) = last (y # ys)" by simp
  ultimately show ?case using Cons.prems(1) by (simp del: last.simps add: fun_upd_def)
qed simp

lemma rchain_append:
  "rchain pv r xs \<Longrightarrow> x \<notin> set xs \<Longrightarrow> rchain (pv(x := of_nat (last (r # xs)))) r (xs @ [x])"
  by (induction xs arbitrary: r) auto

lemma chain_next:
  "chain nx r (xs @ x # ys) \<Longrightarrow> nx x = (case ys of [] \<Rightarrow> MMFLG_CLOSE | y # _ \<Rightarrow> of_nat y)"
  by (induction xs arbitrary: r) (auto split: list.split)

lemma rchain_prev: "rchain pv r (xs @ x # ys) \<Longrightarrow> pv x = of_nat (last (r # xs))"
  by (induction xs arbitrary: r) auto

lemma chain_remove:
  "chain nx r (xs @ x # ys) \<Longrightarrow> distinct (r # xs @ x # ys) \<Longrightarrow>
     chain (nx(last (r # xs) := nx x)) r (xs @ ys)"
proof (induction xs arbitrary: r)
  case Nil
  show ?case
  proof (cases ys)
    case (Cons y zs)
    have "chain (nx(r := nx x)) y zs = chain nx y zs"
      using Nil.prems(2) Cons by (intro chain_cong) auto
    with Nil Cons show ?thesis by (simp add: fun_upd_def)
  qed (use Nil in simp)
next
  case (Cons y zs)
  then have "chain (nx(last (y # zs) := nx x)) y (zs @ ys)" by (intro Cons.IH) auto
  moreover have "last (y # zs) \<noteq> r" using Cons.prems(2) by (auto simp: last_in_set)
  moreover have "last (r # y # zs) = last (y # zs)" by simp
  ultimately show ?case using Cons.prems(1) by (simp del: last.simps add: fun_upd_def)
qed

lemma rchain_remove:
  "rchain pv r (xs @ x # ys) \<Longrightarrow> distinct (xs @ x # ys) \<Longrightarrow>
     rchain (case ys of [] \<Rightarrow> pv | y # _ \<Rightarrow> pv(y := pv x)) r (xs @ ys)"
proof (induction xs arbitrary: r)
  case Nil
  show ?case
  proof (cases ys)
    case (Cons y zs)
    have "rchain (pv(y := pv x)) y zs = rchain pv y zs"
      using Nil.prems(2) Cons by (intro rchain_cong) auto
    with Nil Cons show ?thesis by (simp add: fun_upd_def)
  qed simp
next
  case (Cons z zs)
  then have "rchain (case ys of [] \<Rightarrow> pv | y # _ \<Rightarrow> pv(y := pv x)) z (zs @ ys)" by simp
  moreover have "(case ys of [] \<Rightarrow> pv | y # _ \<Rightarrow> pv(y := pv x)) z = pv z"
    using Cons.prems(2) by (auto split: list.split)
  ultimately show ?case using Cons.prems(1) by simp
qed

section \<open>Cells of a page\<close>

text \<open>
  The parts of a page: \<open>E a\<close> bytes from each offset \<open>a\<close> in \<open>I\<close>, pairwise disjoint. Every word the
  allocator writes is at such an offset plus a constant.
\<close>

definition far :: "(nat \<Rightarrow> nat) \<Rightarrow> nat set \<Rightarrow> bool" where
  "far E I \<longleftrightarrow> (\<forall>a\<in>I. \<forall>b\<in>I. a \<noteq> b \<longrightarrow> a + E a \<le> b \<or> b + E b \<le> a)"

lemma cell_other:
  assumes "far E I" "a \<in> I" "b \<in> I" "k + 4 \<le> E a" "j + 4 \<le> E b"
    and "a \<noteq> b \<or> k + 4 \<le> j \<or> j + 4 \<le> k"
  shows "ld32 (st32 (P + a + k) v m) (P + b + j) = ld32 m (P + b + j)"
proof (rule ld32_st32_other)
  show "P + b + j + 4 \<le> P + a + k \<or> P + a + k + 4 \<le> P + b + j"
  proof (cases "a = b")
    case False
    with assms(1-3) have "a + E a \<le> b \<or> b + E b \<le> a" by (simp add: far_def)
    with assms(4,5) show ?thesis by arith
  qed (use assms(6) in arith)
qed

lemma cell_byte:
  assumes "far E I" "a \<in> I" "b \<in> I" "k + 4 \<le> E a" "i < E b"
    and "a \<noteq> b \<or> k + 4 \<le> i \<or> i < k"
  shows "st32 (P + a + k) v m (P + b + i) = m (P + b + i)"
proof (rule st32_outside)
  show "P + b + i < P + a + k \<or> P + a + k + 4 \<le> P + b + i"
  proof (cases "a = b")
    case False
    with assms(1-3) have "a + E a \<le> b \<or> b + E b \<le> a" by (simp add: far_def)
    with assms(4,5) show ?thesis by arith
  qed (use assms(6) in arith)
qed

text \<open>
  The parts of a page that the allocator manages: the three roots, and other parts with at least a
  head. \<open>roots\<close> have a detail record after the head.
\<close>

definition roots :: "nat set" where "roots = {0, 56, 112}"

definition area :: "(nat \<Rightarrow> nat) \<Rightarrow> nat set \<Rightarrow> bool" where
  "area E I \<longleftrightarrow> far E I \<and> roots \<subseteq> I \<and> (\<forall>r\<in>roots. E r = 56) \<and>
     (\<forall>a\<in>I. 16 \<le> E a \<and> a + E a \<le> PAGE_SIZE)"

lemma head_cell:
  assumes "area E I" "a \<in> I" "b \<in> I" "k \<le> 12" "j \<le> 12" "k \<noteq> j \<longrightarrow> k + 4 \<le> j \<or> j + 4 \<le> k"
  shows "ld32 (st32 (P + a + k) v m) (P + b + j) = (if a = b \<and> k = j then v else ld32 m (P + b + j))"
proof (cases "a = b \<and> k = j")
  case False
  have "k + 4 \<le> E a" "j + 4 \<le> E b" using assms by (auto simp: area_def intro: order_trans [of _ 16])
  with cell_other [of E I a b k j P v m] assms False show ?thesis by (auto simp: area_def)
qed (simp add: ld32_st32_same)

lemmas head_cell_0 = head_cell [where k = 0, simplified] head_cell [where j = 0, simplified]
  head_cell [where k = 0 and j = 0, simplified]

text \<open>Every field of every head after every assignment to a field of a head.\<close>

lemma head_fields:
  assumes "area E I" "a \<in> I" "b \<in> I"
  shows "h_next (set_next (P + a) v m) (P + b) = (if a = b then v else h_next m (P + b))"
    "h_prev (set_next (P + a) v m) (P + b) = h_prev m (P + b)"
    "h_signature (set_next (P + a) v m) (P + b) = h_signature m (P + b)"
    "h_len (set_next (P + a) v m) (P + b) = h_len m (P + b)"
    "h_next (set_prev (P + a) v m) (P + b) = h_next m (P + b)"
    "h_prev (set_prev (P + a) v m) (P + b) = (if a = b then v else h_prev m (P + b))"
    "h_signature (set_prev (P + a) v m) (P + b) = h_signature m (P + b)"
    "h_len (set_prev (P + a) v m) (P + b) = h_len m (P + b)"
    "h_next (set_signature (P + a) v m) (P + b) = h_next m (P + b)"
    "h_prev (set_signature (P + a) v m) (P + b) = h_prev m (P + b)"
    "h_signature (set_signature (P + a) v m) (P + b) = (if a = b then v else h_signature m (P + b))"
    "h_len (set_signature (P + a) v m) (P + b) = h_len m (P + b)"
    "h_next (set_len (P + a) v m) (P + b) = h_next m (P + b)"
    "h_prev (set_len (P + a) v m) (P + b) = h_prev m (P + b)"
    "h_signature (set_len (P + a) v m) (P + b) = h_signature m (P + b)"
    "h_len (set_len (P + a) v m) (P + b) = (if a = b then v else h_len m (P + b))"
  using assms
  by (simp_all add: h_next_def h_prev_def h_signature_def h_len_def set_next_def set_prev_def
      set_signature_def set_len_def head_cell head_cell_0)

lemma detail_cell:
  assumes "area E I" "r \<in> roots" "b \<in> I" "j \<le> 12"
  shows "ld32 (st32 (P + r + 20) v m) (P + b + j) = ld32 m (P + b + j)"
    and "ld32 (st32 (P + b + j) v m) (P + r + 20) = ld32 m (P + r + 20)"
proof -
  have r: "r \<in> I" "E r = 56" and b: "16 \<le> E b" using assms by (auto simp: area_def)
  have d: "r \<noteq> b \<or> 20 + 4 \<le> j \<or> j + 4 \<le> 20" and d': "b \<noteq> r \<or> j + 4 \<le> 20 \<or> 20 + 4 \<le> j"
    using assms(4) by arith+
  have kj: "20 + 4 \<le> E r" "j + 4 \<le> E b" using r(2) b assms(4) by simp_all
  have f: "far E I" using assms(1) by (simp add: area_def)
  show "ld32 (st32 (P + r + 20) v m) (P + b + j) = ld32 m (P + b + j)"
    by (rule cell_other [OF f r(1) assms(3) kj d])
  show "ld32 (st32 (P + b + j) v m) (P + r + 20) = ld32 m (P + r + 20)"
    by (rule cell_other [OF f assms(3) r(1) kj(2,1) d'])
qed

lemma last_fields:
  assumes "area E I" "r \<in> roots" "b \<in> I"
  shows "h_next (set_last (P + r) v m) (P + b) = h_next m (P + b)"
    "h_prev (set_last (P + r) v m) (P + b) = h_prev m (P + b)"
    "h_signature (set_last (P + r) v m) (P + b) = h_signature m (P + b)"
    "h_len (set_last (P + r) v m) (P + b) = h_len m (P + b)"
    "r_last (set_next (P + b) v m) (P + r) = r_last m (P + r)"
    "r_last (set_prev (P + b) v m) (P + r) = r_last m (P + r)"
    "r_last (set_signature (P + b) v m) (P + r) = r_last m (P + r)"
    "r_last (set_len (P + b) v m) (P + r) = r_last m (P + r)"
  using assms(1,3) detail_cell [OF assms, of 8] detail_cell [OF assms, of 4]
    detail_cell [OF assms, of 12] detail_cell [OF assms, of 0]
  by (simp_all add: h_next_def h_prev_def h_signature_def h_len_def r_last_def set_next_def
      set_prev_def set_signature_def set_len_def set_last_def)

lemma last_last:
  assumes "area E I" "q \<in> roots" "r \<in> roots"
  shows "r_last (set_last (P + q) v m) (P + r) = (if q = r then v else r_last m (P + r))"
proof (cases "q = r")
  case False
  have "far E I" "q \<in> I" "r \<in> I" "20 + 4 \<le> E q" "20 + 4 \<le> E r"
    using assms by (auto simp: area_def)
  then show ?thesis
    unfolding r_last_def set_last_def using False by (simp add: cell_other)
qed (simp add: r_last_def set_last_def mem_simps)

lemmas page_fields = head_fields last_fields last_last

text \<open>
  Only words of the heads and the last offsets of the roots may differ between two memories: what
  lies behind an item's head, and everything outside of the page, is the same.
\<close>

definition kept :: "(nat \<Rightarrow> nat) \<Rightarrow> nat set \<Rightarrow> nat \<Rightarrow> mem \<Rightarrow> mem \<Rightarrow> bool" where
  "kept E I P m m' \<longleftrightarrow>
     (\<forall>b\<in>I. \<forall>i. (if b \<in> roots then 24 else 16) \<le> i \<longrightarrow> i < E b \<longrightarrow> m' (P + b + i) = m (P + b + i)) \<and>
     (\<forall>i. i < P \<or> P + PAGE_SIZE \<le> i \<longrightarrow> m' i = m i)"

lemma kept_refl [simp]: "kept E I P m m"
  by (simp add: kept_def)

lemma kept_trans: "kept E I P m m' \<Longrightarrow> kept E I P m' m'' \<Longrightarrow> kept E I P m m''"
  by (simp add: kept_def)

lemma kept_cell:
  assumes "area E I" "a \<in> I" "k \<le> 12 \<or> k = 20 \<and> a \<in> roots"
  shows "kept E I P m (st32 (P + a + k) v m)"
proof -
  have ka: "k + 4 \<le> E a" "a + E a \<le> PAGE_SIZE"
    using assms by (auto simp: area_def intro: order_trans [of _ 16])
  have f: "far E I" using assms(1) by (simp add: area_def)
  have "st32 (P + a + k) v m (P + b + i) = m (P + b + i)"
    if "b \<in> I" "(if b \<in> roots then 24 else 16) \<le> i" "i < E b" for b i
    by (rule cell_byte [OF f assms(2) that(1) ka(1) that(3)])
       (use that(2) assms(3) in \<open>auto split: if_splits\<close>)
  moreover have "st32 (P + a + k) v m i = m i" if "i < P \<or> P + PAGE_SIZE \<le> i" for i
    using that ka by (intro st32_outside) arith
  ultimately show ?thesis unfolding kept_def by blast
qed

lemma kept_fields:
  assumes "area E I" "a \<in> I" "kept E I P m0 m"
  shows "kept E I P m0 (set_next (P + a) v m)" "kept E I P m0 (set_prev (P + a) v m)"
    "kept E I P m0 (set_signature (P + a) v m)" "kept E I P m0 (set_len (P + a) v m)"
    "a \<in> roots \<Longrightarrow> kept E I P m0 (set_last (P + a) v m)"
proof -
  note k = kept_trans [OF assms(3) kept_cell [OF assms(1,2)]]
  show "kept E I P m0 (set_next (P + a) v m)" unfolding set_next_def by (rule k) simp
  show "kept E I P m0 (set_prev (P + a) v m)" unfolding set_prev_def by (rule k) simp
  show "kept E I P m0 (set_signature (P + a) v m)"
    unfolding set_signature_def by (rule k [of 0, unfolded add_0_right]) simp
  show "kept E I P m0 (set_len (P + a) v m)" unfolding set_len_def by (rule k) simp
  show "kept E I P m0 (set_last (P + a) v m)" if "a \<in> roots"
    unfolding set_last_def by (rule k) (use that in simp)
qed

lemma kept_word:
  assumes "kept E I P m m'" "b \<in> I" "(if b \<in> roots then 24 else 16) \<le> k" "k + 4 \<le> E b"
  shows "ld32 m' (P + b + k) = ld32 m (P + b + k)"
proof (rule ld32_cong)
  fix i
  assume i: "P + b + k \<le> i" "i < P + b + k + 4"
  define j where "j = i - P - b"
  have j: "k \<le> j" "j < E b" "i = P + b + j" using i assms(4) by (simp_all add: j_def)
  have "(if b \<in> roots then 24 else 16) \<le> j" using assms(3) j(1) by (rule order_trans)
  with assms(1,2) j(2) have "m' (P + b + j) = m (P + b + j)" unfolding kept_def by blast
  then show "m' i = m i" unfolding j(3) .
qed

section \<open>Lists in memory\<close>

definition list_ok :: "mem \<Rightarrow> nat \<Rightarrow> u32 \<Rightarrow> nat \<Rightarrow> nat list \<Rightarrow> bool" where
  "list_ok m P sig r xs \<longleftrightarrow>
     (\<forall>a\<in>set (r # xs). h_signature m (P + a) = sig) \<and>
     chain (\<lambda>a. h_next m (P + a)) r xs \<and> rchain (\<lambda>a. h_prev m (P + a)) r xs \<and>
     r_last m (P + r) = of_nat (last (r # xs))"

text \<open>The links and signatures of the items in \<open>S\<close> are the same.\<close>

definition same_links :: "nat \<Rightarrow> nat set \<Rightarrow> mem \<Rightarrow> mem \<Rightarrow> bool" where
  "same_links P S m m' \<longleftrightarrow> (\<forall>a\<in>S. h_next m' (P + a) = h_next m (P + a) \<and>
     h_prev m' (P + a) = h_prev m (P + a) \<and> h_signature m' (P + a) = h_signature m (P + a))"

lemma list_ok_same:
  assumes "list_ok m P sig r xs" "same_links P S m m'" "set (r # xs) \<subseteq> S"
    "r_last m' (P + r) = r_last m (P + r)"
  shows "list_ok m' P sig r xs"
proof -
  have "chain (\<lambda>a. h_next m' (P + a)) r xs = chain (\<lambda>a. h_next m (P + a)) r xs"
    using assms(2,3) by (intro chain_cong) (auto simp: same_links_def)
  moreover have "rchain (\<lambda>a. h_prev m' (P + a)) r xs = rchain (\<lambda>a. h_prev m (P + a)) r xs"
    using assms(2,3) by (intro rchain_cong) (auto simp: same_links_def)
  ultimately show ?thesis using assms by (auto simp: list_ok_def same_links_def)
qed

lemma area_bound:
  assumes "area E I" "a \<in> I"
  shows "a < 131057" "unat (of_nat a :: u32) = a" "(of_nat a :: u32) \<noteq> MMFLG_CLOSE"
proof -
  show a: "a < 131057" using assms by (auto simp: area_def)
  then show u: "unat (of_nat a :: u32) = a" by (intro unat_of_nat_small) simp
  show "(of_nat a :: u32) \<noteq> MMFLG_CLOSE"
  proof
    assume "(of_nat a :: u32) = MMFLG_CLOSE"
    then have "a = unat MMFLG_CLOSE" using u by metis
    with a show False by simp
  qed
qed

lemma last_mem: "set xs \<subseteq> I \<Longrightarrow> r \<in> I \<Longrightarrow> last (r # xs) \<in> I"
  by (metis insert_subset last_in_set list.distinct(1) list.simps(15) subsetD)

text \<open>What \<open>unlink_item\<close> writes, with the links of the list resolved.\<close>

lemma unlink_item_eq:
  assumes ar: "area E I" and r: "r \<in> roots" and I: "set (xs @ x # ys) \<subseteq> I"
    and l: "list_ok m P sig r (xs @ x # ys)"
  shows "unlink_item P r x m = (let p = last (r # xs); m1 = set_next (P + p) (h_next m (P + x)) m in
    case ys of [] \<Rightarrow> set_last (P + r) (of_nat p) m1 | y # _ \<Rightarrow> set_prev (P + y) (of_nat p) m1)"
    and "h_next m (P + x) = (case ys of [] \<Rightarrow> MMFLG_CLOSE | y # _ \<Rightarrow> of_nat y)"
    and "h_prev m (P + x) = of_nat (last (r # xs))"
proof -
  have rI: "r \<in> I" using ar r by (auto simp: area_def)
  show pv: "h_prev m (P + x) = of_nat (last (r # xs))"
    and nx: "h_next m (P + x) = (case ys of [] \<Rightarrow> MMFLG_CLOSE | y # _ \<Rightarrow> of_nat y)"
    using l rchain_prev [of "\<lambda>a. h_prev m (P + a)"] chain_next [of "\<lambda>a. h_next m (P + a)"]
    by (auto simp: list_ok_def)
  have pI: "last (r # xs) \<in> I" using I rI by (intro last_mem) auto
  have pv': "h_prev (set_next (P + last (r # xs)) v m) (P + x) = of_nat (last (r # xs))" for v
    using head_fields(2) [OF ar pI] I pv by auto
  show "unlink_item P r x m = (let p = last (r # xs); m1 = set_next (P + p) (h_next m (P + x)) m in
    case ys of [] \<Rightarrow> set_last (P + r) (of_nat p) m1 | y # _ \<Rightarrow> set_prev (P + y) (of_nat p) m1)"
  proof (cases ys)
    case Nil
    then show ?thesis
      using area_bound(2) [OF ar pI] nx pv' unfolding unlink_item_def Let_def pv by simp
  next
    case (Cons y zs)
    then have "y \<in> I" using I by auto
    then show ?thesis
      using area_bound [OF ar pI] area_bound [OF ar \<open>y \<in> I\<close>] nx pv' Cons
      unfolding unlink_item_def Let_def pv by simp
  qed
qed

lemma unlink_item_ok:
  assumes ar: "area E I" and r: "r \<in> roots" and I: "set (xs @ x # ys) \<subseteq> I"
    and l: "list_ok m P sig r (xs @ x # ys)" and d: "distinct (r # xs @ x # ys)"
  defines "m' \<equiv> unlink_item P r x m"
  shows "list_ok m' P sig r (xs @ ys)"
    and "kept E I P m m'"
    and "\<And>b. b \<in> I \<Longrightarrow> h_len m' (P + b) = h_len m (P + b)"
    and "same_links P (I - set (r # xs @ ys)) m m'"
    and "\<And>q. q \<in> roots \<Longrightarrow> q \<noteq> r \<Longrightarrow> r_last m' (P + q) = r_last m (P + q)"
    and "\<And>b. b \<in> I \<Longrightarrow> b \<notin> set ys \<Longrightarrow> h_prev m' (P + b) = h_prev m (P + b)"
proof -
  define p where "p = last (r # xs)"
  note eq = unlink_item_eq [OF ar r I l, folded p_def]
  have rI: "r \<in> I" using ar r by (auto simp: area_def)
  have pI: "p \<in> I" unfolding p_def using I rI by (intro last_mem) auto
  have yI: "y \<in> I" if "ys = y # zs" for y zs using I that by auto
  note f = page_fields [OF ar]
  define m1 where "m1 = set_next (P + p) (h_next m (P + x)) m"
  have m': "m' = (case ys of [] \<Rightarrow> set_last (P + r) (of_nat p) m1 | y # _ \<Rightarrow> set_prev (P + y) (of_nat p) m1)"
    using eq(1) by (simp only: m'_def m1_def Let_def)
  have nx: "h_next m' (P + b) = (if b = p then h_next m (P + x) else h_next m (P + b))"
    if "b \<in> I" for b
    using that pI r yI by (auto simp: m' m1_def f split: list.split)
  have pv: "h_prev m' (P + b) = (case ys of [] \<Rightarrow> h_prev m (P + b)
      | y # _ \<Rightarrow> if b = y then of_nat p else h_prev m (P + b))" if "b \<in> I" for b
    using that pI r yI by (auto simp: m' m1_def f split: list.split)
  show "h_prev m' (P + b) = h_prev m (P + b)" if "b \<in> I" "b \<notin> set ys" for b
    using pv [OF that(1)] that(2) by (auto split: list.split)
  have sg: "h_signature m' (P + b) = h_signature m (P + b)" if "b \<in> I" for b
    using that pI r yI by (auto simp: m' m1_def f split: list.split)
  show "h_len m' (P + b) = h_len m (P + b)" if "b \<in> I" for b
    using that pI r yI by (auto simp: m' m1_def f split: list.split)
  have rl: "r_last m' (P + q) = (if q = r \<and> ys = [] then of_nat p else r_last m (P + q))"
    if "q \<in> roots" for q
    using that pI r yI by (auto simp: m' m1_def f split: list.split)
  then show "r_last m' (P + q) = r_last m (P + q)" if "q \<in> roots" "q \<noteq> r" for q
    using that by simp
  show "kept E I P m m'"
    using pI r rI yI by (auto simp: m' m1_def split: list.split intro!: kept_fields [OF ar])
  have "p \<in> set (r # xs)" unfolding p_def by (rule last_in_set) simp
  then show "same_links P (I - set (r # xs @ ys)) m m'"
    using nx pv sg by (auto simp: same_links_def split: list.split)
  have sub: "set (r # xs @ ys) \<subseteq> I" using I rI by auto
  let ?nx = "\<lambda>a. h_next m (P + a)" and ?pv = "\<lambda>a. h_prev m (P + a)"
  have "chain (?nx(p := ?nx x)) r (xs @ ys)"
    using l d unfolding p_def list_ok_def by (intro chain_remove) simp_all
  moreover have "chain (\<lambda>a. h_next m' (P + a)) r (xs @ ys) = chain (?nx(p := ?nx x)) r (xs @ ys)"
    using nx sub by (intro chain_cong) auto
  ultimately have "chain (\<lambda>a. h_next m' (P + a)) r (xs @ ys)" by simp
  moreover have "rchain (\<lambda>a. h_prev m' (P + a)) r (xs @ ys)"
  proof -
    have "rchain (case ys of [] \<Rightarrow> ?pv | y # _ \<Rightarrow> ?pv(y := ?pv x)) r (xs @ ys)"
      using l d unfolding list_ok_def by (intro rchain_remove) simp_all
    moreover have "rchain (\<lambda>a. h_prev m' (P + a)) r (xs @ ys) =
        rchain (case ys of [] \<Rightarrow> ?pv | y # _ \<Rightarrow> ?pv(y := ?pv x)) r (xs @ ys)"
      using pv sub eq(3) by (intro rchain_cong) (auto split: list.split)
    ultimately show ?thesis by simp
  qed
  moreover have "r_last m' (P + r) = of_nat (last (r # xs @ ys))"
    using rl [OF r] l by (auto simp: list_ok_def p_def)
  ultimately show "list_ok m' P sig r (xs @ ys)"
    using l sg sub by (auto simp: list_ok_def)
qed

text \<open>An item becomes the last one of a list: the words that have to be written.\<close>

lemma list_ok_append:
  assumes l: "list_ok m P sig q zs" and d: "distinct (q # zs @ [x])"
    and nx: "\<And>b. b \<in> set (q # zs @ [x]) \<Longrightarrow> h_next m' (P + b) =
      (if b = last (q # zs) then of_nat x else if b = x then MMFLG_CLOSE else h_next m (P + b))"
    and pv: "\<And>b. b \<in> set (zs @ [x]) \<Longrightarrow>
      h_prev m' (P + b) = (if b = x then of_nat (last (q # zs)) else h_prev m (P + b))"
    and sg: "\<And>b. b \<in> set (q # zs @ [x]) \<Longrightarrow>
      h_signature m' (P + b) = (if b = x then sig else h_signature m (P + b))"
    and rl: "r_last m' (P + q) = of_nat x"
  shows "list_ok m' P sig q (zs @ [x])"
proof -
  define p where "p = last (q # zs)"
  have "p \<in> set (q # zs)" unfolding p_def by (rule last_in_set) simp
  then have px: "p \<noteq> x" using d by auto
  let ?nx = "\<lambda>a. h_next m (P + a)" and ?pv = "\<lambda>a. h_prev m (P + a)"
  have "chain (?nx(p := of_nat x, x := MMFLG_CLOSE)) q (zs @ [x])"
    using l d unfolding p_def list_ok_def by (intro chain_append) simp_all
  moreover have "chain (\<lambda>a. h_next m' (P + a)) q (zs @ [x]) =
      chain (?nx(p := of_nat x, x := MMFLG_CLOSE)) q (zs @ [x])"
    by (rule chain_cong) (simp add: nx [folded p_def] px)
  ultimately have c: "chain (\<lambda>a. h_next m' (P + a)) q (zs @ [x])" by simp
  have "rchain (?pv(x := of_nat p)) q (zs @ [x])"
    using l d unfolding list_ok_def p_def by (intro rchain_append) simp_all
  moreover have "rchain (\<lambda>a. h_prev m' (P + a)) q (zs @ [x]) = rchain (?pv(x := of_nat p)) q (zs @ [x])"
    by (rule rchain_cong) (simp add: pv [folded p_def])
  ultimately have r: "rchain (\<lambda>a. h_prev m' (P + a)) q (zs @ [x])" by simp
  have "\<forall>a\<in>set (q # zs @ [x]). h_signature m' (P + a) = sig"
    using l sg by (auto simp: list_ok_def)
  then show ?thesis using c r rl by (simp add: list_ok_def)
qed

lemma link_last_ok:
  assumes ar: "area E I" and q: "q \<in> roots" and I: "set zs \<subseteq> I" "x \<in> I"
    and l: "list_ok m P sig q zs" and d: "distinct (q # zs @ [x])"
  defines "m' \<equiv> link_last P q sig x m"
  shows "list_ok m' P sig q (zs @ [x])"
    and "kept E I P m m'"
    and "\<And>b. b \<in> I \<Longrightarrow> h_len m' (P + b) = h_len m (P + b)"
    and "same_links P (I - set (q # zs @ [x])) m m'"
    and "\<And>r. r \<in> roots \<Longrightarrow> r \<noteq> q \<Longrightarrow> r_last m' (P + r) = r_last m (P + r)"
    and "\<And>b. b \<in> I \<Longrightarrow> b \<noteq> x \<Longrightarrow> h_prev m' (P + b) = h_prev m (P + b)"
proof -
  define p where "p = last (q # zs)"
  have qI: "q \<in> I" using ar q by (auto simp: area_def)
  have pI: "p \<in> I" unfolding p_def using I qI by (intro last_mem) auto
  have pm: "p \<in> set (q # zs)" unfolding p_def by (rule last_in_set) simp
  then have px: "p \<noteq> x" using d by auto
  note f = page_fields [OF ar]
  have rl0: "r_last m (P + q) = of_nat p" using l by (simp add: list_ok_def p_def)
  have m': "m' = set_last (P + q) (of_nat x) (set_next (P + p) (of_nat x)
      (set_prev (P + x) (of_nat p) (set_next (P + x) MMFLG_CLOSE (set_signature (P + x) sig m))))"
    unfolding m'_def link_last_def Let_def
    using I(2) q area_bound(2) [OF ar pI] rl0 by (simp add: f)
  have nx: "h_next m' (P + b) = (if b = p then of_nat x else if b = x then MMFLG_CLOSE
      else h_next m (P + b))" if "b \<in> I" for b
    using that pI q I(2) by (simp add: m' f)
  have pv: "h_prev m' (P + b) = (if b = x then of_nat p else h_prev m (P + b))" if "b \<in> I" for b
    using that pI q I(2) by (simp add: m' f)
  show "h_prev m' (P + b) = h_prev m (P + b)" if "b \<in> I" "b \<noteq> x" for b
    using pv [OF that(1)] that(2) by simp
  have sg: "h_signature m' (P + b) = (if b = x then sig else h_signature m (P + b))"
    if "b \<in> I" for b
    using that pI q I(2) by (simp add: m' f)
  show "h_len m' (P + b) = h_len m (P + b)" if "b \<in> I" for b
    using that pI q I(2) by (simp add: m' f)
  have rl: "r_last m' (P + r) = (if r = q then of_nat x else r_last m (P + r))"
    if "r \<in> roots" for r
    using that pI q I(2) by (simp add: m' f)
  then show "r_last m' (P + r) = r_last m (P + r)" if "r \<in> roots" "r \<noteq> q" for r
    using that by simp
  show "kept E I P m m'"
    unfolding m' using pI q qI I(2) by (intro kept_fields [OF ar] kept_refl)
  show "same_links P (I - set (q # zs @ [x])) m m'"
    using nx pv sg pm by (auto simp: same_links_def)
  have sub: "set (q # zs @ [x]) \<subseteq> I" using I qI by auto
  show "list_ok m' P sig q (zs @ [x])"
    by (rule list_ok_append [OF l d, folded p_def]) (use nx pv sg rl [OF q] sub in auto)
qed

section \<open>The invariant of a page\<close>

text \<open>
  The parts of a page: the roots, the items \<open>xs\<close> and the bucket at \<open>bk\<close> (its head; the bytes after
  it are free).
\<close>

definition parts :: "nat list \<Rightarrow> nat \<Rightarrow> nat set" where
  "parts xs bk = roots \<union> set xs \<union> {bk}"

definition geometry :: "(nat \<Rightarrow> nat) \<Rightarrow> nat list \<Rightarrow> nat \<Rightarrow> bool" where
  "geometry E xs bk \<longleftrightarrow> far E (parts xs bk) \<and> distinct xs \<and>
     168 \<le> bk \<and> bk \<le> 131016 \<and> E bk = 16 \<and> (\<forall>r\<in>roots. E r = 56) \<and>
     (\<forall>a\<in>set xs. 168 \<le> a \<and> a + E a \<le> bk \<and> 36 \<le> E a)"

text \<open>The foot of every item in \<open>S\<close>.\<close>

definition feet_ok :: "u32 \<Rightarrow> mem \<Rightarrow> nat \<Rightarrow> (nat \<Rightarrow> nat) \<Rightarrow> nat set \<Rightarrow> bool" where
  "feet_ok cid m P E S \<longleftrightarrow> (\<forall>a\<in>S. unat (h_len m (P + a)) = E a \<and>
     ld32 m (P + a + (E a - 12)) = MMSIG_SUFX \<and> (a \<notin> roots \<longrightarrow> ld32 m (P + a + (E a - 8)) = cid))"

text \<open>What is fixed in the three roots.\<close>

definition roots_ok :: "mem \<Rightarrow> nat \<Rightarrow> bool" where
  "roots_ok m P \<longleftrightarrow> (\<forall>r\<in>roots. h_prev m (P + r) = 0) \<and>
     h_signature m (P + MMPOS_BCKT_ROOT) = MMSIG_BCKT \<and> h_len m (P + MMPOS_BCKT_ROOT) = 56 \<and>
     ld32 m (P + MMPOS_BCKT_ROOT + 44) = MMSIG_SUFX"

definition page_ok :: "u32 \<Rightarrow> mem \<Rightarrow> nat \<Rightarrow> (nat \<Rightarrow> nat) \<Rightarrow> nat list \<Rightarrow> nat list \<Rightarrow> nat \<Rightarrow> bool" where
  "page_ok cid m P E us fs bk \<longleftrightarrow>
     geometry E (us @ fs) bk \<and>
     list_ok m P MMSIG_USED MMPOS_USED_ROOT us \<and> list_ok m P MMSIG_FREE MMPOS_FREE_ROOT fs \<and>
     h_next m (P + MMPOS_BCKT_ROOT) = of_nat bk \<and> unat (h_len m (P + bk)) = 131016 - bk \<and>
     feet_ok cid m P E ({MMPOS_USED_ROOT, MMPOS_FREE_ROOT} \<union> set us \<union> set fs) \<and> roots_ok m P"

lemma geometry_area: "geometry E xs bk \<Longrightarrow> area E (parts xs bk)"
  by (auto simp: geometry_def area_def parts_def roots_def)

lemma geometry_perm:
  "geometry E xs bk \<Longrightarrow> set ys = set xs \<Longrightarrow> distinct ys \<Longrightarrow> geometry E ys bk"
  by (auto simp: geometry_def parts_def)

lemma feet_ok_kept:
  assumes "feet_ok cid m P E S" "kept E I P m m'" "S \<subseteq> I"
    and "\<And>b. b \<in> S \<Longrightarrow> h_len m' (P + b) = h_len m (P + b)"
    and "\<And>b. b \<in> S \<Longrightarrow> if b \<in> roots then E b = 56 else 36 \<le> E b"
  shows "feet_ok cid m' P E S"
  unfolding feet_ok_def
proof (intro ballI conjI impI)
  fix a
  assume a: "a \<in> S"
  then have aI: "a \<in> I" and e: "if a \<in> roots then E a = 56 else 36 \<le> E a"
    using assms(3,5) by auto
  show "unat (h_len m' (P + a)) = E a" using assms(1,4) a by (simp add: feet_ok_def)
  have "ld32 m' (P + a + (E a - 12)) = ld32 m (P + a + (E a - 12))"
    using e by (intro kept_word [OF assms(2) aI]) (auto split: if_splits)
  then show "ld32 m' (P + a + (E a - 12)) = MMSIG_SUFX" using assms(1) a by (simp add: feet_ok_def)
  assume "a \<notin> roots"
  moreover have "ld32 m' (P + a + (E a - 8)) = ld32 m (P + a + (E a - 8))"
    using e by (intro kept_word [OF assms(2) aI]) (auto split: if_splits)
  ultimately show "ld32 m' (P + a + (E a - 8)) = cid" using assms(1) a by (simp add: feet_ok_def)
qed

text \<open>An item moves from one list to the end of the other.\<close>

lemma move_item_ok:
  assumes ar: "area E I" and rq: "r \<in> roots" "q \<in> roots" "r \<noteq> q"
    and I: "set (xs @ x # ys) \<union> set zs \<subseteq> I"
    and l: "list_ok m P sig r (xs @ x # ys)" "list_ok m P sig' q zs"
    and d: "distinct (r # q # zs @ xs @ x # ys)"
  defines "m' \<equiv> link_last P q sig' x (unlink_item P r x m)"
  shows "list_ok m' P sig r (xs @ ys)" and "list_ok m' P sig' q (zs @ [x])"
    and "kept E I P m m'"
    and "\<And>b. b \<in> I \<Longrightarrow> h_len m' (P + b) = h_len m (P + b)"
    and "same_links P (I - set (r # q # zs @ xs @ x # ys)) m m'"
    and "\<And>b. b \<in> I \<Longrightarrow> b \<notin> set (x # ys) \<Longrightarrow> h_prev m' (P + b) = h_prev m (P + b)"
proof -
  define m1 where "m1 = unlink_item P r x m"
  have dr: "distinct (r # xs @ x # ys)" using d by auto
  have I1: "set (xs @ x # ys) \<subseteq> I" "set zs \<subseteq> I" "x \<in> I" using I by auto
  note u = unlink_item_ok [OF ar rq(1) I1(1) l(1) dr, folded m1_def]
  have qz: "set (q # zs) \<subseteq> I - set (r # xs @ ys)" using d I1 rq(2) ar by (auto simp: area_def)
  have lq: "list_ok m1 P sig' q zs"
    using u(5) [OF rq(2)] rq(3) by (intro list_ok_same [OF l(2) u(4) qz]) simp
  have dq: "distinct (q # zs @ [x])" using d by auto
  note k = link_last_ok [OF ar rq(2) I1(2,3) lq dq]
  have m': "m' = link_last P q sig' x m1" by (simp add: m'_def m1_def)
  have rx: "set (r # xs @ ys) \<subseteq> I - set (q # zs @ [x])"
    using d I1 rq(1) ar by (auto simp: area_def)
  show "list_ok m' P sig r (xs @ ys)"
    unfolding m' using k(5) [OF rq(1,3)] by (intro list_ok_same [OF u(1) k(4) rx]) simp
  show "list_ok m' P sig' q (zs @ [x])" unfolding m' by (rule k(1))
  show "kept E I P m m'" unfolding m' by (rule kept_trans [OF u(2) k(2)])
  show "h_len m' (P + b) = h_len m (P + b)" if "b \<in> I" for b
    unfolding m' using k(3) u(3) that by simp
  show "same_links P (I - set (r # q # zs @ xs @ x # ys)) m m'"
    unfolding m' using u(4) k(4) by (simp add: same_links_def)
  show "h_prev m' (P + b) = h_prev m (P + b)" if "b \<in> I" "b \<notin> set (x # ys)" for b
    unfolding m' using u(6) k(6) that by simp
qed

lemma parts_cong: "set xs = set ys \<Longrightarrow> parts xs bk = parts ys bk"
  by (simp add: parts_def)

lemma geometry_items: "geometry E xs bk \<Longrightarrow> a \<in> set xs \<Longrightarrow> a \<notin> roots \<and> a \<noteq> bk \<and> 36 \<le> E a"
  by (auto simp: geometry_def roots_def)

lemma page_move:
  assumes g: "geometry E (xs @ x # ys @ zs) bk" and rq: "{r, q} = {MMPOS_USED_ROOT, MMPOS_FREE_ROOT}"
    and l: "list_ok m P sig r (xs @ x # ys)" "list_ok m P sig' q zs"
    and b: "h_next m (P + MMPOS_BCKT_ROOT) = of_nat bk" "unat (h_len m (P + bk)) = 131016 - bk"
    and f: "feet_ok cid m P E ({MMPOS_USED_ROOT, MMPOS_FREE_ROOT} \<union> set (xs @ x # ys @ zs))"
    and ro: "roots_ok m P"
  defines "m' \<equiv> link_last P q sig' x (unlink_item P r x m)"
  shows "list_ok m' P sig r (xs @ ys)" and "list_ok m' P sig' q (zs @ [x])"
    and "h_next m' (P + MMPOS_BCKT_ROOT) = of_nat bk" and "unat (h_len m' (P + bk)) = 131016 - bk"
    and "feet_ok cid m' P E ({MMPOS_USED_ROOT, MMPOS_FREE_ROOT} \<union> set (xs @ x # ys @ zs))"
    and "kept E (parts (xs @ x # ys @ zs) bk) P m m'" and "roots_ok m' P"
proof -
  let ?I = "parts (xs @ x # ys @ zs) bk"
  note ar = geometry_area [OF g]
  have r: "r \<in> roots" "q \<in> roots" "r \<noteq> q" using rq by (auto simp: roots_def doubleton_eq_iff)
  have I: "set (xs @ x # ys) \<union> set zs \<subseteq> ?I" by (auto simp: parts_def)
  have it: "a \<notin> roots" if "a \<in> set (xs @ x # ys @ zs)" for a
    using geometry_items [OF g that] by blast
  have d: "distinct (r # q # zs @ xs @ x # ys)"
    using g it r by (auto simp: geometry_def)
  note mv = move_item_ok [OF ar r I l d, folded m'_def]
  show "list_ok m' P sig r (xs @ ys)" "list_ok m' P sig' q (zs @ [x])" "kept E ?I P m m'"
    by (fact mv)+
  have bI: "MMPOS_BCKT_ROOT \<in> ?I - set (r # q # zs @ xs @ x # ys)"
    using it rq by (auto simp: parts_def roots_def doubleton_eq_iff)
  then show "h_next m' (P + MMPOS_BCKT_ROOT) = of_nat bk"
    using mv(5) b(1) unfolding same_links_def by metis
  show "roots_ok m' P"
    unfolding roots_ok_def
  proof (intro conjI ballI)
    have bb: "MMPOS_BCKT_ROOT \<in> ?I" "MMPOS_BCKT_ROOT \<in> roots" by (simp_all add: parts_def roots_def)
    show "h_prev m' (P + c) = 0" if "c \<in> roots" for c
    proof -
      have "c \<in> ?I" "c \<notin> set (x # ys)" using that it by (auto simp: parts_def)
      from mv(6) [OF this] show ?thesis using ro that unfolding roots_ok_def by simp
    qed
    show "h_signature m' (P + MMPOS_BCKT_ROOT) = MMSIG_BCKT"
      using mv(5) bI ro unfolding same_links_def roots_ok_def by metis
    show "h_len m' (P + MMPOS_BCKT_ROOT) = 56" using mv(4) [OF bb(1)] ro unfolding roots_ok_def by simp
    have "E MMPOS_BCKT_ROOT = 56" using g bb(2) unfolding geometry_def by blast
    then have "ld32 m' (P + MMPOS_BCKT_ROOT + 44) = ld32 m (P + MMPOS_BCKT_ROOT + 44)"
      using bb by (intro kept_word [OF mv(3)]) simp_all
    then show "ld32 m' (P + MMPOS_BCKT_ROOT + 44) = MMSIG_SUFX" using ro unfolding roots_ok_def by simp
  qed
  show "unat (h_len m' (P + bk)) = 131016 - bk"
    using mv(4) [of bk] b(2) by (simp add: parts_def)
  show "feet_ok cid m' P E ({MMPOS_USED_ROOT, MMPOS_FREE_ROOT} \<union> set (xs @ x # ys @ zs))"
  proof (rule feet_ok_kept [OF f mv(3)])
    show sub: "{MMPOS_USED_ROOT, MMPOS_FREE_ROOT} \<union> set (xs @ x # ys @ zs) \<subseteq> ?I"
      by (auto simp: parts_def roots_def)
    then show "h_len m' (P + b) = h_len m (P + b)"
      if "b \<in> {MMPOS_USED_ROOT, MMPOS_FREE_ROOT} \<union> set (xs @ x # ys @ zs)" for b
      using that by (intro mv(4)) blast
    show "if b \<in> roots then E b = 56 else 36 \<le> E b"
      if "b \<in> {MMPOS_USED_ROOT, MMPOS_FREE_ROOT} \<union> set (xs @ x # ys @ zs)" for b
      using that g geometry_items [OF g, of b] by (auto simp: geometry_def roots_def)
  qed
qed

lemma page_okD:
  assumes "page_ok cid m P E us fs bk"
  shows "geometry E (us @ fs) bk"
    and "list_ok m P MMSIG_USED MMPOS_USED_ROOT us" "list_ok m P MMSIG_FREE MMPOS_FREE_ROOT fs"
    and "h_next m (P + MMPOS_BCKT_ROOT) = of_nat bk" "unat (h_len m (P + bk)) = 131016 - bk"
    and "feet_ok cid m P E ({MMPOS_USED_ROOT, MMPOS_FREE_ROOT} \<union> set us \<union> set fs)" "roots_ok m P"
  using assms unfolding page_ok_def by blast+

lemma page_okI:
  assumes "geometry E (us @ fs) bk"
    and "list_ok m P MMSIG_USED MMPOS_USED_ROOT us" "list_ok m P MMSIG_FREE MMPOS_FREE_ROOT fs"
    and "h_next m (P + MMPOS_BCKT_ROOT) = of_nat bk" "unat (h_len m (P + bk)) = 131016 - bk"
    and "feet_ok cid m P E ({MMPOS_USED_ROOT, MMPOS_FREE_ROOT} \<union> set us \<union> set fs)" "roots_ok m P"
  shows "page_ok cid m P E us fs bk"
  unfolding page_ok_def by (intro conjI assms)

lemma recycle_page_ok:
  assumes p: "page_ok cid m P E us (xs @ x # ys) bk"
  defines "m' \<equiv> link_last P MMPOS_USED_ROOT MMSIG_USED x (unlink_item P MMPOS_FREE_ROOT x m)"
  shows "page_ok cid m' P E (us @ [x]) (xs @ ys) bk"
    and "kept E (parts (us @ xs @ x # ys) bk) P m m'"
proof -
  note pd = page_okD [OF p]
  have s: "set (xs @ x # ys @ us) = set (us @ xs @ x # ys)" by auto
  have d: "distinct (us @ xs @ x # ys)" using pd(1) unfolding geometry_def by (elim conjE)
  then have d1: "distinct (xs @ x # ys @ us)" and d2: "distinct ((us @ [x]) @ xs @ ys)" by auto
  note g = geometry_perm [OF pd(1) s d1]
  have rq: "{MMPOS_FREE_ROOT, MMPOS_USED_ROOT} = {MMPOS_USED_ROOT, MMPOS_FREE_ROOT}" by blast
  have fs: "{MMPOS_USED_ROOT, MMPOS_FREE_ROOT} \<union> set us \<union> set (xs @ x # ys) =
      {MMPOS_USED_ROOT, MMPOS_FREE_ROOT} \<union> set (xs @ x # ys @ us)" by auto
  have fs': "{MMPOS_USED_ROOT, MMPOS_FREE_ROOT} \<union> set (us @ [x]) \<union> set (xs @ ys) =
      {MMPOS_USED_ROOT, MMPOS_FREE_ROOT} \<union> set (xs @ x # ys @ us)" by auto
  note m = page_move [OF g rq pd(3,2,4,5) pd(6) [unfolded fs] pd(7), folded m'_def]
  show "kept E (parts (us @ xs @ x # ys) bk) P m m'"
    using m(6) unfolding parts_cong [OF s] .
  have s2: "set ((us @ [x]) @ xs @ ys) = set (xs @ x # ys @ us)" by auto
  show "page_ok cid m' P E (us @ [x]) (xs @ ys) bk"
    by (rule page_okI [OF geometry_perm [OF g s2 d2] m(2,1,3,4) m(5) [folded fs'] m(7)])
qed

lemma free_page_ok:
  assumes p: "page_ok cid m P E (xs @ x # ys) fs bk"
  defines "m' \<equiv> link_last P MMPOS_FREE_ROOT MMSIG_FREE x (unlink_item P MMPOS_USED_ROOT x m)"
  shows "page_ok cid m' P E (xs @ ys) (fs @ [x]) bk"
    and "kept E (parts ((xs @ x # ys) @ fs) bk) P m m'"
proof -
  note pd = page_okD [OF p]
  have s: "set (xs @ x # ys @ fs) = set ((xs @ x # ys) @ fs)" by auto
  have d: "distinct ((xs @ x # ys) @ fs)" using pd(1) unfolding geometry_def by (elim conjE)
  then have d1: "distinct (xs @ x # ys @ fs)" and d2: "distinct ((xs @ ys) @ fs @ [x])" by auto
  note g = geometry_perm [OF pd(1) s d1]
  have fs: "{MMPOS_USED_ROOT, MMPOS_FREE_ROOT} \<union> set (xs @ x # ys) \<union> set fs =
      {MMPOS_USED_ROOT, MMPOS_FREE_ROOT} \<union> set (xs @ x # ys @ fs)" by auto
  have fs': "{MMPOS_USED_ROOT, MMPOS_FREE_ROOT} \<union> set (xs @ ys) \<union> set (fs @ [x]) =
      {MMPOS_USED_ROOT, MMPOS_FREE_ROOT} \<union> set (xs @ x # ys @ fs)" by auto
  note m = page_move [OF g refl pd(2,3,4,5) pd(6) [unfolded fs] pd(7), folded m'_def]
  show "kept E (parts ((xs @ x # ys) @ fs) bk) P m m'"
    using m(6) unfolding parts_cong [OF s] .
  have s2: "set ((xs @ ys) @ fs @ [x]) = set (xs @ x # ys @ fs)" by auto
  show "page_ok cid m' P E (xs @ ys) (fs @ [x]) bk"
    by (rule page_okI [OF geometry_perm [OF g s2 d2] m(1,2,3,4) m(5) [folded fs'] m(7)])
qed

end
