(* ===== verification/Smmr_Alloc.thy ===== *)
theory Smmr_Alloc
  imports Smmr_Page
begin

text \<open>
  What the allocator's operations do on a page and on a category: the search of a list finds the
  first item with the property, an item cut from the bucket extends the page's invariant,
  \<open>shmalloc\<close> returns a block that no other block overlaps, \<open>shmfree\<close> moves exactly the given
  block to the free list, and nothing else in the category's memory changes.
\<close>

section \<open>Searching a list\<close>

lemma find_item_chain:
  assumes "chain (\<lambda>b. h_next m (P + b)) a xs"
    and "\<And>b. b \<in> set (a # xs) \<Longrightarrow> b < PAGE_SIZE \<and> h_signature m (P + b) = sig \<and>
      minlen \<le> unat (h_len m (P + b)) \<and> f_suffix m (foot_of m (P + b)) = MMSIG_SUFX"
    and "c + length xs \<le> 0xFFFFFFFF" "foot = foot_of m (P + a)"
  shows "find_item sig minlen hit m P c a foot = find hit (a # xs)"
  using assms
proof (induction xs arbitrary: a c foot)
  case Nil
  then show ?case
    using find_item.simps [of sig minlen hit m P c a foot] by (auto simp: item_valid_def)
next
  case (Cons x xs)
  have x: "x < PAGE_SIZE" using Cons.prems(2) [of x] by simp
  then have u: "unat (of_nat x :: u32) = x" by (intro unat_of_nat_small) simp
  have nx: "h_next m (P + a) = of_nat x" using Cons.prems(1) by simp
  have nc: "(of_nat x :: u32) \<noteq> MMFLG_CLOSE"
  proof
    assume "(of_nat x :: u32) = MMFLG_CLOSE"
    then have "x = unat MMFLG_CLOSE" using u by metis
    with x show False by simp
  qed
  have "find_item sig minlen hit m P (c + 1) x (foot_of m (P + x)) = find hit (x # xs)"
    by (rule Cons.IH) (use Cons.prems in auto)
  moreover have "item_valid sig minlen m (P + a) foot" "a < PAGE_SIZE"
    using Cons.prems(2) [of a] Cons.prems(4) by (simp_all add: item_valid_def)
  moreover have "\<not> c > 0xFFFFFFFF" using Cons.prems(3) by simp
  ultimately show ?case
    using find_item.simps [of sig minlen hit m P c a foot] nx nc u by (simp add: Let_def)
qed

lemma find_item_page:
  assumes p: "page_ok cid m P E us fs bk" and ml: "minlen \<le> 36"
  shows "find_item MMSIG_USED minlen hit m P 0 MMPOS_USED_ROOT (P + MMPOS_USED_ROOT + MMPOS_ROOT_FOOT) =
      find hit (MMPOS_USED_ROOT # us)"
    and "find_item MMSIG_FREE minlen hit m P 0 MMPOS_FREE_ROOT (P + MMPOS_FREE_ROOT + MMPOS_ROOT_FOOT) =
      find hit (MMPOS_FREE_ROOT # fs)"
proof -
  note pd = page_okD [OF p]
  have it: "a < PAGE_SIZE \<and> 36 \<le> E a" if "a \<in> {MMPOS_USED_ROOT, MMPOS_FREE_ROOT} \<union> set us \<union> set fs" for a
  proof (cases "a \<in> roots")
    case True
    then have "E a = 56" using pd(1) unfolding geometry_def by blast
    then show ?thesis using True by (auto simp: roots_def)
  next
    case False
    then have "a \<in> set (us @ fs)" using that by (auto simp: roots_def)
    then have "a + E a \<le> bk" "36 \<le> E a" "bk \<le> 131016" using pd(1) unfolding geometry_def by blast+
    then show ?thesis by simp
  qed
  have ok: "a < PAGE_SIZE \<and> minlen \<le> unat (h_len m (P + a)) \<and> f_suffix m (foot_of m (P + a)) = MMSIG_SUFX"
    and e: "unat (h_len m (P + a)) = E a"
    if a: "a \<in> {MMPOS_USED_ROOT, MMPOS_FREE_ROOT} \<union> set us \<union> set fs" for a
  proof -
    show e: "unat (h_len m (P + a)) = E a" using pd(6) a unfolding feet_ok_def by blast
    have "ld32 m (P + a + (E a - 12)) = MMSIG_SUFX" using pd(6) a unfolding feet_ok_def by blast
    moreover have "foot_of m (P + a) + 4 = P + a + (E a - 12)"
      using it [OF a] e by (simp add: foot_of_def)
    ultimately have "f_suffix m (foot_of m (P + a)) = MMSIG_SUFX" by (simp add: f_suffix_def)
    then show "a < PAGE_SIZE \<and> minlen \<le> unat (h_len m (P + a)) \<and>
        f_suffix m (foot_of m (P + a)) = MMSIG_SUFX"
      using it [OF a] e ml by simp
  qed
  have len: "length xs \<le> 131072" if "set xs \<subseteq> set us \<union> set fs" "distinct xs" for xs
  proof -
    have "set xs \<subseteq> {..<131072}"
    proof
      fix a
      assume "a \<in> set xs"
      then have "a < PAGE_SIZE" using that(1) it by blast
      then show "a \<in> {..<131072}" by simp
    qed
    then have "card (set xs) \<le> card {..<131072::nat}" by (rule card_mono [OF finite_lessThan])
    then show ?thesis using that(2) by (simp add: distinct_card)
  qed
  have "distinct (us @ fs)" using pd(1) unfolding geometry_def by blast
  then have lu: "length us \<le> 131072" and lf: "length fs \<le> 131072" by (auto intro: len)
  have root: "foot_of m (P + r) = P + r + MMPOS_ROOT_FOOT" if "r \<in> {MMPOS_USED_ROOT, MMPOS_FREE_ROOT}" for r
  proof -
    have "r \<in> roots" using that by (auto simp: roots_def)
    then have "E r = 56" using pd(1) unfolding geometry_def by blast
    moreover have "unat (h_len m (P + r)) = E r" using e that by blast
    ultimately show ?thesis by (simp add: foot_of_def)
  qed
  show "find_item MMSIG_USED minlen hit m P 0 MMPOS_USED_ROOT (P + MMPOS_USED_ROOT + MMPOS_ROOT_FOOT) =
      find hit (MMPOS_USED_ROOT # us)"
  proof (rule find_item_chain)
    show "chain (\<lambda>b. h_next m (P + b)) MMPOS_USED_ROOT us" using pd(2) unfolding list_ok_def by blast
    show "b < PAGE_SIZE \<and> h_signature m (P + b) = MMSIG_USED \<and> minlen \<le> unat (h_len m (P + b)) \<and>
        f_suffix m (foot_of m (P + b)) = MMSIG_SUFX" if "b \<in> set (MMPOS_USED_ROOT # us)" for b
    proof -
      have "b \<in> {MMPOS_USED_ROOT, MMPOS_FREE_ROOT} \<union> set us \<union> set fs" using that by auto
      moreover have "h_signature m (P + b) = MMSIG_USED" using pd(2) that unfolding list_ok_def by blast
      ultimately show ?thesis using ok by blast
    qed
    show "0 + length us \<le> 0xFFFFFFFF" using lu by simp
    show "P + MMPOS_USED_ROOT + MMPOS_ROOT_FOOT = foot_of m (P + MMPOS_USED_ROOT)" using root [of MMPOS_USED_ROOT] by simp
  qed
  show "find_item MMSIG_FREE minlen hit m P 0 MMPOS_FREE_ROOT (P + MMPOS_FREE_ROOT + MMPOS_ROOT_FOOT) =
      find hit (MMPOS_FREE_ROOT # fs)"
  proof (rule find_item_chain)
    show "chain (\<lambda>b. h_next m (P + b)) MMPOS_FREE_ROOT fs" using pd(3) unfolding list_ok_def by blast
    show "b < PAGE_SIZE \<and> h_signature m (P + b) = MMSIG_FREE \<and> minlen \<le> unat (h_len m (P + b)) \<and>
        f_suffix m (foot_of m (P + b)) = MMSIG_SUFX" if "b \<in> set (MMPOS_FREE_ROOT # fs)" for b
    proof -
      have "b \<in> {MMPOS_USED_ROOT, MMPOS_FREE_ROOT} \<union> set us \<union> set fs" using that by auto
      moreover have "h_signature m (P + b) = MMSIG_FREE" using pd(3) that unfolding list_ok_def by blast
      ultimately show ?thesis using ok by blast
    qed
    show "0 + length fs \<le> 0xFFFFFFFF" using lf by simp
    show "P + MMPOS_FREE_ROOT + MMPOS_ROOT_FOOT = foot_of m (P + MMPOS_FREE_ROOT)" using root [of MMPOS_FREE_ROOT] by simp
  qed
qed

section \<open>Cutting an item from the bucket\<close>

text \<open>Writing the body of a part: no head and no root record changes.\<close>

lemma body_fields:
  assumes ar: "area E I" and a: "a \<in> I" "a \<notin> roots"
    and same: "\<And>i. i < P + a + 16 \<or> P + a + E a \<le> i \<Longrightarrow> m' i = m i"
  shows "b \<in> I \<Longrightarrow> h_next m' (P + b) = h_next m (P + b)"
    "b \<in> I \<Longrightarrow> h_prev m' (P + b) = h_prev m (P + b)"
    "b \<in> I \<Longrightarrow> h_signature m' (P + b) = h_signature m (P + b)"
    "b \<in> I \<Longrightarrow> h_len m' (P + b) = h_len m (P + b)"
    "r \<in> roots \<Longrightarrow> r_last m' (P + r) = r_last m (P + r)"
    "b \<in> I \<Longrightarrow> b \<noteq> a \<Longrightarrow> i < E b \<Longrightarrow> m' (P + b + i) = m (P + b + i)"
proof -
  have other: "m' (P + b + i) = m (P + b + i)" if "b \<in> I" "b \<noteq> a" "i < E b" for b i
  proof -
    have "a + E a \<le> b \<or> b + E b \<le> a" using ar a(1) that(1,2) by (auto simp: area_def far_def)
    then show ?thesis using that(3) by (intro same) arith
  qed
  then show "b \<in> I \<Longrightarrow> b \<noteq> a \<Longrightarrow> i < E b \<Longrightarrow> m' (P + b + i) = m (P + b + i)" .
  have head: "ld32 m' (P + b + k) = ld32 m (P + b + k)" if "b \<in> I" "k + 4 \<le> 16" for b k
  proof (rule ld32_cong)
    fix i
    assume i: "P + b + k \<le> i" "i < P + b + k + 4"
    define j where "j = i - P - b"
    have j: "i = P + b + j" "j < 16" using i that(2) by (simp_all add: j_def)
    show "m' i = m i"
    proof (cases "b = a")
      case False
      have "16 \<le> E b" using ar that(1) by (simp add: area_def)
      then show ?thesis using other [OF that(1) False, of j] j by simp
    qed (use j same in simp)
  qed
  show "b \<in> I \<Longrightarrow> h_next m' (P + b) = h_next m (P + b)"
    "b \<in> I \<Longrightarrow> h_prev m' (P + b) = h_prev m (P + b)"
    "b \<in> I \<Longrightarrow> h_len m' (P + b) = h_len m (P + b)"
    using head [of b 8] head [of b 4] head [of b 12]
    by (simp_all add: h_next_def h_prev_def h_len_def)
  show "b \<in> I \<Longrightarrow> h_signature m' (P + b) = h_signature m (P + b)"
    using head [of b 0] by (simp add: h_signature_def)
  show "r_last m' (P + r) = r_last m (P + r)" if "r \<in> roots"
  proof -
    have r: "r \<in> I" "E r = 56" "r \<noteq> a" using ar a that by (auto simp: area_def)
    have "ld32 m' (P + r + 20) = ld32 m (P + r + 20)"
    proof (rule ld32_cong)
      fix i
      assume i: "P + r + 20 \<le> i" "i < P + r + 20 + 4"
      define j where "j = i - P - r"
      have "i = P + r + j" "j < E r" using i r(2) by (simp_all add: j_def)
      then show "m' i = m i" using other [OF r(1,3)] by simp
    qed
    then show ?thesis by (simp add: r_last_def)
  qed
qed

lemma geometry_low:
  assumes "geometry E xs bk" "a \<in> roots \<union> set xs"
  shows "a + E a \<le> bk" "a < bk" "36 \<le> E a"
proof -
  have "a + E a \<le> bk \<and> 36 \<le> E a"
    using assms unfolding geometry_def roots_def by auto
  then show "a + E a \<le> bk" "a < bk" "36 \<le> E a" by auto
qed

lemma geometry_insert:
  assumes g: "geometry E (us @ fs) bk" and n: "36 \<le> need" "need \<le> 131016 - bk"
  shows "geometry (E(bk := need, bk + need := 16)) ((us @ [bk]) @ fs) (bk + need)"
proof -
  let ?E = "E(bk := need, bk + need := 16)" and ?low = "roots \<union> set (us @ fs)"
  have bk: "168 \<le> bk" "bk \<le> 131016" "distinct (us @ fs)" and r56: "\<forall>r\<in>roots. E r = 56"
    and it: "\<forall>a\<in>set (us @ fs). 168 \<le> a \<and> a + E a \<le> bk \<and> 36 \<le> E a"
    and far: "far E (parts (us @ fs) bk)"
    using g unfolding geometry_def by blast+
  note lw = geometry_low [OF g]
  have El: "?E a = E a" if "a \<in> ?low" for a using lw [OF that] by simp
  have "far ?E (?low \<union> {bk, bk + need})"
    unfolding far_def
  proof (intro ballI impI)
    fix a b
    assume ab: "a \<in> ?low \<union> {bk, bk + need}" "b \<in> ?low \<union> {bk, bk + need}" "a \<noteq> b"
    then consider "a \<in> ?low" "b \<in> ?low" | "a \<in> ?low" "b \<in> {bk, bk + need}"
      | "a \<in> {bk, bk + need}" "b \<in> ?low" | "a \<in> {bk, bk + need}" "b \<in> {bk, bk + need}" by blast
    then show "a + ?E a \<le> b \<or> b + ?E b \<le> a"
    proof cases
      case 1
      then have "a + E a \<le> b \<or> b + E b \<le> a" using far ab(3) by (auto simp: far_def parts_def)
      then show ?thesis using El 1 by simp
    next
      case 2
      then show ?thesis using El [of a] lw(1) [of a] by auto
    next
      case 3
      then show ?thesis using El [of b] lw(1) [of b] by auto
    next
      case 4
      then show ?thesis using ab(3) n by auto
    qed
  qed
  moreover have "parts ((us @ [bk]) @ fs) (bk + need) = ?low \<union> {bk, bk + need}"
    by (auto simp: parts_def)
  ultimately have f: "far ?E (parts ((us @ [bk]) @ fs) (bk + need))" by simp
  have "bk \<notin> set (us @ fs)" using lw(2) [of bk] by blast
  then have d: "distinct ((us @ [bk]) @ fs)" using bk(3) by auto
  have "\<forall>a\<in>set ((us @ [bk]) @ fs). 168 \<le> a \<and> a + ?E a \<le> bk + need \<and> 36 \<le> ?E a"
  proof
    fix a
    assume "a \<in> set ((us @ [bk]) @ fs)"
    then consider "a = bk" | "a \<in> set (us @ fs)" by auto
    then show "168 \<le> a \<and> a + ?E a \<le> bk + need \<and> 36 \<le> ?E a"
    proof cases
      case 2
      then have "168 \<le> a \<and> a + E a \<le> bk \<and> 36 \<le> E a" using it by blast
      then show ?thesis using El [of a] 2 by simp
    qed (use n bk in simp)
  qed
  moreover have "\<forall>r\<in>roots. ?E r = 56" using El r56 by simp
  ultimately show ?thesis unfolding geometry_def using f d bk n by simp
qed

text \<open>The words that \<open>operate_insert\<close> writes, with the offsets resolved.\<close>

definition insert_heads :: "nat \<Rightarrow> nat \<Rightarrow> nat \<Rightarrow> u32 \<Rightarrow> u32 \<Rightarrow> mem \<Rightarrow> mem" where
  "insert_heads P bk need lst blen m =
     set_len (P + bk) (of_nat need) (set_next (P + bk) MMFLG_CLOSE (set_prev (P + bk) lst
       (set_signature (P + bk) MMSIG_USED
     (set_len (P + (bk + need)) (blen - of_nat need) (set_next (P + (bk + need)) MMFLG_CLOSE
       (set_prev (P + (bk + need)) (of_nat MMPOS_BCKT_ROOT)
       (set_signature (P + (bk + need)) MMSIG_BCKT
     (set_next (P + MMPOS_BCKT_ROOT) (of_nat (bk + need)) m))))))))"

definition insert_body :: "u32 \<Rightarrow> u32 \<Rightarrow> nat \<Rightarrow> nat \<Rightarrow> nat \<Rightarrow> mem \<Rightarrow> mem" where
  "insert_body now cid P bk al m =
     (let F = P + bk + al + SIZEOF_HEAD in
      set_category_id F cid (set_suffix F MMSIG_SUFX (set_created F now
        (memzero (P + bk + SIZEOF_HEAD) al m))))"

lemma insert_body_outside:
  "i < P + bk + 16 \<or> P + bk + (al + 32) \<le> i \<Longrightarrow> insert_body now cid P bk al m i = m i"
  unfolding insert_body_def Let_def set_category_id_def set_suffix_def set_created_def
  by (elim disjE) (simp_all add: st32_outside memzero_outside)

lemma insert_body_inside:
  "i < al \<Longrightarrow> insert_body now cid P bk al m (P + bk + 16 + i) = 0"
  "ld32 (insert_body now cid P bk al m) (P + bk + (al + 20)) = MMSIG_SUFX"
  "ld32 (insert_body now cid P bk al m) (P + bk + (al + 24)) = cid"
proof -
  show "i < al \<Longrightarrow> insert_body now cid P bk al m (P + bk + 16 + i) = 0"
    unfolding insert_body_def Let_def set_category_id_def set_suffix_def set_created_def
    by (simp add: st32_outside memzero_def)
  define F where "F = P + bk + al + SIZEOF_HEAD"
  have F: "P + bk + (al + 20) = F + 4" "P + bk + (al + 24) = F + 8" by (simp_all add: F_def)
  show "ld32 (insert_body now cid P bk al m) (P + bk + (al + 20)) = MMSIG_SUFX"
    "ld32 (insert_body now cid P bk al m) (P + bk + (al + 24)) = cid"
    unfolding F insert_body_def Let_def set_category_id_def set_suffix_def set_created_def
      F_def [symmetric]
    by (simp_all add: ld32_st32_same ld32_st32_other)
qed

lemma operate_insert_eq:
  assumes p: "page_ok cid m P E us fs bk" and al: "4 \<le> al"
  shows "operate_insert now cid P al m = (if 131016 - bk < al + 32 then (0, m) else
    (bk, set_next (P + last (MMPOS_USED_ROOT # us)) (of_nat bk) (set_last (P + MMPOS_USED_ROOT) (of_nat bk)
      (insert_body now cid P bk al (insert_heads P bk (al + 32) (r_last m (P + MMPOS_USED_ROOT))
        (h_len m (P + bk)) m)))))"
proof (cases "131016 - bk < al + 32")
  case True
  note pd = page_okD [OF p]
  have "bk < 131057" using pd(1) by (auto simp: geometry_def)
  then have "unat (of_nat bk :: u32) = bk" by (intro unat_of_nat_small) simp
  then show ?thesis using True pd(4,5) by (simp add: operate_insert_def Let_def)
next
  case False
  note pd = page_okD [OF p]
  define need where "need = al + 32"
  let ?E = "E(bk := need, bk + need := 16)" and ?I = "parts ((us @ [bk]) @ fs) (bk + need)"
  have g: "geometry ?E ((us @ [bk]) @ fs) (bk + need)"
    using False al unfolding need_def by (intro geometry_insert [OF pd(1)]) simp_all
  note ar = geometry_area [OF g]
  have I: "bk \<in> ?I" "bk + need \<in> ?I" "MMPOS_BCKT_ROOT \<in> ?I" "MMPOS_USED_ROOT \<in> ?I"
    and R: "MMPOS_BCKT_ROOT \<in> roots" "MMPOS_USED_ROOT \<in> roots"
    by (simp_all add: parts_def roots_def)
  have lI: "last (MMPOS_USED_ROOT # us) \<in> ?I"
    by (rule last_mem) (auto simp: parts_def roots_def)
  have bkr: "bk \<notin> roots" using pd(1) by (auto simp: geometry_def roots_def)
  note ub = area_bound(2) [OF ar I(1)] area_bound(2) [OF ar I(2)] area_bound(2) [OF ar lI]
  note f = page_fields [OF ar]
  have adv: "advance_bucket P need m = set_len (P + (bk + need)) (h_len m (P + bk) - of_nat need)
      (set_next (P + (bk + need)) MMFLG_CLOSE (set_prev (P + (bk + need)) (of_nat MMPOS_BCKT_ROOT)
       (set_signature (P + (bk + need)) MMSIG_BCKT
     (set_next (P + MMPOS_BCKT_ROOT) (of_nat (bk + need)) m))))"
    using ub(1,2) pd(4) I by (simp add: advance_bucket_def Let_def f)
  have rl: "r_last (advance_bucket P need m) (P + MMPOS_USED_ROOT) = r_last m (P + MMPOS_USED_ROOT)"
    unfolding adv using R I by (simp only: f)
  have new: "new_item now cid P lst bk al m' = insert_body now cid P bk al (set_len (P + bk) (of_nat need)
      (set_next (P + bk) MMFLG_CLOSE (set_prev (P + bk) lst (set_signature (P + bk) MMSIG_USED m'))))"
    for lst m'
  proof -
    have "unat (of_nat need :: u32) = need"
      unfolding need_def using False by (intro unat_of_nat_small) simp
    then have "foot_of (memzero (P + bk + SIZEOF_HEAD) al (set_len (P + bk) (of_nat need) m2)) (P + bk) =
        P + bk + al + SIZEOF_HEAD" for m2
      by (simp add: foot_of_def h_len_def set_len_def ld32_memzero_other ld32_st32_same need_def)
    then show ?thesis by (simp only: new_item_def insert_body_def Let_def need_def)
  qed
  have rl0: "r_last m (P + MMPOS_USED_ROOT) = of_nat (last (MMPOS_USED_ROOT # us))"
    using pd(2) unfolding list_ok_def by blast
  have nf: "\<not> 131016 - bk < need" using False by (simp add: need_def)
  show ?thesis
    unfolding need_def [symmetric]
    by (simp only: operate_insert_def Let_def need_def [symmetric] pd(4,5) rl [unfolded adv] rl0 new
        adv insert_heads_def ub nf if_False simp_thms)
qed

lemma feet_ok_kept_on:
  assumes "feet_ok cid m P E S" "\<And>b. b \<in> S \<Longrightarrow> E' b = E b" "area E' I" "S \<subseteq> I"
    and "\<And>b. b \<in> S \<Longrightarrow> h_len m' (P + b) = h_len m (P + b)"
    and e: "\<And>b. b \<in> S \<Longrightarrow> if b \<in> roots then E b = 56 else 36 \<le> E b"
    and k: "\<And>b i. b \<in> S \<Longrightarrow> (if b \<in> roots then 24 else 16) \<le> i \<Longrightarrow> i < E' b \<Longrightarrow>
      m' (P + b + i) = m (P + b + i)"
  shows "feet_ok cid m' P E' S"
proof -
  have w: "ld32 m' (P + b + k) = ld32 m (P + b + k)"
    if "b \<in> S" "(if b \<in> roots then 24 else 16) \<le> k" "k + 4 \<le> E b" for b k
  proof (rule ld32_cong)
    fix i
    assume i: "P + b + k \<le> i" "i < P + b + k + 4"
    define j where "j = i - P - b"
    have j: "k \<le> j" "j < E' b" "i = P + b + j" using i that(3) assms(2) [OF that(1)]
      by (simp_all add: j_def)
    have "(if b \<in> roots then 24 else 16) \<le> j" using that(2) j(1) by (rule order_trans)
    then show "m' i = m i" unfolding j(3) by (rule k [OF that(1) _ j(2)])
  qed
  show ?thesis
    unfolding feet_ok_def
  proof (intro ballI conjI impI)
    fix a
    assume a: "a \<in> S"
    note fa = assms(1) [unfolded feet_ok_def, rule_format, OF a]
    have ea: "if a \<in> roots then E a = 56 else 36 \<le> E a" by (rule e [OF a])
    show "unat (h_len m' (P + a)) = E' a" using fa assms(2,5) a by simp
    have "ld32 m' (P + a + (E a - 12)) = ld32 m (P + a + (E a - 12))"
      using ea by (intro w [OF a]) (auto split: if_splits)
    then show "ld32 m' (P + a + (E' a - 12)) = MMSIG_SUFX" using fa assms(2) a by simp
    assume nr: "a \<notin> roots"
    have "ld32 m' (P + a + (E a - 8)) = ld32 m (P + a + (E a - 8))"
      using ea by (intro w [OF a]) (auto split: if_splits)
    then show "ld32 m' (P + a + (E' a - 8)) = cid" using fa assms(2) a nr by simp
  qed
qed

lemma insert_page_ok:
  assumes p: "page_ok cid m P E us fs bk" and al: "4 \<le> al" "al + 32 \<le> 131016 - bk"
    and oi: "operate_insert now cid P al m = (off, m')"
  defines "E' \<equiv> E(bk := al + 32, bk + (al + 32) := 16)"
  shows "off = bk" and "page_ok cid m' P E' (us @ [bk]) fs (bk + (al + 32))"
    and "kept E (parts (us @ fs) bk) P m m'"
    and "\<And>i. i < al \<Longrightarrow> m' (P + bk + 16 + i) = 0"
proof -
  define need where "need = al + 32"
  define pl where "pl = last (MMPOS_USED_ROOT # us)"
  define m1 where "m1 = insert_heads P bk need (r_last m (P + MMPOS_USED_ROOT)) (h_len m (P + bk)) m"
  define m2 where "m2 = insert_body now cid P bk al m1"
  note pd = page_okD [OF p]
  have nn: "36 \<le> need" "need \<le> 131016 - bk" using al by (simp_all add: need_def)
  have bn: "\<not> 131016 - bk < need" using nn(2) by simp
  have "(off, m') = (bk, set_next (P + pl) (of_nat bk) (set_last (P + MMPOS_USED_ROOT) (of_nat bk) m2))"
    unfolding oi [symmetric] operate_insert_eq [OF p al(1)] need_def [symmetric] if_not_P [OF bn]
      pl_def [symmetric] m1_def [symmetric] m2_def [symmetric] by (rule refl)
  then have op: "off = bk"
    and m4: "m' = set_next (P + pl) (of_nat bk) (set_last (P + MMPOS_USED_ROOT) (of_nat bk) m2)"
    by (simp_all only: prod.inject)
  show "off = bk" by (rule op)
  have E': "E' = E(bk := need, bk + need := 16)" by (simp add: E'_def need_def)
  define I where "I = parts ((us @ [bk]) @ fs) (bk + need)"
  have g: "geometry E' ((us @ [bk]) @ fs) (bk + need)"
    unfolding E' by (rule geometry_insert [OF pd(1) nn])
  note ar = geometry_area [OF g, folded I_def]
  note lw = geometry_low [OF pd(1)]
  have I: "bk \<in> I" "bk + need \<in> I" "MMPOS_BCKT_ROOT \<in> I" "MMPOS_USED_ROOT \<in> I"
    and R: "MMPOS_BCKT_ROOT \<in> roots" "MMPOS_USED_ROOT \<in> roots" "MMPOS_FREE_ROOT \<in> roots"
    by (simp_all add: I_def parts_def roots_def)
  have lI: "set us \<subseteq> I" "set fs \<subseteq> I" "roots \<subseteq> I" by (auto simp: I_def parts_def)
  have pI: "pl \<in> I" unfolding pl_def using lI(1) I(4) by (rule last_mem)
  have pm: "pl \<in> set (MMPOS_USED_ROOT # us)" unfolding pl_def by (rule last_in_set) simp
  have bkr: "b < bk \<and> b \<noteq> bk \<and> b \<noteq> bk + need" if "b \<in> roots \<union> set (us @ fs)" for b
    using lw(2) [OF that] by simp
  have nr: "bk \<notin> roots" "bk + need \<notin> roots" using bkr by blast+
  note f = page_fields [OF ar] last_fields [OF ar R(2), simplified] last_last [OF ar R(2), simplified]
  have out: "i < P + bk + 16 \<or> P + bk + E' bk \<le> i \<Longrightarrow> m2 i = m1 i" for i
    unfolding m2_def using nn by (intro insert_body_outside) (auto simp: E' need_def)
  note bd = body_fields [OF ar I(1) nr(1) out]
  have ne: "bk \<noteq> bk + need" "MMPOS_BCKT_ROOT \<noteq> bk" "MMPOS_BCKT_ROOT \<noteq> bk + need"
    using nn bkr [of MMPOS_BCKT_ROOT] R by auto
  have low: "168 \<le> a" if "a \<in> set (us @ fs)" for a
    using pd(1) that unfolding geometry_def by blast
  have "pl = MMPOS_USED_ROOT \<or> pl \<in> set (us @ fs)" using pm by auto
  then have pn: "pl \<noteq> bk" "pl \<noteq> bk + need" "pl \<noteq> MMPOS_BCKT_ROOT"
    using bkr [of pl] low [of pl] R by auto
  have nx: "h_next m' (P + b) = (if b = pl then of_nat bk else if b = bk \<or> b = bk + need then MMFLG_CLOSE
      else if b = MMPOS_BCKT_ROOT then of_nat (bk + need) else h_next m (P + b))" if "b \<in> I" for b
    using that pI I R ne by (simp add: m4 f bd) (simp add: m1_def insert_heads_def f)
  have pv: "h_prev m' (P + b) = (if b = bk then r_last m (P + MMPOS_USED_ROOT)
      else if b = bk + need then of_nat MMPOS_BCKT_ROOT else h_prev m (P + b))" if "b \<in> I" for b
    using that pI I R ne by (simp add: m4 f bd) (simp add: m1_def insert_heads_def f)
  have sg: "h_signature m' (P + b) = (if b = bk then MMSIG_USED
      else if b = bk + need then MMSIG_BCKT else h_signature m (P + b))" if "b \<in> I" for b
    using that pI I R ne by (simp add: m4 f bd) (simp add: m1_def insert_heads_def f)
  have ln: "h_len m' (P + b) = (if b = bk then of_nat need
      else if b = bk + need then h_len m (P + bk) - of_nat need else h_len m (P + b))" if "b \<in> I" for b
    using that pI I R ne by (simp add: m4 f bd) (simp add: m1_def insert_heads_def f)
  have rl: "r_last m' (P + r) = (if r = MMPOS_USED_ROOT then of_nat bk else r_last m (P + r))"
    if "r \<in> roots" for r
    using that pI I R ne by (simp add: m4 f bd) (simp add: m1_def insert_heads_def f)
  have k1: "kept E' I P m m1"
    unfolding m1_def insert_heads_def using I by (intro kept_fields [OF ar] kept_refl)
  have k2: "kept E' I P m2 m'"
    unfolding m4 using I R pI by (intro kept_fields [OF ar] kept_refl)
  have byte: "m' (P + b + i) = m (P + b + i)"
    if "b \<in> I" "b \<noteq> bk" "(if b \<in> roots then 24 else 16) \<le> i" "i < E' b" for b i
  proof -
    have "m2 (P + b + i) = m1 (P + b + i)"
      by (rule body_fields(6) [OF ar I(1) nr(1) _ that(1,2,4)]) (rule out)
    then show ?thesis using k1 k2 that unfolding kept_def by metis
  qed
  have body: "m' (P + bk + i) = m2 (P + bk + i)" if "16 \<le> i" "i < need" for i
    using k2 I(1) nr(1) that ne(1) unfolding kept_def by (simp add: E')
  have rest: "m' i = m i" if "i < P \<or> P + PAGE_SIZE \<le> i" for i
  proof -
    have "bk + E' bk \<le> PAGE_SIZE" using ar I(1) unfolding area_def by blast
    then have "m2 i = m1 i" using that by (intro out) arith
    then show ?thesis using k1 k2 that unfolding kept_def by metis
  qed
  have sub: "parts (us @ fs) bk \<subseteq> I" by (auto simp: I_def parts_def)
  show "kept E (parts (us @ fs) bk) P m m'"
    unfolding kept_def
  proof (intro conjI ballI allI impI)
    fix b i
    assume b: "b \<in> parts (us @ fs) bk" "(if b \<in> roots then 24 else 16) \<le> i" "i < E b"
    have "E bk = 16" using pd(1) unfolding geometry_def by blast
    then have nb: "b \<noteq> bk" using b(2,3) nr(1) by auto
    then have "b \<in> roots \<union> set (us @ fs)" using b(1) by (auto simp: parts_def)
    then have "E' b = E b" using bkr [of b] by (simp add: E')
    then show "m' (P + b + i) = m (P + b + i)" using byte [of b i] b nb sub by auto
  qed (use rest in auto)
  show "m' (P + bk + 16 + i) = 0" if "i < al" for i
  proof -
    have "m2 (P + bk + 16 + i) = 0" unfolding m2_def using that by (rule insert_body_inside)
    then show ?thesis using body [of "16 + i"] that by (simp add: need_def add.assoc)
  qed
  show "page_ok cid m' P E' (us @ [bk]) fs (bk + (al + 32))"
    unfolding need_def [symmetric]
  proof (rule page_okI [OF g])
    have dd: "distinct ((us @ [bk]) @ fs)" using g unfolding geometry_def by blast
    have rr: "MMPOS_USED_ROOT \<notin> set ((us @ [bk]) @ fs)" "MMPOS_FREE_ROOT \<notin> set ((us @ [bk]) @ fs)"
      using low [of MMPOS_USED_ROOT] low [of MMPOS_FREE_ROOT] bkr [of MMPOS_USED_ROOT]
        bkr [of MMPOS_FREE_ROOT] R by auto
    have um: "b \<in> I \<and> b \<noteq> MMPOS_BCKT_ROOT \<and> b \<noteq> bk + need" if "b \<in> set (MMPOS_USED_ROOT # us @ [bk])" for b
      using that lI I(1,4) low [of b] bkr [of b] ne R by auto
    show "list_ok m' P MMSIG_USED MMPOS_USED_ROOT (us @ [bk])"
    proof (rule list_ok_append [OF pd(2)], fold pl_def)
      show "distinct (MMPOS_USED_ROOT # us @ [bk])" using dd rr by auto
      show "r_last m' (P + MMPOS_USED_ROOT) = of_nat bk" using rl [OF R(2)] by simp
      have lst: "r_last m (P + MMPOS_USED_ROOT) = of_nat pl"
        using pd(2) by (simp only: list_ok_def pl_def)
      fix b
      show "h_next m' (P + b) = (if b = pl then of_nat bk else if b = bk then MMFLG_CLOSE else h_next m (P + b))"
        and "h_signature m' (P + b) = (if b = bk then MMSIG_USED else h_signature m (P + b))"
        if "b \<in> set (MMPOS_USED_ROOT # us @ [bk])"
        using um [OF that] by (simp_all add: nx sg)
      show "h_prev m' (P + b) = (if b = bk then of_nat pl else h_prev m (P + b))"
        if "b \<in> set (us @ [bk])"
        using um [of b] that lst by (simp add: pv)
    qed
    have fm: "b \<in> I \<and> b \<noteq> pl \<and> b \<noteq> bk \<and> b \<noteq> bk + need \<and> b \<noteq> MMPOS_BCKT_ROOT"
      if "b \<in> set (MMPOS_FREE_ROOT # fs)" for b
    proof -
      have "b \<in> roots \<union> set (us @ fs)" using that R by auto
      moreover have "b \<noteq> pl" using that pm dd rr by auto
      moreover have "b \<noteq> MMPOS_BCKT_ROOT" using that low [of b] by auto
      ultimately show ?thesis using bkr [of b] lI by auto
    qed
    show "list_ok m' P MMSIG_FREE MMPOS_FREE_ROOT fs"
    proof (rule list_ok_same [OF pd(3)])
      show "same_links P (set (MMPOS_FREE_ROOT # fs)) m m'"
        unfolding same_links_def using fm by (simp add: nx pv sg)
      show "r_last m' (P + MMPOS_FREE_ROOT) = r_last m (P + MMPOS_FREE_ROOT)"
        using rl [OF R(3)] by simp
    qed simp
    show "h_next m' (P + MMPOS_BCKT_ROOT) = of_nat (bk + need)"
      using nx [OF I(3)] pn ne by simp
    have "unat (of_nat need :: u32) = need" using nn by (intro unat_of_nat_small) simp
    then show "unat (h_len m' (P + (bk + need))) = 131016 - (bk + need)"
      using ln [OF I(2)] pd(5) nn by (simp add: unat_sub word_le_nat_alt)
    show "roots_ok m' P"
      unfolding roots_ok_def
    proof (intro conjI ballI)
      note ro = pd(7) [unfolded roots_ok_def]
      show "h_prev m' (P + r) = 0" if "r \<in> roots" for r
        using pv [of r] bkr [of r] lI(3) ro that by auto
      show "h_signature m' (P + MMPOS_BCKT_ROOT) = MMSIG_BCKT" "h_len m' (P + MMPOS_BCKT_ROOT) = 56"
        using sg [OF I(3)] ln [OF I(3)] ne ro by simp_all
      have e56: "E' MMPOS_BCKT_ROOT = 56" using g R(1) unfolding geometry_def by blast
      have "ld32 m' (P + MMPOS_BCKT_ROOT + 44) = ld32 m (P + MMPOS_BCKT_ROOT + 44)"
      proof (rule ld32_cong)
        fix i
        assume i: "P + MMPOS_BCKT_ROOT + 44 \<le> i" "i < P + MMPOS_BCKT_ROOT + 44 + 4"
        define j where "j = i - P - MMPOS_BCKT_ROOT"
        have j: "44 \<le> j" "j < 48" "i = P + MMPOS_BCKT_ROOT + j" using i by (simp_all add: j_def)
        show "m' i = m i" unfolding j(3)
          by (rule byte [OF I(3)]) (use ne j e56 in simp_all)
      qed
      then show "ld32 m' (P + MMPOS_BCKT_ROOT + 44) = MMSIG_SUFX" using ro by simp
    qed
    let ?S = "{MMPOS_USED_ROOT, MMPOS_FREE_ROOT} \<union> set us \<union> set fs"
    have S: "b \<in> roots \<union> set (us @ fs)" if "b \<in> ?S" for b using that R by auto
    have old: "feet_ok cid m' P E' ?S"
    proof (rule feet_ok_kept_on [OF pd(6) _ ar])
      fix b
      assume b: "b \<in> ?S"
      show eb: "E' b = E b" using bkr [OF S [OF b]] by (simp add: E')
      have bI: "b \<in> I" using S [OF b] lI by auto
      show "h_len m' (P + b) = h_len m (P + b)" using ln [OF bI] bkr [OF S [OF b]] by simp
      show "if b \<in> roots then E b = 56 else 36 \<le> E b"
        using lw(3) [OF S [OF b]] pd(1) unfolding geometry_def by simp
      show "m' (P + b + i) = m (P + b + i)" if "(if b \<in> roots then 24 else 16) \<le> i" "i < E' b" for i
        using byte [OF bI _ that] bkr [OF S [OF b]] by simp
    next
      show "?S \<subseteq> I" using S lI by auto
    qed
    have w: "ld32 m' (P + bk + k) = ld32 m2 (P + bk + k)" if "16 \<le> k" "k + 4 \<le> need" for k
    proof (rule ld32_cong)
      fix i
      assume i: "P + bk + k \<le> i" "i < P + bk + k + 4"
      then have "16 \<le> i - P - bk" "i - P - bk < need" "P + bk + (i - P - bk) = i" using that by simp_all
      then show "m' i = m2 i" using body [of "i - P - bk"] by simp
    qed
    have en: "E' bk = need" "need - 12 = al + 20" "need - 8 = al + 24" using ne by (simp_all add: E' need_def)
    have "feet_ok cid m' P E' {bk}"
      unfolding feet_ok_def using w [of "al + 20"] w [of "al + 24"] ln [OF I(1)] al(1)
        insert_body_inside(2,3) [of now cid P bk al m1, folded m2_def] \<open>unat (of_nat need :: u32) = need\<close>
      by (simp add: en) (simp add: need_def)
    with old show "feet_ok cid m' P E' ({MMPOS_USED_ROOT, MMPOS_FREE_ROOT} \<union> set (us @ [bk]) \<union> set fs)"
      unfolding feet_ok_def by auto
  qed
qed

section \<open>Recycling and releasing an item\<close>

lemma find_split:
  assumes "find hit (r # xs) = Some x" "\<not> hit r"
  obtains ys zs where "xs = ys @ x # zs" "hit x"
proof -
  have "find hit xs = Some x" using assms by simp
  then have "x \<in> set xs" "hit x" by (auto simp: find_Some_iff)
  then show thesis using that by (metis split_list)
qed

lemma operate_recycle_ok:
  assumes p: "page_ok cid m P E us fs bk" and oi: "operate_recycle P al m = (off, m')"
  shows "off = 0 \<and> m' = m \<or> off \<in> set fs \<and> off \<noteq> 0 \<and> al + 32 \<le> E off \<and>
    page_ok cid m' P E (us @ [off]) (remove1 off fs) bk \<and> kept E (parts (us @ fs) bk) P m m'"
proof -
  let ?hit = "\<lambda>offset. offset \<noteq> MMPOS_FREE_ROOT \<and> unat (h_len m (P + offset)) \<ge> MMSIZ_HF_SIZE + al"
  have find: "find_freeitem_over_size m P al = (case find ?hit (MMPOS_FREE_ROOT # fs) of Some x \<Rightarrow> x | None \<Rightarrow> 0)"
    unfolding find_freeitem_over_size_def using find_item_page(2) [OF p, of MMPOS_MIN_OFST ?hit] by simp
  show ?thesis
  proof (cases "find ?hit (MMPOS_FREE_ROOT # fs)")
    case None
    then show ?thesis using oi find by (simp add: operate_recycle_def)
  next
    case (Some x)
    from find_split [OF Some] obtain ys zs where x: "fs = ys @ x # zs" "?hit x" by blast
    note pd = page_okD [OF p]
    have xr: "x \<in> set (us @ fs)" "x \<in> set fs" using x(1) by simp_all
    have x168: "168 \<le> x" using pd(1) xr(1) unfolding geometry_def by blast
    have d: "distinct (us @ fs)" using pd(1) unfolding geometry_def by blast
    have "unat (h_len m (P + x)) = E x" using pd(6) xr(2) unfolding feet_ok_def by blast
    then have e: "al + 32 \<le> E x" using x(2) by simp
    have "remove1 x fs = ys @ zs" using d unfolding x(1) by (simp add: remove1_append)
    moreover have "off = x \<and> m' = link_last P MMPOS_USED_ROOT MMSIG_USED x (unlink_item P MMPOS_FREE_ROOT x m)"
    proof -
      have f: "find_freeitem_over_size m P al = x" unfolding find Some by simp
      have "x \<noteq> 0" using x168 by simp
      then have "(off, m') = (x, link_last P MMPOS_USED_ROOT MMSIG_USED x (unlink_item P MMPOS_FREE_ROOT x m))"
        unfolding oi [symmetric] operate_recycle_def f Let_def by (rule if_not_P)
      then show ?thesis by (simp only: prod.inject)
    qed
    ultimately show ?thesis
      using recycle_page_ok [OF p [unfolded x(1)]] x(1) e x168 xr(2) by simp
  qed
qed

section \<open>The category\<close>

lemma chain_unique:
  assumes "chain nx r xs" "chain nx r ys" "\<forall>a\<in>set xs \<union> set ys. a < PAGE_SIZE"
  shows "xs = ys"
  using assms
proof (induction xs arbitrary: r ys)
  case Nil
  show ?case
  proof (cases ys)
    case (Cons y zs)
    then have "(of_nat y :: u32) = MMFLG_CLOSE" "y < PAGE_SIZE" using Nil by simp_all
    moreover from this(2) have "unat (of_nat y :: u32) = y" by (intro unat_of_nat_small) simp
    ultimately have "y = unat MMFLG_CLOSE" by metis
    with \<open>y < PAGE_SIZE\<close> show ?thesis by simp
  qed simp
next
  case (Cons x xs)
  have x: "x < PAGE_SIZE" using Cons.prems(3) by simp
  then have ux: "unat (of_nat x :: u32) = x" by (intro unat_of_nat_small) simp
  have nx: "nx r = of_nat x" using Cons.prems(1) by simp
  show ?case
  proof (cases ys)
    case Nil
    then have "(of_nat x :: u32) = MMFLG_CLOSE" using Cons.prems(2) nx by simp
    then have "x = unat MMFLG_CLOSE" using ux by metis
    with x show ?thesis by simp
  next
    fix y zs
    assume ys: "ys = y # zs"
    then have "y < PAGE_SIZE" using Cons.prems(3) by simp
    then have uy: "unat (of_nat y :: u32) = y" by (intro unat_of_nat_small) simp
    have "(of_nat y :: u32) = of_nat x" using Cons.prems(2) nx ys by simp
    then have "x = y" using ux uy by metis
    moreover have "xs = zs"
      by (rule Cons.IH) (use Cons.prems ys \<open>x = y\<close> in auto)
    ultimately show ?thesis using ys by simp
  qed
qed

lemma page_ok_unique:
  assumes p: "page_ok cid m P E us fs bk" "page_ok cid m P E' us' fs' bk'"
  shows "us = us'" "fs = fs'" "a \<in> set us \<union> set fs \<Longrightarrow> E a = E' a"
proof -
  note d = page_okD [OF p(1)] and d' = page_okD [OF p(2)]
  have "\<forall>a\<in>set (us @ fs). a + E a \<le> bk" "bk \<le> 131016"
    "\<forall>a\<in>set (us' @ fs'). a + E' a \<le> bk'" "bk' \<le> 131016"
    using d(1) d'(1) unfolding geometry_def by blast+
  moreover have "a < PAGE_SIZE" if "a + e \<le> b" "b \<le> 131016" for a b e :: nat using that by simp
  ultimately have b: "\<forall>a\<in>set us \<union> set us'. a < PAGE_SIZE" "\<forall>a\<in>set fs \<union> set fs'. a < PAGE_SIZE"
    unfolding set_append by blast+
  show u: "us = us'" and f: "fs = fs'"
    using chain_unique [OF _ _ b(1)] chain_unique [OF _ _ b(2)] d(2,3) d'(2,3)
    unfolding list_ok_def by blast+
  show "a \<in> set us \<union> set fs \<Longrightarrow> E a = E' a"
    using d(6) d'(6) u f unfolding feet_ok_def by auto
qed

text \<open>
  The invariant reads a page except for the summaries in the roots of the two lists.
\<close>

definition summary_cell :: "nat \<Rightarrow> bool" where
  "summary_cell i \<longleftrightarrow> 24 \<le> i \<and> i < 40 \<or> 80 \<le> i \<and> i < 96"

lemma page_ok_summary:
  assumes s: "\<And>i. i < PAGE_SIZE \<Longrightarrow> \<not> summary_cell i \<Longrightarrow> m' (P + i) = m (P + i)"
    and p: "page_ok cid m P E us fs bk"
  shows "page_ok cid m' P E us fs bk"
proof -
  note d = page_okD [OF p]
  have w: "ld32 m' (P + a) = ld32 m (P + a)"
    if "a + 4 \<le> PAGE_SIZE" "a + 4 \<le> 24 \<or> 40 \<le> a" "a + 4 \<le> 80 \<or> 96 \<le> a" for a
  proof (rule ld32_cong)
    fix i
    assume "P + a \<le> i" "i < P + a + 4"
    then obtain j where j: "i = P + j" "a \<le> j" "j < a + 4" using le_Suc_ex [of "P + a" i]
      by (metis add.assoc add_less_cancel_left le_add1 nat_add_left_cancel_le)
    then show "m' i = m i" using that s [of j] by (auto simp: summary_cell_def)
  qed
  note ar = geometry_area [OF d(1)]
  have it: "168 \<le> a \<and> 36 \<le> E a" if "a \<in> set (us @ fs)" for a
    using d(1) that unfolding geometry_def by blast
  have r56: "E a = 56" if "a \<in> roots" for a using d(1) that unfolding geometry_def by blast
  have bk: "168 \<le> bk" using d(1) unfolding geometry_def by blast
  have bd: "a + 16 \<le> PAGE_SIZE \<and> a + E a \<le> PAGE_SIZE \<and> (a \<in> roots \<or> 168 \<le> a)"
    if "a \<in> parts (us @ fs) bk" for a
  proof -
    have "16 \<le> E a \<and> a + E a \<le> PAGE_SIZE" using ar that unfolding area_def by blast
    moreover have "a \<in> roots \<or> 168 \<le> a" using that it bk unfolding parts_def by blast
    ultimately show ?thesis by simp
  qed
  have h: "h_next m' (P + a) = h_next m (P + a)" "h_prev m' (P + a) = h_prev m (P + a)"
    "h_signature m' (P + a) = h_signature m (P + a)" "h_len m' (P + a) = h_len m (P + a)"
    if "a \<in> parts (us @ fs) bk" for a
    using bd [OF that] w [of a] w [of "a + 4"] w [of "a + 8"] w [of "a + 12"]
    by (auto simp: h_next_def h_prev_def h_signature_def h_len_def add.assoc roots_def)
  have r: "r_last m' (P + r) = r_last m (P + r)" if "r \<in> roots" for r
    using that w [of "r + 20"] by (auto simp: r_last_def roots_def add.assoc)
  have sub: "set (MMPOS_USED_ROOT # us) \<subseteq> parts (us @ fs) bk" "set (MMPOS_FREE_ROOT # fs) \<subseteq> parts (us @ fs) bk"
    "{MMPOS_USED_ROOT, MMPOS_FREE_ROOT} \<union> set us \<union> set fs \<subseteq> parts (us @ fs) bk"
    and R: "MMPOS_USED_ROOT \<in> roots" "MMPOS_FREE_ROOT \<in> roots" "MMPOS_BCKT_ROOT \<in> parts (us @ fs) bk"
    "bk \<in> parts (us @ fs) bk"
    by (auto simp: parts_def roots_def)
  show ?thesis
  proof (rule page_okI [OF d(1)])
    show "list_ok m' P MMSIG_USED MMPOS_USED_ROOT us"
      by (rule list_ok_same [OF d(2) _ subset_refl r [OF R(1)]]) (unfold same_links_def, use h sub(1) in blast)
    show "list_ok m' P MMSIG_FREE MMPOS_FREE_ROOT fs"
      by (rule list_ok_same [OF d(3) _ subset_refl r [OF R(2)]]) (unfold same_links_def, use h sub(2) in blast)
    show "h_next m' (P + MMPOS_BCKT_ROOT) = of_nat bk" using h(1) [OF R(3)] d(4) by simp
    show "unat (h_len m' (P + bk)) = 131016 - bk" using h(4) [OF R(4)] d(5) by simp
    have rp: "roots \<subseteq> parts (us @ fs) bk" by (auto simp: parts_def)
    show "roots_ok m' P"
      using d(7) h R(3) rp w [of "MMPOS_BCKT_ROOT + 44"] unfolding roots_ok_def
      by (auto simp: add.assoc)
    show "feet_ok cid m' P E ({MMPOS_USED_ROOT, MMPOS_FREE_ROOT} \<union> set us \<union> set fs)"
      unfolding feet_ok_def
    proof (intro ballI conjI impI)
      fix a
      assume a: "a \<in> {MMPOS_USED_ROOT, MMPOS_FREE_ROOT} \<union> set us \<union> set fs"
      then have ap: "a \<in> parts (us @ fs) bk" using sub(3) by blast
      note fa = d(6) [unfolded feet_ok_def, rule_format, OF a]
      have cs: "a \<in> {0, 56} \<and> E a = 56 \<or> a \<notin> roots \<and> 168 \<le> a \<and> 36 \<le> E a"
      proof (cases "a \<in> set (us @ fs)")
        case True
        then show ?thesis using it [OF True] by (auto simp: roots_def)
      next
        case False
        then show ?thesis using a r56 R by auto
      qed
      show "unat (h_len m' (P + a)) = E a" using fa h(4) [OF ap] by simp
      have "ld32 m' (P + (a + (E a - 12))) = ld32 m (P + (a + (E a - 12)))"
        using cs bd [OF ap] by (intro w) auto
      then show "ld32 m' (P + a + (E a - 12)) = MMSIG_SUFX" using fa by (simp add: add.assoc)
      assume nr: "a \<notin> roots"
      then have "168 \<le> a" "36 \<le> E a" using cs R by auto
      then have "ld32 m' (P + (a + (E a - 8))) = ld32 m (P + (a + (E a - 8)))"
        using bd [OF ap] by (intro w) auto
      then show "ld32 m' (P + a + (E a - 8)) = cid" using fa nr by (simp add: add.assoc)
    qed
  qed
qed

lemma page_ok_cong:
  assumes "\<And>i. P \<le> i \<Longrightarrow> i < P + PAGE_SIZE \<Longrightarrow> m' i = m i" "page_ok cid m P E us fs bk"
  shows "page_ok cid m' P E us fs bk"
  using assms(1) by (intro page_ok_summary [OF _ assms(2)]) simp

end
