(* ===== verification/Smmr_Heap.thy ===== *)
theory Smmr_Heap
  imports Smmr_Alloc
begin

text \<open>
  A category as a heap: the blocks that are handed out, and what \<open>shmalloc\<close> and \<open>shmfree\<close> do to
  them. A block is named by its page and the offset of its head; \<open>live\<close> reads the blocks in use
  from the used lists of the pages, so that everything is said about the bytes of the category.
\<close>

section \<open>Blocks\<close>

type_synonym blk = "nat \<times> nat"

definition page_inv :: "u32 \<Rightarrow> mem \<Rightarrow> nat \<Rightarrow> bool" where
  "page_inv cid m n \<longleftrightarrow> (\<exists>E us fs bk. page_ok cid m (MMPOS_USRPAGE n) E us fs bk)"

definition cat_ok :: "u32 \<Rightarrow> mem \<Rightarrow> bool" where
  "cat_ok cid m \<longleftrightarrow> (\<forall>n\<in>{1..<PAGE_CNT}. \<not> is_bit m SYSPAGE_ERR n \<longrightarrow> page_inv cid m n)"

definition used_in :: "u32 \<Rightarrow> mem \<Rightarrow> nat \<Rightarrow> nat set" where
  "used_in cid m n = {off. \<exists>E us fs bk. page_ok cid m (MMPOS_USRPAGE n) E us fs bk \<and> off \<in> set us}"

definition live :: "u32 \<Rightarrow> mem \<Rightarrow> blk set" where
  "live cid m = {(n, off). 1 \<le> n \<and> n < PAGE_CNT \<and> \<not> is_bit m SYSPAGE_ERR n \<and> off \<in> used_in cid m n}"

text \<open>The user's bytes of a block.\<close>

definition user_addr :: "blk \<Rightarrow> nat" where
  "user_addr b = MMPOS_USRPAGE (fst b) + snd b + SIZEOF_HEAD"

definition user_len :: "mem \<Rightarrow> blk \<Rightarrow> nat" where
  "user_len m b = unat (h_len m (MMPOS_USRPAGE (fst b) + snd b)) - MMSIZ_HF_SIZE"

definition block :: "mem \<Rightarrow> blk \<Rightarrow> nat set" where
  "block m b = {user_addr b ..< user_addr b + user_len m b}"

lemma used_in_eq: "page_ok cid m (MMPOS_USRPAGE n) E us fs bk \<Longrightarrow> used_in cid m n = set us"
  unfolding used_in_def using page_ok_unique(1) by blast

lemma is_bit_cong:
  assumes "\<And>i. i < PAGE_SIZE \<Longrightarrow> m' i = m i" "bmp \<le> 10" "n < PAGE_CNT"
  shows "is_bit m' bmp n = is_bit m bmp n"
  unfolding is_bit_def MMPOS_SYSPAGE_BMP_def
proof (rule ISPAGEBIT_cong, rule assms(1))
  have "n div 8 < 128" using assms(3) by simp
  moreover have "bmp * 2048 \<le> 20480" using assms(2) by simp
  ultimately show "bmp * 2048 + n div 8 < PAGE_SIZE" by linarith
qed

lemma page_apart:
  assumes "k \<noteq> n" "i < MMPOS_USRPAGE k + PAGE_SIZE" "MMPOS_USRPAGE k \<le> i"
  shows "i < MMPOS_USRPAGE n \<or> MMPOS_USRPAGE n + PAGE_SIZE \<le> i"
proof -
  consider "k + 1 \<le> n" | "n + 1 \<le> k" using assms(1) by linarith
  then show ?thesis using assms(2,3) unfolding MMPOS_USRPAGE_def by cases linarith+
qed

text \<open>An item of a page lies within it.\<close>

lemma item_bounds:
  assumes "page_ok cid m P E us fs bk" "a \<in> set (us @ fs)"
  shows "168 \<le> a" "a + E a \<le> 131016" "36 \<le> E a" "unat (h_len m (P + a)) = E a" "a \<notin> roots"
proof -
  note d = page_okD [OF assms(1)]
  have "168 \<le> a \<and> a + E a \<le> bk \<and> 36 \<le> E a" "bk \<le> 131016"
    using d(1) assms(2) unfolding geometry_def by blast+
  then show "168 \<le> a" "a + E a \<le> 131016" "36 \<le> E a" by auto
  then show "a \<notin> roots" by (auto simp: roots_def)
  show "unat (h_len m (P + a)) = E a" using d(6) assms(2) unfolding feet_ok_def by auto
qed

lemma block_bounds:
  assumes "page_ok cid m (MMPOS_USRPAGE n) E us fs bk" "a \<in> set (us @ fs)"
  shows "block m (n, a) = {MMPOS_USRPAGE n + a + 16 ..< MMPOS_USRPAGE n + a + E a - 16}"
    and "i \<in> block m (n, a) \<Longrightarrow> MMPOS_USRPAGE n \<le> i \<and> i < MMPOS_USRPAGE n + PAGE_SIZE"
proof -
  note b = item_bounds [OF assms]
  show eq: "block m (n, a) = {MMPOS_USRPAGE n + a + 16 ..< MMPOS_USRPAGE n + a + E a - 16}"
    using b(3,4) by (simp add: block_def user_addr_def user_len_def add.assoc)
  show "i \<in> block m (n, a) \<Longrightarrow> MMPOS_USRPAGE n \<le> i \<and> i < MMPOS_USRPAGE n + PAGE_SIZE"
    using b(1-3) unfolding eq atLeastLessThan_iff by arith
qed

lemma blocks_disjoint:
  assumes "page_ok cid m (MMPOS_USRPAGE n) E us fs bk" "a \<in> set (us @ fs)" "b \<in> set (us @ fs)" "a \<noteq> b"
  shows "block m (n, a) \<inter> block m (n, b) = {}"
proof -
  have "far E (parts (us @ fs) bk)" using page_okD(1) [OF assms(1)] unfolding geometry_def by blast
  then have "a + E a \<le> b \<or> b + E b \<le> a"
    using assms(2-4) unfolding far_def parts_def by blast
  moreover have "36 \<le> E a" "36 \<le> E b" using item_bounds(3) [OF assms(1)] assms(2,3) by blast+
  ultimately show ?thesis
    unfolding block_bounds(1) [OF assms(1,2)] block_bounds(1) [OF assms(1,3)] by auto
qed

section \<open>A step on one page\<close>

lemma page_step:
  assumes c: "cat_ok cid m" and n: "n \<in> {1..<PAGE_CNT}" "\<not> is_bit m SYSPAGE_ERR n"
    and p: "page_ok cid m (MMPOS_USRPAGE n) E us fs bk" and p': "page_ok cid m' (MMPOS_USRPAGE n) E' us' fs' bk'"
    and k: "kept E (parts (us @ fs) bk) (MMPOS_USRPAGE n) m m'"
    and e: "\<forall>a\<in>set (us @ fs). E' a = E a \<and> a \<in> set (us' @ fs')"
  shows "cat_ok cid m'"
    and "live cid m' = {b \<in> live cid m. fst b \<noteq> n} \<union> {n} \<times> set us'"
    and "live cid m \<inter> {n} \<times> UNIV = {n} \<times> set us"
    and "\<And>b. b \<in> live cid m \<union> {n} \<times> set fs \<Longrightarrow>
      block m' b = block m b \<and> (\<forall>i\<in>block m b. m' i = m i)"
    and "\<And>bmp j. bmp \<le> 10 \<Longrightarrow> j < PAGE_CNT \<Longrightarrow> is_bit m' bmp j = is_bit m bmp j"
proof -
  have out: "m' i = m i" if "i < MMPOS_USRPAGE n \<or> MMPOS_USRPAGE n + PAGE_SIZE \<le> i" for i
    using k that unfolding kept_def by blast
  have "PAGE_SIZE \<le> MMPOS_USRPAGE n" using n(1) by (simp add: MMPOS_USRPAGE_def)
  then show bit: "is_bit m' bmp j = is_bit m bmp j" if "bmp \<le> 10" "j < PAGE_CNT" for bmp j
    using that by (intro is_bit_cong out) auto
  have other: "page_ok cid m' (MMPOS_USRPAGE j) F vs gs b" if "j \<noteq> n" "page_ok cid m (MMPOS_USRPAGE j) F vs gs b" for j F vs gs b
    using page_apart [OF that(1)] by (intro page_ok_cong [OF out that(2)]) blast
  have other': "page_ok cid m (MMPOS_USRPAGE j) F vs gs b" if "j \<noteq> n" "page_ok cid m' (MMPOS_USRPAGE j) F vs gs b" for j F vs gs b
    using page_apart [OF that(1)] by (intro page_ok_cong [OF out [symmetric] that(2)]) blast
  show "cat_ok cid m'"
    unfolding cat_ok_def
  proof (intro ballI impI)
    fix j
    assume j: "j \<in> {1..<PAGE_CNT}" "\<not> is_bit m' SYSPAGE_ERR j"
    show "page_inv cid m' j"
    proof (cases "j = n")
      case False
      have "\<not> is_bit m SYSPAGE_ERR j" using j bit [of SYSPAGE_ERR j] by simp
      then have "page_inv cid m j" using c j(1) by (simp add: cat_ok_def)
      then show ?thesis using other [OF False] unfolding page_inv_def by blast
    qed (use p' in \<open>auto simp: page_inv_def\<close>)
  qed
  have ue: "used_in cid m' j = used_in cid m j" if "j \<noteq> n" for j
    unfolding used_in_def using other [OF that] other' [OF that] by blast
  show "live cid m' = {b \<in> live cid m. fst b \<noteq> n} \<union> {n} \<times> set us'"
  proof (rule set_eqI)
    fix b
    show "b \<in> live cid m' \<longleftrightarrow> b \<in> {b \<in> live cid m. fst b \<noteq> n} \<union> {n} \<times> set us'"
      using n bit [of SYSPAGE_ERR "fst b"] used_in_eq [OF p'] ue [of "fst b"]
      by (cases b; cases "fst b = n") (auto simp: live_def)
  qed
  show "live cid m \<inter> {n} \<times> UNIV = {n} \<times> set us"
    using n used_in_eq [OF p] by (auto simp: live_def)
  show "block m' b = block m b \<and> (\<forall>i\<in>block m b. m' i = m i)" if "b \<in> live cid m \<union> {n} \<times> set fs" for b
  proof -
    obtain j a where b: "b = (j, a)" by (cases b)
    show ?thesis
    proof (cases "j = n")
      case True
      then have a: "a \<in> set (us @ fs)" using that used_in_eq [OF p] b by (auto simp: live_def)
      then have a': "a \<in> set (us' @ fs')" "E' a = E a" using e by auto
      have "m' i = m i" if "i \<in> block m (n, a)" for i
      proof -
        define l where "l = i - MMPOS_USRPAGE n - a"
        have "MMPOS_USRPAGE n + a + 16 \<le> i \<and> i < MMPOS_USRPAGE n + a + E a - 16"
          using that unfolding block_bounds(1) [OF p a] atLeastLessThan_iff .
        then have l: "16 \<le> l" "l < E a" "i = MMPOS_USRPAGE n + a + l"
          unfolding l_def by arith+
        have "a \<in> parts (us @ fs) bk" using a by (simp add: parts_def)
        then show ?thesis
          using k l item_bounds(5) [OF p a] unfolding kept_def by simp
      qed
      then show ?thesis
        using b True block_bounds(1) [OF p a] block_bounds(1) [OF p' a'(1)] a'(2) by simp
    next
      case False
      then have "a \<in> used_in cid m j" using that b by (auto simp: live_def)
      then obtain F vs gs bb where q: "page_ok cid m (MMPOS_USRPAGE j) F vs gs bb" "a \<in> set (vs @ gs)"
        by (auto simp: used_in_def)
      note q' = other [OF False q(1)]
      have "m' i = m i" if "i \<in> block m (j, a)" for i
        using block_bounds(2) [OF q that] page_apart [OF False] by (intro out) blast
      then show ?thesis
        using b block_bounds(1) [OF q] block_bounds(1) [OF q' q(2)] by simp
    qed
  qed
qed

section \<open>Allocation\<close>

text \<open>
  A new block: it was not in use, no block in use overlaps it, and the blocks in use keep their
  place and their bytes.
\<close>

definition alloc_effect :: "u32 \<Rightarrow> nat \<Rightarrow> mem \<Rightarrow> blk \<Rightarrow> mem \<Rightarrow> bool" where
  "alloc_effect cid al m a m' \<longleftrightarrow>
     cat_ok cid m' \<and> a \<notin> live cid m \<and> live cid m' = insert a (live cid m) \<and> al \<le> user_len m' a \<and>
     (\<forall>b\<in>live cid m. block m' b = block m b \<and> block m b \<inter> block m' a = {} \<and> (\<forall>i\<in>block m b. m' i = m i)) \<and>
     (\<forall>bmp\<le>10. \<forall>j<PAGE_CNT. is_bit m' bmp j = is_bit m bmp j)"

lemma page_alloc_effect:
  assumes c: "cat_ok cid m" and n: "n \<in> {1..<PAGE_CNT}" "\<not> is_bit m SYSPAGE_ERR n"
    and p: "page_ok cid m (MMPOS_USRPAGE n) E us fs bk"
    and p': "page_ok cid m' (MMPOS_USRPAGE n) E' (us @ [off]) fs' bk'"
    and k: "kept E (parts (us @ fs) bk) (MMPOS_USRPAGE n) m m'"
    and e: "\<forall>a\<in>set (us @ fs). E' a = E a \<and> a \<in> set ((us @ [off]) @ fs')"
    and al: "al + 32 \<le> E' off"
  shows "alloc_effect cid al m (n, off) m'"
proof -
  note st = page_step [OF c n p p' k e]
  have "distinct ((us @ [off]) @ fs')" using page_okD(1) [OF p'] unfolding geometry_def by blast
  then have "off \<notin> set us" by auto
  then have new: "(n, off) \<notin> live cid m" using st(3) by blast
  have "{b \<in> live cid m. fst b \<noteq> n} \<union> {n} \<times> set us = live cid m"
  proof (rule set_eqI)
    fix b
    show "b \<in> {b \<in> live cid m. fst b \<noteq> n} \<union> {n} \<times> set us \<longleftrightarrow> b \<in> live cid m"
      using eqset_imp_iff [OF st(3), of b] by (cases b; cases "fst b = n") auto
  qed
  moreover have "{n} \<times> set (us @ [off]) = insert (n, off) ({n} \<times> set us)" by auto
  ultimately have "live cid m' = insert (n, off) (live cid m)"
    unfolding st(2) by (simp only: Un_insert_right)
  moreover have "al \<le> user_len m' (n, off)"
    using item_bounds(4) [OF p', of off] al by (simp add: user_len_def)
  moreover have "block m b \<inter> block m' (n, off) = {}" if b: "b \<in> live cid m" for b
  proof -
    obtain j a where ja: "b = (j, a)" by (cases b)
    have eq: "block m b = block m' b" using st(4) b by blast
    show ?thesis
    proof (cases "j = n")
      case True
      then have "a \<in> set us" using st(3) b ja by blast
      then have "block m' (n, a) \<inter> block m' (n, off) = {}"
        using \<open>off \<notin> set us\<close> by (intro blocks_disjoint [OF p']) auto
      then show ?thesis using eq ja True by simp
    next
      case False
      have "a \<in> used_in cid m j" using b ja by (simp add: live_def)
      then obtain F vs gs bb where q: "page_ok cid m (MMPOS_USRPAGE j) F vs gs bb" "a \<in> set (vs @ gs)"
        by (auto simp: used_in_def)
      have off: "off \<in> set ((us @ [off]) @ fs')" by simp
      show ?thesis
        using block_bounds(2) [OF q] block_bounds(2) [OF p' off] page_apart [OF False]
        unfolding ja by (fastforce simp: disjoint_iff)
    qed
  qed
  ultimately show ?thesis
    unfolding alloc_effect_def using st(1,4,5) new by blast
qed

lemma alloc_from_page_ok:
  assumes c: "cat_ok cid m" and n: "n \<in> {1..<PAGE_CNT}" and al: "4 \<le> al"
    and a: "alloc_from_page now cid al (dc, free) n m = (r, m')"
  shows "r = None \<and> m' = m \<or> (\<exists>off. r = Some (Some (n, off)) \<and> alloc_effect cid al m (n, off) m')"
proof (cases "is_bit m SYSPAGE_ERR n")
  case True
  then show ?thesis using a by (simp add: alloc_from_page_def Let_def)
next
  case False
  then obtain E us fs bk where p: "page_ok cid m (MMPOS_USRPAGE n) E us fs bk"
    using c n by (auto simp: cat_ok_def page_inv_def)
  let ?P = "MMPOS_USRPAGE n"
  obtain o1 m1 where r1: "(if is_bit m free n then operate_recycle ?P al m else (0, m)) = (o1, m1)"
    by (metis surj_pair)
  show ?thesis
  proof (cases "o1 = 0")
    case o1: False
    then have "operate_recycle ?P al m = (o1, m1)" using r1 by (auto split: if_splits)
    from operate_recycle_ok [OF p this] o1
    have o: "o1 \<in> set fs" "al + 32 \<le> E o1" "page_ok cid m1 ?P E (us @ [o1]) (remove1 o1 fs) bk"
      "kept E (parts (us @ fs) bk) ?P m m1" by auto
    have ef: "alloc_effect cid al m (n, o1) m1"
      by (rule page_alloc_effect [OF c n False p o(3,4) _ o(2)])
         (use o(1) in auto)
    have "o1 + E o1 \<le> 131016" using item_bounds(2) [OF p] o(1) by auto
    then have "r = Some (Some (n, o1))" "m' = m1"
      using a False r1 o1 by (auto simp: alloc_from_page_def Let_def)
    then show ?thesis using ef by blast
  next
    case o1: True
    then have m1: "m1 = m" using r1 operate_recycle_ok [OF p, of al o1 m1] by (auto split: if_splits)
    obtain o2 m2 where r2: "(if is_bit m dc n then operate_insert now cid ?P al m else (0, m)) = (o2, m2)"
      by (metis surj_pair)
    show ?thesis
    proof (cases "o2 = 0")
      case o2: False
      then have oi: "operate_insert now cid ?P al m = (o2, m2)" using r2 by (auto split: if_splits)
      then have room: "al + 32 \<le> 131016 - bk"
        using operate_insert_eq [OF p al, of now] o2 by (auto split: if_splits)
      note ins = insert_page_ok [OF p al room oi]
      have low: "a < bk" if "a \<in> set (us @ fs)" for a
        using geometry_low(2) [OF page_okD(1) [OF p]] that by blast
      have ef: "alloc_effect cid al m (n, bk) m2"
        by (rule page_alloc_effect [OF c n False p ins(2,3)]) (use low in auto)
      have "bk \<le> 131016" using page_okD(1) [OF p] unfolding geometry_def by blast
      then have "r = Some (Some (n, bk))" "m' = m2"
        using a False r1 o1 m1 r2 o2 ins(1) by (auto simp: alloc_from_page_def Let_def)
      then show ?thesis using ef by blast
    next
      case o2: True
      then have "m2 = m" using r2 operate_insert_eq [OF p al, of now] page_okD(1) [OF p]
        by (auto split: if_splits simp: geometry_def)
      then show ?thesis using a False r1 o1 m1 r2 o2 by (simp add: alloc_from_page_def Let_def)
    qed
  qed
qed

lemma alloc_scan_ok:
  assumes "cat_ok cid m" "4 \<le> al" "\<forall>(bmps, n)\<in>set rs. n \<in> {1..<PAGE_CNT}"
    and "alloc_scan now cid al rs m = (r, m')"
  shows "case r of None \<Rightarrow> m' = m | Some a \<Rightarrow> alloc_effect cid al m a m'"
  using assms(3,4)
proof (induction rs)
  case (Cons q rs)
  obtain dc free n where q: "q = ((dc, free), n)" by (metis surj_pair)
  obtain r1 m1 where r1: "alloc_from_page now cid al (dc, free) n m = (r1, m1)" by (metis surj_pair)
  have n: "n \<in> {1..<PAGE_CNT}" using Cons.prems(1) q by auto
  from alloc_from_page_ok [OF assms(1) n assms(2) r1] show ?case
    using Cons q r1 by auto
qed simp

lemma align4_ge: "sz \<le> align4 sz" "0 < sz \<Longrightarrow> 4 \<le> align4 sz" "align4 sz mod 4 = 0"
  unfolding align4_def by presburger+

lemma shmalloc_ok:
  assumes "cat_ok cid m" "shmalloc now cid sz m = (r, m')"
  shows "case r of None \<Rightarrow> m' = m | Some a \<Rightarrow> alloc_effect cid (align4 sz) m a m'"
proof (cases "sz = 0 \<or> sz > 2048")
  case True
  then show ?thesis using assms(2) by (auto simp: shmalloc_def)
next
  case False
  then have al: "4 \<le> align4 sz" by (simp add: align4_ge(2))
  have *: "alloc_scan now cid (align4 sz)
      [(bmps, n). bmps \<leftarrow> drop (start_bmp_id (align4 sz)) bitmapids, n \<leftarrow> [1..<PAGE_CNT]] m = (r, m')"
    using assms(2) False by (simp add: shmalloc_def)
  show ?thesis by (rule alloc_scan_ok [OF assms(1) al _ *]) auto
qed

section \<open>Release\<close>

definition free_effect :: "u32 \<Rightarrow> mem \<Rightarrow> blk \<Rightarrow> mem \<Rightarrow> bool" where
  "free_effect cid m a m' \<longleftrightarrow>
     cat_ok cid m' \<and> live cid m' = live cid m - {a} \<and>
     (\<forall>b\<in>live cid m. block m' b = block m b \<and> (\<forall>i\<in>block m b. m' i = m i)) \<and>
     h_signature m' (user_addr a - SIZEOF_HEAD) = MMSIG_FREE \<and>
     (\<forall>bmp\<le>10. \<forall>j<PAGE_CNT. is_bit m' bmp j = is_bit m bmp j)"

lemma page_free_effect:
  assumes c: "cat_ok cid m" and n: "n \<in> {1..<PAGE_CNT}" "\<not> is_bit m SYSPAGE_ERR n"
    and p: "page_ok cid m (MMPOS_USRPAGE n) E us fs bk" and x: "x \<in> set us"
  shows "free_effect cid m (n, x) (link_last (MMPOS_USRPAGE n) MMPOS_FREE_ROOT MMSIG_FREE x
    (unlink_item (MMPOS_USRPAGE n) MMPOS_USED_ROOT x m))" (is "free_effect cid m (n, x) ?m'")
proof -
  obtain xs ys where us: "us = xs @ x # ys" using x by (meson split_list)
  note f = free_page_ok [OF p [unfolded us]]
  have "\<forall>a\<in>set (us @ fs). E a = E a \<and> a \<in> set ((xs @ ys) @ fs @ [x])" by (auto simp: us)
  note st = page_step [OF c n p f(1) f(2) [folded us] this]
  have "distinct (us @ fs)" using page_okD(1) [OF p] unfolding geometry_def by blast
  then have sx: "set (xs @ ys) = set us - {x}" by (auto simp: us)
  have l: "live cid ?m' = live cid m - {(n, x)}"
    unfolding st(2) sx
  proof (rule set_eqI)
    fix b
    show "b \<in> {b \<in> live cid m. fst b \<noteq> n} \<union> {n} \<times> (set us - {x}) \<longleftrightarrow> b \<in> live cid m - {(n, x)}"
      using eqset_imp_iff [OF st(3), of b] by (cases b; cases "fst b = n") auto
  qed
  have "h_signature ?m' (MMPOS_USRPAGE n + x) = MMSIG_FREE"
    using page_okD(3) [OF f(1)] unfolding list_ok_def by simp
  then have sg: "h_signature ?m' (user_addr (n, x) - SIZEOF_HEAD) = MMSIG_FREE"
    by (simp add: user_addr_def)
  show ?thesis
    unfolding free_effect_def using st(1,4,5) l sg by blast
qed

lemma free_scan_ok:
  assumes c: "cat_ok cid m" and ns: "set ns \<subseteq> {1..<PAGE_CNT}"
    and h: "\<forall>n\<in>set ns. h \<noteq> MMPOS_USRPAGE n"
  shows "(\<exists>n x. n \<in> set ns \<and> h = MMPOS_USRPAGE n + x \<and> (n, x) \<in> live cid m \<and> free_effect cid m (n, x) (free_scan h ns m)) \<or>
    (\<forall>n\<in>set ns. \<forall>x. (n, x) \<in> live cid m \<longrightarrow> h \<noteq> MMPOS_USRPAGE n + x) \<and> free_scan h ns m = m"
  using ns h
proof (induction ns)
  case (Cons n ns)
  have n: "n \<in> {1..<PAGE_CNT}" using Cons.prems by simp
  show ?case
  proof (cases "is_bit m SYSPAGE_ERR n")
    case True
    then have "free_scan h (n # ns) m = free_scan h ns m" "\<forall>x. (n, x) \<notin> live cid m"
      by (simp_all add: Let_def live_def)
    then show ?thesis using Cons by auto
  next
    case False
    then obtain E us fs bk where p: "page_ok cid m (MMPOS_USRPAGE n) E us fs bk"
      using c n by (auto simp: cat_ok_def page_inv_def)
    have lv: "(n, x) \<in> live cid m \<longleftrightarrow> x \<in> set us" for x
      using n False used_in_eq [OF p] by (auto simp: live_def)
    let ?hit = "\<lambda>offset. MMPOS_USRPAGE n + offset = h"
    have nr: "\<not> ?hit MMPOS_USED_ROOT" using Cons.prems(2) by simp
    have fi: "find_item MMSIG_USED (MMPOS_MIN_OFST + 1) ?hit m (MMPOS_USRPAGE n) 0 MMPOS_USED_ROOT
        (MMPOS_USRPAGE n + MMPOS_USED_ROOT + MMPOS_ROOT_FOOT) = find ?hit (MMPOS_USED_ROOT # us)"
      by (rule find_item_page(1) [OF p]) simp
    show ?thesis
    proof (cases "find ?hit (MMPOS_USED_ROOT # us)")
      case (Some x)
      from find_split [OF Some nr] obtain ys zs where "us = ys @ x # zs" and hx: "?hit x" .
      then have xu: "x \<in> set us" by (simp only: in_set_conv_decomp) blast
      have "free_scan h (n # ns) m = link_last (MMPOS_USRPAGE n) MMPOS_FREE_ROOT MMSIG_FREE x
          (unlink_item (MMPOS_USRPAGE n) MMPOS_USED_ROOT x m)"
        unfolding free_scan.simps Let_def fi Some using False by (simp only: if_False option.case)
      then have "free_effect cid m (n, x) (free_scan h (n # ns) m)"
        using page_free_effect [OF c n False p xu] by (simp only:)
      moreover have "(n, x) \<in> live cid m" using lv xu by blast
      moreover have "n \<in> set (n # ns)" by simp
      ultimately show ?thesis using hx by metis
    next
      case None
      have eq: "free_scan h (n # ns) m = free_scan h ns m"
        unfolding free_scan.simps Let_def fi None using False by (simp only: if_False option.case)
      have "\<forall>x\<in>set us. \<not> ?hit x" using None nr by (simp add: find_None_iff)
      then have no: "\<forall>x. (n, x) \<in> live cid m \<longrightarrow> h \<noteq> MMPOS_USRPAGE n + x" using lv by auto
      have "set ns \<subseteq> {1..<PAGE_CNT}" "\<forall>n\<in>set ns. h \<noteq> MMPOS_USRPAGE n" using Cons.prems by simp_all
      from Cons.IH [OF this] show ?thesis unfolding eq using no by (auto simp del: free_scan.simps)
    qed
  qed
qed simp

text \<open>A live block's item is what \<open>shmfree\<close> checks for.\<close>

lemma live_item:
  assumes a: "a \<in> live cid m"
  shows "let h = user_addr a - SIZEOF_HEAD; f = foot_of m h in
    h_signature m h = MMSIG_USED \<and> 36 \<le> unat (h_len m h) \<and> f_suffix m f = MMSIG_SUFX \<and>
    f_category_id m f = cid"
    and "fst a \<in> {1..<PAGE_CNT}" "168 \<le> snd a" "snd a < PAGE_SIZE"
    and "\<And>n. user_addr a - SIZEOF_HEAD \<noteq> MMPOS_USRPAGE n"
proof -
  obtain n x where nx: "a = (n, x)" by (cases a)
  have "x \<in> used_in cid m n" and n: "n \<in> {1..<PAGE_CNT}" using a nx by (auto simp: live_def)
  then obtain E us fs bk where p: "page_ok cid m (MMPOS_USRPAGE n) E us fs bk" and x: "x \<in> set us"
    by (auto simp: used_in_def)
  have x': "x \<in> set (us @ fs)" using x by simp
  note b = item_bounds [OF p x']
  show "fst a \<in> {1..<PAGE_CNT}" "168 \<le> snd a" "snd a < PAGE_SIZE" using n nx b(1-3) by auto
  show "user_addr a - SIZEOF_HEAD \<noteq> MMPOS_USRPAGE k" for k
  proof -
    have x: "x < PAGE_SIZE" "0 < x" using b(1-3) by auto
    consider "k \<le> n" | "n + 1 \<le> k" by linarith
    then have "n * PAGE_SIZE + x \<noteq> k * PAGE_SIZE" by cases (use x in linarith)+
    then show ?thesis by (simp add: user_addr_def nx MMPOS_USRPAGE_def)
  qed
  let ?h = "MMPOS_USRPAGE n + x"
  have h: "user_addr a - SIZEOF_HEAD = ?h" by (simp add: user_addr_def nx)
  have "foot_of m ?h + 4 = ?h + (E x - 12)" "foot_of m ?h + 8 = ?h + (E x - 8)"
    using b(3,4) by (simp_all add: foot_of_def)
  moreover have "ld32 m (?h + (E x - 12)) = MMSIG_SUFX" "ld32 m (?h + (E x - 8)) = cid"
    using page_okD(6) [OF p] x b(5) unfolding feet_ok_def by auto
  moreover have "h_signature m ?h = MMSIG_USED"
    using page_okD(2) [OF p] x unfolding list_ok_def by simp
  ultimately show "let h = user_addr a - SIZEOF_HEAD; f = foot_of m h in
    h_signature m h = MMSIG_USED \<and> 36 \<le> unat (h_len m h) \<and> f_suffix m f = MMSIG_SUFX \<and>
    f_category_id m f = cid"
    using b(3,4) unfolding h Let_def f_suffix_def f_category_id_def by simp
qed

lemma page_of_unique:
  fixes x y :: nat
  assumes "x < PAGE_SIZE" "y < PAGE_SIZE" "MMPOS_USRPAGE n + x = MMPOS_USRPAGE k + y"
  shows "n = k" "x = y"
proof -
  note eq = assms(3) [unfolded MMPOS_USRPAGE_def]
  consider "n = k" | "n + 1 \<le> k" | "k + 1 \<le> n" by linarith
  then show "n = k" by cases (use assms(1,2) eq in linarith)+
  then show "x = y" using assms(3) by simp
qed

lemma shmfree_live:
  assumes c: "cat_ok cid m" and a: "a \<in> live cid m"
  shows "free_effect cid m a (shmfree cid (user_addr a) m)"
proof -
  note li = live_item [OF a]
  let ?h = "user_addr a - SIZEOF_HEAD"
  have eq: "shmfree cid (user_addr a) m = free_scan ?h [1..<PAGE_CNT] m"
  proof -
    have "MMPOS_BCKT_INIT + SIZEOF_HEAD \<le> user_addr a" using li(3) by (simp add: user_addr_def)
    moreover have "0 < unat (h_len m ?h)" "\<not> unat (h_len m ?h) \<le> MMPOS_MIN_OFST" using li(1) by (simp_all add: Let_def)
    moreover from this(1) have "h_len m ?h \<noteq> 0" by auto
    ultimately show ?thesis using li(1) by (simp add: shmfree_def Let_def)
  qed
  have h: "?h = MMPOS_USRPAGE (fst a) + snd a" by (simp add: user_addr_def)
  have "set [1..<PAGE_CNT] \<subseteq> {1..<PAGE_CNT}" "\<forall>n\<in>set [1..<PAGE_CNT]. ?h \<noteq> MMPOS_USRPAGE n"
    using li(5) by (simp_all only: set_upt subset_refl) blast
  note fs = free_scan_ok [OF c this]
  consider n x where "?h = MMPOS_USRPAGE n + x" "(n, x) \<in> live cid m" "free_effect cid m (n, x) (free_scan ?h [1..<PAGE_CNT] m)"
    | "\<forall>n\<in>{1..<PAGE_CNT}. \<forall>x. (n, x) \<in> live cid m \<longrightarrow> ?h \<noteq> MMPOS_USRPAGE n + x"
    using fs unfolding set_upt by blast
  then show ?thesis
  proof cases
    case 1
    have "x < PAGE_SIZE" using live_item(4) [OF 1(2)] by simp
    from page_of_unique [OF this li(4) trans [OF 1(1) [symmetric] h]]
    have "(n, x) = a" by (cases a) simp
    then show ?thesis using 1(3) eq by simp
  next
    case 2
    then have "?h \<noteq> MMPOS_USRPAGE (fst a) + snd a" using li(2) a by (metis prod.collapse)
    then show ?thesis using h by simp
  qed
qed

end
