(* ===== verification/Smmr_Rebuild.thy ===== *)
theory Smmr_Rebuild
  imports Smmr_Heap
begin

text \<open>
  Rebuilding the bitmaps and summaries of the pages (\<open>_rebuild_bitmap_and_pagesummary\<close>,
  \<open>_shrink_backet_recycle\<close>, \<open>rebuild_pages_area\<close>, \<open>rebuild_page_statics\<close> and
  \<open>merge_page_to_category\<close> of \<open>smmr_memory.c\<close>). It is run when the daemon opens the category
  files: an empty file is formatted, and a file of an earlier run keeps every block in use with
  its bytes.
\<close>

section \<open>Model\<close>

text \<open>\<open>struct mempage_system\<close> at the start of the category.\<close>

definition sys_free_size :: "mem \<Rightarrow> u32" where "sys_free_size m = ld32 m 12"
definition sys_free_cnt :: "mem \<Rightarrow> u32" where "sys_free_cnt m = ld32 m 16"
definition sys_use_size :: "mem \<Rightarrow> u32" where "sys_use_size m = ld32 m 20"
definition sys_use_cnt :: "mem \<Rightarrow> u32" where "sys_use_cnt m = ld32 m 24"

definition reset_sys_summary :: "mem \<Rightarrow> mem" where
  "reset_sys_summary m = st32 24 0 (st32 20 0 (st32 16 0 (st32 12 0 m)))"

definition init_sys :: "nat \<Rightarrow> nat \<Rightarrow> mem \<Rightarrow> mem" where
  "init_sys idx filesize m =
     reset_sys_summary (st32 8 (of_nat filesize) (st32 4 (of_nat PAGE_SIZE) (st32 0 (of_nat idx) m)))"

text \<open>Formatting the head, the detail record and the foot of a root.\<close>

definition init_root ::
  "u32 \<Rightarrow> u32 \<Rightarrow> u32 \<Rightarrow> u32 \<Rightarrow> u32 \<Rightarrow> nat \<Rightarrow> mem \<Rightarrow> mem" where
  "init_root now sig nxt first_offset last_offset a m =
     (let m = set_len a (of_nat MMPOS_ROOT_SIZE) (set_next a nxt (set_prev a 0 (set_signature a sig m)));
          m = set_last a last_offset (set_first a first_offset m);
          m = set_free_cnt a 0 (set_free_size a 0 (set_use_cnt a 0 (set_use_size a 0 m)));
          foot = a + MMPOS_ROOT_FOOT
      in set_suffix foot MMSIG_SUFX (set_created foot now m))"

definition shrink_backet_recycle :: "u32 \<Rightarrow> nat \<Rightarrow> mem \<Rightarrow> mem" where
  "shrink_backet_recycle now pageid m =
     (let page = MMPOS_USRPAGE pageid;
          m = fold (\<lambda>b. bit_on b pageid) [DC_032, DC_128, DC_512, DC_2K] m;
          m = fold (\<lambda>b. bit_off b pageid) [FREE_000, FREE_032, FREE_128, FREE_512, FREE_2K] m;
          m = init_root now MMSIG_FREE MMFLG_CLOSE (of_nat MMPOS_FREE_ROOT) (of_nat MMPOS_FREE_ROOT)
                (page + MMPOS_FREE_ROOT) m;
          m = init_root now MMSIG_BCKT (of_nat MMPOS_BCKT_INIT) (of_nat MMPOS_BCKT_ROOT)
                (of_nat MMPOS_BCKT_INIT) (page + MMPOS_BCKT_ROOT) m;
          bckt = page + MMPOS_BCKT_INIT;
          m = set_len bckt (of_nat MMSIZ_BCKT_INIT_SIZE) (set_next bckt MMFLG_CLOSE
                (set_prev bckt (of_nat MMPOS_BCKT_ROOT) (set_signature bckt MMSIG_BCKT m)));
          foot = bckt + MMSIZ_BCKT_INIT_SIZE - SIZEOF_FOOT
      in set_suffix foot MMSIG_SUFX (set_created foot now m))"

definition free_bits :: "u32 \<Rightarrow> nat list" where
  "free_bits remain_size =
     (if remain_size > 0x0800 then [FREE_000, FREE_032, FREE_128, FREE_512, FREE_2K]
      else if remain_size > 0x0200 then [FREE_000, FREE_032, FREE_128, FREE_512]
      else if remain_size > 0x0080 then [FREE_000, FREE_032, FREE_128]
      else if remain_size > 0x0020 then [FREE_000, FREE_032]
      else [FREE_000])"

definition dc_bits :: "u32 \<Rightarrow> nat list" where
  "dc_bits remain_size =
     (if remain_size > 0x0800 then [DC_032, DC_128, DC_512, DC_2K]
      else if remain_size > 0x0200 then [DC_032, DC_128, DC_512]
      else if remain_size > 0x0080 then [DC_032, DC_128]
      else if remain_size > 0x0020 then [DC_032]
      else [])"

definition visit_recycle :: "nat \<Rightarrow> nat \<Rightarrow> mem \<times> u32 \<times> u32 \<Rightarrow> mem \<times> u32 \<times> u32" where
  "visit_recycle pageid offset = (\<lambda>(m, cnt, size).
     (let len = h_len m (MMPOS_USRPAGE pageid + offset) in
      if unat len > MMPOS_MIN_OFST \<and> offset \<noteq> MMPOS_FREE_ROOT
      then (fold (\<lambda>b. bit_on b pageid) (free_bits (len - of_nat MMPOS_MIN_OFST)) m, cnt + 1, size + len)
      else (m, cnt, size)))"

definition visit_used :: "nat \<Rightarrow> nat \<Rightarrow> mem \<times> u32 \<times> u32 \<Rightarrow> mem \<times> u32 \<times> u32" where
  "visit_used pageid offset = (\<lambda>(m, cnt, size).
     (let len = h_len m (MMPOS_USRPAGE pageid + offset) in
      if unat len > MMPOS_MIN_OFST \<and> offset \<noteq> MMPOS_USED_ROOT then (m, cnt + 1, size + len)
      else (m, cnt, size)))"

text \<open>The result of the C function and the new memory.\<close>

definition rebuild_bitmap_and_pagesummary :: "u32 \<Rightarrow> nat \<Rightarrow> bool \<Rightarrow> mem \<Rightarrow> int \<times> mem" where
  "rebuild_bitmap_and_pagesummary now pageid only_dc m =
     (if pageid < 1 \<or> pageid \<ge> PAGE_CNT then (RET_NG, m)
      else
        let page = MMPOS_USRPAGE pageid;
            m = fold (\<lambda>b. bit_off b pageid) [DC_032, DC_128, DC_512, DC_2K] m;
            m = (if only_dc then m
                 else fold (\<lambda>b. bit_off b pageid) [FREE_000, FREE_032, FREE_128, FREE_512, FREE_2K] m);
            (valid, m, recycle_cnt, recycle_size) =
              (if only_dc then (True, m, 0, 0)
               else fold_items MMSIG_FREE (visit_recycle pageid) page 0 MMPOS_FREE_ROOT
                      (page + MMPOS_FREE_ROOT + MMPOS_ROOT_FOOT) (m, 0, 0))
        in if \<not> valid then (RET_NG, m)
        else
          let (valid, m, used_cnt, used_size) =
                fold_items MMSIG_USED (visit_used pageid) page 0 MMPOS_USED_ROOT
                  (page + MMPOS_USED_ROOT + MMPOS_ROOT_FOOT) (m, 0, 0)
          in if \<not> valid then (RET_NG, m)
          else
            let remain_size = of_nat (PAGE_SIZE - MMSIZ_ALL_ROOT) - used_size - used_cnt * of_nat MMSIZ_HF_SIZE;
                m = fold (\<lambda>b. bit_on b pageid) (dc_bits remain_size) m;
                m = set_use_cnt (page + MMPOS_USED_ROOT) used_cnt (set_use_size (page + MMPOS_USED_ROOT) used_size m);
                m = (if only_dc then m
                     else set_free_cnt (page + MMPOS_FREE_ROOT) recycle_cnt
                            (set_free_size (page + MMPOS_FREE_ROOT) recycle_size m));
                m = (if \<not> only_dc \<and> used_size = 0 then shrink_backet_recycle now pageid m else m)
            in (RET_OK, m))"

text \<open>The check of the three roots of a page that an earlier run has formatted (\<open>RET_MOREDATA\<close>).\<close>

definition roots_valid :: "mem \<Rightarrow> nat \<Rightarrow> bool" where
  "roots_valid m page \<longleftrightarrow>
     (\<forall>(root, sig) \<in> {(MMPOS_USED_ROOT, MMSIG_USED), (MMPOS_FREE_ROOT, MMSIG_FREE), (MMPOS_BCKT_ROOT, MMSIG_BCKT)}.
        h_signature m (page + root) = sig \<and> h_prev m (page + root) = 0 \<and>
        h_len m (page + root) = of_nat MMPOS_ROOT_SIZE \<and>
        f_suffix m (page + root + MMPOS_ROOT_FOOT) = MMSIG_SUFX)"

text \<open>The tail of a round: rebuild, set or clear the error bit, add the page to the category's sums.\<close>

definition add_sys_use :: "nat \<Rightarrow> mem \<Rightarrow> mem" where
  "add_sys_use page m =
     st32 24 (sys_use_cnt m + r_use_cnt m (page + MMPOS_USED_ROOT))
       (st32 20 (sys_use_size m + r_use_size m (page + MMPOS_USED_ROOT)) m)"

definition add_sys_free :: "nat \<Rightarrow> mem \<Rightarrow> mem" where
  "add_sys_free page m =
     st32 16 (sys_free_cnt m + r_free_cnt m (page + MMPOS_FREE_ROOT))
       (st32 12 (sys_free_size m + r_free_size m (page + MMPOS_FREE_ROOT)) m)"

definition rebuild_page :: "u32 \<Rightarrow> nat \<Rightarrow> mem \<Rightarrow> mem" where
  "rebuild_page now n m =
     (let page = MMPOS_USRPAGE n;
          fresh = h_signature m (page + MMPOS_USED_ROOT) \<noteq> MMSIG_USED;
          isvalid = (if fresh then RET_OK else if roots_valid m page then RET_MOREDATA else RET_NG);
          m = (if fresh
               then shrink_backet_recycle now n
                      (init_root now MMSIG_USED MMFLG_CLOSE (of_nat MMPOS_USED_ROOT) (of_nat MMPOS_USED_ROOT)
                        (page + MMPOS_USED_ROOT) m)
               else m);
          m = (if isvalid \<noteq> RET_MOREDATA then bit_off SYSPAGE_ERR n m else m);
          m = (if isvalid = RET_OK then fold (\<lambda>b. bit_on b n) [DC_032, DC_128, DC_512, DC_2K] m else m)
      in if isvalid = RET_NG then bit_on SYSPAGE_ERR n m
      else
        let (rc, m) = rebuild_bitmap_and_pagesummary now n False m in
        if rc \<noteq> RET_OK then bit_on SYSPAGE_ERR n m
        else
          let m = bit_off SYSPAGE_ERR n m;
              m = (if r_use_size m (page + MMPOS_USED_ROOT) \<noteq> 0 then add_sys_use page m else m)
          in (if r_free_size m (page + MMPOS_FREE_ROOT) \<noteq> 0 then add_sys_free page m else m))"

text \<open>A category is its file size and its memory; \<open>msync\<close> changes nothing that is modelled.\<close>

definition rebuild_pages_area :: "u32 \<Rightarrow> (nat \<times> mem) list \<Rightarrow> mem list" where
  "rebuild_pages_area now categories =
     map (\<lambda>(idx, filesize, m). fold (rebuild_page now) [1..<PAGE_CNT] (init_sys idx filesize m))
       (enumerate 0 categories)"

definition statics_page :: "u32 \<Rightarrow> nat \<Rightarrow> mem \<Rightarrow> mem" where
  "statics_page now n m =
     (let (rc, m) = rebuild_bitmap_and_pagesummary now n False m in
      if rc \<noteq> RET_OK then bit_on SYSPAGE_ERR n m
      else add_sys_free (MMPOS_USRPAGE n) (add_sys_use (MMPOS_USRPAGE n) (bit_off SYSPAGE_ERR n m)))"

definition rebuild_page_statics :: "u32 \<Rightarrow> mem \<Rightarrow> mem" where
  "rebuild_page_statics now m = fold (statics_page now) [1..<PAGE_CNT] (reset_sys_summary m)"

definition merge_page_to_category :: "u32 \<Rightarrow> mem list \<Rightarrow> mem list" where
  "merge_page_to_category now categories = map (rebuild_page_statics now) categories"

section \<open>Bits and summaries\<close>

lemma bit_outside:
  assumes "b \<le> 10" "n < PAGE_CNT" "PAGE_SIZE \<le> i"
  shows "bit_on b n m i = m i" "bit_off b n m i = m i"
proof -
  have "n div 8 < 128" "b * 2048 \<le> 20480" using assms by auto
  then have "i \<noteq> b * 2048 + n div 8" using assms(3) by linarith
  then show "bit_on b n m i = m i" "bit_off b n m i = m i"
    by (simp_all add: bit_on_def bit_off_def MMPOS_SYSPAGE_BMP_def PAGEBIT_outside)
qed

lemma slot_apart:
  fixes x y b c :: nat
  assumes "x < 128" "y < 128" "b \<noteq> c"
  shows "c * 2048 + y \<noteq> b * 2048 + x"
proof (cases "b < c")
  case True
  then have "(b + 1) * 2048 \<le> c * 2048" by (intro mult_right_mono) simp_all
  then show ?thesis using assms(1) by simp
next
  case False
  then have "(c + 1) * 2048 \<le> b * 2048" using assms(3) by (intro mult_right_mono) simp_all
  then show ?thesis using assms(2) by simp
qed

lemma is_bit_update:
  assumes n: "n < PAGE_CNT" "k < PAGE_CNT"
  shows "is_bit (bit_on b n m) c k \<longleftrightarrow> b = c \<and> n = k \<or> is_bit m c k"
    "is_bit (bit_off b n m) c k \<longleftrightarrow> \<not> (b = c \<and> n = k) \<and> is_bit m c k"
proof -
  have "is_bit (bit_on b n m) c k = is_bit m c k" "is_bit (bit_off b n m) c k = is_bit m c k" if bc: "b \<noteq> c"
  proof -
    have "n div 8 < 128" "k div 8 < 128" using n by auto
    then have ne: "c * 2048 + k div 8 \<noteq> b * 2048 + n div 8" using bc by (rule slot_apart)
    show "is_bit (bit_on b n m) c k = is_bit m c k"
      unfolding is_bit_def bit_on_def MMPOS_SYSPAGE_BMP_def
      by (rule ISPAGEBIT_cong) (rule PAGEBIT_outside(1) [OF ne])
    show "is_bit (bit_off b n m) c k = is_bit m c k"
      unfolding is_bit_def bit_off_def MMPOS_SYSPAGE_BMP_def
      by (rule ISPAGEBIT_cong) (rule PAGEBIT_outside(2) [OF ne])
  qed
  then show "is_bit (bit_on b n m) c k \<longleftrightarrow> b = c \<and> n = k \<or> is_bit m c k"
    "is_bit (bit_off b n m) c k \<longleftrightarrow> \<not> (b = c \<and> n = k) \<and> is_bit m c k"
    by (cases "b = c"; simp add: is_bit_def bit_on_def bit_off_def mem_simps)+
qed

lemma bits_fold:
  assumes "n < PAGE_CNT" "\<forall>b\<in>set bs. b \<le> 10"
  shows "PAGE_SIZE \<le> i \<Longrightarrow> fold (\<lambda>b. bit_on b n) bs m i = m i"
    "PAGE_SIZE \<le> i \<Longrightarrow> fold (\<lambda>b. bit_off b n) bs m i = m i"
    "k < PAGE_CNT \<Longrightarrow> is_bit (fold (\<lambda>b. bit_on b n) bs m) c k \<longleftrightarrow> c \<in> set bs \<and> n = k \<or> is_bit m c k"
    "k < PAGE_CNT \<Longrightarrow> is_bit (fold (\<lambda>b. bit_off b n) bs m) c k \<longleftrightarrow> \<not> (c \<in> set bs \<and> n = k) \<and> is_bit m c k"
  using assms(2) by (induction bs arbitrary: m) (auto simp: bit_outside is_bit_update assms(1))

lemma fold_items_chain:
  assumes "chain (\<lambda>b. h_next m (P + b)) a xs" "PAGE_SIZE \<le> P"
    and "\<And>b. b \<in> set (a # xs) \<Longrightarrow> b < PAGE_SIZE \<and> h_signature m (P + b) = sig \<and>
      MMPOS_MIN_OFST \<le> unat (h_len m (P + b)) \<and> PAGE_SIZE \<le> foot_of m (P + b) \<and>
      f_suffix m (foot_of m (P + b)) = MMSIG_SUFX"
    and "c + length xs \<le> 0xFFFFFFFF" "foot = foot_of m (P + a)"
    and same: "\<forall>i\<ge>PAGE_SIZE. fst ma i = m i"
    and visit: "\<And>b ma i. PAGE_SIZE \<le> i \<Longrightarrow> fst (visit b ma) i = fst ma i"
  shows "fold_items sig visit P c a foot ma = (True, fold visit (a # xs) ma)"
  using assms(1,3-6)
proof (induction xs arbitrary: a c foot ma)
  case Nil
  have w: "ld32 m' b = ld32 m b" if "\<forall>i\<ge>PAGE_SIZE. m' i = m i" "PAGE_SIZE \<le> b" for m' b
    by (rule ld32_cong) (use that in auto)
  have s: "\<forall>i\<ge>PAGE_SIZE. fst ma i = m i" "\<forall>i\<ge>PAGE_SIZE. fst (visit a ma) i = m i"
    using Nil.prems(5) visit by auto
  have "item_valid sig MMPOS_MIN_OFST (fst ma) (P + a) foot"
    using Nil.prems(2) [of a] Nil.prems(4) assms(2) w [OF s(1)]
    by (simp add: item_valid_def h_signature_def h_len_def f_suffix_def)
  moreover have "h_next (fst (visit a ma)) (P + a) = MMFLG_CLOSE"
    using Nil.prems(1) assms(2) w [OF s(2)] by (simp add: h_next_def)
  moreover have "a < PAGE_SIZE" using Nil.prems(2) by simp
  ultimately show ?case by (simp add: fold_items.simps [of sig visit P c a foot ma] Let_def)
next
  case (Cons x xs)
  have w: "ld32 m' b = ld32 m b" if "\<forall>i\<ge>PAGE_SIZE. m' i = m i" "PAGE_SIZE \<le> b" for m' b
    by (rule ld32_cong) (use that in auto)
  have s: "\<forall>i\<ge>PAGE_SIZE. fst ma i = m i" "\<forall>i\<ge>PAGE_SIZE. fst (visit a ma) i = m i"
    using Cons.prems(5) visit by auto
  have v: "item_valid sig MMPOS_MIN_OFST (fst ma) (P + a) foot"
    using Cons.prems(2) [of a] Cons.prems(4) assms(2) w [OF s(1)]
    by (simp add: item_valid_def h_signature_def h_len_def f_suffix_def)
  have nx: "h_next (fst (visit a ma)) (P + a) = of_nat x"
    using Cons.prems(1) assms(2) w [OF s(2)] by (simp add: h_next_def)
  have x: "x < PAGE_SIZE" using Cons.prems(2) [of x] by simp
  then have u: "unat (of_nat x :: u32) = x" by (intro unat_of_nat_small) simp
  have nc: "(of_nat x :: u32) \<noteq> MMFLG_CLOSE"
  proof
    assume "(of_nat x :: u32) = MMFLG_CLOSE"
    then have "x = unat MMFLG_CLOSE" using u by metis
    with x show False by simp
  qed
  have ft: "foot_of (fst (visit a ma)) (P + x) = foot_of m (P + x)"
    using assms(2) w [OF s(2)] by (simp add: foot_of_def h_len_def)
  have "fold_items sig visit P (c + 1) x (foot_of (fst (visit a ma)) (P + x)) (visit a ma) =
      (True, fold visit (x # xs) (visit a ma))"
    by (rule Cons.IH) (use Cons.prems ft s(2) in auto)
  moreover have "a < PAGE_SIZE" "\<not> c > 0xFFFFFFFF" using Cons.prems(2) [of a] Cons.prems(3) by simp_all
  ultimately show ?case
    using v nx nc u by (simp add: fold_items.simps [of sig visit P c a foot ma] Let_def)
qed

section \<open>Formatting a page\<close>

lemmas field_updates = set_signature_def set_prev_def set_next_def set_len_def set_created_def
  set_suffix_def set_first_def set_last_def set_free_size_def set_free_cnt_def set_use_size_def
  set_use_cnt_def

lemma init_root_outside:
  "i < a \<or> a + 56 \<le> i \<Longrightarrow> init_root now sig nxt frst lst a m i = m i"
  unfolding init_root_def Let_def field_updates by (elim disjE) (simp_all add: st32_outside)

lemma init_root_fields:
  "ld32 (init_root now sig nxt frst lst a m) a = sig"
  "ld32 (init_root now sig nxt frst lst a m) (a + 8) = nxt"
  "ld32 (init_root now sig nxt frst lst a m) (a + 12) = 56"
  "ld32 (init_root now sig nxt frst lst a m) (a + 20) = lst"
  "ld32 (init_root now sig nxt frst lst a m) (a + 44) = MMSIG_SUFX"
  "ld32 (init_root now sig nxt frst lst a m) (a + 4) = 0"
  unfolding init_root_def Let_def field_updates
  by (simp_all add: ld32_st32_same ld32_st32_other add.commute [of a])

lemma init_root_word:
  "b + 4 \<le> a \<or> a + 56 \<le> b \<Longrightarrow> ld32 (init_root now sig nxt frst lst a m) b = ld32 m b"
  by (rule ld32_cong, rule init_root_outside) auto

definition E0 :: "nat \<Rightarrow> nat" where
  "E0 a = (if a \<in> roots then 56 else 16)"

definition used_root_ok :: "mem \<Rightarrow> nat \<Rightarrow> bool" where
  "used_root_ok m P \<longleftrightarrow> ld32 m P = MMSIG_USED \<and> ld32 m (P + 8) = MMFLG_CLOSE \<and>
     ld32 m (P + 12) = 56 \<and> ld32 m (P + 20) = 0 \<and> ld32 m (P + 44) = MMSIG_SUFX \<and> ld32 m (P + 4) = 0"

lemma page_formatted:
  assumes u: "used_root_ok m P"
    and f: "ld32 m (P + 56) = MMSIG_FREE" "ld32 m (P + 64) = MMFLG_CLOSE" "ld32 m (P + 68) = 56"
      "ld32 m (P + 76) = 56" "ld32 m (P + 100) = MMSIG_SUFX" "ld32 m (P + 60) = 0"
    and b: "ld32 m (P + 120) = 168" "ld32 m (P + 180) = 130848" "ld32 m (P + 112) = MMSIG_BCKT"
      "ld32 m (P + 116) = 0" "ld32 m (P + 124) = 56" "ld32 m (P + 156) = MMSIG_SUFX"
  shows "page_ok cid m P E0 [] [] 168"
proof (rule page_okI)
  show "geometry E0 ([] @ []) 168"
    by (auto simp: geometry_def far_def parts_def roots_def E0_def)
  show "list_ok m P MMSIG_USED MMPOS_USED_ROOT []" "list_ok m P MMSIG_FREE MMPOS_FREE_ROOT []"
    using u f by (simp_all add: list_ok_def used_root_ok_def h_signature_def h_next_def r_last_def add.assoc)
  show "h_next m (P + MMPOS_BCKT_ROOT) = of_nat 168" "unat (h_len m (P + 168)) = 131016 - 168"
    using b by (simp_all add: h_next_def h_len_def add.assoc)
  show "feet_ok cid m P E0 ({MMPOS_USED_ROOT, MMPOS_FREE_ROOT} \<union> set [] \<union> set [])"
    using u f by (simp add: feet_ok_def used_root_ok_def E0_def roots_def h_len_def add.commute [of P])
  show "roots_ok m P"
    using u f b by (simp add: roots_ok_def roots_def used_root_ok_def h_prev_def h_signature_def h_len_def
        add.commute [of P])
qed

lemma shrink_ok:
  fixes now :: u32
  assumes n: "n \<in> {1..<PAGE_CNT}" and u: "used_root_ok m (MMPOS_USRPAGE n)"
  defines "m' \<equiv> shrink_backet_recycle now n m"
  shows "page_ok cid m' (MMPOS_USRPAGE n) E0 [] [] 168"
    and "\<And>i. PAGE_SIZE \<le> i \<Longrightarrow> i < MMPOS_USRPAGE n + 56 \<or> MMPOS_USRPAGE n + PAGE_SIZE \<le> i \<Longrightarrow> m' i = m i"
    and "\<And>b k. b \<le> 10 \<Longrightarrow> k < PAGE_CNT \<Longrightarrow> is_bit m' b k \<longleftrightarrow>
      k = n \<and> b \<in> {DC_032, DC_128, DC_512, DC_2K} \<or>
      \<not> (k = n \<and> b \<in> {FREE_000, FREE_032, FREE_128, FREE_512, FREE_2K}) \<and> is_bit m b k"
proof -
  define P where "P = MMPOS_USRPAGE n"
  define m2 where "m2 = fold (\<lambda>b. bit_off b n) [FREE_000, FREE_032, FREE_128, FREE_512, FREE_2K]
    (fold (\<lambda>b. bit_on b n) [DC_032, DC_128, DC_512, DC_2K] m)"
  define m3 where "m3 =
    init_root now MMSIG_FREE MMFLG_CLOSE (of_nat MMPOS_FREE_ROOT) (of_nat MMPOS_FREE_ROOT) (P + 56) m2"
  define m4 where "m4 = init_root now MMSIG_BCKT (of_nat MMPOS_BCKT_INIT) (of_nat MMPOS_BCKT_ROOT)
    (of_nat MMPOS_BCKT_INIT) (P + 112) m3"
  have P: "PAGE_SIZE \<le> P" using n by (simp add: P_def MMPOS_USRPAGE_def)
  have n': "n < PAGE_CNT" using n by simp
  have m': "m' = st32 (P + 131004) MMSIG_SUFX (st32 (P + 131000) now (st32 (P + 180) 130848
      (st32 (P + 176) MMFLG_CLOSE (st32 (P + 172) 112 (st32 (P + 168) MMSIG_BCKT m4)))))"
    unfolding m'_def shrink_backet_recycle_def Let_def m4_def m3_def m2_def P_def [symmetric] field_updates
    by (simp add: add.commute [of P])
  have m2: "m2 i = m i" if "PAGE_SIZE \<le> i" for i
    unfolding m2_def using that by (subst bits_fold(2) [OF n'], simp, simp) (rule bits_fold(1) [OF n'], simp_all)
  have m4: "m4 i = m i" if "PAGE_SIZE \<le> i" "i < P + 56 \<or> P + 168 \<le> i" for i
    unfolding m4_def m3_def using that m2 by (elim disjE) (simp_all add: init_root_outside)
  show out: "m' i = m i" if "PAGE_SIZE \<le> i" "i < MMPOS_USRPAGE n + 56 \<or> MMPOS_USRPAGE n + PAGE_SIZE \<le> i" for i
    using that m4 [of i] unfolding m' P_def [symmetric] by (elim disjE) (simp_all add: st32_outside)
  have lo: "m' i = m4 i" if "i < P + 168" for i using that unfolding m' by (simp add: st32_outside)
  have w: "ld32 m' (P + k) = ld32 m (P + k)" if "k + 4 \<le> 56" for k
    by (rule ld32_cong, rule out) (use that P in \<open>auto simp: P_def\<close>)
  have u': "used_root_ok m' P"
    using u w [of 0] w [of 4] w [of 8] w [of 12] w [of 20] w [of 44] by (simp add: used_root_ok_def P_def)
  have w4: "ld32 m' (P + k) = ld32 m4 (P + k)" if "k + 4 \<le> 168" for k
    by (rule ld32_cong, rule lo) (use that in simp)
  note ri = init_root_fields [of now MMSIG_FREE MMFLG_CLOSE "of_nat MMPOS_FREE_ROOT" "of_nat MMPOS_FREE_ROOT" "P + 56" m2, folded m3_def]
  note rb = init_root_fields [of now MMSIG_BCKT "of_nat MMPOS_BCKT_INIT" "of_nat MMPOS_BCKT_ROOT"
      "of_nat MMPOS_BCKT_INIT" "P + 112" m3, folded m4_def]
  have f: "ld32 m' (P + 56) = MMSIG_FREE" "ld32 m' (P + 64) = MMFLG_CLOSE" "ld32 m' (P + 68) = 56"
      "ld32 m' (P + 76) = 56" "ld32 m' (P + 100) = MMSIG_SUFX" "ld32 m' (P + 60) = 0"
    unfolding w4 [of 60, simplified] w4 [of 56, simplified] w4 [of 64, simplified] w4 [of 68, simplified] w4 [of 76, simplified]
      w4 [of 100, simplified]
    using ri unfolding m4_def by (simp_all add: init_root_word add.assoc)
  have b: "ld32 m' (P + 120) = 168" "ld32 m' (P + 180) = 130848" "ld32 m' (P + 112) = MMSIG_BCKT"
      "ld32 m' (P + 116) = 0" "ld32 m' (P + 124) = 56" "ld32 m' (P + 156) = MMSIG_SUFX"
  proof -
    show "ld32 m' (P + 180) = 130848" by (simp add: m' ld32_st32_same ld32_st32_other)
  qed (use rb w4 [of 112] w4 [of 116] w4 [of 120] w4 [of 124] w4 [of 156] in \<open>simp_all add: add.assoc\<close>)
  show "page_ok cid m' (MMPOS_USRPAGE n) E0 [] [] 168"
    using page_formatted [OF u' f b] by (simp only: P_def)
  show "is_bit m' b k \<longleftrightarrow> k = n \<and> b \<in> {DC_032, DC_128, DC_512, DC_2K} \<or>
      \<not> (k = n \<and> b \<in> {FREE_000, FREE_032, FREE_128, FREE_512, FREE_2K}) \<and> is_bit m b k"
    if bk: "b \<le> 10" "k < PAGE_CNT" for b k
  proof -
    have "m' i = m2 i" if "i < PAGE_SIZE" for i
      using lo [of i] P that unfolding m4_def m3_def by (simp add: init_root_outside)
    then have "is_bit m' b k = is_bit m2 b k" using bk by (intro is_bit_cong) auto
    also have "\<dots> \<longleftrightarrow> \<not> (b \<in> set [FREE_000, FREE_032, FREE_128, FREE_512, FREE_2K] \<and> n = k) \<and>
        (b \<in> set [DC_032, DC_128, DC_512, DC_2K] \<and> n = k \<or> is_bit m b k)"
      unfolding m2_def by (subst bits_fold(4) [OF n' _ bk(2)], simp, subst bits_fold(3) [OF n' _ bk(2)], simp) (rule refl)
    finally show ?thesis by auto
  qed
qed

section \<open>Rebuilding a consistent page\<close>

text \<open>The items of a page are disjoint, so their lengths do not overflow the 32 bit sum.\<close>

lemma used_size_bound:
  assumes p: "page_ok cid m P E us fs bk"
  shows "sum_list (map E us) \<le> 131016"
proof -
  note d = page_okD(1) [OF p]
  have far: "far E (parts (us @ fs) bk)" and ds: "distinct us"
    using d unfolding geometry_def by auto
  have b: "a + E a \<le> 131016" if "a \<in> set us" for a using item_bounds(2) [OF p] that by simp
  have "sum_list (map E us) = (\<Sum>a\<in>set us. E a)" using ds by (simp add: sum_list_distinct_conv_sum_set)
  also have "\<dots> = (\<Sum>a\<in>set us. card {a..<a + E a})" by simp
  also have "\<dots> = card (\<Union>a\<in>set us. {a..<a + E a})"
  proof (rule card_UN_disjoint [symmetric])
    show "\<forall>i\<in>set us. \<forall>j\<in>set us. i \<noteq> j \<longrightarrow> {i..<i + E i} \<inter> {j..<j + E j} = {}"
    proof (intro ballI impI)
      fix i j
      assume "i \<in> set us" "j \<in> set us" "i \<noteq> j"
      then have "i + E i \<le> j \<or> j + E j \<le> i" using far unfolding far_def parts_def by simp
      then show "{i..<i + E i} \<inter> {j..<j + E j} = {}" by auto
    qed
  qed simp_all
  also have "\<dots> \<le> card {..<131016::nat}"
  proof (rule card_mono)
    show "(\<Union>a\<in>set us. {a..<a + E a}) \<subseteq> {..<131016}"
    proof
      fix x
      assume "x \<in> (\<Union>a\<in>set us. {a..<a + E a})"
      then obtain a where "a \<in> set us" "x < a + E a" by auto
      then show "x \<in> {..<131016}" using b [of a] by simp
    qed
  qed simp
  finally show ?thesis by simp
qed

lemma fold_visit_used:
  assumes "\<forall>a\<in>set xs. a \<noteq> MMPOS_USED_ROOT \<and> unat (h_len m (MMPOS_USRPAGE n + a)) = E a \<and> 36 \<le> E a"
  shows "fold (visit_used n) xs (m, c, sz) = (m, c + of_nat (length xs), sz + of_nat (sum_list (map E xs)))"
  using assms
proof (induction xs arbitrary: c sz)
  case (Cons a xs)
  have "h_len m (MMPOS_USRPAGE n + a) = of_nat (unat (h_len m (MMPOS_USRPAGE n + a)))" by simp
  then have "h_len m (MMPOS_USRPAGE n + a) = of_nat (E a)" using Cons.prems by simp
  moreover have "unat (h_len m (MMPOS_USRPAGE n + a)) > MMPOS_MIN_OFST" "a \<noteq> MMPOS_USED_ROOT"
    using Cons.prems by auto
  ultimately have "visit_used n a (m, c, sz) = (m, c + 1, sz + of_nat (E a))"
    by (simp add: visit_used_def Let_def)
  then show ?case using Cons by (simp add: add.assoc add.commute add.left_commute)
qed simp

lemma visit_recycle_mem:
  assumes "n < PAGE_CNT"
  shows "PAGE_SIZE \<le> i \<Longrightarrow> fst (visit_recycle n a ma) i = fst ma i"
    "k < PAGE_CNT \<Longrightarrow> k \<noteq> n \<or> c = SYSPAGE_ERR \<Longrightarrow>
      is_bit (fst (visit_recycle n a ma)) c k = is_bit (fst ma) c k"
proof -
  have "\<forall>b\<in>set (free_bits r). b \<le> 10 \<and> b \<noteq> SYSPAGE_ERR" for r by (simp add: free_bits_def)
  then show "PAGE_SIZE \<le> i \<Longrightarrow> fst (visit_recycle n a ma) i = fst ma i"
    "k < PAGE_CNT \<Longrightarrow> k \<noteq> n \<or> c = SYSPAGE_ERR \<Longrightarrow>
      is_bit (fst (visit_recycle n a ma)) c k = is_bit (fst ma) c k"
    by (auto simp: visit_recycle_def Let_def bits_fold [OF assms] split: prod.split)
qed

lemma fold_visit_recycle_mem:
  assumes "n < PAGE_CNT"
  shows "PAGE_SIZE \<le> i \<Longrightarrow> fst (fold (visit_recycle n) xs ma) i = fst ma i"
    "k < PAGE_CNT \<Longrightarrow> k \<noteq> n \<or> c = SYSPAGE_ERR \<Longrightarrow>
      is_bit (fst (fold (visit_recycle n) xs ma)) c k = is_bit (fst ma) c k"
  by (induction xs arbitrary: ma) (simp_all add: visit_recycle_mem [OF assms])

lemma page_items_valid:
  assumes p: "page_ok cid m (MMPOS_USRPAGE n) E us fs bk" and n: "n \<in> {1..<PAGE_CNT}"
    and b: "b \<in> {MMPOS_USED_ROOT, MMPOS_FREE_ROOT} \<union> set us \<union> set fs"
  shows "b < PAGE_SIZE \<and> MMPOS_MIN_OFST \<le> unat (h_len m (MMPOS_USRPAGE n + b)) \<and>
    PAGE_SIZE \<le> foot_of m (MMPOS_USRPAGE n + b) \<and> f_suffix m (foot_of m (MMPOS_USRPAGE n + b)) = MMSIG_SUFX"
    and "unat (h_len m (MMPOS_USRPAGE n + b)) = E b"
    and "b \<in> {MMPOS_USED_ROOT, MMPOS_FREE_ROOT} \<Longrightarrow> foot_of m (MMPOS_USRPAGE n + b) = MMPOS_USRPAGE n + b + MMPOS_ROOT_FOOT"
proof -
  let ?P = "MMPOS_USRPAGE n"
  note d = page_okD [OF p]
  have P: "PAGE_SIZE \<le> ?P" using n by (simp add: MMPOS_USRPAGE_def)
  have R: "{MMPOS_USED_ROOT, MMPOS_FREE_ROOT} \<subseteq> roots" by (auto simp: roots_def)
  have r56: "\<forall>r\<in>roots. E r = 56" using d(1) unfolding geometry_def by blast
  have e: "b < PAGE_SIZE \<and> 36 \<le> E b"
  proof (cases "b \<in> set (us @ fs)")
    case True
    then show ?thesis using item_bounds(1-3) [OF p True] by simp
  next
    case False
    then show ?thesis using b r56 R by auto
  qed
  show len: "unat (h_len m (?P + b)) = E b" using d(6) b unfolding feet_ok_def by blast
  have "ld32 m (?P + b + (E b - 12)) = MMSIG_SUFX" using d(6) b unfolding feet_ok_def by blast
  moreover have "foot_of m (?P + b) + 4 = ?P + b + (E b - 12)" using e len by (simp add: foot_of_def)
  moreover have "?P + b + E b - 16 \<ge> PAGE_SIZE" using e P by linarith
  ultimately show "b < PAGE_SIZE \<and> MMPOS_MIN_OFST \<le> unat (h_len m (?P + b)) \<and>
      PAGE_SIZE \<le> foot_of m (?P + b) \<and> f_suffix m (foot_of m (?P + b)) = MMSIG_SUFX"
    using e len by (simp add: f_suffix_def foot_of_def)
  show "foot_of m (?P + b) = ?P + b + MMPOS_ROOT_FOOT" if "b \<in> {MMPOS_USED_ROOT, MMPOS_FREE_ROOT}"
    using r56 R that len by (auto simp: foot_of_def)
qed

lemma items_count: 
  assumes "page_ok cid m P E us fs bk"
  shows "length us \<le> 131072" "length fs \<le> 131072"
proof -
  have "distinct (us @ fs)" using page_okD(1) [OF assms] unfolding geometry_def by blast
  moreover have "set (us @ fs) \<subseteq> {..<131072}"
  proof
    fix a
    assume "a \<in> set (us @ fs)"
    from item_bounds(2) [OF assms this] item_bounds(3) [OF assms this] show "a \<in> {..<131072}" by simp
  qed
  then have "card (set (us @ fs)) \<le> card {..<131072::nat}" by (rule card_mono [OF finite_lessThan])
  ultimately have "length (us @ fs) \<le> 131072" by (simp only: distinct_card card_lessThan)
  then show "length us \<le> 131072" "length fs \<le> 131072" by simp_all
qed

lemma rebuild_summary_ok:
  assumes p: "page_ok cid m (MMPOS_USRPAGE n) E us fs bk" and n: "n \<in> {1..<PAGE_CNT}"
  obtains m' E' fs' bk' where "rebuild_bitmap_and_pagesummary now n False m = (RET_OK, m')"
    and "page_ok cid m' (MMPOS_USRPAGE n) E' us fs' bk'"
    and "\<And>a. a \<in> set us \<Longrightarrow> E' a = E a"
    and "\<And>a i. a \<in> set us \<Longrightarrow> i < E a \<Longrightarrow> m' (MMPOS_USRPAGE n + a + i) = m (MMPOS_USRPAGE n + a + i)"
    and "\<And>i. PAGE_SIZE \<le> i \<Longrightarrow> i < MMPOS_USRPAGE n \<or> MMPOS_USRPAGE n + PAGE_SIZE \<le> i \<Longrightarrow> m' i = m i"
    and "\<And>c k. c \<le> 10 \<Longrightarrow> k < PAGE_CNT \<Longrightarrow> k \<noteq> n \<or> c = SYSPAGE_ERR \<Longrightarrow> is_bit m' c k = is_bit m c k"
    and "\<And>c. us = [] \<Longrightarrow> c \<in> {DC_032, DC_128, DC_512, DC_2K} \<Longrightarrow> is_bit m' c n"
    and "us = [] \<Longrightarrow> bk' = MMPOS_BCKT_INIT"
proof -
  define P where "P = MMPOS_USRPAGE n"
  note p = p [folded P_def]
  note d = page_okD [OF p]
  have P: "PAGE_SIZE \<le> P" and n': "n < PAGE_CNT" "\<not> (n < 1 \<or> n \<ge> PAGE_CNT)"
    using n by (auto simp: P_def MMPOS_USRPAGE_def)
  define m1 where "m1 = fold (\<lambda>b. bit_off b n) [FREE_000, FREE_032, FREE_128, FREE_512, FREE_2K]
    (fold (\<lambda>b. bit_off b n) [DC_032, DC_128, DC_512, DC_2K] m)"
  have m1: "m1 i = m i" if "PAGE_SIZE \<le> i" for i
    unfolding m1_def using that by (subst bits_fold(2) [OF n'(1)], simp, simp) (rule bits_fold(2) [OF n'(1)], simp_all)
  obtain m2 rc rs where m2: "fold (visit_recycle n) (MMPOS_FREE_ROOT # fs) (m1, 0, 0) = (m2, rc, rs)"
    by (metis surj_pair)
  have m2m1: "m2 i = m1 i" if "PAGE_SIZE \<le> i" for i
    using fold_visit_recycle_mem(1) [OF n'(1) that, of "MMPOS_FREE_ROOT # fs" "(m1, 0, 0)"] m2 by simp
  note iv = page_items_valid [OF p [unfolded P_def] n, folded P_def]
  have fo: "fold_items MMSIG_FREE (visit_recycle n) P 0 MMPOS_FREE_ROOT (P + MMPOS_FREE_ROOT + MMPOS_ROOT_FOOT) (m1, 0, 0)
      = (True, m2, rc, rs)"
  proof (subst fold_items_chain [where m = m and xs = fs])
    show "chain (\<lambda>b. h_next m (P + b)) MMPOS_FREE_ROOT fs" using d(3) unfolding list_ok_def by blast
    show "b < PAGE_SIZE \<and> h_signature m (P + b) = MMSIG_FREE \<and> MMPOS_MIN_OFST \<le> unat (h_len m (P + b)) \<and>
        PAGE_SIZE \<le> foot_of m (P + b) \<and> f_suffix m (foot_of m (P + b)) = MMSIG_SUFX"
      if "b \<in> set (MMPOS_FREE_ROOT # fs)" for b
    proof -
      have "h_signature m (P + b) = MMSIG_FREE" using d(3) that unfolding list_ok_def by blast
      moreover have "b \<in> {MMPOS_USED_ROOT, MMPOS_FREE_ROOT} \<union> set us \<union> set fs" using that by auto
      ultimately show ?thesis using iv(1) by blast
    qed
    show "0 + length fs \<le> 0xFFFFFFFF" using items_count [OF p] by simp
    show "P + MMPOS_FREE_ROOT + MMPOS_ROOT_FOOT = foot_of m (P + MMPOS_FREE_ROOT)" using iv(3) [of MMPOS_FREE_ROOT] by simp
    show "(True, fold (visit_recycle n) (MMPOS_FREE_ROOT # fs) (m1, 0, 0)) = (True, m2, rc, rs)"
      using m2 by (simp only:)
  qed (use P m1 visit_recycle_mem(1) [OF n'(1)] in simp_all)
  define us_sum where "us_sum = sum_list (map E us)"
  have vu: "fst (visit_used n b ma) i = fst ma i" for b ma i
    by (simp add: visit_used_def Let_def split: prod.split)
  have lenm2: "h_len m2 (P + b) = h_len m (P + b)" for b
    unfolding h_len_def using m1 m2m1 P by (intro ld32_cong) auto
  have fu: "fold_items MMSIG_USED (visit_used n) P 0 MMPOS_USED_ROOT (P + MMPOS_USED_ROOT + MMPOS_ROOT_FOOT) (m2, 0, 0)
      = (True, m2, of_nat (length us), of_nat us_sum)"
  proof (subst fold_items_chain [where m = m and xs = us])
    show "chain (\<lambda>b. h_next m (P + b)) MMPOS_USED_ROOT us" using d(2) unfolding list_ok_def by blast
    show "b < PAGE_SIZE \<and> h_signature m (P + b) = MMSIG_USED \<and> MMPOS_MIN_OFST \<le> unat (h_len m (P + b)) \<and>
        PAGE_SIZE \<le> foot_of m (P + b) \<and> f_suffix m (foot_of m (P + b)) = MMSIG_SUFX"
      if "b \<in> set (MMPOS_USED_ROOT # us)" for b
    proof -
      have "h_signature m (P + b) = MMSIG_USED" using d(2) that unfolding list_ok_def by blast
      moreover have "b \<in> {MMPOS_USED_ROOT, MMPOS_FREE_ROOT} \<union> set us \<union> set fs" using that by auto
      ultimately show ?thesis using iv(1) by blast
    qed
    show "0 + length us \<le> 0xFFFFFFFF" using items_count [OF p] by simp
    show "P + MMPOS_USED_ROOT + MMPOS_ROOT_FOOT = foot_of m (P + MMPOS_USED_ROOT)" using iv(3) [of MMPOS_USED_ROOT] by simp
    have "visit_used n MMPOS_USED_ROOT (m2, 0, 0) = (m2, 0, 0)" by (simp add: visit_used_def Let_def)
    moreover have "fold (visit_used n) us (m2, 0, 0) = (m2, 0 + of_nat (length us), 0 + of_nat us_sum)"
      unfolding us_sum_def
    proof (rule fold_visit_used, intro ballI)
      fix a
      assume "a \<in> set us"
      then have "a \<in> set (us @ fs)" by simp
      from item_bounds(1,3,4) [OF p this]
      show "a \<noteq> MMPOS_USED_ROOT \<and> unat (h_len m2 (MMPOS_USRPAGE n + a)) = E a \<and> 36 \<le> E a"
        using lenm2 by (simp add: P_def)
    qed
    ultimately show "(True, fold (visit_used n) (MMPOS_USED_ROOT # us) (m2, 0, 0)) = (True, m2, of_nat (length us), of_nat us_sum)"
      by simp
  qed (use P m1 m2m1 vu in simp_all)
  define remain :: u32 where
    "remain = of_nat (PAGE_SIZE - MMSIZ_ALL_ROOT) - of_nat us_sum - of_nat (length us) * of_nat MMSIZ_HF_SIZE"
  define m3 where "m3 = fold (\<lambda>b. bit_on b n) (dc_bits remain) m2"
  define m5 where "m5 = set_free_cnt (P + MMPOS_FREE_ROOT) rc (set_free_size (P + MMPOS_FREE_ROOT) rs
    (set_use_cnt (P + MMPOS_USED_ROOT) (of_nat (length us)) (set_use_size (P + MMPOS_USED_ROOT) (of_nat us_sum) m3)))"
  define m6 where "m6 = (if us = [] then shrink_backet_recycle now n m5 else m5)"
  have dcb: "\<forall>b\<in>set (dc_bits remain). b \<le> 10 \<and> b \<noteq> SYSPAGE_ERR" by (simp add: dc_bits_def)
  have m3: "m3 i = m i" if "PAGE_SIZE \<le> i" for i
    unfolding m3_def using that dcb m1 m2m1 by (subst bits_fold(1) [OF n'(1)]) simp_all
  have m5lo: "m5 i = m3 i" if "i < P + 24 \<or> P + 96 \<le> i" for i
    using that unfolding m5_def field_updates by (elim disjE) (simp_all add: st32_outside)
  have m5: "m5 (P + i) = m (P + i)" if "\<not> summary_cell i" for i
  proof -
    from that consider "i < 24" | "40 \<le> i" "i < 80" | "96 \<le> i" unfolding summary_cell_def by linarith
    then have "m5 (P + i) = m3 (P + i)"
      unfolding m5_def field_updates by cases (simp_all add: st32_outside)
    then show ?thesis using m3 P by simp
  qed
  have sz: "(of_nat us_sum :: u32) = 0 \<longleftrightarrow> us = []"
  proof -
    have "us_sum \<le> 131016" unfolding us_sum_def by (rule used_size_bound [OF p])
    then have u: "unat (of_nat us_sum :: u32) = us_sum" by (intro unat_of_nat_small) simp
    have "us_sum \<noteq> 0" if ne: "us \<noteq> []"
    proof -
      obtain a as where "us = a # as" using ne by (cases us) auto
      moreover from this have "36 \<le> E a" using item_bounds(3) [OF p, of a] by simp
      ultimately show ?thesis by (simp add: us_sum_def)
    qed
    then show ?thesis using u by (cases "us = []") (auto simp: us_sum_def)
  qed
  have rb: "rebuild_bitmap_and_pagesummary now n False m = (RET_OK, m6)"
    unfolding rebuild_bitmap_and_pagesummary_def if_not_P [OF n'(2)] Let_def P_def [symmetric] if_False
      m1_def [symmetric] fo fu prod.case not_True_eq_False
      m6_def m5_def m3_def remain_def sz not_False_eq_True simp_thms by (rule TrueI)
  have p5: "page_ok cid m5 P E us fs bk" by (rule page_ok_summary [OF _ p]) (rule m5)
  have bits5: "is_bit m5 c k = is_bit m c k" if "c \<le> 10" "k < PAGE_CNT" "k \<noteq> n \<or> c = SYSPAGE_ERR" for c k
  proof -
    have "is_bit m5 c k = is_bit m3 c k"
      using that P by (intro is_bit_cong m5lo) auto
    also have "\<dots> = is_bit m2 c k"
      unfolding m3_def using that dcb by (subst bits_fold(3) [OF n'(1)]) auto
    also have "\<dots> = is_bit m1 c k"
      using fold_visit_recycle_mem(2) [OF n'(1) that(2,3), of "MMPOS_FREE_ROOT # fs" "(m1, 0, 0)"] m2 by simp
    also have "\<dots> = is_bit m c k"
      unfolding m1_def using that
      by (subst bits_fold(4) [OF n'(1)], simp, simp, subst bits_fold(4) [OF n'(1)]) auto
    finally show ?thesis .
  qed
  have out5: "m5 i = m i" if "PAGE_SIZE \<le> i" "i < P \<or> P + PAGE_SIZE \<le> i" for i
    using that m5lo [of i] m3 [of i] by auto
  show thesis
  proof (cases "us = []")
    case False
    then have m6: "m6 = m5" by (simp add: m6_def)
    show thesis
    proof (rule that [OF rb, folded P_def, unfolded m6, OF p5 refl])
      show "m5 (P + a + i) = m (P + a + i)" if "a \<in> set us" for a i
      proof -
        have "168 \<le> a" using item_bounds(1) [OF p] that by simp
        then have "\<not> summary_cell (a + i)" by (simp add: summary_cell_def)
        then show ?thesis using m5 [of "a + i"] by (simp add: add.assoc)
      qed
    qed (use out5 bits5 False in auto)
  next
    case True
    have r56: "E 0 = 56" using d(1) unfolding geometry_def roots_def by blast
    note d5 = page_okD [OF p5]
    have "used_root_ok m5 P"
    proof -
      have "ld32 m5 P = MMSIG_USED \<and> ld32 m5 (P + 8) = MMFLG_CLOSE \<and> ld32 m5 (P + 20) = 0"
        using d5(2) True by (simp add: list_ok_def h_signature_def h_next_def r_last_def)
      moreover have f0: "unat (h_len m5 (P + 0)) = E 0 \<and> ld32 m5 (P + 0 + (E 0 - 12)) = MMSIG_SUFX"
        using d5(6) unfolding feet_ok_def by blast
      moreover have "ld32 m5 (P + 12) = of_nat (unat (h_len m5 (P + 0)))" by (simp add: h_len_def)
      moreover have "h_prev m5 (P + 0) = 0" using d5(7) unfolding roots_ok_def roots_def by blast
      then have "ld32 m5 (P + 4) = 0" by (simp add: h_prev_def)
      ultimately show ?thesis using r56 by (simp add: used_root_ok_def)
    qed
    note sh = shrink_ok(1) [OF n this [unfolded P_def], where cid = cid and now = now, folded P_def]
      shrink_ok(2,3) [OF n this [unfolded P_def], where now = now, folded P_def]
    have m6: "m6 = shrink_backet_recycle now n m5" using True by (simp add: m6_def)
    show thesis
    proof (rule that [OF rb, folded P_def, unfolded m6 True, OF sh(1)])
      show "shrink_backet_recycle now n m5 i = m i" if "PAGE_SIZE \<le> i" "i < P \<or> P + PAGE_SIZE \<le> i" for i
        using sh(2) [OF that(1)] that out5 by auto
      show "is_bit (shrink_backet_recycle now n m5) c k = is_bit m c k"
        if "c \<le> 10" "k < PAGE_CNT" "k \<noteq> n \<or> c = SYSPAGE_ERR" for c k
        using sh(3) [OF that(1,2)] bits5 [OF that] that by auto
      show "is_bit (shrink_backet_recycle now n m5) c n" if "c \<in> {DC_032, DC_128, DC_512, DC_2K}" for c
        using sh(3) [of c n] that n'(1) by auto
    qed simp_all
  qed
qed

text \<open>The same with one predicate for the effect.\<close>

definition summary_effect :: "u32 \<Rightarrow> nat \<Rightarrow> (nat \<Rightarrow> nat) \<Rightarrow> nat list \<Rightarrow> mem \<Rightarrow> mem \<Rightarrow> bool" where
  "summary_effect cid n E us m m' \<longleftrightarrow>
     (\<exists>E' fs' bk'. page_ok cid m' (MMPOS_USRPAGE n) E' us fs' bk' \<and> (\<forall>a\<in>set us. E' a = E a) \<and>
        (us = [] \<longrightarrow> bk' = MMPOS_BCKT_INIT)) \<and>
     (\<forall>a\<in>set us. \<forall>i<E a. m' (MMPOS_USRPAGE n + a + i) = m (MMPOS_USRPAGE n + a + i)) \<and>
     (\<forall>i\<ge>PAGE_SIZE. i < MMPOS_USRPAGE n \<or> MMPOS_USRPAGE n + PAGE_SIZE \<le> i \<longrightarrow> m' i = m i) \<and>
     (\<forall>c\<le>10. \<forall>k<PAGE_CNT. k \<noteq> n \<or> c = SYSPAGE_ERR \<longrightarrow> is_bit m' c k = is_bit m c k) \<and>
     (us = [] \<longrightarrow> (\<forall>c\<in>{DC_032, DC_128, DC_512, DC_2K}. is_bit m' c n))"

lemma rebuild_summary_effect:
  assumes p: "page_ok cid m (MMPOS_USRPAGE n) E us fs bk" and n: "n \<in> {1..<PAGE_CNT}"
  shows "\<exists>m'. rebuild_bitmap_and_pagesummary now n False m = (RET_OK, m') \<and> summary_effect cid n E us m m'"
proof (rule rebuild_summary_ok [OF p n, where now = now])
  fix m' E' fs' bk'
  assume A: "rebuild_bitmap_and_pagesummary now n False m = (RET_OK, m')"
    "page_ok cid m' (MMPOS_USRPAGE n) E' us fs' bk'" "\<And>a. a \<in> set us \<Longrightarrow> E' a = E a"
    "\<And>a i. a \<in> set us \<Longrightarrow> i < E a \<Longrightarrow> m' (MMPOS_USRPAGE n + a + i) = m (MMPOS_USRPAGE n + a + i)"
    "\<And>i. PAGE_SIZE \<le> i \<Longrightarrow> i < MMPOS_USRPAGE n \<or> MMPOS_USRPAGE n + PAGE_SIZE \<le> i \<Longrightarrow> m' i = m i"
    "\<And>c k. c \<le> 10 \<Longrightarrow> k < PAGE_CNT \<Longrightarrow> k \<noteq> n \<or> c = SYSPAGE_ERR \<Longrightarrow> is_bit m' c k = is_bit m c k"
    "\<And>c. us = [] \<Longrightarrow> c \<in> {DC_032, DC_128, DC_512, DC_2K} \<Longrightarrow> is_bit m' c n"
    "us = [] \<Longrightarrow> bk' = MMPOS_BCKT_INIT"
  show ?thesis
    unfolding summary_effect_def
    by (intro exI [of _ m'] exI [of _ E'] exI [of _ fs'] exI [of _ bk'] conjI ballI allI impI A; assumption)
qed

section \<open>Rebuilding a category\<close>

text \<open>What a round does to its page: it becomes usable, and its blocks stay.\<close>

definition bucket_len :: "mem \<Rightarrow> nat \<Rightarrow> nat" where
  "bucket_len m n =
     unat (h_len m (MMPOS_USRPAGE n + unat (h_next m (MMPOS_USRPAGE n + MMPOS_BCKT_ROOT))))"

lemma bucket_len_eq:
  assumes "page_ok cid m (MMPOS_USRPAGE n) E us fs bk"
  shows "bucket_len m n = 131016 - bk"
proof -
  note d = page_okD [OF assms]
  have "bk < 131057" using d(1) unfolding geometry_def by auto
  then have "unat (of_nat bk :: u32) = bk" by (intro unat_of_nat_small) simp
  then show ?thesis using d(4,5) by (simp add: bucket_len_def)
qed

text \<open>A page with no block in use is given back as a whole.\<close>

definition page_empty :: "mem \<Rightarrow> nat \<Rightarrow> bool" where
  "page_empty m n \<longleftrightarrow> bucket_len m n = MMSIZ_BCKT_INIT_SIZE \<and>
     (\<forall>c\<in>{DC_032, DC_128, DC_512, DC_2K}. is_bit m c n)"

definition page_rebuilt :: "u32 \<Rightarrow> nat \<Rightarrow> mem \<Rightarrow> mem \<Rightarrow> bool" where
  "page_rebuilt cid n m m' \<longleftrightarrow>
     page_inv cid m' n \<and> used_in cid m' n = used_in cid m n \<and>
     (\<forall>a\<in>used_in cid m n. block m' (n, a) = block m (n, a) \<and> (\<forall>i\<in>block m (n, a). m' i = m i)) \<and>
     (\<forall>i\<ge>PAGE_SIZE. i < MMPOS_USRPAGE n \<or> MMPOS_USRPAGE n + PAGE_SIZE \<le> i \<longrightarrow> m' i = m i) \<and>
     \<not> is_bit m' SYSPAGE_ERR n \<and> (used_in cid m n = {} \<longrightarrow> page_empty m' n) \<and>
     (\<forall>c\<in>{1..10}. \<forall>k<PAGE_CNT. k \<noteq> n \<longrightarrow> is_bit m' c k = is_bit m c k)"

text \<open>Only the first page, but for the bitmaps.\<close>

definition sys_only :: "mem \<Rightarrow> mem \<Rightarrow> bool" where
  "sys_only m m' \<longleftrightarrow> (\<forall>i\<ge>SYSPAGE_SIZE. m' i = m i)"

lemma sys_only_bit: "sys_only m m' \<Longrightarrow> 1 \<le> c \<Longrightarrow> is_bit m' c k = is_bit m c k"
  unfolding is_bit_def MMPOS_SYSPAGE_BMP_def sys_only_def by (rule ISPAGEBIT_cong) simp

lemma sys_only_trans: "sys_only m m' \<Longrightarrow> sys_only m' m'' \<Longrightarrow> sys_only m m''"
  by (simp add: sys_only_def)

lemma sys_only_updates:
  "sys_only m (add_sys_use P m)" "sys_only m (add_sys_free P m)"
  "sys_only m (reset_sys_summary m)" "sys_only m (init_sys idx fsize m)"
  unfolding sys_only_def add_sys_use_def add_sys_free_def reset_sys_summary_def init_sys_def
  by (auto simp: st32_outside)

lemma page_rebuilt_then:
  assumes n: "n \<in> {1..<PAGE_CNT}" and p: "page_ok cid m1 (MMPOS_USRPAGE n) E us fs bk"
    and u: "used_in cid m n = set us"
    and e: "\<And>a. a \<in> set us \<Longrightarrow> block m (n, a) = {MMPOS_USRPAGE n + a + 16 ..< MMPOS_USRPAGE n + a + E a - 16}"
    and b: "\<And>a i. a \<in> set us \<Longrightarrow> i < E a \<Longrightarrow> m1 (MMPOS_USRPAGE n + a + i) = m (MMPOS_USRPAGE n + a + i)"
    and out: "\<And>i. PAGE_SIZE \<le> i \<Longrightarrow> i < MMPOS_USRPAGE n \<or> MMPOS_USRPAGE n + PAGE_SIZE \<le> i \<Longrightarrow> m1 i = m i"
    and bits: "\<And>c k. c \<in> {1..10} \<Longrightarrow> k < PAGE_CNT \<Longrightarrow> k \<noteq> n \<Longrightarrow> is_bit m1 c k = is_bit m c k"
    and emp: "us = [] \<longrightarrow> bk = MMPOS_BCKT_INIT \<and> (\<forall>c\<in>{DC_032, DC_128, DC_512, DC_2K}. is_bit m1 c n)"
    and so: "sys_only (bit_off SYSPAGE_ERR n m1) m'"
  shows "page_rebuilt cid n m m'"
proof -
  have P: "PAGE_SIZE \<le> MMPOS_USRPAGE n" and n': "n < PAGE_CNT" using n by (auto simp: MMPOS_USRPAGE_def)
  have hi: "m' i = m1 i" if "PAGE_SIZE \<le> i" for i
    using so that bit_outside(2) [OF _ n', of SYSPAGE_ERR i m1] by (simp add: sys_only_def)
  have p': "page_ok cid m' (MMPOS_USRPAGE n) E us fs bk"
    by (rule page_ok_cong [OF hi p]) (use P in simp)
  have bl: "block m' (n, a) = block m (n, a)" if "a \<in> set us" for a
    using block_bounds(1) [OF p'] e [OF that] that by simp
  have "m' i = m i" if a: "a \<in> set us" and i: "i \<in> block m (n, a)" for a i
  proof -
    define j where "j = i - MMPOS_USRPAGE n - a"
    have "MMPOS_USRPAGE n + a + 16 \<le> i" "i < MMPOS_USRPAGE n + a + E a - 16" using i e [OF a] by auto
    then have "j < E a" "i = MMPOS_USRPAGE n + a + j" unfolding j_def by arith+
    then show ?thesis using b [OF a] hi [of i] P by simp
  qed
  moreover have bm: "is_bit m' c k \<longleftrightarrow> \<not> (c = SYSPAGE_ERR \<and> k = n) \<and> is_bit m1 c k"
    if "c \<in> {1..10}" "k < PAGE_CNT" for c k
    using sys_only_bit [OF so, of c k] is_bit_update(2) [OF n' that(2), of SYSPAGE_ERR m1 c] that(1) by auto
  moreover have "page_empty m' n" if "us = []"
  proof -
    have "is_bit m' c n" if "c \<in> {DC_032, DC_128, DC_512, DC_2K}" for c
    proof -
      have "c \<in> {1..10}" "c \<noteq> SYSPAGE_ERR" using that by auto
      then show ?thesis using bm [of c n] emp \<open>us = []\<close> that n' by blast
    qed
    then show ?thesis using emp that bucket_len_eq [OF p'] by (simp add: page_empty_def)
  qed
  ultimately show ?thesis
    unfolding page_rebuilt_def page_inv_def used_in_eq [OF p'] u
    using p' bl hi out bits n' by auto
qed

lemma used_block:
  assumes "page_ok cid m (MMPOS_USRPAGE n) E us fs bk" "a \<in> set us"
  shows "block m (n, a) = {MMPOS_USRPAGE n + a + 16 ..< MMPOS_USRPAGE n + a + E a - 16}"
  by (rule block_bounds(1) [OF assms(1)]) (use assms(2) in simp)

lemma statics_page_ok:
  assumes n: "n \<in> {1..<PAGE_CNT}" and p: "page_inv cid m n"
  shows "page_rebuilt cid n m (statics_page now n m)"
proof -
  obtain E us fs bk where p: "page_ok cid m (MMPOS_USRPAGE n) E us fs bk" using p by (auto simp: page_inv_def)
  obtain m1 E' fs' bk' where r: "rebuild_bitmap_and_pagesummary now n False m = (RET_OK, m1)"
    and p1: "page_ok cid m1 (MMPOS_USRPAGE n) E' us fs' bk'"
    and e: "\<forall>a\<in>set us. E' a = E a" and bk: "us = [] \<longrightarrow> bk' = MMPOS_BCKT_INIT"
    and b: "\<forall>a\<in>set us. \<forall>i<E a. m1 (MMPOS_USRPAGE n + a + i) = m (MMPOS_USRPAGE n + a + i)"
    and out: "\<forall>i\<ge>PAGE_SIZE. i < MMPOS_USRPAGE n \<or> MMPOS_USRPAGE n + PAGE_SIZE \<le> i \<longrightarrow> m1 i = m i"
    and bits: "\<forall>c\<le>10. \<forall>k<PAGE_CNT. k \<noteq> n \<or> c = SYSPAGE_ERR \<longrightarrow> is_bit m1 c k = is_bit m c k"
    and dc: "us = [] \<longrightarrow> (\<forall>c\<in>{DC_032, DC_128, DC_512, DC_2K}. is_bit m1 c n)"
    using rebuild_summary_effect [OF p n, of now] unfolding summary_effect_def by blast
  have "statics_page now n m =
      add_sys_free (MMPOS_USRPAGE n) (add_sys_use (MMPOS_USRPAGE n) (bit_off SYSPAGE_ERR n m1))"
    by (simp add: statics_page_def r)
  then have so: "sys_only (bit_off SYSPAGE_ERR n m1) (statics_page now n m)"
    using sys_only_trans [OF sys_only_updates(1) sys_only_updates(2)] by simp
  show ?thesis
  proof (rule page_rebuilt_then [OF n p1 used_in_eq [OF p] _ _ _ _ _ so])
    show "block m (n, a) = {MMPOS_USRPAGE n + a + 16 ..< MMPOS_USRPAGE n + a + E' a - 16}" if "a \<in> set us" for a
      using used_block [OF p that] e that by simp
    show "m1 i = m i" if "PAGE_SIZE \<le> i" "i < MMPOS_USRPAGE n \<or> MMPOS_USRPAGE n + PAGE_SIZE \<le> i" for i
      using out that by blast
    show "us = [] \<longrightarrow> bk' = MMPOS_BCKT_INIT \<and> (\<forall>c\<in>{DC_032, DC_128, DC_512, DC_2K}. is_bit m1 c n)"
      using bk dc by blast
  qed (use b e bits in auto)
qed

lemma init_root_used_ok:
  "used_root_ok (init_root now MMSIG_USED MMFLG_CLOSE 0 0 P m) P"
  using init_root_fields [of now MMSIG_USED MMFLG_CLOSE 0 0 P m] by (simp add: used_root_ok_def)

lemma rebuild_page_ok:
  assumes n: "n \<in> {1..<PAGE_CNT}"
    and p: "h_signature m (MMPOS_USRPAGE n) \<noteq> MMSIG_USED \<or> page_inv cid m n"
  shows "page_rebuilt cid n m (rebuild_page now n m)"
proof -
  let ?P = "MMPOS_USRPAGE n"
  have P: "PAGE_SIZE \<le> ?P" and n': "n < PAGE_CNT" using n by (auto simp: MMPOS_USRPAGE_def)
  define m0 where "m0 = (if h_signature m ?P \<noteq> MMSIG_USED
    then fold (\<lambda>b. bit_on b n) [DC_032, DC_128, DC_512, DC_2K] (bit_off SYSPAGE_ERR n
      (shrink_backet_recycle now n (init_root now MMSIG_USED MMFLG_CLOSE 0 0 ?P m))) else m)"
  obtain E us fs bk where p0: "page_ok cid m0 ?P E us fs bk" and u: "used_in cid m n = set us"
    and e: "\<And>a. a \<in> set us \<Longrightarrow> block m (n, a) = {?P + a + 16 ..< ?P + a + E a - 16}"
    and b: "\<And>a i. a \<in> set us \<Longrightarrow> m0 (?P + a + i) = m (?P + a + i)"
    and out: "\<And>i. PAGE_SIZE \<le> i \<Longrightarrow> i < ?P \<or> ?P + PAGE_SIZE \<le> i \<Longrightarrow> m0 i = m i"
    and bits: "\<And>c k. c \<in> {1..10} \<Longrightarrow> k < PAGE_CNT \<Longrightarrow> k \<noteq> n \<Longrightarrow> is_bit m0 c k = is_bit m c k"
  proof (cases "h_signature m ?P \<noteq> MMSIG_USED")
    case False
    then obtain E us fs bk where "page_ok cid m ?P E us fs bk" using p by (auto simp: page_inv_def)
    then show thesis using False used_in_eq used_block by (intro that [of E us fs bk]) (auto simp: m0_def)
  next
    case True
    let ?m1 = "init_root now MMSIG_USED MMFLG_CLOSE 0 0 ?P m"
    note sh = shrink_ok(1) [OF n init_root_used_ok [of now _ m], where cid = cid and now = now]
      shrink_ok(2,3) [OF n init_root_used_ok [of now _ m], where now = now]
    have m0: "m0 i = shrink_backet_recycle now n ?m1 i" if "PAGE_SIZE \<le> i" for i
      using True that by (simp add: m0_def bit_outside n')
    show thesis
    proof (rule that [of E0 "[]" "[]" 168])
      show "page_ok cid m0 ?P E0 [] [] 168" by (rule page_ok_cong [OF m0 sh(1)]) (use P in simp)
      have "\<not> page_ok cid m ?P E us fs bk" for E us fs bk
        using True page_okD(2) [of cid m ?P E us fs bk] by (auto simp: list_ok_def)
      then show "used_in cid m n = set []" by (auto simp: used_in_def)
      show "m0 i = m i" if "PAGE_SIZE \<le> i" "i < ?P \<or> ?P + PAGE_SIZE \<le> i" for i
        using m0 [OF that(1)] sh(2) [OF that(1)] that init_root_outside [of i ?P] by auto
      show "is_bit m0 c k = is_bit m c k" if "c \<in> {1..10}" "k < PAGE_CNT" "k \<noteq> n" for c k
      proof -
        have "is_bit ?m1 c k = is_bit m c k"
          using that P by (intro is_bit_cong) (auto simp: init_root_outside)
        then show ?thesis
          using True that sh(3) [of c k] by (simp add: m0_def is_bit_update n')
      qed
    qed simp_all
  qed
  obtain m1 E' fs' bk' where r: "rebuild_bitmap_and_pagesummary now n False m0 = (RET_OK, m1)"
    and p1: "page_ok cid m1 ?P E' us fs' bk'"
    and e1: "\<forall>a\<in>set us. E' a = E a" and bk: "us = [] \<longrightarrow> bk' = MMPOS_BCKT_INIT"
    and b1: "\<forall>a\<in>set us. \<forall>i<E a. m1 (?P + a + i) = m0 (?P + a + i)"
    and out1: "\<forall>i\<ge>PAGE_SIZE. i < ?P \<or> ?P + PAGE_SIZE \<le> i \<longrightarrow> m1 i = m0 i"
    and bits1: "\<forall>c\<le>10. \<forall>k<PAGE_CNT. k \<noteq> n \<or> c = SYSPAGE_ERR \<longrightarrow> is_bit m1 c k = is_bit m0 c k"
    and dc: "us = [] \<longrightarrow> (\<forall>c\<in>{DC_032, DC_128, DC_512, DC_2K}. is_bit m1 c n)"
    using rebuild_summary_effect [OF p0 n, of now] unfolding summary_effect_def by blast
  have rv: "roots_valid m ?P" if "h_signature m ?P = MMSIG_USED"
  proof -
    have m0: "m0 = m" using that by (simp add: m0_def)
    note d = page_okD [OF p0 [unfolded m0]]
    have "E MMPOS_USED_ROOT = 56" "E MMPOS_FREE_ROOT = 56" using d(1) unfolding geometry_def roots_def by auto
    then have f: "unat (h_len m (?P + 0)) = 56 \<and> ld32 m (?P + 0 + 44) = MMSIG_SUFX"
      "unat (h_len m (?P + 56)) = 56 \<and> ld32 m (?P + 56 + 44) = MMSIG_SUFX"
      using d(6) unfolding feet_ok_def by auto
    have w: "x = 56" if "unat x = 56" for x :: u32
    proof -
      have "x = of_nat (unat x)" by simp
      then show ?thesis unfolding that by simp
    qed
    have l: "h_len m (?P + 0) = 56" "h_len m (?P + 56) = 56" using f w by blast+
    have s: "h_signature m (?P + 0) = MMSIG_USED" "h_signature m (?P + 56) = MMSIG_FREE"
      using d(2,3) unfolding list_ok_def by auto
    have pr: "h_prev m (?P + 0) = 0" "h_prev m (?P + 56) = 0" "h_prev m (?P + 112) = 0"
      using d(7) unfolding roots_ok_def roots_def by blast+
    have bk: "h_signature m (?P + 112) = MMSIG_BCKT" "h_len m (?P + 112) = 56" "ld32 m (?P + 112 + 44) = MMSIG_SUFX"
      using d(7) unfolding roots_ok_def by blast+
    show ?thesis
      unfolding roots_valid_def f_suffix_def using l s pr bk f by (simp add: add.assoc)
  qed
  define m2 where "m2 = bit_off SYSPAGE_ERR n m1"
  define m3 where "m3 = (if r_use_size m2 (?P + MMPOS_USED_ROOT) \<noteq> 0 then add_sys_use ?P m2 else m2)"
  have rp: "rebuild_page now n m =
      (if r_free_size m3 (?P + MMPOS_FREE_ROOT) \<noteq> 0 then add_sys_free ?P m3 else m3)"
  proof (cases "h_signature m ?P = MMSIG_USED")
    case True
    then have "m0 = m" by (simp add: m0_def)
    then show ?thesis
      unfolding rebuild_page_def m3_def m2_def using True rv r by (simp add: Let_def)
  next
    case False
    then have "m0 = fold (\<lambda>b. bit_on b n) [DC_032, DC_128, DC_512, DC_2K] (bit_off SYSPAGE_ERR n
      (shrink_backet_recycle now n (init_root now MMSIG_USED MMFLG_CLOSE 0 0 ?P m)))" by (simp add: m0_def)
    with r False show ?thesis
      unfolding rebuild_page_def m3_def m2_def by (simp add: Let_def)
  qed
  have "sys_only m2 m3" by (simp add: m3_def sys_only_updates) (simp add: sys_only_def)
  then have so: "sys_only m2 (rebuild_page now n m)"
    unfolding rp using sys_only_trans [OF _ sys_only_updates(2)] by simp
  show "page_rebuilt cid n m (rebuild_page now n m)"
  proof (rule page_rebuilt_then [OF n p1 u _ _ _ _ _ so [unfolded m2_def]])
    show "block m (n, a) = {?P + a + 16 ..< ?P + a + E' a - 16}" if "a \<in> set us" for a
      using e [OF that] e1 that by simp
    show "m1 (?P + a + i) = m (?P + a + i)" if "a \<in> set us" "i < E' a" for a i
      using b1 b [OF that(1)] e1 that by simp
    show "m1 i = m i" if "PAGE_SIZE \<le> i" "i < ?P \<or> ?P + PAGE_SIZE \<le> i" for i
      using out1 that out [OF that] by metis
    show "is_bit m1 c k = is_bit m c k" if "c \<in> {1..10}" "k < PAGE_CNT" "k \<noteq> n" for c k
      using bits1 bits that by simp
    show "us = [] \<longrightarrow> bk' = MMPOS_BCKT_INIT \<and> (\<forall>c\<in>{DC_032, DC_128, DC_512, DC_2K}. is_bit m1 c n)"
      using bk dc by blast
  qed
qed

text \<open>All pages in turn: a step on one page keeps what the others have.\<close>

definition rebuilds :: "u32 \<Rightarrow> (nat \<Rightarrow> mem \<Rightarrow> bool) \<Rightarrow> (nat \<Rightarrow> mem \<Rightarrow> mem) \<Rightarrow> bool" where
  "rebuilds cid pre f \<longleftrightarrow>
     (\<forall>n\<in>{1..<PAGE_CNT}. \<forall>m. pre n m \<longrightarrow> page_rebuilt cid n m (f n m)) \<and>
     (\<forall>n\<in>{1..<PAGE_CNT}. \<forall>m m'. (\<forall>i. MMPOS_USRPAGE n \<le> i \<and> i < MMPOS_USRPAGE n + PAGE_SIZE \<longrightarrow> m' i = m i) \<longrightarrow>
        pre n m \<longrightarrow> pre n m')"

lemma page_facts_cong:
  assumes "\<forall>i. MMPOS_USRPAGE n \<le> i \<and> i < MMPOS_USRPAGE n + PAGE_SIZE \<longrightarrow> m' i = m i"
  shows "page_inv cid m' n = page_inv cid m n" "used_in cid m' n = used_in cid m n"
    "a \<in> used_in cid m n \<Longrightarrow> block m' (n, a) = block m (n, a) \<and> (\<forall>i\<in>block m (n, a). m' i = m i)"
    "h_signature m' (MMPOS_USRPAGE n) = h_signature m (MMPOS_USRPAGE n)"
proof -
  have p: "page_ok cid m' (MMPOS_USRPAGE n) E us fs bk = page_ok cid m (MMPOS_USRPAGE n) E us fs bk" for E us fs bk
    using page_ok_cong [of "MMPOS_USRPAGE n" m m' cid E us fs bk]
      page_ok_cong [of "MMPOS_USRPAGE n" m' m cid E us fs bk] assms by auto
  then show "page_inv cid m' n = page_inv cid m n" "used_in cid m' n = used_in cid m n"
    by (simp_all add: page_inv_def used_in_def)
  show "h_signature m' (MMPOS_USRPAGE n) = h_signature m (MMPOS_USRPAGE n)"
    unfolding h_signature_def using assms by (intro ld32_cong) auto
  show "block m' (n, a) = block m (n, a) \<and> (\<forall>i\<in>block m (n, a). m' i = m i)" if "a \<in> used_in cid m n"
  proof -
    from that obtain E us fs bk where q: "page_ok cid m (MMPOS_USRPAGE n) E us fs bk" "a \<in> set us"
      by (auto simp: used_in_def)
    then have a: "a \<in> set (us @ fs)" by simp
    have "block m' (n, a) = block m (n, a)"
      using used_block [OF q] used_block [of cid m' n E us fs bk a] q p by simp
    moreover have "\<forall>i\<in>block m (n, a). m' i = m i"
      using block_bounds(2) [OF q(1) a] assms by blast
    ultimately show ?thesis ..
  qed
qed

lemma page_empty_cong:
  assumes "\<forall>i. MMPOS_USRPAGE n \<le> i \<and> i < MMPOS_USRPAGE n + PAGE_SIZE \<longrightarrow> m' i = m i"
    and "\<And>c. c \<in> {1..10} \<Longrightarrow> is_bit m' c n = is_bit m c n" and p: "page_inv cid m n"
  shows "page_empty m' n = page_empty m n"
proof -
  from p obtain E us fs bk where q: "page_ok cid m (MMPOS_USRPAGE n) E us fs bk" by (auto simp: page_inv_def)
  have "page_ok cid m' (MMPOS_USRPAGE n) E us fs bk"
    using page_ok_cong [OF _ q, of m'] assms(1) by blast
  then have "bucket_len m' n = bucket_len m n" using bucket_len_eq q by simp
  then show ?thesis using assms(2) by (simp add: page_empty_def)
qed

lemma fold_rebuilds:
  assumes f: "rebuilds cid pre f" and ns: "set ns \<subseteq> {1..<PAGE_CNT}" "distinct ns" and pre: "\<forall>n\<in>set ns. pre n m"
  shows "(\<forall>n\<in>set ns. page_inv cid (fold f ns m) n \<and> \<not> is_bit (fold f ns m) SYSPAGE_ERR n \<and>
      used_in cid (fold f ns m) n = used_in cid m n \<and> (used_in cid m n = {} \<longrightarrow> page_empty (fold f ns m) n) \<and>
      (\<forall>a\<in>used_in cid m n. block (fold f ns m) (n, a) = block m (n, a) \<and> (\<forall>i\<in>block m (n, a). fold f ns m i = m i))) \<and>
    (\<forall>k\<in>{1..<PAGE_CNT} - set ns. (\<forall>c\<in>{1..10}. is_bit (fold f ns m) c k = is_bit m c k) \<and>
      (\<forall>i. MMPOS_USRPAGE k \<le> i \<and> i < MMPOS_USRPAGE k + PAGE_SIZE \<longrightarrow> fold f ns m i = m i))"
  using ns pre
proof (induction ns arbitrary: m)
  case (Cons n ns)
  let ?m = "f n m" and ?r = "fold f ns (f n m)"
  have n: "n \<in> {1..<PAGE_CNT}" using Cons.prems(1) by simp
  have step: "page_rebuilt cid n m ?m" using f n Cons.prems(3) unfolding rebuilds_def by simp
  have other: "?m i = m i" if "k \<in> {1..<PAGE_CNT}" "k \<noteq> n" "MMPOS_USRPAGE k \<le> i" "i < MMPOS_USRPAGE k + PAGE_SIZE" for k i
  proof -
    have "PAGE_SIZE \<le> i" using that(1,3) by (simp add: MMPOS_USRPAGE_def)
    then show ?thesis
      using step page_apart [OF that(2,4,3)] unfolding page_rebuilt_def by blast
  qed
  have pre': "\<forall>k\<in>set ns. pre k ?m"
  proof
    fix k
    assume k: "k \<in> set ns"
    then have kk: "k \<in> {1..<PAGE_CNT}" "k \<noteq> n" "pre k m" using Cons.prems by auto
    then show "pre k ?m" using f other unfolding rebuilds_def by blast
  qed
  have IH1: "\<forall>n\<in>set ns. page_inv cid ?r n \<and> \<not> is_bit ?r SYSPAGE_ERR n \<and> used_in cid ?r n = used_in cid ?m n \<and>
      (used_in cid ?m n = {} \<longrightarrow> page_empty ?r n) \<and>
      (\<forall>a\<in>used_in cid ?m n. block ?r (n, a) = block ?m (n, a) \<and> (\<forall>i\<in>block ?m (n, a). ?r i = ?m i))"
    and IH2: "\<forall>k\<in>{1..<PAGE_CNT} - set ns. (\<forall>c\<in>{1..10}. is_bit ?r c k = is_bit ?m c k) \<and>
      (\<forall>i. MMPOS_USRPAGE k \<le> i \<and> i < MMPOS_USRPAGE k + PAGE_SIZE \<longrightarrow> ?r i = ?m i)"
    using Cons.IH [of ?m] Cons.prems pre' by simp_all
  have bitk: "is_bit ?m c k = is_bit m c k" if "c \<in> {1..10}" "k \<in> {1..<PAGE_CNT}" "k \<noteq> n" for c k
    using step that unfolding page_rebuilt_def by simp
  have c2: "\<forall>k\<in>{1..<PAGE_CNT} - set (n # ns). (\<forall>c\<in>{1..10}. is_bit (fold f (n # ns) m) c k = is_bit m c k) \<and>
      (\<forall>i. MMPOS_USRPAGE k \<le> i \<and> i < MMPOS_USRPAGE k + PAGE_SIZE \<longrightarrow> fold f (n # ns) m i = m i)"
  proof (intro ballI conjI allI impI)
    fix k
    assume k: "k \<in> {1..<PAGE_CNT} - set (n # ns)"
    then show "is_bit (fold f (n # ns) m) c k = is_bit m c k" if "c \<in> {1..10}" for c
      using IH2 bitk [OF that, of k] that by simp
    show "fold f (n # ns) m i = m i" if "MMPOS_USRPAGE k \<le> i \<and> i < MMPOS_USRPAGE k + PAGE_SIZE" for i
    proof -
      have "?r i = ?m i" using IH2 k that by auto
      also have "\<dots> = m i" by (rule other) (use k that in auto)
      finally show ?thesis by simp
    qed
  qed
  have c1: "\<forall>j\<in>set (n # ns). page_inv cid (fold f (n # ns) m) j \<and> \<not> is_bit (fold f (n # ns) m) SYSPAGE_ERR j \<and>
      used_in cid (fold f (n # ns) m) j = used_in cid m j \<and>
      (used_in cid m j = {} \<longrightarrow> page_empty (fold f (n # ns) m) j) \<and>
      (\<forall>a\<in>used_in cid m j. block (fold f (n # ns) m) (j, a) = block m (j, a) \<and>
        (\<forall>i\<in>block m (j, a). fold f (n # ns) m i = m i))"
  proof
    fix j
    assume j: "j \<in> set (n # ns)"
    show "page_inv cid (fold f (n # ns) m) j \<and> \<not> is_bit (fold f (n # ns) m) SYSPAGE_ERR j \<and>
      used_in cid (fold f (n # ns) m) j = used_in cid m j \<and>
      (used_in cid m j = {} \<longrightarrow> page_empty (fold f (n # ns) m) j) \<and>
      (\<forall>a\<in>used_in cid m j. block (fold f (n # ns) m) (j, a) = block m (j, a) \<and>
        (\<forall>i\<in>block m (j, a). fold f (n # ns) m i = m i))"
    proof (cases "j = n")
      case True
      have nn: "n \<in> {1..<PAGE_CNT} - set ns" using Cons.prems by simp
      then have same: "\<forall>i. MMPOS_USRPAGE n \<le> i \<and> i < MMPOS_USRPAGE n + PAGE_SIZE \<longrightarrow> ?r i = ?m i"
        using IH2 by blast
      have er: "is_bit ?r c n = is_bit ?m c n" if "c \<in> {1..10}" for c using IH2 nn that by blast
      note pc = page_facts_cong(1-3) [OF same, where cid = cid]
      have st: "page_inv cid ?m n" "used_in cid ?m n = used_in cid m n" "\<not> is_bit ?m SYSPAGE_ERR n"
        "\<And>a. a \<in> used_in cid m n \<Longrightarrow> block ?m (n, a) = block m (n, a) \<and> (\<forall>i\<in>block m (n, a). ?m i = m i)"
        "used_in cid m n = {} \<longrightarrow> page_empty ?m n"
        using step unfolding page_rebuilt_def by blast+
      have pe: "page_empty ?r n = page_empty ?m n" by (rule page_empty_cong [OF same _ st(1)]) (rule er)
      have "block ?r (n, a) = block m (n, a) \<and> (\<forall>i\<in>block m (n, a). ?r i = m i)" if "a \<in> used_in cid m n" for a
        using pc(3) [of a] st(2) st(4) [OF that] that by simp
      then show ?thesis using st(1-3,5) pc(1,2) er [of SYSPAGE_ERR] pe by (simp add: True)
    next
      case False
      then have jn: "j \<in> set ns" "j \<in> {1..<PAGE_CNT}" using j Cons.prems(1) by auto
      have same: "\<forall>i. MMPOS_USRPAGE j \<le> i \<and> i < MMPOS_USRPAGE j + PAGE_SIZE \<longrightarrow> ?m i = m i"
        using other [OF jn(2) False] by blast
      note pc = page_facts_cong(1-3) [OF same, where cid = cid]
      have st: "page_inv cid ?r j" "used_in cid ?r j = used_in cid ?m j" "\<not> is_bit ?r SYSPAGE_ERR j"
        "\<And>a. a \<in> used_in cid ?m j \<Longrightarrow> block ?r (j, a) = block ?m (j, a) \<and> (\<forall>i\<in>block ?m (j, a). ?r i = ?m i)"
        "used_in cid ?m j = {} \<longrightarrow> page_empty ?r j"
        using IH1 jn(1) by blast+
      have "block ?r (j, a) = block m (j, a) \<and> (\<forall>i\<in>block m (j, a). ?r i = m i)" if "a \<in> used_in cid m j" for a
        using pc(3) [OF that] pc(2) st(4) [of a] that by simp
      then show ?thesis using st(1-3,5) pc(2) by simp
    qed
  qed
  show ?case using c1 c2 by (rule conjI)
qed simp

end
