(* ===== verification/Smmr_Store.thy ===== *)
theory Smmr_Store
  imports Smmr_Rebuild
begin

text \<open>
  The allocator's contract, over the life of a category file: an empty file is formatted, a file of
  an earlier run keeps its blocks, \<open>shmalloc\<close> hands out blocks that overlap no other and succeeds
  where there is room, \<open>shmfree\<close> releases exactly one block and a second call does nothing, and
  \<open>attach\<close> finds a block again by its size and its first word.
\<close>

section \<open>Opening a file\<close>

text \<open>What a category file may hold when it is opened: pages that no run has formatted yet, and
  pages that satisfy the invariant.\<close>

definition cat_openable :: "u32 \<Rightarrow> mem \<Rightarrow> bool" where
  "cat_openable cid m \<longleftrightarrow>
     (\<forall>n\<in>{1..<PAGE_CNT}. h_signature m (MMPOS_USRPAGE n) \<noteq> MMSIG_USED \<or> page_inv cid m n)"

lemma rebuilds_rebuild_page:
  "rebuilds cid (\<lambda>n m. h_signature m (MMPOS_USRPAGE n) \<noteq> MMSIG_USED \<or> page_inv cid m n) (rebuild_page now)"
  unfolding rebuilds_def using rebuild_page_ok(1) page_facts_cong(1,4) by metis

lemma rebuilds_statics_page: "rebuilds cid (\<lambda>n m. page_inv cid m n) (statics_page now)"
  unfolding rebuilds_def using statics_page_ok page_facts_cong(1) by metis

text \<open>The blocks of all pages, whatever the error bits say.\<close>

definition all_blocks :: "u32 \<Rightarrow> mem \<Rightarrow> blk set" where
  "all_blocks cid m = {(n, off). n \<in> {1..<PAGE_CNT} \<and> off \<in> used_in cid m n}"

definition keeps_blocks :: "u32 \<Rightarrow> mem \<Rightarrow> mem \<Rightarrow> bool" where
  "keeps_blocks cid m m' \<longleftrightarrow>
     cat_ok cid m' \<and> (\<forall>n\<in>{1..<PAGE_CNT}. \<not> is_bit m' SYSPAGE_ERR n) \<and> live cid m' = all_blocks cid m \<and>
     (\<forall>b\<in>all_blocks cid m. block m' b = block m b \<and> (\<forall>i\<in>block m b. m' i = m i)) \<and>
     (\<forall>n\<in>{1..<PAGE_CNT}. used_in cid m n = {} \<longrightarrow> page_empty m' n)"

lemma fold_rebuilds_all:
  assumes f: "rebuilds cid pre f" and pre: "\<forall>n\<in>{1..<PAGE_CNT}. pre n m"
  shows "keeps_blocks cid m (fold f [1..<PAGE_CNT] m)"
proof -
  let ?r = "fold f [1..<PAGE_CNT] m"
  have "set [1..<PAGE_CNT] \<subseteq> {1..<PAGE_CNT}" "distinct [1..<PAGE_CNT]" "\<forall>n\<in>set [1..<PAGE_CNT]. pre n m"
    using pre by (simp_all only: set_upt distinct_upt subset_refl)
  from fold_rebuilds [OF f this]
  have r: "\<forall>n\<in>{1..<PAGE_CNT}. page_inv cid ?r n \<and> \<not> is_bit ?r SYSPAGE_ERR n \<and> used_in cid ?r n = used_in cid m n \<and>
      (used_in cid m n = {} \<longrightarrow> page_empty ?r n) \<and>
      (\<forall>a\<in>used_in cid m n. block ?r (n, a) = block m (n, a) \<and> (\<forall>i\<in>block m (n, a). ?r i = m i))"
    unfolding set_upt by blast
  then have "live cid ?r = all_blocks cid m" unfolding live_def all_blocks_def by auto
  then show ?thesis
    using r unfolding keeps_blocks_def cat_ok_def all_blocks_def by auto
qed

lemma sys_only_blocks:
  assumes "sys_only m m'"
  shows "all_blocks cid m' = all_blocks cid m" "cat_openable cid m' = cat_openable cid m"
    "b \<in> all_blocks cid m \<Longrightarrow> block m' b = block m b \<and> (\<forall>i\<in>block m b. m' i = m i)"
    "n \<in> {1..<PAGE_CNT} \<Longrightarrow> used_in cid m' n = used_in cid m n"
proof -
  have s: "\<forall>i. MMPOS_USRPAGE n \<le> i \<and> i < MMPOS_USRPAGE n + PAGE_SIZE \<longrightarrow> m' i = m i" if "n \<in> {1..<PAGE_CNT}" for n
  proof (intro allI impI)
    fix i
    assume "MMPOS_USRPAGE n \<le> i \<and> i < MMPOS_USRPAGE n + PAGE_SIZE"
    then have "SYSPAGE_SIZE \<le> i" using that by (simp add: MMPOS_USRPAGE_def)
    then show "m' i = m i" using assms unfolding sys_only_def by blast
  qed
  show "all_blocks cid m' = all_blocks cid m" "cat_openable cid m' = cat_openable cid m"
    unfolding all_blocks_def cat_openable_def using page_facts_cong(1,2,4) [OF s] by auto
  show "b \<in> all_blocks cid m \<Longrightarrow> block m' b = block m b \<and> (\<forall>i\<in>block m b. m' i = m i)"
    unfolding all_blocks_def using page_facts_cong(3) [OF s] by auto
  show "n \<in> {1..<PAGE_CNT} \<Longrightarrow> used_in cid m' n = used_in cid m n"
    using page_facts_cong(2) [OF s] by auto
qed

lemma keeps_blocks_sys:
  assumes "keeps_blocks cid m1 m'" "sys_only m m1"
  shows "keeps_blocks cid m m'"
  using assms(1) sys_only_blocks [OF assms(2), where cid = cid] unfolding keeps_blocks_def by metis

lemma rebuild_pages_area_nth:
  assumes "idx < length cats" "cats ! idx = (fsize, m)"
  shows "rebuild_pages_area now cats ! idx = fold (rebuild_page now) [1..<PAGE_CNT] (init_sys idx fsize m)"
  using assms by (simp add: rebuild_pages_area_def nth_enumerate_eq)

lemma rebuild_keeps:
  assumes "idx < length cats" "cats ! idx = (fsize, m)" "cat_openable cid m"
  shows "keeps_blocks cid m (rebuild_pages_area now cats ! idx)"
proof -
  have "cat_openable cid (init_sys idx fsize m)"
    using sys_only_blocks(2) [OF sys_only_updates(4)] assms(3) by blast
  then show ?thesis
    unfolding rebuild_pages_area_nth [OF assms(1,2)]
    by (intro keeps_blocks_sys [OF fold_rebuilds_all [OF rebuilds_rebuild_page] sys_only_updates(4)])
       (simp add: cat_openable_def)
qed

text \<open>An empty file.\<close>

definition empty_file :: mem where
  "empty_file = (\<lambda>_. 0)"

lemma ld32_empty: "ld32 empty_file a = 0"
proof -
  have "ld_bytes empty_file a 4 = to_le 4 (0 :: u32)"
    by (rule nth_equalityI) (simp_all add: empty_file_def)
  then show ?thesis unfolding ld32_def by (simp add: of_le_to_le)
qed

lemma empty_file_openable: "cat_openable cid empty_file" "all_blocks cid empty_file = {}"
proof -
  show "cat_openable cid empty_file" by (simp add: cat_openable_def h_signature_def ld32_empty)
  have "\<not> page_ok cid empty_file P E us fs bk" for P E us fs bk
    using page_okD(2) [of cid empty_file P E us fs bk]
    by (auto simp: list_ok_def h_signature_def ld32_empty)
  then show "all_blocks cid empty_file = {}" by (simp add: all_blocks_def used_in_def)
qed

section \<open>Writing into a block\<close>

lemma page_ok_user:
  assumes p: "page_ok cid m P E us fs bk" and a: "a \<in> set (us @ fs)"
    and same: "\<And>i. i \<notin> {P + a + 16 ..< P + a + E a - 16} \<Longrightarrow> m' i = m i"
  shows "page_ok cid m' P E us fs bk"
proof -
  note d = page_okD [OF p] and ar = geometry_area [OF page_okD(1) [OF p]]
  note b = item_bounds [OF p a]
  have aI: "a \<in> parts (us @ fs) bk" using a by (simp add: parts_def)
  have far: "far E (parts (us @ fs) bk)" using d(1) unfolding geometry_def by blast
  have out: "m' i = m i" if "i < P + a + 16 \<or> P + a + E a \<le> i" for i
    using that by (intro same) auto
  have sub: "set (MMPOS_USED_ROOT # us) \<subseteq> parts (us @ fs) bk" "set (MMPOS_FREE_ROOT # fs) \<subseteq> parts (us @ fs) bk"
    "{MMPOS_USED_ROOT, MMPOS_FREE_ROOT} \<union> set us \<union> set fs \<subseteq> parts (us @ fs) bk" "roots \<subseteq> parts (us @ fs) bk"
    and R: "MMPOS_USED_ROOT \<in> roots" "MMPOS_FREE_ROOT \<in> roots" "MMPOS_BCKT_ROOT \<in> parts (us @ fs) bk"
    "bk \<in> parts (us @ fs) bk" "MMPOS_BCKT_ROOT \<in> roots"
    by (auto simp: parts_def roots_def)
  have h: "h_next m' (P + c) = h_next m (P + c)" "h_prev m' (P + c) = h_prev m (P + c)"
    "h_signature m' (P + c) = h_signature m (P + c)" "h_len m' (P + c) = h_len m (P + c)"
    if "c \<in> parts (us @ fs) bk" for c
    using body_fields(1-4) [OF ar aI b(5) out that] by simp_all
  have r: "r_last m' (P + r) = r_last m (P + r)" if "r \<in> roots" for r
    using body_fields(5) [OF ar aI b(5) out that] by simp
  have w: "ld32 m' (P + c + k) = ld32 m (P + c + k)"
    if c: "c \<in> parts (us @ fs) bk" "k + 4 \<le> E c" "c = a \<longrightarrow> E a \<le> k + 16" for c k
  proof (rule ld32_cong)
    fix i
    assume i: "P + c + k \<le> i" "i < P + c + k + 4"
    show "m' i = m i"
    proof (cases "c = a")
      case True
      then show ?thesis using i c b(3) by (intro same) auto
    next
      case False
      then have "a + E a \<le> c \<or> c + E c \<le> a" using far aI c(1) unfolding far_def by metis
      then show ?thesis using i c(2) by (intro out) arith
    qed
  qed
  show ?thesis
  proof (rule page_okI [OF d(1)])
    show "list_ok m' P MMSIG_USED MMPOS_USED_ROOT us"
      by (rule list_ok_same [OF d(2) _ subset_refl r [OF R(1)]]) (unfold same_links_def, use h sub(1) in blast)
    show "list_ok m' P MMSIG_FREE MMPOS_FREE_ROOT fs"
      by (rule list_ok_same [OF d(3) _ subset_refl r [OF R(2)]]) (unfold same_links_def, use h sub(2) in blast)
    show "h_next m' (P + MMPOS_BCKT_ROOT) = of_nat bk" using h(1) [OF R(3)] d(4) by simp
    show "unat (h_len m' (P + bk)) = 131016 - bk" using h(4) [OF R(4)] d(5) by simp
    have e56: "\<forall>r\<in>roots. E r = 56" using d(1) unfolding geometry_def by blast
    have "a \<noteq> MMPOS_BCKT_ROOT" using b(1) by auto
    then have "ld32 m' (P + MMPOS_BCKT_ROOT + 44) = ld32 m (P + MMPOS_BCKT_ROOT + 44)"
      using e56 R by (intro w) auto
    then show "roots_ok m' P"
      using d(7) h R(3) sub(4) unfolding roots_ok_def by auto
    show "feet_ok cid m' P E ({MMPOS_USED_ROOT, MMPOS_FREE_ROOT} \<union> set us \<union> set fs)"
      unfolding feet_ok_def
    proof (intro ballI conjI impI)
      fix c
      assume c: "c \<in> {MMPOS_USED_ROOT, MMPOS_FREE_ROOT} \<union> set us \<union> set fs"
      then have cp: "c \<in> parts (us @ fs) bk" using sub(3) by blast
      note fa = d(6) [unfolded feet_ok_def, rule_format, OF c]
      have ec: "36 \<le> E c"
        using c e56 R item_bounds(3) [OF p, of c] by auto
      show "unat (h_len m' (P + c)) = E c" using fa h(4) [OF cp] by simp
      have "ld32 m' (P + c + (E c - 12)) = ld32 m (P + c + (E c - 12))" using ec by (intro w [OF cp]) auto
      then show "ld32 m' (P + c + (E c - 12)) = MMSIG_SUFX" using fa by simp
      have "ld32 m' (P + c + (E c - 8)) = ld32 m (P + c + (E c - 8))" using ec by (intro w [OF cp]) auto
      then show "ld32 m' (P + c + (E c - 8)) = cid" if "c \<notin> roots" using fa that by simp
    qed
  qed
qed

text \<open>A program that stays within its block changes nothing that the allocator relies on.\<close>

lemma user_write_ok:
  assumes c: "cat_ok cid m" and b: "b \<in> live cid m" and same: "\<And>i. i \<notin> block m b \<Longrightarrow> m' i = m i"
  shows "cat_ok cid m'" "live cid m' = live cid m" "\<And>d. d \<in> live cid m \<Longrightarrow> block m' d = block m d"
    "\<And>c k. c \<le> 10 \<Longrightarrow> k < PAGE_CNT \<Longrightarrow> is_bit m' c k = is_bit m c k"
proof -
  obtain n a where na: "b = (n, a)" by (cases b)
  have n: "n \<in> {1..<PAGE_CNT}" "\<not> is_bit m SYSPAGE_ERR n" "a \<in> used_in cid m n" using b na by (auto simp: live_def)
  then obtain E us fs bk where p: "page_ok cid m (MMPOS_USRPAGE n) E us fs bk" and a: "a \<in> set us"
    by (auto simp: used_in_def)
  then have a': "a \<in> set (us @ fs)" by simp
  note bb = block_bounds [OF p a']
  have p': "page_ok cid m' (MMPOS_USRPAGE n) E us fs bk"
    by (rule page_ok_user [OF p a'], rule same) (simp add: na bb(1))
  have out: "m' i = m i" if "i < MMPOS_USRPAGE n \<or> MMPOS_USRPAGE n + PAGE_SIZE \<le> i" for i
    using bb(2) [of i] that na by (intro same) auto
  have "PAGE_SIZE \<le> MMPOS_USRPAGE n" using n(1) by (simp add: MMPOS_USRPAGE_def)
  then show bit: "\<And>c k. c \<le> 10 \<Longrightarrow> k < PAGE_CNT \<Longrightarrow> is_bit m' c k = is_bit m c k"
    by (intro is_bit_cong out) auto
  have eq: "page_ok cid m' (MMPOS_USRPAGE k) F vs gs bv \<longleftrightarrow> page_ok cid m (MMPOS_USRPAGE k) F vs gs bv"
    if "k \<noteq> n" for k F vs gs bv
    using page_apart [OF that] out page_ok_cong [of "MMPOS_USRPAGE k" m' m] page_ok_cong [of "MMPOS_USRPAGE k" m m']
    by metis
  have inv: "page_inv cid m' k = page_inv cid m k" and us: "used_in cid m' k = used_in cid m k" for k
    using eq [of k] p p' used_in_eq [OF p] used_in_eq [OF p']
    by (cases "k = n"; auto simp: page_inv_def used_in_def)+
  show "cat_ok cid m'" using c inv bit [of SYSPAGE_ERR] by (simp add: cat_ok_def)
  show l: "live cid m' = live cid m" using us bit [of SYSPAGE_ERR] by (auto simp: live_def)
  show "block m' d = block m d" if dl: "d \<in> live cid m" for d
  proof -
    obtain k x where kx: "d = (k, x)" by (cases d)
    then obtain F vs gs bv where q: "page_ok cid m (MMPOS_USRPAGE k) F vs gs bv" "x \<in> set vs"
      using dl by (auto simp: live_def used_in_def)
    have "page_ok cid m' (MMPOS_USRPAGE k) F vs gs bv \<or> k = n" using eq q(1) by blast
    then show ?thesis
    proof
      assume "page_ok cid m' (MMPOS_USRPAGE k) F vs gs bv"
      then show ?thesis using used_block q kx by simp
    next
      assume kn: "k = n"
      then have "x \<in> set us" using page_ok_unique(1) [OF p] q by blast
      then show ?thesis using used_block [OF p] used_block [OF p'] kx kn by simp
    qed
  qed
qed

lemma live_blocks_disjoint:
  assumes "b \<in> live cid m" "d \<in> live cid m" "b \<noteq> d"
  shows "block m b \<inter> block m d = {}"
proof -
  obtain n a k x where na: "b = (n, a)" and kx: "d = (k, x)" by (cases b, cases d)
  obtain E us fs bk where p: "page_ok cid m (MMPOS_USRPAGE n) E us fs bk" and a: "a \<in> set us"
    using assms(1) na by (auto simp: live_def used_in_def)
  obtain F vs gs bv where q: "page_ok cid m (MMPOS_USRPAGE k) F vs gs bv" and x: "x \<in> set vs"
    using assms(2) kx by (auto simp: live_def used_in_def)
  have a': "a \<in> set (us @ fs)" and x': "x \<in> set (vs @ gs)" using a x by simp_all
  show ?thesis
  proof (cases "n = k")
    case True
    then have "x \<in> set (us @ fs)" using page_ok_unique(1) [OF p] q x by auto
    then show ?thesis
      using blocks_disjoint [OF p a'] assms(3) na kx True by blast
  next
    case False
    show ?thesis
      using block_bounds(2) [OF p a'] block_bounds(2) [OF q x'] page_apart [OF False]
      unfolding na kx by (fastforce simp: disjoint_iff)
  qed
qed

section \<open>Room\<close>

lemma alloc_from_page_some:
  assumes c: "cat_ok cid m" and n: "n \<in> {1..<PAGE_CNT}" "\<not> is_bit m SYSPAGE_ERR n" and al: "4 \<le> al"
    and dc: "is_bit m dc n" and room: "al + 32 \<le> bucket_len m n"
  shows "fst (alloc_from_page now cid al (dc, free) n m) \<noteq> None"
proof -
  let ?P = "MMPOS_USRPAGE n"
  from c n obtain E us fs bk where p: "page_ok cid m ?P E us fs bk" by (auto simp: cat_ok_def page_inv_def)
  have bk: "al + 32 \<le> 131016 - bk" using room bucket_len_eq [OF p] by simp
  obtain o1 m1 where r1: "(if is_bit m free n then operate_recycle ?P al m else (0, m)) = (o1, m1)"
    by (metis surj_pair)
  show ?thesis
  proof (cases "o1 = 0")
    case False
    then show ?thesis using n(2) r1 by (simp add: alloc_from_page_def Let_def)
  next
    case True
    then have m1: "m1 = m" using r1 operate_recycle_ok [OF p, of al o1 m1] by (auto split: if_splits)
    obtain o2 m2 where oi: "operate_insert now cid ?P al m = (o2, m2)" by (metis surj_pair)
    have "o2 = bk" by (rule insert_page_ok(1) [OF p al bk oi])
    moreover have "168 \<le> bk" using page_okD(1) [OF p] unfolding geometry_def by blast
    ultimately have "o2 \<noteq> 0" by simp
    then show ?thesis using n(2) r1 True m1 oi dc by (simp add: alloc_from_page_def Let_def)
  qed
qed

lemma alloc_scan_some:
  assumes c: "cat_ok cid m" and al: "4 \<le> al" and rs: "\<forall>(bmps, n)\<in>set rs. n \<in> {1..<PAGE_CNT}"
    and q: "((dc, free), n) \<in> set rs" "\<not> is_bit m SYSPAGE_ERR n" "is_bit m dc n" "al + 32 \<le> bucket_len m n"
  shows "fst (alloc_scan now cid al rs m) \<noteq> None"
  using rs q(1)
proof (induction rs)
  case (Cons e rs)
  obtain d f k where e: "e = ((d, f), k)" by (metis surj_pair)
  obtain r m1 where r: "alloc_from_page now cid al (d, f) k m = (r, m1)" by (metis surj_pair)
  have k: "k \<in> {1..<PAGE_CNT}" using Cons.prems(1) e by auto
  have ok: "r = None \<and> m1 = m \<or> (\<exists>off. r = Some (Some (k, off)))"
    using alloc_from_page_ok [OF c k al r] by blast
  show ?case
  proof (cases r)
    case None
    have "((dc, free), n) \<noteq> e"
    proof
      assume "((dc, free), n) = e"
      then have "r \<noteq> None" using alloc_from_page_some [OF c k _ al, of dc now free] q r e by simp
      with None show False by simp
    qed
    then have "((dc, free), n) \<in> set rs" using Cons.prems(2) by simp
    then have "fst (alloc_scan now cid al rs m) \<noteq> None" using Cons.IH Cons.prems(1) by simp
    then show ?thesis using None ok r e by simp
  next
    case (Some x)
    then show ?thesis using ok r e by auto
  qed
qed simp

lemma mem_product_list: "(x, y) \<in> set [(x, y). x \<leftarrow> xs, y \<leftarrow> ys] \<longleftrightarrow> x \<in> set xs \<and> y \<in> set ys"
  by auto

lemma shmalloc_some:
  assumes c: "cat_ok cid m" and sz: "1 \<le> sz" "sz \<le> 2048"
    and n: "n \<in> {1..<PAGE_CNT}" "\<not> is_bit m SYSPAGE_ERR n" "is_bit m DC_2K n" "align4 sz + 32 \<le> bucket_len m n"
  shows "fst (shmalloc now cid sz m) \<noteq> None"
proof -
  let ?rs = "[(bmps, n). bmps \<leftarrow> drop (start_bmp_id (align4 sz)) bitmapids, n \<leftarrow> [1..<PAGE_CNT]]"
  have "shmalloc now cid sz m = alloc_scan now cid (align4 sz) ?rs m" using sz by (simp add: shmalloc_def)
  moreover have "(DC_2K, FREE_2K) \<in> set (drop (start_bmp_id (align4 sz)) bitmapids)"
    by (simp add: start_bmp_id_def bitmapids_def numeral_3_eq_3 numeral_2_eq_2)
  then have "((DC_2K, FREE_2K), n) \<in> set ?rs"
    using n(1) unfolding mem_product_list set_upt by blast
  moreover have "\<forall>(bmps, n)\<in>set ?rs. n \<in> {1..<PAGE_CNT}" by auto
  moreover have "4 \<le> align4 sz" using sz(1) by (simp add: align4_ge(2))
  ultimately show ?thesis using alloc_scan_some [OF c] n(2-4) by metis
qed

section \<open>Finding a block again\<close>

lemma attach_scan_ok:
  assumes "\<forall>n\<in>set ns. n \<in> {1..<PAGE_CNT} \<and> page_inv cid m n"
  shows "case attach_scan al itemid ns m of
      None \<Rightarrow> \<forall>n\<in>set ns. \<forall>off\<in>used_in cid m n. \<not> (user_len m (n, off) = al \<and> ld32 m (user_addr (n, off)) = itemid)
    | Some p \<Rightarrow> \<exists>n\<in>set ns. \<exists>off\<in>used_in cid m n. p = user_addr (n, off) \<and> user_len m (n, off) = al \<and> ld32 m p = itemid"
  using assms
proof (induction ns)
  case (Cons n ns)
  let ?P = "MMPOS_USRPAGE n"
  from Cons.prems obtain E us fs bk where p: "page_ok cid m ?P E us fs bk" by (auto simp: page_inv_def)
  let ?hit = "\<lambda>offset. offset \<noteq> MMPOS_USED_ROOT \<and> unat (h_len m (?P + offset)) = MMSIZ_HF_SIZE + al \<and>
    ld32 m (?P + offset + SIZEOF_HEAD) = itemid"
  have fi: "find_item MMSIG_USED MMPOS_MIN_OFST ?hit m ?P 0 MMPOS_USED_ROOT
      (?P + MMPOS_USED_ROOT + MMPOS_ROOT_FOOT) = find ?hit (MMPOS_USED_ROOT # us)"
    by (rule find_item_page(1) [OF p]) simp
  have hit: "?hit off \<longleftrightarrow> user_len m (n, off) = al \<and> ld32 m (user_addr (n, off)) = itemid"
    if "off \<in> set us" for off
  proof -
    have "36 \<le> unat (h_len m (?P + off))" "off \<noteq> MMPOS_USED_ROOT"
      using item_bounds(1,3,4) [OF p, of off] that by auto
    then show ?thesis by (auto simp: user_len_def user_addr_def)
  qed
  show ?case
  proof (cases "find ?hit (MMPOS_USED_ROOT # us)")
    case None
    then have "\<forall>off\<in>set us. \<not> ?hit off" by (auto simp: find_None_iff)
    then have "\<forall>off\<in>used_in cid m n. \<not> (user_len m (n, off) = al \<and> ld32 m (user_addr (n, off)) = itemid)"
      using hit used_in_eq [OF p] by blast
    moreover have "attach_scan al itemid (n # ns) m = attach_scan al itemid ns m"
      unfolding attach_scan.simps Let_def fi None by (simp only: option.case)
    ultimately show ?thesis using Cons by (auto split: option.splits)
  next
    case (Some off)
    from find_split [OF Some] obtain ys zs where "us = ys @ off # zs" "?hit off" by auto
    then have "off \<in> used_in cid m n" "user_len m (n, off) = al" "ld32 m (user_addr (n, off)) = itemid"
      using hit [of off] used_in_eq [OF p] by auto
    moreover have "attach_scan al itemid (n # ns) m = Some (user_addr (n, off))"
      unfolding attach_scan.simps Let_def fi Some by (simp add: user_addr_def)
    ultimately show ?thesis by auto
  qed
qed simp

lemma attach_live:
  assumes c: "cat_ok cid m" "\<forall>n\<in>{1..<PAGE_CNT}. \<not> is_bit m SYSPAGE_ERR n" and sz: "0 < sz"
  shows "case attach sz itemid m of
      None \<Rightarrow> \<forall>b\<in>live cid m. \<not> (user_len m b = align4 sz \<and> ld32 m (user_addr b) = itemid)
    | Some p \<Rightarrow> \<exists>b\<in>live cid m. p = user_addr b \<and> user_len m b = align4 sz \<and> ld32 m p = itemid"
proof -
  have "\<forall>n\<in>set [1..<PAGE_CNT]. n \<in> {1..<PAGE_CNT} \<and> page_inv cid m n"
    unfolding set_upt using c by (simp add: cat_ok_def)
  note a = attach_scan_ok [OF this, of "align4 sz" itemid, unfolded set_upt]
  have l: "(n, off) \<in> live cid m \<longleftrightarrow> n \<in> {1..<PAGE_CNT} \<and> off \<in> used_in cid m n" for n off
    using c(2) by (auto simp: live_def)
  have eq: "attach sz itemid m = attach_scan (align4 sz) itemid [1..<PAGE_CNT] m" using sz by (simp add: attach_def)
  have "b \<in> live cid m \<longleftrightarrow> fst b \<in> {1..<PAGE_CNT} \<and> snd b \<in> used_in cid m (fst b)" for b
    using l [of "fst b" "snd b"] by simp
  then have b: "(\<forall>b\<in>live cid m. Q b) \<longleftrightarrow> (\<forall>n\<in>{1..<PAGE_CNT}. \<forall>off\<in>used_in cid m n. Q (n, off))"
    and e: "(\<exists>b\<in>live cid m. Q b) \<longleftrightarrow> (\<exists>n\<in>{1..<PAGE_CNT}. \<exists>off\<in>used_in cid m n. Q (n, off))" for Q
    by (metis fst_conv snd_conv prod.collapse)+
  show ?thesis unfolding eq b e by (rule a)
qed

section \<open>The allocator as a heap of blocks\<close>

text \<open>
  The interface that the index and the database rely on: a set of live blocks, each a set of
  addresses; allocation adds a block away from the others, a release removes one, and both keep
  the bytes of the blocks that stay. The clients of one category interleave such calls.
\<close>

datatype 'b heap_op = Alloc nat | Release 'b

fun heap_run ::
  "(nat \<Rightarrow> 's \<Rightarrow> 'b option \<times> 's) \<Rightarrow> ('b \<Rightarrow> 's \<Rightarrow> 's) \<Rightarrow> 'b heap_op list \<Rightarrow> 's \<Rightarrow> 's" where
  "heap_run alloc release [] s = s"
| "heap_run alloc release (Alloc n # ops) s = heap_run alloc release ops (snd (alloc n s))"
| "heap_run alloc release (Release b # ops) s = heap_run alloc release ops (release b s)"

text \<open>Every release is of a block that is live at that moment.\<close>

fun heap_proper ::
  "(nat \<Rightarrow> 's \<Rightarrow> 'b option \<times> 's) \<Rightarrow> ('b \<Rightarrow> 's \<Rightarrow> 's) \<Rightarrow> ('s \<Rightarrow> 'b set) \<Rightarrow> 'b heap_op list \<Rightarrow> 's \<Rightarrow> bool" where
  "heap_proper alloc release alive [] s = True"
| "heap_proper alloc release alive (Alloc n # ops) s = heap_proper alloc release alive ops (snd (alloc n s))"
| "heap_proper alloc release alive (Release b # ops) s \<longleftrightarrow>
     b \<in> alive s \<and> heap_proper alloc release alive ops (release b s)"

locale block_heap =
  fixes ok :: "'s \<Rightarrow> bool" and alive :: "'s \<Rightarrow> 'b set" and blk :: "'s \<Rightarrow> 'b \<Rightarrow> nat set"
    and rd :: "'s \<Rightarrow> nat \<Rightarrow> u8"
    and alloc :: "nat \<Rightarrow> 's \<Rightarrow> 'b option \<times> 's" and release :: "'b \<Rightarrow> 's \<Rightarrow> 's"
  assumes apart: "ok s \<Longrightarrow> b \<in> alive s \<Longrightarrow> d \<in> alive s \<Longrightarrow> b \<noteq> d \<Longrightarrow> blk s b \<inter> blk s d = {}"
    and alloc_ok: "ok s \<Longrightarrow> ok (snd (alloc n s))"
    and alloc_live: "ok s \<Longrightarrow> b \<in> alive s \<Longrightarrow> b \<in> alive (snd (alloc n s))"
    and alloc_keeps: "ok s \<Longrightarrow> b \<in> alive s \<Longrightarrow>
      blk (snd (alloc n s)) b = blk s b \<and> (\<forall>i\<in>blk s b. rd (snd (alloc n s)) i = rd s i)"
    and release_ok: "ok s \<Longrightarrow> d \<in> alive s \<Longrightarrow> ok (release d s)"
    and release_live: "ok s \<Longrightarrow> d \<in> alive s \<Longrightarrow> alive (release d s) = alive s - {d}"
    and release_keeps: "ok s \<Longrightarrow> d \<in> alive s \<Longrightarrow> b \<in> alive s \<Longrightarrow>
      blk (release d s) b = blk s b \<and> (\<forall>i\<in>blk s b. rd (release d s) i = rd s i)"
begin

lemma run_ok: "ok s \<Longrightarrow> heap_proper alloc release alive ops s \<Longrightarrow> ok (heap_run alloc release ops s)"
proof (induction ops arbitrary: s)
  case (Cons a ops)
  then show ?case by (cases a) (auto intro: alloc_ok release_ok)
qed simp

lemma run_keeps:
  assumes "ok s" "heap_proper alloc release alive ops s" "b \<in> alive s" "Release b \<notin> set ops"
  shows "b \<in> alive (heap_run alloc release ops s) \<and> blk (heap_run alloc release ops s) b = blk s b \<and>
    (\<forall>i\<in>blk s b. rd (heap_run alloc release ops s) i = rd s i)"
  using assms
proof (induction ops arbitrary: s)
  case (Cons a ops)
  show ?case
  proof (cases a)
    case (Alloc n)
    then have "b \<in> alive (heap_run alloc release ops (snd (alloc n s))) \<and>
        blk (heap_run alloc release ops (snd (alloc n s))) b = blk (snd (alloc n s)) b \<and>
        (\<forall>i\<in>blk (snd (alloc n s)) b. rd (heap_run alloc release ops (snd (alloc n s))) i = rd (snd (alloc n s)) i)"
      using Cons.prems by (intro Cons.IH alloc_ok alloc_live) auto
    then show ?thesis using Alloc alloc_keeps [OF Cons.prems(1,3), of n] by simp
  next
    case (Release d)
    have d: "d \<in> alive s" "d \<noteq> b" using Cons.prems Release by auto
    then have "b \<in> alive (heap_run alloc release ops (release d s)) \<and>
        blk (heap_run alloc release ops (release d s)) b = blk (release d s) b \<and>
        (\<forall>i\<in>blk (release d s) b. rd (heap_run alloc release ops (release d s)) i = rd (release d s) i)"
      using Cons.prems Release by (intro Cons.IH release_ok) (auto simp: release_live)
    then show ?thesis using Release release_keeps [OF Cons.prems(1) d(1) Cons.prems(3)] by simp
  qed
qed simp

lemma run_apart:
  assumes "ok s" "heap_proper alloc release alive ops s"
    and "b \<in> alive (heap_run alloc release ops s)" "d \<in> alive (heap_run alloc release ops s)" "b \<noteq> d"
  shows "blk (heap_run alloc release ops s) b \<inter> blk (heap_run alloc release ops s) d = {}"
  using apart [OF run_ok [OF assms(1,2)] assms(3-5)] .

end

definition release_block :: "u32 \<Rightarrow> blk \<Rightarrow> mem \<Rightarrow> mem" where
  "release_block cid b m = shmfree cid (user_addr b) m"

lemma shmalloc_effect:
  assumes "cat_ok cid m"
  shows "fst (shmalloc now cid sz m) = None \<and> snd (shmalloc now cid sz m) = m \<or>
    (\<exists>a. fst (shmalloc now cid sz m) = Some a \<and> alloc_effect cid (align4 sz) m a (snd (shmalloc now cid sz m)))"
  using shmalloc_ok [OF assms, of now sz "fst (shmalloc now cid sz m)" "snd (shmalloc now cid sz m)"]
  by (auto split: option.splits)

interpretation category_heap:
  block_heap "cat_ok cid" "live cid" block "\<lambda>m. m" "shmalloc now cid" "release_block cid"
  for cid now
proof unfold_locales
  show "block m b \<inter> block m d = {}" if "b \<in> live cid m" "d \<in> live cid m" "b \<noteq> d" for m b d
    using that by (rule live_blocks_disjoint)
  show "cat_ok cid (snd (shmalloc now cid n m))" if "cat_ok cid m" for m n
    using shmalloc_effect [OF that, of now n] that by (auto simp: alloc_effect_def)
  show "b \<in> live cid (snd (shmalloc now cid n m))" if "cat_ok cid m" "b \<in> live cid m" for m b n
    using shmalloc_effect [OF that(1), of now n] that(2) by (auto simp: alloc_effect_def)
  show "block (snd (shmalloc now cid n m)) b = block m b \<and> (\<forall>i\<in>block m b. snd (shmalloc now cid n m) i = m i)"
    if "cat_ok cid m" "b \<in> live cid m" for m b n
    using shmalloc_effect [OF that(1), of now n] that(2) by (auto simp: alloc_effect_def)
  fix m d
  assume c: "cat_ok cid m" "d \<in> live cid m"
  note f = shmfree_live [OF c, folded release_block_def, unfolded free_effect_def]
  show "cat_ok cid (release_block cid d m)" "live cid (release_block cid d m) = live cid m - {d}"
    using f by blast+
  show "block (release_block cid d m) b = block m b \<and> (\<forall>i\<in>block m b. release_block cid d m i = m i)"
    if "b \<in> live cid m" for b using f that by blast
qed

section \<open>A freshly formatted category\<close>

abbreviation CATEGORY_SIZE :: nat where "CATEGORY_SIZE \<equiv> 134217728"

text \<open>Category \<open>idx\<close> after \<open>rebuild_pages_area\<close>.\<close>

definition formatted :: "nat \<Rightarrow> u32 \<Rightarrow> mem" where
  "formatted idx now = fold (rebuild_page now) [1..<PAGE_CNT] (init_sys idx CATEGORY_SIZE empty_file)"

lemma formatted_keeps: "keeps_blocks cid empty_file (formatted idx now)"
proof -
  have "keeps_blocks cid empty_file (rebuild_pages_area now (replicate (Suc idx) (CATEGORY_SIZE, empty_file)) ! idx)"
    by (rule rebuild_keeps) (simp_all add: empty_file_openable nth_replicate del: replicate_Suc)
  then show ?thesis
    unfolding formatted_def
    by (subst (asm) rebuild_pages_area_nth [where fsize = CATEGORY_SIZE and m = empty_file])
       (simp_all add: nth_replicate del: replicate_Suc)
qed

lemma formatted_ok:
  "cat_ok cid (formatted idx now)" "live cid (formatted idx now) = {}"
  "\<forall>n\<in>{1..<PAGE_CNT}. \<not> is_bit (formatted idx now) SYSPAGE_ERR n"
  "n \<in> {1..<PAGE_CNT} \<Longrightarrow> is_bit (formatted idx now) DC_2K n \<and> bucket_len (formatted idx now) n = MMSIZ_BCKT_INIT_SIZE"
proof -
  note k = formatted_keeps [of cid idx now, unfolded keeps_blocks_def]
  show "cat_ok cid (formatted idx now)" "live cid (formatted idx now) = {}"
    "\<forall>n\<in>{1..<PAGE_CNT}. \<not> is_bit (formatted idx now) SYSPAGE_ERR n"
    using k empty_file_openable(2) by blast+
  show "is_bit (formatted idx now) DC_2K n \<and> bucket_len (formatted idx now) n = MMSIZ_BCKT_INIT_SIZE"
    if "n \<in> {1..<PAGE_CNT}"
  proof -
    have "used_in cid empty_file n = {}" using empty_file_openable(2) [of cid] that by (auto simp: all_blocks_def)
    then have "page_empty (formatted idx now) n" using k that by blast
    then show ?thesis unfolding page_empty_def by simp
  qed
qed

lemma formatted_alloc:
  assumes "1 \<le> sz" "sz \<le> 2048"
  shows "\<exists>a. fst (shmalloc now cid sz (formatted idx now)) = Some a \<and>
    alloc_effect cid (align4 sz) (formatted idx now) a (snd (shmalloc now cid sz (formatted idx now)))"
proof -
  have al: "align4 sz \<le> 2048" using assms by (simp add: align4_def) presburger
  have "fst (shmalloc now cid sz (formatted idx now)) \<noteq> None"
    by (rule shmalloc_some [OF formatted_ok(1) assms, of 1]) (use formatted_ok(3,4) al in auto)
  then show ?thesis using shmalloc_effect [OF formatted_ok(1) [of cid idx now], of now sz] by auto
qed

section \<open>Properties\<close>

text \<open>C17. Opening the category files (\<open>rebuild_pages_area\<close>): a file whose pages are unformatted or
  consistent becomes a consistent category without an error page; exactly the blocks that were in
  use are in use, with their addresses and their bytes, and a page without a block in use is given
  back as a whole. So opening an existing file loses no block.\<close>

theorem rebuild_keeps_blocks:
  assumes "idx < length categories" "categories ! idx = (fsize, m)" "cat_openable cid m"
  shows "keeps_blocks cid m (rebuild_pages_area now categories ! idx)"
  using assms by (rule rebuild_keeps)

theorem rebuild_keeps_blocks_witness:
  "keeps_blocks 1 empty_file (rebuild_pages_area 0 [(7, empty_file), (134217728, empty_file)] ! 1)"
  by (rule rebuild_keeps_blocks) (simp_all add: empty_file_openable)

text \<open>C18. Rebuilding the summaries of a running category (\<open>rebuild_page_statics\<close>, which
  \<open>merge_page_to_category\<close> runs for every category) keeps every block in use and its bytes, and
  makes the pages without one whole again.\<close>

theorem statics_keep_blocks:
  assumes "\<forall>n\<in>{1..<PAGE_CNT}. page_inv cid m n"
  shows "keeps_blocks cid m (rebuild_page_statics now m)"
proof -
  have "\<forall>n\<in>{1..<PAGE_CNT}. page_inv cid (reset_sys_summary m) n"
  proof
    fix n
    assume n: "n \<in> {1..<PAGE_CNT}"
    have "\<forall>i. MMPOS_USRPAGE n \<le> i \<and> i < MMPOS_USRPAGE n + PAGE_SIZE \<longrightarrow> reset_sys_summary m i = m i"
      using sys_only_updates(3) [of m] n unfolding sys_only_def by (auto simp: MMPOS_USRPAGE_def)
    then show "page_inv cid (reset_sys_summary m) n" using page_facts_cong(1) assms n by blast
  qed
  then show ?thesis
    unfolding rebuild_page_statics_def
    by (intro keeps_blocks_sys [OF fold_rebuilds_all [OF rebuilds_statics_page] sys_only_updates(3)])
qed

theorem statics_keep_blocks_witness:
  "keeps_blocks 1 (formatted 0 0) (rebuild_page_statics 5 (formatted 0 0))"
  by (rule statics_keep_blocks) (use formatted_ok(1,3) in \<open>auto simp: cat_ok_def\<close>)

text \<open>C15. \<open>shmalloc\<close> on a consistent category either fails and changes nothing, or returns a block that
  was not in use, is at least as long as the size rounded up to four bytes, overlaps no block in
  use, and leaves the blocks in use and their bytes alone; the category stays consistent.\<close>

theorem shmalloc_contract:
  assumes "cat_ok cid m"
  shows "case shmalloc now cid sz m of
      (None, m') \<Rightarrow> m' = m
    | (Some a, m') \<Rightarrow> alloc_effect cid (align4 sz) m a m'"
proof (cases "shmalloc now cid sz m")
  case (Pair r m')
  from shmalloc_ok [OF assms Pair] show ?thesis unfolding Pair by (simp split: option.splits)
qed

theorem shmalloc_contract_witness:
  "case shmalloc 3 1 100 (formatted 0 0) of
      (None, m') \<Rightarrow> m' = formatted 0 0
    | (Some a, m') \<Rightarrow> alloc_effect 1 (align4 100) (formatted 0 0) a m'"
  by (rule shmalloc_contract) (rule formatted_ok)

text \<open>C19. \<open>shmalloc\<close> succeeds for every size from 1 to 2048 bytes while some page without an error has
  the bit of the largest size class on and room for the block, its head and its foot in the
  bucket.\<close>

theorem shmalloc_succeeds:
  assumes "cat_ok cid m" "1 \<le> sz" "sz \<le> 2048"
    and "n \<in> {1..<PAGE_CNT}" "\<not> is_bit m SYSPAGE_ERR n" "is_bit m DC_2K n" "align4 sz + 32 \<le> bucket_len m n"
  shows "\<exists>a m'. shmalloc now cid sz m = (Some a, m')"
  using shmalloc_some [OF assms, of now] by (cases "shmalloc now cid sz m") auto

theorem shmalloc_succeeds_witness: "\<exists>a m'. shmalloc 3 1 2048 (formatted 0 0) = (Some a, m')"
  by (rule shmalloc_succeeds [where n = 1023]) (use formatted_ok in \<open>auto simp: align4_def\<close>)

text \<open>C16. \<open>shmfree\<close> of a block in use takes exactly this block out of use and keeps the bytes of all
  blocks and the consistency of the category; a second \<open>shmfree\<close> of the same address changes
  nothing.\<close>

theorem shmfree_contract:
  assumes "cat_ok cid m" "a \<in> live cid m"
  shows "free_effect cid m a (shmfree cid (user_addr a) m) \<and>
    shmfree cid (user_addr a) (shmfree cid (user_addr a) m) = shmfree cid (user_addr a) m"
proof
  show f: "free_effect cid m a (shmfree cid (user_addr a) m)" using assms by (rule shmfree_live)
  then have "h_signature (shmfree cid (user_addr a) m) (user_addr a - SIZEOF_HEAD) \<noteq> MMSIG_USED"
    by (simp add: free_effect_def)
  then show "shmfree cid (user_addr a) (shmfree cid (user_addr a) m) = shmfree cid (user_addr a) m"
    by (simp add: shmfree_def [of _ _ "shmfree cid (user_addr a) m"] Let_def)
qed

theorem shmfree_contract_witness:
  "\<exists>a m. shmalloc 0 1 64 (formatted 0 0) = (Some a, m) \<and> free_effect 1 m a (shmfree 1 (user_addr a) m) \<and>
     shmfree 1 (user_addr a) (shmfree 1 (user_addr a) m) = shmfree 1 (user_addr a) m"
proof -
  from formatted_alloc [of 64 0 1 0] obtain a where a: "fst (shmalloc 0 1 64 (formatted 0 0)) = Some a"
    and e: "alloc_effect 1 (align4 64) (formatted 0 0) a (snd (shmalloc 0 1 64 (formatted 0 0)))" by auto
  have "cat_ok 1 (snd (shmalloc 0 1 64 (formatted 0 0)))" "a \<in> live 1 (snd (shmalloc 0 1 64 (formatted 0 0)))"
    using e by (auto simp: alloc_effect_def)
  from shmfree_contract [OF this] a show ?thesis by (metis prod.collapse)
qed

text \<open>C14. Any sequence of allocations and releases of the processes that share a category, in which a
  released block is in use at that moment: the category stays consistent, blocks in use at the end
  do not overlap, and a block that nobody released has kept its place and its bytes.\<close>

theorem allocator_runs_safe:
  assumes "cat_ok cid m" "heap_proper (shmalloc now cid) (release_block cid) (live cid) ops m"
    and "m' = heap_run (shmalloc now cid) (release_block cid) ops m"
  shows "cat_ok cid m' \<and>
    (\<forall>b\<in>live cid m'. \<forall>d\<in>live cid m'. b \<noteq> d \<longrightarrow> block m' b \<inter> block m' d = {}) \<and>
    (\<forall>b\<in>live cid m. Release b \<notin> set ops \<longrightarrow>
      b \<in> live cid m' \<and> block m' b = block m b \<and> (\<forall>i\<in>block m b. m' i = m i))"
  unfolding assms(3)
  using category_heap.run_ok [OF assms(1,2)] category_heap.run_apart [OF assms(1,2)]
    category_heap.run_keeps [OF assms(1,2)] by blast

theorem allocator_runs_safe_witness:
  "cat_ok 1 (heap_run (shmalloc 0 1) (release_block 1) [Alloc 64, Alloc 2048, Alloc 5] (formatted 0 0))"
  using allocator_runs_safe [where ops = "[Alloc 64, Alloc 2048, Alloc 5]" and m = "formatted 0 0" and cid = 1 and now = 0,
      OF _ _ refl] formatted_ok(1)
  by auto

text \<open>C20. \<open>attach\<close> on a category without error pages finds a block in use of the given size (rounded
  up to four bytes) whose first word is the given signature, and returns NULL only when there is
  none: this is how the roots of the index are found again after a restart.\<close>

theorem attach_finds:
  assumes "cat_ok cid m" "\<forall>n\<in>{1..<PAGE_CNT}. \<not> is_bit m SYSPAGE_ERR n" "0 < sz"
  shows "case attach sz itemid m of
      None \<Rightarrow> \<forall>b\<in>live cid m. \<not> (user_len m b = align4 sz \<and> ld32 m (user_addr b) = itemid)
    | Some p \<Rightarrow> \<exists>b\<in>live cid m. p = user_addr b \<and> user_len m b = align4 sz \<and> ld32 m p = itemid"
  using assms by (rule attach_live)

theorem attach_finds_witness: "attach 28 0xDEADBEAF (formatted 0 0) = None"
proof -
  have "case attach 28 0xDEADBEAF (formatted 0 0) of
      None \<Rightarrow> \<forall>b\<in>live 1 (formatted 0 0). \<not> (user_len (formatted 0 0) b = align4 28 \<and> ld32 (formatted 0 0) (user_addr b) = 0xDEADBEAF)
    | Some p \<Rightarrow> \<exists>b\<in>live 1 (formatted 0 0). p = user_addr b \<and> user_len (formatted 0 0) b = align4 28 \<and> ld32 (formatted 0 0) p = 0xDEADBEAF"
    by (rule attach_finds [OF formatted_ok(1)]) (use formatted_ok(3) in auto)
  then show ?thesis by (simp add: formatted_ok(2) split: option.splits)
qed

end
