(* ===== verification/Smmr_Categories.thy ===== *)
theory Smmr_Categories
  imports Smmr_Memory
begin

text \<open>
  Categories (\<open>smmr_categories.c\<close>): the files that the index is spread over, and the choice of one
  by the hash of a key. A process knows a category by its descriptor and the address it is mapped
  at; \<open>data_pointer\<close> is the mapped memory, \<open>None\<close> for \<open>INVALID_SOCKET\<close>. Creating, mapping and
  unmapping the files are system calls and not modelled.
\<close>

abbreviation CATEGORY_CNT :: nat where "CATEGORY_CNT \<equiv> 4"
abbreviation INVALID_SOCKET :: int where "INVALID_SOCKET \<equiv> - 1"

record category_on_process =
  cat_id :: u32
  filesize :: u32
  filefd :: int
  data_pointer :: "mem option"

definition get_category_id_by_hashkey_unsafe :: "category_on_process list \<Rightarrow> u32 \<Rightarrow> int" where
  "get_category_id_by_hashkey_unsafe categories hashed_key =
     (if hashed_key = 0 then - 1
      else
        let hashed = unat (hashed_key mod of_nat CATEGORY_CNT) in
        if hashed < CATEGORY_CNT \<and> filefd (categories ! hashed) \<noteq> INVALID_SOCKET \<and>
          data_pointer (categories ! hashed) \<noteq> None
        then int hashed else - 1)"

text \<open>The handle of a category is its index in the table.\<close>

definition get_category_by_hashkey_unsafe :: "category_on_process list \<Rightarrow> u32 \<Rightarrow> nat option" where
  "get_category_by_hashkey_unsafe categories hashed_key =
     (if hashed_key = 0 then None
      else
        let hashed = unat (hashed_key mod of_nat CATEGORY_CNT) in
        if hashed < CATEGORY_CNT \<and> filefd (categories ! hashed) \<noteq> INVALID_SOCKET \<and>
          data_pointer (categories ! hashed) \<noteq> None
        then Some hashed else None)"

definition get_category_unsafe :: "category_on_process list \<Rightarrow> bytes \<Rightarrow> nat option" where
  "get_category_unsafe categories data = get_category_by_hashkey_unsafe categories (safe_hash data)"

text \<open>All categories of a process are mapped.\<close>

definition categories_attached :: "category_on_process list \<Rightarrow> bool" where
  "categories_attached categories \<longleftrightarrow> length categories = CATEGORY_CNT \<and>
     (\<forall>c\<in>set categories. filefd c \<noteq> INVALID_SOCKET \<and> data_pointer c \<noteq> None)"

lemma unat_mod_CATEGORY_CNT: "unat (h mod of_nat CATEGORY_CNT :: u32) = unat h mod CATEGORY_CNT"
  by (simp add: unat_mod_distrib)

lemma category_id_eq:
  "get_category_id_by_hashkey_unsafe categories h =
     (if h = 0 \<or> filefd (categories ! (unat h mod CATEGORY_CNT)) = INVALID_SOCKET \<or>
        data_pointer (categories ! (unat h mod CATEGORY_CNT)) = None then - 1
      else int (unat h mod CATEGORY_CNT))"
  "get_category_by_hashkey_unsafe categories h =
     (if h = 0 \<or> filefd (categories ! (unat h mod CATEGORY_CNT)) = INVALID_SOCKET \<or>
        data_pointer (categories ! (unat h mod CATEGORY_CNT)) = None then None
      else Some (unat h mod CATEGORY_CNT))"
  unfolding get_category_id_by_hashkey_unsafe_def get_category_by_hashkey_unsafe_def
    unat_mod_CATEGORY_CNT Let_def by auto

lemma category_id_bounds:
  assumes "get_category_id_by_hashkey_unsafe categories h = c" "0 \<le> c"
  shows "nat c = unat h mod 4" "nat c < CATEGORY_CNT" "h \<noteq> 0"
    "data_pointer (categories ! nat c) \<noteq> None" "filefd (categories ! nat c) \<noteq> INVALID_SOCKET"
  using assms unfolding category_id_eq by (auto split: if_splits)

lemma category_id_attached:
  assumes "categories_attached categories" "h \<noteq> 0"
  shows "get_category_id_by_hashkey_unsafe categories h = int (unat h mod 4)"
proof -
  have "categories ! (unat h mod 4) \<in> set categories"
    using assms(1) by (intro nth_mem) (simp add: categories_attached_def)
  then show ?thesis
    using assms unfolding category_id_eq categories_attached_def by auto
qed

text \<open>The two look-ups of a category by the hash of a key agree: both find the category with the
  index \<open>hash mod 4\<close> when it is mapped, and nothing for the hash 0. A key whose hash is 0 has no
  category: it can neither be stored nor found.\<close>

theorem category_lookups_agree:
  "get_category_id_by_hashkey_unsafe cats h =
     (case get_category_by_hashkey_unsafe cats h of None \<Rightarrow> - 1 | Some c \<Rightarrow> int c) \<and>
   get_category_id_by_hashkey_unsafe cats 0 = - 1 \<and>
   get_category_unsafe cats data = get_category_by_hashkey_unsafe cats (safe_hash data)"
  by (simp add: category_id_eq get_category_unsafe_def)

end
