(* ===== verification/Smmr_Tree.thy ===== *)
theory Smmr_Tree
  imports Smmr_Categories "HOL-Library.Monad_Syntax"
begin

text \<open>
  The index of the key-value store (\<open>smmr_tree.c\<close>): a B-tree of node keys (hash, data file, offset
  in the file) whose nodes live in the category's memory and are allocated with \<open>shmalloc\<close>. A node
  has one to four keys and one child more than keys; a node is named by a node offset (category,
  page, offset), all zero for no node.

  The functions of the C code read and write the fields of a node at its address; so do the
  definitions here. \<open>struct node_key\<close> and \<open>struct node_instance_offset\<close> are packed bit fields of 8
  and 6 bytes, \<open>struct node_instance\<close> is 64 bytes: the count, a padding byte, five children from
  byte 2, four keys from byte 32. The shared part of the instance of a tree
  (\<open>ipcshm_tree_instance_itm_t\<close>: signature, \<open>rooti\<close>, \<open>newnodei\<close>) is a block of the category too, at
  the address \<open>root_itm\<close>; the other part is the record \<open>tree_itm_p\<close>.

  A function that allocates or follows links returns an option. \<open>None\<close> is what the C code does not
  survive: it does not return, or it reads through the null pointer of a failed allocation or an
  uninitialised offset. Return codes that every caller ignores are left out.
\<close>

section \<open>Keys and node offsets\<close>

datatype node_key = node_key (keyhash: u32) (data_field: u8) (data_offset: u24)

record node_instance_offset =
  category_id :: u8
  page_id :: u16
  offset :: u24

abbreviation TREE_NODECOUNT :: nat where "TREE_NODECOUNT \<equiv> 4"
abbreviation TREE_NODEMIN :: nat where "TREE_NODEMIN \<equiv> 2"
abbreviation SMMR_TREEROOT_ID :: u32 where "SMMR_TREEROOT_ID \<equiv> 0xDEADBEAF"
abbreviation SIZEOF_NODE :: nat where "SIZEOF_NODE \<equiv> 64"
abbreviation SIZEOF_TREE_ITM :: nat where "SIZEOF_TREE_ITM \<equiv> 16"

definition compare_node_key_unsafe :: "node_key \<Rightarrow> node_key \<Rightarrow> int" where
  "compare_node_key_unsafe a b =
     (if keyhash a = keyhash b \<and> data_field a = data_field b \<and> data_offset a = data_offset b then 0
      else if keyhash a < keyhash b then - 1 else if keyhash a > keyhash b then 1
      else if data_field a < data_field b then - 1 else if data_field a > data_field b then 1
      else if data_offset a < data_offset b then - 1 else if data_offset a > data_offset b then 1
      else 0)"

text \<open>The comparison is a linear order; the keys are an instance of the class.\<close>

instantiation node_key :: linorder
begin

definition less_node_key :: "node_key \<Rightarrow> node_key \<Rightarrow> bool" where
  "less_node_key a b \<longleftrightarrow> compare_node_key_unsafe a b < 0"

definition less_eq_node_key :: "node_key \<Rightarrow> node_key \<Rightarrow> bool" where
  "less_eq_node_key a b \<longleftrightarrow> compare_node_key_unsafe a b \<le> 0"

instance
proof
  fix x y z :: node_key
  show "x < y \<longleftrightarrow> x \<le> y \<and> \<not> y \<le> x"
    by (auto simp: less_node_key_def less_eq_node_key_def compare_node_key_unsafe_def)
  show "x \<le> x" by (simp add: less_eq_node_key_def compare_node_key_unsafe_def)
  show "x \<le> y \<Longrightarrow> y \<le> z \<Longrightarrow> x \<le> z"
    by (auto simp: less_eq_node_key_def compare_node_key_unsafe_def split: if_splits)
  show "x \<le> y \<Longrightarrow> y \<le> x \<Longrightarrow> x = y"
    by (cases x; cases y) (auto simp: less_eq_node_key_def compare_node_key_unsafe_def split: if_splits)
  show "x \<le> y \<or> y \<le> x"
    by (auto simp: less_eq_node_key_def compare_node_key_unsafe_def split: if_splits)
qed

end

lemma compare_less: "compare_node_key_unsafe a b < 0 \<longleftrightarrow> a < b"
  by (simp add: less_node_key_def)

lemma compare_eq: "compare_node_key_unsafe a b = 0 \<longleftrightarrow> a = b"
  by (cases a; cases b) (auto simp: compare_node_key_unsafe_def split: if_splits)

definition ISEMPTY_NODE :: "node_instance_offset \<Rightarrow> bool" where
  "ISEMPTY_NODE n \<longleftrightarrow> category_id n = 0 \<and> page_id n = 0 \<and> offset n = 0"

definition empty_node :: node_instance_offset where
  "empty_node = \<lparr>category_id = 0, page_id = 0, offset = 0\<rparr>"

definition REFNODE :: "node_instance_offset \<Rightarrow> nat" where
  "REFNODE n = MMPOS_USRPAGE (unat (page_id n)) + unat (offset n) + SIZEOF_HEAD"

definition ld_key :: "mem \<Rightarrow> nat \<Rightarrow> node_key" where
  "ld_key m a = node_key (ld32 m a) (m (a + 4)) (of_le (ld_bytes m (a + 5) 3))"

definition st_key :: "nat \<Rightarrow> node_key \<Rightarrow> mem \<Rightarrow> mem" where
  "st_key a k = st_bytes a (to_le 4 (keyhash k) @ [data_field k] @ to_le 3 (data_offset k))"

definition ld_noff :: "mem \<Rightarrow> nat \<Rightarrow> node_instance_offset" where
  "ld_noff m a =
     \<lparr>category_id = m a, page_id = ld16 m (a + 1), offset = of_le (ld_bytes m (a + 3) 3)\<rparr>"

definition st_noff :: "nat \<Rightarrow> node_instance_offset \<Rightarrow> mem \<Rightarrow> mem" where
  "st_noff a n = st_bytes a ([category_id n] @ to_le 2 (page_id n) @ to_le 3 (offset n))"

section \<open>Nodes and the instance in memory\<close>

definition node_count :: "mem \<Rightarrow> nat \<Rightarrow> u8" where
  "node_count m node = m node"

definition childsi :: "mem \<Rightarrow> nat \<Rightarrow> nat \<Rightarrow> node_instance_offset" where
  "childsi m node n = ld_noff m (node + 2 + 6 * n)"

definition node_keys :: "mem \<Rightarrow> nat \<Rightarrow> nat \<Rightarrow> node_key" where
  "node_keys m node n = ld_key m (node + 32 + 8 * n)"

definition set_count :: "nat \<Rightarrow> u8 \<Rightarrow> mem \<Rightarrow> mem" where
  "set_count node v = st_bytes node [v]"

definition set_childsi :: "nat \<Rightarrow> nat \<Rightarrow> node_instance_offset \<Rightarrow> mem \<Rightarrow> mem" where
  "set_childsi node n v = st_noff (node + 2 + 6 * n) v"

definition set_keys :: "nat \<Rightarrow> nat \<Rightarrow> node_key \<Rightarrow> mem \<Rightarrow> mem" where
  "set_keys node n k = st_key (node + 32 + 8 * n) k"

record tree_itm_p =
  current_item :: node_key
  item_done :: bool
  deleted :: bool
  undersize :: bool

text \<open>
  The tree of the current category while an operation runs: \<open>itm_p[curid]\<close>, the id of the category,
  its memory, and the address of \<open>itm[curid]\<close> in it.
\<close>

record tree_cur = tree_itm_p +
  category :: u32
  root_itm :: nat
  mem :: mem

definition rooti :: "tree_cur \<Rightarrow> node_instance_offset" where
  "rooti s = ld_noff (mem s) (root_itm s + 4)"

definition newnodei :: "tree_cur \<Rightarrow> node_instance_offset" where
  "newnodei s = ld_noff (mem s) (root_itm s + 10)"

definition set_rooti :: "node_instance_offset \<Rightarrow> tree_cur \<Rightarrow> tree_cur" where
  "set_rooti n s = s\<lparr>mem := st_noff (root_itm s + 4) n (mem s)\<rparr>"

definition set_newnodei :: "node_instance_offset \<Rightarrow> tree_cur \<Rightarrow> tree_cur" where
  "set_newnodei n s = s\<lparr>mem := st_noff (root_itm s + 10) n (mem s)\<rparr>"

text \<open>\<open>SHMALLOC_NML(node_instance_t, ...)\<close>: the node offset and the address of the new node.\<close>

definition SHMALLOC_NODE :: "u32 \<Rightarrow> tree_cur \<Rightarrow> (node_instance_offset \<times> nat \<times> tree_cur) option" where
  "SHMALLOC_NODE now s =
     (case shmalloc now (category s) SIZEOF_NODE (mem s) of
        (Some (p, off), m) \<Rightarrow>
          Some (\<lparr>category_id = ucast (category s), page_id = of_nat p, offset = of_nat off\<rparr>,
            MMPOS_USRPAGE p + off + SIZEOF_HEAD, s\<lparr>mem := m\<rparr>)
      | (None, m) \<Rightarrow> None)"

text \<open>The loop that advances \<open>pos\<close> to the first key that is not below the item.\<close>

function key_pos :: "mem \<Rightarrow> nat \<Rightarrow> node_key \<Rightarrow> nat \<Rightarrow> nat" where
  "key_pos m node item pos =
     (if pos < unat (node_count m node) \<and> compare_node_key_unsafe (node_keys m node pos) item < 0
      then key_pos m node item (pos + 1) else pos)"
  by pat_completeness auto
termination
  by (relation "measure (\<lambda>(m, node, _, pos). unat (node_count m node) - pos)") auto

declare key_pos.simps [simp del]

definition key_at :: "mem \<Rightarrow> nat \<Rightarrow> node_key \<Rightarrow> nat \<Rightarrow> bool" where
  "key_at m node item pos \<longleftrightarrow>
     pos < unat (node_count m node) \<and> compare_node_key_unsafe (node_keys m node pos) item = 0"

text \<open>
  The bodies of the loops that move the keys and children of a node by one place, to the right
  (insertion, \<open>_remove_item_moveright\<close>) and to the left (\<open>_remove_item_trgt\<close>,
  \<open>_remove_item_moveleft\<close>).
\<close>

definition shift_right :: "nat \<Rightarrow> nat \<Rightarrow> mem \<Rightarrow> mem" where
  "shift_right node n m =
     (let m = set_keys node n (node_keys m node (n - 1)) m
      in set_childsi node (n + 1) (childsi m node n) m)"

definition shift_left :: "nat \<Rightarrow> nat \<Rightarrow> mem \<Rightarrow> mem" where
  "shift_left node n m =
     (let m = set_keys node (n - 1) (node_keys m node n) m
      in set_childsi node n (childsi m node (n + 1)) m)"

section \<open>Insertion\<close>

definition add_item_to_free_node :: "node_instance_offset \<Rightarrow> nat \<Rightarrow> tree_cur \<Rightarrow> tree_cur" where
  "add_item_to_free_node nodei pos s =
     (if ISEMPTY_NODE nodei then s
      else
        let node = REFNODE nodei;
            m = fold (shift_right node) (rev [pos + 1..<unat (node_count (mem s) node) + 1]) (mem s);
            m = set_keys node pos (current_item s) m;
            m = set_childsi node (pos + 1) (ld_noff m (root_itm s + 10)) m
        in s\<lparr>mem := set_count node (node_count m node + 1) m\<rparr>)"

text \<open>The loop that copies the keys and children after \<open>newpos\<close> to the new node.\<close>

definition split_copy :: "nat \<Rightarrow> nat \<Rightarrow> nat \<Rightarrow> nat \<Rightarrow> mem \<Rightarrow> mem" where
  "split_copy node nodetmp newpos n m =
     (let m = set_keys nodetmp (n - newpos - 1) (node_keys m node (n - 1)) m
      in set_childsi nodetmp (n - newpos) (childsi m node n) m)"

definition split_node :: "u32 \<Rightarrow> node_instance_offset \<Rightarrow> nat \<Rightarrow> tree_cur \<Rightarrow> tree_cur option" where
  "split_node now nodei pos s =
     (if ISEMPTY_NODE nodei then Some s
      else
        let node = REFNODE nodei;
            newpos = (if pos \<le> TREE_NODEMIN then TREE_NODEMIN else TREE_NODEMIN + 1) in
        do {
          (newnodei, nodetmp, s) \<leftarrow> SHMALLOC_NODE now s;
          let m = fold (split_copy node nodetmp newpos) [newpos + 1..<TREE_NODECOUNT + 1] (mem s);
          let m = set_count nodetmp (of_nat (TREE_NODECOUNT - newpos)) m;
          let s = s\<lparr>mem := set_count node (of_nat newpos) m\<rparr>;
          let s = (if pos \<le> TREE_NODEMIN then add_item_to_free_node nodei pos s
                   else add_item_to_free_node newnodei (pos - newpos) s);
          let n = unat (node_count (mem s) node);
          let s = s\<lparr>current_item := node_keys (mem s) node (n - 1)\<rparr>;
          let m = set_childsi nodetmp 0 (childsi (mem s) node n) (mem s);
          let s = s\<lparr>mem := set_count node (node_count m node - 1) m\<rparr>;
          Some (set_newnodei newnodei s)
        })"

partial_function (option) insert_item_recurcive ::
  "u32 \<Rightarrow> node_instance_offset \<Rightarrow> tree_cur \<Rightarrow> tree_cur option" where
  "insert_item_recurcive now nodei s =
     (if ISEMPTY_NODE nodei then Some (set_newnodei empty_node (s\<lparr>item_done := False\<rparr>))
      else
        let node = REFNODE nodei; pos = key_pos (mem s) node (current_item s) 0 in
        if key_at (mem s) node (current_item s) pos then Some (s\<lparr>item_done := True\<rparr>)
        else do {
          s \<leftarrow> insert_item_recurcive now (childsi (mem s) node pos) s;
          if item_done s then Some s
          else if unat (node_count (mem s) node) < TREE_NODECOUNT
          then Some ((add_item_to_free_node nodei pos s)\<lparr>item_done := True\<rparr>)
          else do { s \<leftarrow> split_node now nodei pos s; Some (s\<lparr>item_done := False\<rparr>) }
        })"

definition calloc_new_node :: "u32 \<Rightarrow> tree_cur \<Rightarrow> (node_instance_offset \<times> tree_cur) option" where
  "calloc_new_node now s =
     do {
       (newnodei, newnode, s) \<leftarrow> SHMALLOC_NODE now s;
       let m = set_count newnode 1 (mem s);
       let m = set_keys newnode 0 (current_item s) m;
       let m = set_childsi newnode 0 (ld_noff m (root_itm s + 4)) m;
       let m = set_childsi newnode 1 (ld_noff m (root_itm s + 10)) m;
       Some (newnodei, s\<lparr>mem := m\<rparr>)
     }"

text \<open>What \<open>add_tree_safe\<close> does under the lock of the category.\<close>

definition add_item :: "u32 \<Rightarrow> node_key \<Rightarrow> tree_cur \<Rightarrow> tree_cur option" where
  "add_item now itm s =
     (let s = s\<lparr>current_item := itm\<rparr> in
      do {
        s \<leftarrow> insert_item_recurcive now (rooti s) s;
        if item_done s then Some s
        else do { (nodei, s) \<leftarrow> calloc_new_node now s; Some (set_rooti nodei s) }
      })"

section \<open>Search\<close>

text \<open>
  The callback reads and updates the data of the caller (type \<open>'u\<close>) and returns a code. The loop of
  \<open>_search_item_recurcive\<close> follows the links from the node at the address \<open>findnode\<close>.
\<close>

type_synonym 'u on_finded_callback = "node_key \<Rightarrow> 'u \<Rightarrow> int \<times> 'u"

partial_function (option) search_loop ::
  "mem \<Rightarrow> node_key \<Rightarrow> 'u on_finded_callback \<Rightarrow> nat \<Rightarrow> 'u \<Rightarrow> (int \<times> 'u) option" where
  "search_loop m itm func findnode usrval =
     (let pos = key_pos m findnode itm 0 in
      if key_at m findnode itm pos then Some (func (node_keys m findnode pos) usrval)
      else
        let findnodei = childsi m findnode pos in
        if ISEMPTY_NODE findnodei then Some (RET_NG, usrval)
        else search_loop m itm func (REFNODE findnodei) usrval)"

definition search_item_recurcive ::
  "mem \<Rightarrow> node_instance_offset \<Rightarrow> node_key \<Rightarrow> 'u on_finded_callback \<Rightarrow> 'u \<Rightarrow> (int \<times> 'u) option" where
  "search_item_recurcive m nodei itm func usrval =
     (if ISEMPTY_NODE nodei then Some (RET_NG, usrval)
      else search_loop m itm func (REFNODE nodei) usrval)"

text \<open>A loop whose body may not return; \<open>Inr\<close> is a return from the function around the loop.\<close>

fun ofold :: "('a \<Rightarrow> 's \<Rightarrow> ('s + 'r) option) \<Rightarrow> 'a list \<Rightarrow> 's \<Rightarrow> ('s + 'r) option" where
  "ofold f [] s = Some (Inl s)"
| "ofold f (x # xs) s =
     do { r \<leftarrow> f x s; case r of Inl s \<Rightarrow> ofold f xs s | Inr y \<Rightarrow> Some (Inr y) }"

lemma ofold_mono [partial_function_mono]:
  assumes f: "\<And>x s. mono_option (\<lambda>g. f g x s)"
  shows "mono_option (\<lambda>g. ofold (f g) xs s)"
proof (induction xs arbitrary: s)
  case Nil
  show ?case by (simp add: option.const_mono)
next
  case (Cons x xs)
  show ?case
    unfolding ofold.simps
  proof (rule bind_mono [OF f])
    fix r
    show "mono_option (\<lambda>g. case r of Inl s \<Rightarrow> ofold (f g) xs s | Inr y \<Rightarrow> Some (Inr y))"
      using Cons.IH by (cases r) (simp_all add: option.const_mono)
  qed
qed

fun hash_pos_from :: "(nat \<Rightarrow> node_key) \<Rightarrow> u32 \<Rightarrow> nat \<Rightarrow> nat list \<Rightarrow> nat" where
  "hash_pos_from k h n [] = n"
| "hash_pos_from k h n (p # ps) = (if keyhash (k p) < h then hash_pos_from k h n ps else p)"

text \<open>The first position whose key hash is not below the searched one.\<close>

definition hash_pos :: "mem \<Rightarrow> nat \<Rightarrow> u32 \<Rightarrow> nat" where
  "hash_pos m node h =
     (let n = unat (node_count m node) in hash_pos_from (node_keys m node) h n [0..<n])"

text \<open>
  The search by hash alone. The loop that descends into the leftmost child ends with \<open>RET_NG\<close> at an
  empty child, as a call with an empty node does, so that one round of it is a call; the result of
  the other calls is dropped. \<open>finded\<close> is set by the C code and read nowhere.
\<close>

partial_function (option) search_item_only_keyhash_recurcive ::
  "mem \<Rightarrow> u32 \<Rightarrow> 'u on_finded_callback \<Rightarrow> node_instance_offset \<Rightarrow> 'u \<Rightarrow> (int \<times> 'u) option" where
  "search_item_only_keyhash_recurcive m h func nodei usrval =
     (if ISEMPTY_NODE nodei then Some (RET_NG, usrval)
      else
        let findnode = REFNODE nodei;
            n = unat (node_count m findnode);
            pos = hash_pos m findnode h in
        if pos = 0 \<and> n > 0 \<and> keyhash (node_keys m findnode 0) > h
        then search_item_only_keyhash_recurcive m h func (childsi m findnode 0) usrval
        else do {
          r \<leftarrow> ofold (\<lambda>p u.
                 let (result, u) = (if h = keyhash (node_keys m findnode p)
                                    then func (node_keys m findnode p) u else (RET_OK, u)) in
                 if h = keyhash (node_keys m findnode p) \<and> result = RET_NG then Some (Inr u)
                 else if pos \<noteq> p
                 then do { (_, u) \<leftarrow> search_item_only_keyhash_recurcive m h func (childsi m findnode p) u;
                           Some (Inl u) }
                 else Some (Inl u)) [pos..<n] usrval;
          case r of
            Inr u \<Rightarrow> Some (RET_OK, u)
          | Inl u \<Rightarrow> do {
              (_, u) \<leftarrow> (if n \<noteq> pos
                then search_item_only_keyhash_recurcive m h func (childsi m findnode n) u
                else Some (RET_NG, u));
              search_item_only_keyhash_recurcive m h func (childsi m findnode pos) u }
        })"

section \<open>Removal\<close>

definition remove_item_trgt :: "node_instance_offset \<Rightarrow> nat \<Rightarrow> tree_cur \<Rightarrow> tree_cur" where
  "remove_item_trgt nodei pos s =
     (let node = REFNODE nodei;
          m = fold (shift_left node) [pos + 1..<unat (node_count (mem s) node)] (mem s);
          m = set_count node (node_count m node - 1) m
      in s\<lparr>mem := m, undersize := unat (node_count m node) < TREE_NODEMIN\<rparr>)"

definition remove_item_moveright :: "node_instance_offset \<Rightarrow> nat \<Rightarrow> tree_cur \<Rightarrow> tree_cur" where
  "remove_item_moveright nodei pos s =
     (let m = mem s;
          node = REFNODE nodei;
          left = REFNODE (childsi m node (pos - 1));
          right = REFNODE (childsi m node pos);
          m = fold (shift_right right) (rev [1..<unat (node_count m right) + 1]) m;
          m = set_childsi right 1 (childsi m right 0) m;
          m = set_count right (node_count m right + 1) m;
          m = set_keys right 0 (node_keys m node (pos - 1)) m;
          m = set_keys node (pos - 1) (node_keys m left (unat (node_count m left) - 1)) m;
          m = set_childsi right 0 (childsi m left (unat (node_count m left))) m
      in s\<lparr>mem := set_count left (node_count m left - 1) m\<rparr>)"

definition remove_item_moveleft :: "node_instance_offset \<Rightarrow> nat \<Rightarrow> tree_cur \<Rightarrow> tree_cur" where
  "remove_item_moveleft nodei pos s =
     (let m = mem s;
          node = REFNODE nodei;
          left = REFNODE (childsi m node (pos - 1));
          right = REFNODE (childsi m node pos);
          m = set_count left (node_count m left + 1) m;
          m = set_keys left (unat (node_count m left) - 1) (node_keys m node (pos - 1)) m;
          m = set_childsi left (unat (node_count m left)) (childsi m right 0) m;
          m = set_keys node (pos - 1) (node_keys m right 0) m;
          m = set_childsi right 0 (childsi m right 1) m;
          m = set_count right (node_count m right - 1) m;
          m = fold (shift_left right) [1..<unat (node_count m right) + 1] m
      in s\<lparr>mem := m\<rparr>)"

text \<open>The loop that appends the keys and children of the right node to the left one.\<close>

definition combine_append :: "nat \<Rightarrow> nat \<Rightarrow> nat \<Rightarrow> mem \<Rightarrow> mem" where
  "combine_append left right n m =
     (let m = set_count left (node_count m left + 1) m;
          m = set_keys left (unat (node_count m left) - 1) (node_keys m right (n - 1)) m
      in set_childsi left (unat (node_count m left)) (childsi m right n) m)"

definition remove_item_combine :: "node_instance_offset \<Rightarrow> nat \<Rightarrow> tree_cur \<Rightarrow> tree_cur" where
  "remove_item_combine nodei pos s =
     (let m = mem s;
          node = REFNODE nodei;
          left = REFNODE (childsi m node (pos - 1));
          right = REFNODE (childsi m node pos);
          m = set_count left (node_count m left + 1) m;
          m = set_keys left (unat (node_count m left) - 1) (node_keys m node (pos - 1)) m;
          m = set_childsi left (unat (node_count m left)) (childsi m right 0) m;
          m = fold (combine_append left right) [1..<unat (node_count m right) + 1] m;
          s = remove_item_trgt nodei (pos - 1) (s\<lparr>mem := m\<rparr>)
      in s\<lparr>mem := shmfree (category s) right (mem s)\<rparr>)"

definition remove_item_restore :: "node_instance_offset \<Rightarrow> nat \<Rightarrow> tree_cur \<Rightarrow> tree_cur" where
  "remove_item_restore nodei pos s =
     (if ISEMPTY_NODE nodei then s
      else
        let s = s\<lparr>undersize := False\<rparr>; node = REFNODE nodei in
        if pos > 0 then
          (if unat (node_count (mem s) (REFNODE (childsi (mem s) node (pos - 1)))) > TREE_NODEMIN
           then remove_item_moveright nodei pos s else remove_item_combine nodei pos s)
        else
          (if unat (node_count (mem s) (REFNODE (childsi (mem s) node 1))) > TREE_NODEMIN
           then remove_item_moveleft nodei 1 s else remove_item_combine nodei 1 s))"

text \<open>The loop that follows the first children from the node at an address.\<close>

partial_function (option) leftmost :: "mem \<Rightarrow> nat \<Rightarrow> nat option" where
  "leftmost m tmpnode =
     (if ISEMPTY_NODE (childsi m tmpnode 0) then Some tmpnode
      else leftmost m (REFNODE (childsi m tmpnode 0)))"

partial_function (option) remove_item_recursive ::
  "node_instance_offset \<Rightarrow> tree_cur \<Rightarrow> tree_cur option" where
  "remove_item_recursive nodei s =
     (if ISEMPTY_NODE nodei then Some s
      else
        let node = REFNODE nodei; pos = key_pos (mem s) node (current_item s) 0 in
        if key_at (mem s) node (current_item s) pos then
          let s = s\<lparr>deleted := True\<rparr>; tmpnodei = childsi (mem s) node (pos + 1) in
          if \<not> ISEMPTY_NODE tmpnodei then do {
            tmpnode \<leftarrow> leftmost (mem s) (REFNODE tmpnodei);
            let k = node_keys (mem s) tmpnode 0;
            let s = s\<lparr>current_item := k, mem := set_keys node pos k (mem s)\<rparr>;
            s \<leftarrow> remove_item_recursive (childsi (mem s) node (pos + 1)) s;
            Some (if undersize s then remove_item_restore nodei (pos + 1) s else s)
          }
          else Some (remove_item_trgt nodei pos s)
        else do {
          s \<leftarrow> remove_item_recursive (childsi (mem s) node pos) s;
          Some (if undersize s then remove_item_restore nodei pos s else s)
        })"

text \<open>What \<open>remove_tree_safe\<close> does under the lock, and \<open>remove_tree_unsafe\<close> without one.\<close>

definition remove_item :: "node_key \<Rightarrow> tree_cur \<Rightarrow> tree_cur option" where
  "remove_item itm s =
     do {
       s \<leftarrow> remove_item_recursive (rooti s)
              (s\<lparr>undersize := False, deleted := False, current_item := itm\<rparr>);
       if deleted s then
         let rootnode = REFNODE (rooti s) in
         if node_count (mem s) rootnode = 0 then
           let s = set_rooti (childsi (mem s) rootnode 0) s
           in Some (s\<lparr>mem := shmfree (category s) rootnode (mem s)\<rparr>)
         else Some s
       else Some s
     }"

section \<open>Counting and releasing\<close>

partial_function (option) count_node_recursive_unsafe ::
  "mem \<Rightarrow> node_instance_offset \<Rightarrow> u32 option" where
  "count_node_recursive_unsafe m nodei =
     (if ISEMPTY_NODE nodei then Some 0
      else
        let node = REFNODE nodei; n = unat (node_count m node) in
        do {
          r \<leftarrow> ofold (\<lambda>i count. do {
                 c \<leftarrow> count_node_recursive_unsafe m (childsi m node i);
                 Some (Inl (count + c + 1)) }) [0..<n] (0 :: u32);
          c \<leftarrow> count_node_recursive_unsafe m (childsi m node n);
          Some (case r of Inl count \<Rightarrow> count + c | Inr count \<Rightarrow> count)
        })"

partial_function (option) free_tree_node_unsafe ::
  "u32 \<Rightarrow> node_instance_offset \<Rightarrow> mem \<Rightarrow> mem option" where
  "free_tree_node_unsafe cid nodei m =
     (if ISEMPTY_NODE nodei then Some m
      else
        let node = REFNODE nodei in
        do {
          r \<leftarrow> ofold (\<lambda>n m. do {
                 m \<leftarrow> free_tree_node_unsafe cid (childsi m node n) m;
                 Some (Inl m) }) [0..<TREE_NODECOUNT] m;
          Some (case r of Inl m \<Rightarrow> shmfree cid node m | Inr m \<Rightarrow> m)
        })"

section \<open>The instance\<close>

text \<open>
  \<open>struct tree_instance\<close>: the mapped categories, the current one, and for each category the address
  of the shared part and the record of the process.
\<close>

record tree_instance =
  categories :: "category_on_process list"
  curid :: nat
  itm :: "nat list"
  itm_p :: "tree_itm_p list"

text \<open>The tree of a category of the instance, and the instance after an operation on it.\<close>

definition tree_of :: "tree_instance \<Rightarrow> nat \<Rightarrow> tree_cur" where
  "tree_of inst n = tree_itm_p.extend (itm_p inst ! n)
     (tree_cur.fields (cat_id (categories inst ! n)) (itm inst ! n) (the (data_pointer (categories inst ! n))))"

definition tree_into :: "nat \<Rightarrow> tree_cur \<Rightarrow> tree_instance \<Rightarrow> tree_instance" where
  "tree_into n s inst = inst\<lparr>
     categories := (categories inst)[n := (categories inst ! n)\<lparr>data_pointer := Some (mem s)\<rparr>],
     itm_p := (itm_p inst)[n := tree_itm_p.truncate s]\<rparr>"

text \<open>
  The operations; \<open>lock\<close> is what \<open>pthread_mutex_lock\<close> returns for the mutex of the category.
\<close>

definition add_tree_safe ::
  "int \<Rightarrow> u32 \<Rightarrow> node_key \<Rightarrow> tree_instance \<Rightarrow> (int \<times> tree_instance) option" where
  "add_tree_safe lock now key inst =
     (let c = get_category_id_by_hashkey_unsafe (categories inst) (keyhash key) in
      if c < 0 then Some (RET_NG, inst)
      else
        let n = nat c;
            inst = inst\<lparr>curid := n, itm_p := (itm_p inst)[n := (itm_p inst ! n)\<lparr>current_item := key\<rparr>]\<rparr> in
        if isvalid_lock lock = RET_OK
        then do { s \<leftarrow> add_item now key (tree_of inst n); Some (RET_OK, tree_into n s inst) }
        else Some (RET_NG, inst))"

definition find_tree_safe ::
  "int \<Rightarrow> node_key \<Rightarrow> 'u on_finded_callback \<Rightarrow> 'u \<Rightarrow> tree_instance \<Rightarrow> (int \<times> 'u \<times> tree_instance) option" where
  "find_tree_safe lock key func usrval inst =
     (let c = get_category_id_by_hashkey_unsafe (categories inst) (keyhash key) in
      if c < 0 then Some (RET_NG, usrval, inst)
      else
        let inst = inst\<lparr>curid := nat c\<rparr>; s = tree_of inst (nat c) in
        if isvalid_lock lock = RET_OK
        then do { (ret, u) \<leftarrow> search_item_recurcive (mem s) (rooti s) key func usrval;
                  Some (RET_OK OR ret, u, inst) }
        else Some (RET_OK, usrval, inst))"

definition find_tree_only_keyhash_safe ::
  "int \<Rightarrow> u32 \<Rightarrow> 'u on_finded_callback \<Rightarrow> 'u \<Rightarrow> tree_instance \<Rightarrow> (int \<times> 'u \<times> tree_instance) option" where
  "find_tree_only_keyhash_safe lock h func usrval inst =
     (let c = get_category_id_by_hashkey_unsafe (categories inst) h in
      if c < 0 then Some (RET_NG, usrval, inst)
      else
        let inst = inst\<lparr>curid := nat c\<rparr>; s = tree_of inst (nat c) in
        if isvalid_lock lock = RET_OK
        then do { (ret, u) \<leftarrow> search_item_only_keyhash_recurcive (mem s) h func (rooti s) usrval;
                  Some (RET_OK OR ret, u, inst) }
        else Some (RET_OK, usrval, inst))"

definition remove_tree_unsafe :: "node_key \<Rightarrow> tree_instance \<Rightarrow> (int \<times> tree_instance) option" where
  "remove_tree_unsafe key inst =
     (let c = get_category_id_by_hashkey_unsafe (categories inst) (keyhash key) in
      if c < 0 then Some (RET_NG, inst)
      else
        let n = nat c; inst = inst\<lparr>curid := n\<rparr> in
        do { s \<leftarrow> remove_item key (tree_of inst n); Some (RET_OK, tree_into n s inst) })"

definition remove_tree_safe :: "int \<Rightarrow> node_key \<Rightarrow> tree_instance \<Rightarrow> (int \<times> tree_instance) option" where
  "remove_tree_safe lock key inst =
     (let c = get_category_id_by_hashkey_unsafe (categories inst) (keyhash key) in
      if c < 0 then Some (RET_NG, inst)
      else
        let n = nat c; inst = inst\<lparr>curid := n\<rparr> in
        if isvalid_lock lock = RET_OK
        then do { s \<leftarrow> remove_item key (tree_of inst n); Some (RET_OK, tree_into n s inst) }
        else Some (RET_NG, inst))"

text \<open>\<open>locks ! n\<close> is the result of locking category \<open>n\<close>.\<close>

definition count_tree_safe :: "int list \<Rightarrow> tree_instance \<Rightarrow> (u32 \<times> tree_instance) option" where
  "count_tree_safe locks inst =
     do {
       r \<leftarrow> ofold (\<lambda>n count.
              if isvalid_lock (locks ! n) = RET_OK
              then do { c \<leftarrow> count_node_recursive_unsafe (mem (tree_of inst n)) (rooti (tree_of inst n));
                        Some (Inl (count + c)) }
              else Some (Inl count)) [0..<CATEGORY_CNT] (0 :: u32);
       Some (case r of Inl count \<Rightarrow> count | Inr count \<Rightarrow> count, inst\<lparr>curid := CATEGORY_CNT - 1\<rparr>)
     }"

definition free_tree_unsafe :: "tree_instance \<Rightarrow> (int \<times> tree_instance) option" where
  "free_tree_unsafe inst =
     do {
       r \<leftarrow> ofold (\<lambda>n inst.
              let s = tree_of inst n in
              do { m \<leftarrow> free_tree_node_unsafe (category s) (rooti s) (mem s);
                   Some (Inl (tree_into n (s\<lparr>mem := m\<rparr>) (inst\<lparr>curid := n\<rparr>))) })
            [0..<CATEGORY_CNT] inst;
       Some (RET_OK, case r of Inl inst \<Rightarrow> inst | Inr inst \<Rightarrow> inst)
     }"

text \<open>
  Attaching to the shared part of the tree in a category, or allocating it: the address and the
  memory, \<open>None\<close> when there is no room.
\<close>

definition create_tree_itm :: "u32 \<Rightarrow> u32 \<Rightarrow> mem \<Rightarrow> (nat \<times> mem) option" where
  "create_tree_itm now cid m =
     (case attach SIZEOF_TREE_ITM SMMR_TREEROOT_ID m of
        Some inst_itm \<Rightarrow> Some (inst_itm, st32 inst_itm SMMR_TREEROOT_ID m)
      | None \<Rightarrow>
          (case shmalloc now cid SIZEOF_TREE_ITM m of
             (Some (p, off), m) \<Rightarrow>
               let inst_itm = MMPOS_USRPAGE p + off + SIZEOF_HEAD
               in Some (inst_itm, st32 inst_itm SMMR_TREEROOT_ID m)
           | (None, m) \<Rightarrow> None))"

text \<open>
  \<open>create_tree_unsafe\<close>: the loop over the categories with the lock on all of them, and the new instance,
  which is all zero at first. \<open>Inl\<close> is the return of NULL when there is no room in a category or it
  is not mapped; the categories before it have got their root by then.
\<close>

fun create_trees ::
  "u32 \<Rightarrow> nat list \<Rightarrow> tree_instance \<Rightarrow> category_on_process list + tree_instance" where
  "create_trees now [] inst = Inr inst"
| "create_trees now (n # ns) inst =
     (let cat = categories inst ! n in
      case data_pointer cat of
        None \<Rightarrow> Inl (categories inst)
      | Some m \<Rightarrow>
          (case create_tree_itm now (cat_id cat) m of
             None \<Rightarrow> Inl (categories inst)
           | Some (inst_itm, m) \<Rightarrow>
               create_trees now ns (inst\<lparr>curid := n,
                 categories := (categories inst)[n := cat\<lparr>data_pointer := Some m\<rparr>],
                 itm := (itm inst)[n := inst_itm]\<rparr>)))"

definition create_tree_unsafe ::
  "int \<Rightarrow> u32 \<Rightarrow> category_on_process list \<Rightarrow> category_on_process list + tree_instance" where
  "create_tree_unsafe lock now cats =
     (let inst = \<lparr>categories = cats, curid = 0, itm = replicate CATEGORY_CNT 0,
        itm_p = replicate CATEGORY_CNT \<lparr>current_item = node_key 0 0 0, item_done = False,
          deleted = False, undersize = False\<rparr>\<rparr> in
      if isvalid_lock lock = RET_OK then create_trees now [0..<CATEGORY_CNT] inst else Inr inst)"

end
