(* ===== verification/Tree_Node.thy ===== *)
theory Tree_Node
  imports Smmr_Tree Smmr_Store
begin

text \<open>
  The nodes of the index as lists of keys and of children, and what the operations of
  \<open>smmr_tree.c\<close> on one node (or on a node and two of its children) do to these lists. Everything
  else in the memory of the category keeps its bytes.
\<close>

section \<open>Fields in memory\<close>

named_theorems node_simps "reading a field of a node after writing one"

lemma ld_st_bytes_part:
  "i + n \<le> length bs \<Longrightarrow> ld_bytes (st_bytes a bs m) (a + i) n = take n (drop i bs)"
  by (rule nth_equalityI) (auto simp: st_bytes_def)

lemma ld_st_key_same: "ld_key (st_key a k m) a = k"
proof -
  let ?bs = "to_le 4 (keyhash k) @ [data_field k] @ to_le 3 (data_offset k)"
  have "ld_bytes (st_bytes a ?bs m) (a + 0) 4 = to_le 4 (keyhash k)"
    "ld_bytes (st_bytes a ?bs m) (a + 5) 3 = to_le 3 (data_offset k)"
    by (subst ld_st_bytes_part; simp)+
  moreover have "st_bytes a ?bs m (a + 4) = data_field k"
    by (simp add: st_bytes_def nth_append)
  ultimately show ?thesis
    by (simp add: ld_key_def st_key_def ld32_def)
qed

lemma ld_st_noff_same: "ld_noff (st_noff a n m) a = n"
proof -
  let ?bs = "[category_id n] @ to_le 2 (page_id n) @ to_le 3 (offset n)"
  have "ld_bytes (st_bytes a ?bs m) (a + 1) 2 = to_le 2 (page_id n)"
    "ld_bytes (st_bytes a ?bs m) (a + 3) 3 = to_le 3 (offset n)"
    by (subst ld_st_bytes_part; simp)+
  moreover have "st_bytes a ?bs m a = category_id n" by (simp add: st_bytes_def)
  ultimately show ?thesis
    by (simp add: ld_noff_def st_noff_def ld16_def)
qed

lemma ld_key_cong: "(\<And>i. a \<le> i \<Longrightarrow> i < a + 8 \<Longrightarrow> m i = m' i) \<Longrightarrow> ld_key m a = ld_key m' a"
  unfolding ld_key_def
  by (intro arg_cong3 [where f = node_key] arg_cong [where f = of_le] ld32_cong ld_bytes_cong) auto

lemma ld_noff_cong:
  assumes "\<And>i. a \<le> i \<Longrightarrow> i < a + 6 \<Longrightarrow> m i = m' i"
  shows "ld_noff m a = ld_noff m' a"
proof -
  have "m a = m' a" "ld_bytes m (a + 1) 2 = ld_bytes m' (a + 1) 2" "ld_bytes m (a + 3) 3 = ld_bytes m' (a + 3) 3"
    using assms by (auto intro!: ld_bytes_cong)
  then show ?thesis by (simp add: ld_noff_def ld16_def)
qed

lemma length_fields: "length (to_le 4 x @ [y] @ to_le 3 z) = 8" "length ([y] @ to_le 2 u @ to_le 3 z) = 6"
  by simp_all

lemma set_outside:
  "i < node \<or> node + 1 \<le> i \<Longrightarrow> set_count node v m i = m i"
  "i < node + 32 + 8 * n \<or> node + 40 + 8 * n \<le> i \<Longrightarrow> set_keys node n k m i = m i"
  "i < node + 2 + 6 * n \<or> node + 8 + 6 * n \<le> i \<Longrightarrow> set_childsi node n c m i = m i"
  "i < a \<or> a + 6 \<le> i \<Longrightarrow> st_noff a c m i = m i"
  unfolding set_count_def set_keys_def set_childsi_def st_key_def st_noff_def
  by (rule st_bytes_outside, auto)+

text \<open>Writes to the fields of a node stay within its 64 bytes.\<close>

lemma set_in_node:
  "i < node \<or> node + 64 \<le> i \<Longrightarrow> set_count node v m i = m i"
  "i < node \<or> node + 64 \<le> i \<Longrightarrow> n < 4 \<Longrightarrow> set_keys node n k m i = m i"
  "i < node \<or> node + 64 \<le> i \<Longrightarrow> n < 5 \<Longrightarrow> set_childsi node n c m i = m i"
  by (rule set_outside; arith)+

section \<open>A node as lists\<close>

definition nk :: "mem \<Rightarrow> nat \<Rightarrow> node_key list" where
  "nk m node = map (node_keys m node) [0..<TREE_NODECOUNT]"

definition nc :: "mem \<Rightarrow> nat \<Rightarrow> node_instance_offset list" where
  "nc m node = map (childsi m node) [0..<TREE_NODECOUNT + 1]"

lemma length_nk [simp]: "length (nk m node) = 4" "length (nc m node) = 5"
  by (simp_all add: nk_def nc_def)

lemma node_fields [node_simps]:
  "i < 4 \<Longrightarrow> node_keys m node i = nk m node ! i"
  "i < 5 \<Longrightarrow> childsi m node i = nc m node ! i"
  unfolding nk_def nc_def by (simp_all del: upt_Suc)

lemma nk_eqI: "(\<And>i. i < 4 \<Longrightarrow> node_keys m a i = ks ! i) \<Longrightarrow> length ks = 4 \<Longrightarrow> nk m a = ks"
  by (rule nth_equalityI) (simp_all add: node_fields(1) [symmetric])

lemma nc_eqI: "(\<And>i. i < 5 \<Longrightarrow> childsi m a i = cs ! i) \<Longrightarrow> length cs = 5 \<Longrightarrow> nc m a = cs"
  by (rule nth_equalityI) (simp_all add: node_fields(2) [symmetric])

lemma nk_cong: "(\<And>i. a \<le> i \<Longrightarrow> i < a + 64 \<Longrightarrow> m i = m' i) \<Longrightarrow> nk m a = nk m' a"
  by (rule nk_eqI) (auto simp: node_fields(1) [symmetric] node_keys_def intro!: ld_key_cong)

lemma nc_cong: "(\<And>i. a \<le> i \<Longrightarrow> i < a + 64 \<Longrightarrow> m i = m' i) \<Longrightarrow> nc m a = nc m' a"
  by (rule nc_eqI) (auto simp: node_fields(2) [symmetric] childsi_def intro!: ld_noff_cong)

lemma node_same [node_simps]:
  "node_count (set_count a v m) a = v"
  "nk (set_count a v m) a = nk m a" "nc (set_count a v m) a = nc m a"
  "node_count (set_keys a i k m) a = node_count m a"
  "i < 4 \<Longrightarrow> nk (set_keys a i k m) a = (nk m a)[i := k]"
  "i < 4 \<Longrightarrow> nc (set_keys a i k m) a = nc m a"
  "node_count (set_childsi a j c m) a = node_count m a"
  "j < 5 \<Longrightarrow> nc (set_childsi a j c m) a = (nc m a)[j := c]"
  "j < 5 \<Longrightarrow> nk (set_childsi a j c m) a = nk m a"
proof -
  show "node_count (set_count a v m) a = v" by (simp add: node_count_def set_count_def st_bytes_def)
  show "nk (set_count a v m) a = nk m a" "nc (set_count a v m) a = nc m a"
    by (intro nk_eqI nc_eqI; simp add: node_fields [symmetric] node_keys_def childsi_def;
        intro ld_key_cong ld_noff_cong set_outside; simp)+
  show "node_count (set_keys a i k m) a = node_count m a" by (simp add: node_count_def set_outside)
  show "node_count (set_childsi a j c m) a = node_count m a" by (simp add: node_count_def set_outside)
  show "nk (set_keys a i k m) a = (nk m a)[i := k]" if "i < 4"
  proof (rule nk_eqI)
    fix l :: nat
    assume l: "l < 4"
    show "node_keys (set_keys a i k m) a l = (nk m a)[i := k] ! l"
    proof (cases "l = i")
      case True
      then show ?thesis using l by (simp add: node_keys_def set_keys_def ld_st_key_same)
    next
      case False
      have "ld_key (set_keys a i k m) (a + 32 + 8 * l) = ld_key m (a + 32 + 8 * l)"
        by (intro ld_key_cong set_outside) (use False in arith)
      then show ?thesis using l False by (simp add: node_keys_def node_fields(1) [symmetric])
    qed
  qed simp
  show "nc (set_childsi a j c m) a = (nc m a)[j := c]" if "j < 5"
  proof (rule nc_eqI)
    fix l :: nat
    assume l: "l < 5"
    show "childsi (set_childsi a j c m) a l = (nc m a)[j := c] ! l"
    proof (cases "l = j")
      case True
      then show ?thesis using l by (simp add: childsi_def set_childsi_def ld_st_noff_same)
    next
      case False
      have "ld_noff (set_childsi a j c m) (a + 2 + 6 * l) = ld_noff m (a + 2 + 6 * l)"
        by (intro ld_noff_cong set_outside) (use False in arith)
      then show ?thesis using l False by (simp add: childsi_def node_fields(2) [symmetric])
    qed
  qed simp
  show "nc (set_keys a i k m) a = nc m a" if "i < 4"
    using that
    by (intro nc_eqI) (auto simp: node_fields(2) [symmetric] childsi_def intro!: ld_noff_cong set_outside)
  show "nk (set_childsi a j c m) a = nk m a" if "j < 5"
    using that
    by (intro nk_eqI) (auto simp: node_fields(1) [symmetric] node_keys_def intro!: ld_key_cong set_outside)
qed

text \<open>Two nodes at addresses that are 64 bytes apart do not share a field.\<close>

definition apart :: "nat \<Rightarrow> nat \<Rightarrow> bool" where
  "apart a b \<longleftrightarrow> a + 64 \<le> b \<or> b + 64 \<le> a"

lemma apart_sym: "apart a b \<Longrightarrow> apart b a"
  by (auto simp: apart_def)

lemma node_cong:
  assumes "\<And>i. a \<le> i \<Longrightarrow> i < a + 64 \<Longrightarrow> m i = m' i"
  shows "node_count m a = node_count m' a" "nk m a = nk m' a" "nc m a = nc m' a"
  using assms nk_cong [of a m m'] nc_cong [of a m m'] by (auto simp: node_count_def)

lemma node_other [node_simps]:
  assumes "apart a b"
  shows "node_count (set_count b v m) a = node_count m a"
    "nk (set_count b v m) a = nk m a" "nc (set_count b v m) a = nc m a"
    "i < 4 \<Longrightarrow> node_count (set_keys b i k m) a = node_count m a"
    "i < 4 \<Longrightarrow> nk (set_keys b i k m) a = nk m a"
    "i < 4 \<Longrightarrow> nc (set_keys b i k m) a = nc m a"
    "j < 5 \<Longrightarrow> node_count (set_childsi b j c m) a = node_count m a"
    "j < 5 \<Longrightarrow> nk (set_childsi b j c m) a = nk m a"
    "j < 5 \<Longrightarrow> nc (set_childsi b j c m) a = nc m a"
proof -
  have x: "i < b \<or> b + 64 \<le> i" if "a \<le> i" "i < a + 64" for i
    using assms that unfolding apart_def by arith
  show "node_count (set_count b v m) a = node_count m a"
    "nk (set_count b v m) a = nk m a" "nc (set_count b v m) a = nc m a"
    by (intro node_cong set_in_node(1) x; assumption)+
  show "i < 4 \<Longrightarrow> node_count (set_keys b i k m) a = node_count m a"
    "i < 4 \<Longrightarrow> nk (set_keys b i k m) a = nk m a" "i < 4 \<Longrightarrow> nc (set_keys b i k m) a = nc m a"
    by (intro node_cong set_in_node(2) x; assumption)+
  show "j < 5 \<Longrightarrow> node_count (set_childsi b j c m) a = node_count m a"
    "j < 5 \<Longrightarrow> nk (set_childsi b j c m) a = nk m a" "j < 5 \<Longrightarrow> nc (set_childsi b j c m) a = nc m a"
    by (intro node_cong set_in_node(3) x; assumption)+
qed


lemma itm_other [node_simps]:
  assumes "r + 6 \<le> a \<or> a + 64 \<le> r"
  shows "ld_noff (set_count a v m) r = ld_noff m r"
    "i < 4 \<Longrightarrow> ld_noff (set_keys a i k m) r = ld_noff m r"
    "j < 5 \<Longrightarrow> ld_noff (set_childsi a j c m) r = ld_noff m r"
proof -
  have x: "i < a \<or> a + 64 \<le> i" if "r \<le> i" "i < r + 6" for i using assms that by arith
  show "ld_noff (set_count a v m) r = ld_noff m r"
    "i < 4 \<Longrightarrow> ld_noff (set_keys a i k m) r = ld_noff m r"
    "j < 5 \<Longrightarrow> ld_noff (set_childsi a j c m) r = ld_noff m r"
    by (intro ld_noff_cong set_in_node x; assumption)+
qed

text \<open>The keys and children in use, and memories that differ in the nodes \<open>A\<close> at most.\<close>

definition ukeys :: "mem \<Rightarrow> nat \<Rightarrow> node_key list" where
  "ukeys m a = take (unat (node_count m a)) (nk m a)"

definition uch :: "mem \<Rightarrow> nat \<Rightarrow> node_instance_offset list" where
  "uch m a = take (unat (node_count m a) + 1) (nc m a)"

definition only_nodes :: "nat set \<Rightarrow> mem \<Rightarrow> mem \<Rightarrow> bool" where
  "only_nodes A m m' \<longleftrightarrow> (\<forall>i. (\<forall>a\<in>A. i < a \<or> a + 64 \<le> i) \<longrightarrow> m' i = m i)"

lemma only_nodes_refl [simp]: "only_nodes A m m"
  by (simp add: only_nodes_def)

lemma only_nodes_trans: "only_nodes A m m1 \<Longrightarrow> only_nodes A m1 m2 \<Longrightarrow> only_nodes A m m2"
  by (simp add: only_nodes_def)

lemma only_nodes_mono: "only_nodes A m m' \<Longrightarrow> A \<subseteq> B \<Longrightarrow> only_nodes B m m'"
  unfolding only_nodes_def by blast

lemma only_nodes_step:
  assumes "a \<in> A"
  shows "only_nodes A m m' \<Longrightarrow> only_nodes A m (set_count a v m')"
    "i < 4 \<Longrightarrow> only_nodes A m m' \<Longrightarrow> only_nodes A m (set_keys a i k m')"
    "j < 5 \<Longrightarrow> only_nodes A m m' \<Longrightarrow> only_nodes A m (set_childsi a j c m')"
  using assms set_in_node(1) [of _ a v m'] set_in_node(2) [of _ a i k m'] set_in_node(3) [of _ a j c m']
  unfolding only_nodes_def by (metis (mono_tags, lifting))+

lemma only_nodes_fold:
  "only_nodes A m m' \<Longrightarrow> (\<And>x m'. x \<in> set xs \<Longrightarrow> only_nodes A m m' \<Longrightarrow> only_nodes A m (f x m')) \<Longrightarrow>
    only_nodes A m (fold f xs m')"
  by (induction xs arbitrary: m') auto

lemma list4: "length ks = 4 \<Longrightarrow> \<exists>a b c d. ks = [a, b, c, d]"
  by (auto simp: numeral_eq_Suc length_Suc_conv)

lemma list5: "length ks = 5 \<Longrightarrow> \<exists>a b c d e. ks = [a, b, c, d, e]"
  by (auto simp: numeral_eq_Suc length_Suc_conv)

lemma count_eq: "unat (node_count m a) = n \<Longrightarrow> node_count m a = of_nat n"
  by auto

lemma fold_view:
  "(\<And>x m. x \<in> set xs \<Longrightarrow> h (f x m) = g x (h m)) \<Longrightarrow> h (fold f xs m) = fold g xs (h m)"
  by (induction xs arbitrary: m) auto

lemma fold_keeps: "(\<And>x m. x \<in> set xs \<Longrightarrow> h (f x m) = h m) \<Longrightarrow> h (fold f xs m) = h m"
  by (induction xs arbitrary: m) auto

section \<open>Adding an item to a node\<close>

lemma shift_right_step:
  assumes "0 < c" "c < 4"
  shows "node_count (shift_right a c m) a = node_count m a"
    "nk (shift_right a c m) a = (nk m a)[c := nk m a ! (c - 1)]"
    "nc (shift_right a c m) a = (nc m a)[c + 1 := nc m a ! c]"
    "only_nodes {a} m (shift_right a c m)"
  using assms by (simp_all add: shift_right_def Let_def node_same node_fields only_nodes_step)

lemma shift_right_fold:
  assumes "\<forall>c\<in>set xs. 0 < c \<and> c < 4"
  shows "node_count (fold (shift_right a) xs m) a = node_count m a"
    "nk (fold (shift_right a) xs m) a = fold (\<lambda>c ks. ks[c := ks ! (c - 1)]) xs (nk m a)"
    "nc (fold (shift_right a) xs m) a = fold (\<lambda>c cs. cs[c + 1 := cs ! c]) xs (nc m a)"
    "only_nodes {a} m (fold (shift_right a) xs m)"
proof -
  show "node_count (fold (shift_right a) xs m) a = node_count m a"
    by (rule fold_keeps [where h = "\<lambda>m. node_count m a"]) (use assms in \<open>simp add: shift_right_step\<close>)
  show "nk (fold (shift_right a) xs m) a = fold (\<lambda>c ks. ks[c := ks ! (c - 1)]) xs (nk m a)"
    by (rule fold_view [where h = "\<lambda>m. nk m a"]) (use assms in \<open>simp add: shift_right_step\<close>)
  show "nc (fold (shift_right a) xs m) a = fold (\<lambda>c cs. cs[c + 1 := cs ! c]) xs (nc m a)"
    by (rule fold_view [where h = "\<lambda>m. nc m a"]) (use assms in \<open>simp add: shift_right_step\<close>)
  show "only_nodes {a} m (fold (shift_right a) xs m)"
    by (rule only_nodes_fold [OF only_nodes_refl], rule only_nodes_trans [OF _ shift_right_step(4)])
      (use assms in auto)
qed

lemma add_item_eq:
  assumes "\<not> ISEMPTY_NODE nodei" "REFNODE nodei = a"
  shows "add_item_to_free_node nodei pos s =
    (let m = fold (shift_right a) (rev [pos + 1..<unat (node_count (mem s) a) + 1]) (mem s);
         m = set_keys a pos (current_item s) m;
         m = set_childsi a (pos + 1) (ld_noff m (root_itm s + 10)) m
     in s\<lparr>mem := set_count a (node_count m a + 1) m\<rparr>)"
  using assms by (simp add: add_item_to_free_node_def)

lemma only_nodes_itm:
  assumes "only_nodes A m m'" "\<forall>a\<in>A. r + 6 \<le> a \<or> a + 64 \<le> r"
  shows "ld_noff m' r = ld_noff m r"
proof (rule ld_noff_cong)
  fix i
  assume i: "r \<le> i" "i < r + 6"
  have "\<forall>a\<in>A. i < a \<or> a + 64 \<le> i"
  proof
    fix a
    assume "a \<in> A"
    with assms(2) have "r + 6 \<le> a \<or> a + 64 \<le> r" by blast
    then show "i < a \<or> a + 64 \<le> i" using i by linarith
  qed
  then show "m' i = m i" using assms(1) by (simp add: only_nodes_def)
qed

definition node_cases :: "(nat \<times> nat) set" where
  "node_cases = {(0, 0), (1, 0), (1, 1), (2, 0), (2, 1), (2, 2), (3, 0), (3, 1), (3, 2), (3, 3)}"

lemma node_casesI: "n < 4 \<Longrightarrow> pos \<le> n \<Longrightarrow> (n, pos) \<in> node_cases"
proof -
  assume a: "n < 4" "pos \<le> n"
  then have "n = 0 \<or> n = 1 \<or> n = 2 \<or> n = 3" "pos = 0 \<or> pos = 1 \<or> pos = 2 \<or> pos = 3" by linarith+
  then show ?thesis using a(2) unfolding node_cases_def by (elim disjE) simp_all
qed

lemma insert_at_cases:
  "\<forall>(n, pos)\<in>node_cases.
    take (n + 1) ((fold (\<lambda>c ks. ks[c := ks ! (c - 1)]) (rev [pos + 1..<n + 1]) [k0, k1, k2, k3])[pos := x]) =
      take pos [k0, k1, k2, k3] @ x # drop pos (take n [k0, k1, k2, k3])"
  "\<forall>(n, pos)\<in>node_cases.
    take (n + 2) ((fold (\<lambda>c cs. cs[c + 1 := cs ! c]) (rev [pos + 1..<n + 1]) [c0, c1, c2, c3, c4])[pos + 1 := y]) =
      take (pos + 1) [c0, c1, c2, c3, c4] @ y # drop (pos + 1) (take (n + 1) [c0, c1, c2, c3, c4])"
  by (simp_all add: upt_conv_Cons node_cases_def)

lemma insert_at_shift:
  assumes "n < 4" "pos \<le> n"
  shows "length ks = 4 \<Longrightarrow>
      take (n + 1) ((fold (\<lambda>c ks. ks[c := ks ! (c - 1)]) (rev [pos + 1..<n + 1]) ks)[pos := x]) =
      take pos ks @ x # drop pos (take n ks)"
    "length cs = 5 \<Longrightarrow>
      take (n + 2) ((fold (\<lambda>c cs. cs[c + 1 := cs ! c]) (rev [pos + 1..<n + 1]) cs)[pos + 1 := y]) =
      take (pos + 1) cs @ y # drop (pos + 1) (take (n + 1) cs)"
proof -
  note c = node_casesI [OF assms]
  show "take (n + 1) ((fold (\<lambda>c ks. ks[c := ks ! (c - 1)]) (rev [pos + 1..<n + 1]) ks)[pos := x]) =
      take pos ks @ x # drop pos (take n ks)" if "length ks = 4"
  proof -
    obtain k0 k1 k2 k3 where ks: "ks = [k0, k1, k2, k3]" using list4 [OF \<open>length ks = 4\<close>] by auto
    show ?thesis unfolding ks by (rule bspec [OF insert_at_cases(1) c, unfolded prod.case])
  qed
  show "take (n + 2) ((fold (\<lambda>c cs. cs[c + 1 := cs ! c]) (rev [pos + 1..<n + 1]) cs)[pos + 1 := y]) =
      take (pos + 1) cs @ y # drop (pos + 1) (take (n + 1) cs)" if "length cs = 5"
  proof -
    obtain c0 c1 c2 c3 c4 where cs: "cs = [c0, c1, c2, c3, c4]" using list5 [OF \<open>length cs = 5\<close>] by auto
    show ?thesis unfolding cs by (rule bspec [OF insert_at_cases(2) c, unfolded prod.case])
  qed
qed

lemma add_item_arrays:
  assumes e: "\<not> ISEMPTY_NODE nodei" and a: "REFNODE nodei = a"
    and n: "unat (node_count (mem s) a) = n" "n < 4" "pos \<le> n"
    and r: "root_itm s + 16 \<le> a \<or> a + 64 \<le> root_itm s"
  defines "s' \<equiv> add_item_to_free_node nodei pos s"
  shows "unat (node_count (mem s') a) = n + 1"
    "ukeys (mem s') a = take pos (ukeys (mem s) a) @ current_item s # drop pos (ukeys (mem s) a)"
    "uch (mem s') a = take (pos + 1) (uch (mem s) a) @ newnodei s # drop (pos + 1) (uch (mem s) a)"
    "only_nodes {a} (mem s) (mem s')" "s' = s\<lparr>mem := mem s'\<rparr>"
proof -
  let ?xs = "rev [pos + 1..<n + 1]"
  let ?m1 = "fold (shift_right a) ?xs (mem s)"
  have xs: "\<forall>c\<in>set ?xs. 0 < c \<and> c < 4" using n by auto
  note f = shift_right_fold [OF xs]
  have r': "root_itm s + 10 + 6 \<le> a \<or> a + 64 \<le> root_itm s + 10" using r by arith
  have i: "ld_noff ?m1 (root_itm s + 10) = newnodei s"
    using only_nodes_itm [OF f(4)] r' by (simp add: newnodei_def)
  have p: "pos < 4" "pos + 1 < 5" using n by auto
  let ?m2 = "set_childsi a (pos + 1) (newnodei s) (set_keys a pos (current_item s) ?m1)"
  have s': "s' = s\<lparr>mem := set_count a (node_count ?m2 a + 1) ?m2\<rparr>"
    unfolding s'_def add_item_eq [OF e a] n(1) Let_def
    by (simp only: itm_other(2) [OF r' p(1)] i)
  have cnt2: "node_count ?m2 a = node_count (mem s) a" using p by (simp only: node_same f(1))
  have m': "mem s' = set_count a (node_count (mem s) a + 1) ?m2" unfolding s' cnt2 by simp
  have cnt: "node_count (mem s') a = node_count (mem s) a + 1" unfolding m' node_same ..
  show u: "unat (node_count (mem s') a) = n + 1"
    unfolding cnt using n by (simp add: unat_word_ariths)
  have k: "nk (mem s') a = (fold (\<lambda>c ks. ks[c := ks ! (c - 1)]) ?xs (nk (mem s) a))[pos := current_item s]"
    and c: "nc (mem s') a = (fold (\<lambda>c cs. cs[c + 1 := cs ! c]) ?xs (nc (mem s) a))[pos + 1 := newnodei s]"
    unfolding m' using p by (simp_all only: node_same f(2,3))
  show "ukeys (mem s') a = take pos (ukeys (mem s) a) @ current_item s # drop pos (ukeys (mem s) a)"
    unfolding ukeys_def u n(1) k using n(3) by (simp only: insert_at_shift(1) [OF n(2,3)] length_nk take_take min_absorb1)
  show "uch (mem s') a = take (pos + 1) (uch (mem s) a) @ newnodei s # drop (pos + 1) (uch (mem s) a)"
    unfolding uch_def u n(1) c using n(3) insert_at_shift(2) [OF n(2,3), of "nc (mem s) a" "newnodei s"]
    by (simp add: min_def)
  show "only_nodes {a} (mem s) (mem s')" unfolding m' using f(4) p by (simp add: only_nodes_step)
  show "s' = s\<lparr>mem := mem s'\<rparr>" by (simp add: s')
qed

section \<open>Splitting a node\<close>

lemma used_same:
  "i < 4 \<Longrightarrow> ukeys (set_keys a i k m) a = (ukeys m a)[i := k]"
  "i < 4 \<Longrightarrow> uch (set_keys a i k m) a = uch m a"
  "j < 5 \<Longrightarrow> uch (set_childsi a j c m) a = (uch m a)[j := c]"
  "j < 5 \<Longrightarrow> ukeys (set_childsi a j c m) a = ukeys m a"
  "unat v \<le> unat (node_count m a) \<Longrightarrow> ukeys (set_count a v m) a = take (unat v) (ukeys m a)"
  "unat v \<le> unat (node_count m a) \<Longrightarrow> uch (set_count a v m) a = take (unat v + 1) (uch m a)"
  unfolding ukeys_def uch_def by (simp_all add: node_same take_update_swap min_def)

lemma used_other:
  assumes "apart a b"
  shows "ukeys (set_count b v m) a = ukeys m a" "uch (set_count b v m) a = uch m a"
    "i < 4 \<Longrightarrow> ukeys (set_keys b i k m) a = ukeys m a" "i < 4 \<Longrightarrow> uch (set_keys b i k m) a = uch m a"
    "j < 5 \<Longrightarrow> ukeys (set_childsi b j c m) a = ukeys m a"
    "j < 5 \<Longrightarrow> uch (set_childsi b j c m) a = uch m a"
  using assms unfolding ukeys_def uch_def by (simp_all add: node_other)

lemma used_nth:
  "i < unat (node_count m a) \<Longrightarrow> i < 4 \<Longrightarrow> node_keys m a i = ukeys m a ! i"
  "i \<le> unat (node_count m a) \<Longrightarrow> i < 5 \<Longrightarrow> childsi m a i = uch m a ! i"
  unfolding ukeys_def uch_def by (simp_all add: node_fields)

lemma used_length:
  "unat (node_count m a) \<le> 4 \<Longrightarrow> length (ukeys m a) = unat (node_count m a)"
  "unat (node_count m a) \<le> 4 \<Longrightarrow> length (uch m a) = unat (node_count m a) + 1"
  unfolding ukeys_def uch_def by simp_all

lemma used_cong:
  assumes "\<And>i. a \<le> i \<Longrightarrow> i < a + 64 \<Longrightarrow> m i = m' i"
  shows "ukeys m a = ukeys m' a" "uch m a = uch m' a"
  using node_cong [OF assms] by (simp_all add: ukeys_def uch_def)

lemma only_nodes_other:
  assumes "only_nodes A m m'" "\<forall>a\<in>A. apart b a"
  shows "node_count m' b = node_count m b" "nk m' b = nk m b" "nc m' b = nc m b"
    "ukeys m' b = ukeys m b" "uch m' b = uch m b"
proof -
  have "m' i = m i" if "b \<le> i" "i < b + 64" for i
  proof -
    have "\<forall>a\<in>A. i < a \<or> a + 64 \<le> i"
    proof
      fix a
      assume "a \<in> A"
      with assms(2) have "a + 64 \<le> b \<or> b + 64 \<le> a" by (auto simp: apart_def)
      then show "i < a \<or> a + 64 \<le> i" using that by linarith
    qed
    then show ?thesis using assms(1) by (simp add: only_nodes_def)
  qed
  then show "node_count m' b = node_count m b" "nk m' b = nk m b" "nc m' b = nc m b"
    "ukeys m' b = ukeys m b" "uch m' b = uch m b"
    using node_cong [of b m' m] used_cong [of b m' m] by blast+
qed

lemma split_copy_step:
  assumes "apart a b" "newpos < n" "n < 5"
  shows "node_count (split_copy a b newpos n m) a = node_count m a"
    "nk (split_copy a b newpos n m) a = nk m a" "nc (split_copy a b newpos n m) a = nc m a"
    "nk (split_copy a b newpos n m) b = (nk m b)[n - newpos - 1 := nk m a ! (n - 1)]"
    "nc (split_copy a b newpos n m) b = (nc m b)[n - newpos := nc m a ! n]"
    "only_nodes {b} m (split_copy a b newpos n m)"
  using assms apart_sym [OF assms(1)]
  by (simp_all add: split_copy_def Let_def node_same node_other node_fields only_nodes_step)

lemma split_fold:
  assumes ab: "apart a b" and np: "newpos = 2 \<or> newpos = 3" and n: "unat (node_count m a) = 4"
  defines "m' \<equiv> set_count a (of_nat newpos)
    (set_count b (of_nat (TREE_NODECOUNT - newpos)) (fold (split_copy a b newpos) [newpos + 1..<TREE_NODECOUNT + 1] m))"
  shows "unat (node_count m' a) = newpos" "ukeys m' a = take newpos (ukeys m a)"
    "uch m' a = take (newpos + 1) (uch m a)"
    "unat (node_count m' b) = 4 - newpos" "ukeys m' b = drop newpos (ukeys m a)"
    "drop 1 (uch m' b) = drop (newpos + 1) (uch m a)" "only_nodes {a, b} m m'"
proof -
  obtain k0 k1 k2 k3 where k: "nk m a = [k0, k1, k2, k3]" using list4 [of "nk m a"] by auto
  obtain c0 c1 c2 c3 c4 where c: "nc m a = [c0, c1, c2, c3, c4]" using list5 [of "nc m a"] by auto
  obtain j0 j1 j2 j3 where j: "nk m b = [j0, j1, j2, j3]" using list4 [of "nk m b"] by auto
  obtain d0 d1 d2 d3 d4 where d: "nc m b = [d0, d1, d2, d3, d4]" using list5 [of "nc m b"] by auto
  have ba: "apart b a" using ab by (rule apart_sym)
  let ?f = "fold (split_copy a b newpos) [newpos + 1..<TREE_NODECOUNT + 1] m"
  note x = split_copy_step(1-5) [OF ab] k c j d upt_conv_Cons
  have f: "node_count ?f a = node_count m a" "nk ?f a = [k0, k1, k2, k3]" "nc ?f a = [c0, c1, c2, c3, c4]"
    "take (4 - newpos) (nk ?f b) = drop newpos [k0, k1, k2, k3]"
    "drop 1 (take (5 - newpos) (nc ?f b)) = drop (newpos + 1) [c0, c1, c2, c3, c4]"
    using np by (elim disjE; simp add: x)+
  have o: "only_nodes {a, b} m ?f"
    by (rule only_nodes_fold [OF only_nodes_refl], rule only_nodes_trans [OF _ only_nodes_mono [OF split_copy_step(6) [OF ab]]])
      auto
  let ?f1 = "set_count b (of_nat (TREE_NODECOUNT - newpos)) ?f"
  have ka: "nk m' a = [k0, k1, k2, k3]" "nc m' a = [c0, c1, c2, c3, c4]"
    unfolding m'_def node_same node_other(1-3) [OF ab] f(2,3) by (rule refl)+
  have kb: "nk m' b = nk ?f b" "nc m' b = nc ?f b"
    unfolding m'_def node_same node_other(1-3) [OF ba] by (rule refl)+
  show a: "unat (node_count m' a) = newpos"
    unfolding m'_def node_same using np by (elim disjE) simp_all
  show b: "unat (node_count m' b) = 4 - newpos"
    unfolding m'_def node_same node_other(1) [OF ba] using np by (elim disjE) simp_all
  show "ukeys m' a = take newpos (ukeys m a)" "uch m' a = take (newpos + 1) (uch m a)"
    unfolding ukeys_def uch_def a n ka k c using np by (elim disjE; simp)+
  show "ukeys m' b = drop newpos (ukeys m a)"
    unfolding ukeys_def b n kb f(4) k by simp
  have e: "4 - newpos + 1 = 5 - newpos" using np by (elim disjE) simp_all
  show "drop 1 (uch m' b) = drop (newpos + 1) (uch m a)"
    unfolding uch_def b n kb c e f(5) by simp
  show "only_nodes {a, b} m m'" unfolding m'_def using o by (simp add: only_nodes_step)
qed


text \<open>
  \<open>split_node\<close> when the allocation gives a new node: the five keys and six children of the full node
  with the new item are divided, the middle key is handed up.
\<close>

lemma split_effect:
  assumes e: "\<not> ISEMPTY_NODE nodei" "REFNODE nodei = a" "\<not> ISEMPTY_NODE newi" "REFNODE newi = b"
    and al: "SHMALLOC_NODE now s = Some (newi, b, s1)" and s1: "s1 = s\<lparr>mem := mem s1\<rparr>"
    and n: "unat (node_count (mem s1) a) = 4" "pos \<le> 4"
    and ab: "apart a b"
    and r: "root_itm s + 16 \<le> a \<or> a + 64 \<le> root_itm s" "root_itm s + 16 \<le> b \<or> b + 64 \<le> root_itm s"
  defines "ks \<equiv> take pos (ukeys (mem s1) a) @ current_item s # drop pos (ukeys (mem s1) a)"
    and "cs \<equiv> take (pos + 1) (uch (mem s1) a) @ newnodei s1 # drop (pos + 1) (uch (mem s1) a)"
  obtains m2 where
    "split_node now nodei pos s = Some (set_newnodei newi (s\<lparr>current_item := ks ! 2, mem := m2\<rparr>))"
    "unat (node_count m2 a) = 2" "ukeys m2 a = take 2 ks" "uch m2 a = take 3 cs"
    "unat (node_count m2 b) = 2" "ukeys m2 b = drop 3 ks" "uch m2 b = drop 3 cs"
    "only_nodes {a, b} (mem s1) m2"
proof -
  define newpos where "newpos = (if pos \<le> TREE_NODEMIN then TREE_NODEMIN else TREE_NODEMIN + 1)"
  have np: "newpos = 2 \<or> newpos = 3" by (simp add: newpos_def)
  have ba: "apart b a" using ab by (rule apart_sym)
  define m1 where "m1 = set_count a (of_nat newpos) (set_count b (of_nat (TREE_NODECOUNT - newpos))
    (fold (split_copy a b newpos) [newpos + 1..<TREE_NODECOUNT + 1] (mem s1)))"
  note f = split_fold [OF ab np n(1), folded m1_def]
  let ?s = "s\<lparr>mem := m1\<rparr>"
  have new: "newnodei ?s = newnodei s1"
    using only_nodes_itm [OF f(7), of "root_itm s + 10"] r arg_cong [OF s1, of root_itm]
    by (auto simp: newnodei_def)
  define s2 where "s2 = (if pos \<le> TREE_NODEMIN then add_item_to_free_node nodei pos ?s
    else add_item_to_free_node newi (pos - newpos) ?s)"
  have len: "length (ukeys (mem s1) a) = 4" "length (uch (mem s1) a) = 5"
    using used_length [of "mem s1" a] n(1) by simp_all
  obtain k0 k1 k2 k3 where k: "ukeys (mem s1) a = [k0, k1, k2, k3]" using list4 [OF len(1)] by auto
  obtain c0 c1 c2 c3 c4 where c: "uch (mem s1) a = [c0, c1, c2, c3, c4]" using list5 [OF len(2)] by auto
  have ks: "length ks = 5" and cs: "length cs = 6" using n(2) by (simp_all add: ks_def cs_def len)
  have s2: "s2 = s\<lparr>mem := mem s2\<rparr>" "only_nodes {a, b} m1 (mem s2)"
    "unat (node_count (mem s2) a) = 3 \<and> ukeys (mem s2) a = take 3 ks \<and> uch (mem s2) a = take 4 cs \<and>
     unat (node_count (mem s2) b) = 2 \<and> ukeys (mem s2) b = drop 3 ks \<and> drop 1 (uch (mem s2) b) = drop 4 cs"
  proof -
    show "s2 = s\<lparr>mem := mem s2\<rparr>" by (simp add: s2_def add_item_to_free_node_def Let_def)
    have "(s2 = s\<lparr>mem := mem s2\<rparr> \<longrightarrow> True) \<and> only_nodes {a, b} m1 (mem s2) \<and>
     unat (node_count (mem s2) a) = 3 \<and> ukeys (mem s2) a = take 3 ks \<and> uch (mem s2) a = take 4 cs \<and>
     unat (node_count (mem s2) b) = 2 \<and> ukeys (mem s2) b = drop 3 ks \<and> drop 1 (uch (mem s2) b) = drop 4 cs"
    proof (cases "pos \<le> 2")
      case True
      then have np: "newpos = 2" and s2: "s2 = add_item_to_free_node nodei pos ?s" by (simp_all add: newpos_def s2_def)
      have p: "pos = 0 \<or> pos = 1 \<or> pos = 2" using True by linarith
      note g = add_item_arrays [OF e(1,2), of ?s 2 pos, folded s2, unfolded new, simplified, OF f(1) [unfolded np] True r(1)]
      note o = only_nodes_other [OF g(4), of b]
      have "ukeys (mem s2) a = take 3 ks" "uch (mem s2) a = take 4 cs"
        unfolding g(2,3) f(2,3) np ks_def cs_def k c using p by (elim disjE; simp)+
      moreover have "ukeys (mem s2) b = drop 3 ks" "drop 1 (uch (mem s2) b) = drop 4 cs"
        using o(4,5) ba unfolding f(5,6) np ks_def cs_def k c using p f(5,6) np k c by (elim disjE; simp)+
      ultimately show ?thesis using g(1,4) o(1) ba f(4) np only_nodes_mono [OF g(4), of "{a, b}"] by simp
    next
      case False
      then have np: "newpos = 3" and s2: "s2 = add_item_to_free_node newi (pos - 3) ?s" by (simp_all add: newpos_def s2_def)
      have p: "pos = 3 \<or> pos = 4" using False n(2) by linarith
      then have p': "pos - 3 \<le> 1" by auto
      have "unat (node_count (mem ?s) b) = 1" using f(4) np by simp
      note g = add_item_arrays [OF e(3,4) this _ p', folded s2, unfolded new, simplified, OF r(2)]
      note o = only_nodes_other [OF g(4), of a]
      have "length (uch m1 b) = 2" using used_length(2) [of m1 b] f(4) np by simp
      then obtain d where d: "uch m1 b = [d, c4]"
        using f(6) np c by (auto simp: numeral_2_eq_2 length_Suc_conv)
      have "ukeys (mem s2) b = drop 3 ks" "drop 1 (uch (mem s2) b) = drop 4 cs"
        unfolding g(2,3) f(5) d np ks_def cs_def k c using p by (elim disjE; simp)+
      moreover have "ukeys (mem s2) a = take 3 ks" "uch (mem s2) a = take 4 cs"
        using o(4,5) ab unfolding f(2,3) np ks_def cs_def k c using p by (elim disjE; simp)+
      ultimately show ?thesis using g(1,4) o(1) ab f(1) np only_nodes_mono [OF g(4), of "{a, b}"] by simp
    qed
    then show "only_nodes {a, b} m1 (mem s2)"
      "unat (node_count (mem s2) a) = 3 \<and> ukeys (mem s2) a = take 3 ks \<and> uch (mem s2) a = take 4 cs \<and>
       unat (node_count (mem s2) b) = 2 \<and> ukeys (mem s2) b = drop 3 ks \<and> drop 1 (uch (mem s2) b) = drop 4 cs"
      by blast+
  qed
  let ?m3 = "set_childsi b 0 (cs ! 3) (mem s2)"
  define m2 where "m2 = set_count a (node_count ?m3 a - 1) ?m3"
  have key: "node_keys (mem s2) a 2 = ks ! 2" "childsi (mem s2) a 3 = cs ! 3"
    using used_nth [of _ "mem s2" a] s2(3) by simp_all
  have cnt: "node_count ?m3 a = 3"
    using s2(3) count_eq [of "mem s2" a 3] by (simp add: node_other(7) [OF ab])
  have cnt2: "unat (node_count ?m3 a - 1) = 2" unfolding cnt by simp
  have "split_node now nodei pos s = Some (set_newnodei newi (s\<lparr>current_item := ks ! 2, mem := m2\<rparr>))"
  proof -
    have s1m: "s1\<lparr>mem := x\<rparr> = s\<lparr>mem := x\<rparr>" for x by (subst s1) simp
    have n3: "unat (node_count (mem s2) a) = 3" using s2(3) by blast
    have s2m: "s2\<lparr>current_item := x, mem := y\<rparr> = s\<lparr>current_item := x, mem := y\<rparr>" for x y by (subst s2(1)) simp
    have "split_node now nodei pos s =
      (let s = s2\<lparr>current_item := node_keys (mem s2) a (unat (node_count (mem s2) a) - 1)\<rparr>;
           m = set_childsi b 0 (childsi (mem s2) a (unat (node_count (mem s2) a))) (mem s2);
           s = s\<lparr>mem := set_count a (node_count m a - 1) m\<rparr>
       in Some (set_newnodei newi s))"
      unfolding split_node_def e(2) al Option.bind.simps prod.case Let_def newpos_def [symmetric] m1_def [symmetric] s1m
        s2_def [symmetric]
      using e(1) by simp
    then show ?thesis unfolding Let_def n3 m2_def using key s2m by simp
  qed
  moreover have "unat (node_count m2 a) = 2" unfolding m2_def node_same by (rule cnt2)
  moreover have "ukeys m2 a = take 2 ks" "uch m2 a = take 3 cs"
    using s2(3) cnt2 cnt by (simp_all add: m2_def used_same used_other [OF ab])
  moreover have b: "node_count m2 b = node_count ?m3 b" "ukeys m2 b = ukeys ?m3 b" "uch m2 b = uch ?m3 b"
    unfolding m2_def by (simp_all add: node_other [OF ba] used_other [OF ba])
  then have "unat (node_count m2 b) = 2" "ukeys m2 b = drop 3 ks"
    using s2(3) by (simp_all add: node_same used_same)
  moreover have "uch m2 b = drop 3 cs"
  proof -
    have "uch m2 b = (uch (mem s2) b)[0 := cs ! 3]" unfolding b by (simp add: used_same)
    moreover have "length (uch (mem s2) b) = 3" using used_length(2) [of "mem s2" b] s2(3) by simp
    then have "(uch (mem s2) b)[0 := x] = x # drop 1 (uch (mem s2) b)" for x by (cases "uch (mem s2) b") auto
    ultimately show ?thesis using s2(3) Cons_nth_drop_Suc [of 3 cs] cs by simp
  qed
  moreover have "only_nodes {a, b} (mem s1) m2"
    unfolding m2_def using only_nodes_trans [OF f(7) s2(2)] by (simp add: only_nodes_step)
  ultimately show thesis by (intro that)
qed

section \<open>Taking an item out of a node\<close>

lemma shift_left_step:
  assumes "0 < c" "c < 4"
  shows "node_count (shift_left a c m) a = node_count m a"
    "nk (shift_left a c m) a = (nk m a)[c - 1 := nk m a ! c]"
    "nc (shift_left a c m) a = (nc m a)[c := nc m a ! (c + 1)]"
    "only_nodes {a} m (shift_left a c m)"
  using assms by (simp_all add: shift_left_def Let_def node_same node_fields only_nodes_step)

lemma shift_left_fold:
  assumes "\<forall>c\<in>set xs. 0 < c \<and> c < 4"
  shows "node_count (fold (shift_left a) xs m) a = node_count m a"
    "nk (fold (shift_left a) xs m) a = fold (\<lambda>c ks. ks[c - 1 := ks ! c]) xs (nk m a)"
    "nc (fold (shift_left a) xs m) a = fold (\<lambda>c cs. cs[c := cs ! (c + 1)]) xs (nc m a)"
    "only_nodes {a} m (fold (shift_left a) xs m)"
proof -
  show "node_count (fold (shift_left a) xs m) a = node_count m a"
    by (rule fold_keeps [where h = "\<lambda>m. node_count m a"]) (use assms in \<open>simp add: shift_left_step\<close>)
  show "nk (fold (shift_left a) xs m) a = fold (\<lambda>c ks. ks[c - 1 := ks ! c]) xs (nk m a)"
    by (rule fold_view [where h = "\<lambda>m. nk m a"]) (use assms in \<open>simp add: shift_left_step\<close>)
  show "nc (fold (shift_left a) xs m) a = fold (\<lambda>c cs. cs[c := cs ! (c + 1)]) xs (nc m a)"
    by (rule fold_view [where h = "\<lambda>m. nc m a"]) (use assms in \<open>simp add: shift_left_step\<close>)
  show "only_nodes {a} m (fold (shift_left a) xs m)"
    by (rule only_nodes_fold [OF only_nodes_refl], rule only_nodes_trans [OF _ shift_left_step(4)])
      (use assms in auto)
qed

lemma remove_at_cases:
  "\<forall>(n, pos)\<in>node_cases.
    take n (fold (\<lambda>c ks. ks[c - 1 := ks ! c]) [pos + 1..<n + 1] [k0, k1, k2, k3]) =
      take pos [k0, k1, k2, k3] @ drop (pos + 1) (take (n + 1) [k0, k1, k2, k3])"
  "\<forall>(n, pos)\<in>node_cases.
    take (n + 1) (fold (\<lambda>c cs. cs[c := cs ! (c + 1)]) [pos + 1..<n + 1] [c0, c1, c2, c3, c4]) =
      take (pos + 1) [c0, c1, c2, c3, c4] @ drop (pos + 2) (take (n + 2) [c0, c1, c2, c3, c4])"
  by (simp_all add: upt_conv_Cons node_cases_def)

lemma remove_at_shift:
  assumes "n < 4" "pos \<le> n"
  shows "length ks = 4 \<Longrightarrow>
      take n (fold (\<lambda>c ks. ks[c - 1 := ks ! c]) [pos + 1..<n + 1] ks) =
      take pos ks @ drop (pos + 1) (take (n + 1) ks)"
    "length cs = 5 \<Longrightarrow>
      take (n + 1) (fold (\<lambda>c cs. cs[c := cs ! (c + 1)]) [pos + 1..<n + 1] cs) =
      take (pos + 1) cs @ drop (pos + 2) (take (n + 2) cs)"
proof -
  note c = node_casesI [OF assms]
  show "take n (fold (\<lambda>c ks. ks[c - 1 := ks ! c]) [pos + 1..<n + 1] ks) =
      take pos ks @ drop (pos + 1) (take (n + 1) ks)" if "length ks = 4"
  proof -
    obtain k0 k1 k2 k3 where ks: "ks = [k0, k1, k2, k3]" using list4 [OF \<open>length ks = 4\<close>] by auto
    show ?thesis unfolding ks by (rule bspec [OF remove_at_cases(1) c, unfolded prod.case])
  qed
  show "take (n + 1) (fold (\<lambda>c cs. cs[c := cs ! (c + 1)]) [pos + 1..<n + 1] cs) =
      take (pos + 1) cs @ drop (pos + 2) (take (n + 2) cs)" if "length cs = 5"
  proof -
    obtain c0 c1 c2 c3 c4 where cs: "cs = [c0, c1, c2, c3, c4]" using list5 [OF \<open>length cs = 5\<close>] by auto
    show ?thesis unfolding cs by (rule bspec [OF remove_at_cases(2) c, unfolded prod.case])
  qed
qed

lemma unat_pred: "unat (v :: u8) = n + 1 \<Longrightarrow> unat (v - 1) = n"
  by (metis add.commute add_diff_cancel_left' unat_eq_zero unat_minus_one zero_neq_one One_nat_def Suc_eq_plus1 nat.distinct(1))

lemma unat_succ: "unat (v :: u8) < 4 \<Longrightarrow> unat (v + 1) = unat v + 1"
  by (simp add: unat_word_ariths)

lemma remove_trgt_effect:
  assumes a: "REFNODE nodei = a" and n: "unat (node_count (mem s) a) = n + 1" "n < 4" "pos \<le> n"
  defines "s' \<equiv> remove_item_trgt nodei pos s"
  shows "unat (node_count (mem s') a) = n"
    "ukeys (mem s') a = take pos (ukeys (mem s) a) @ drop (pos + 1) (ukeys (mem s) a)"
    "uch (mem s') a = take (pos + 1) (uch (mem s) a) @ drop (pos + 2) (uch (mem s) a)"
    "only_nodes {a} (mem s) (mem s')" "s' = s\<lparr>mem := mem s', undersize := n < 2\<rparr>"
proof -
  let ?m1 = "fold (shift_left a) [pos + 1..<n + 1] (mem s)"
  have "\<forall>c\<in>set [pos + 1..<n + 1]. 0 < c \<and> c < 4" using n by auto
  note f = shift_left_fold [OF this]
  have m': "mem s' = set_count a (node_count (mem s) a - 1) ?m1"
    unfolding s'_def remove_item_trgt_def Let_def a n(1) f(1) by simp
  show u: "unat (node_count (mem s') a) = n"
    unfolding m' node_same by (rule unat_pred [OF n(1)])
  show "s' = s\<lparr>mem := mem s', undersize := n < 2\<rparr>"
  proof -
    have "s' = s\<lparr>mem := mem s', undersize := unat (node_count (mem s') a) < TREE_NODEMIN\<rparr>"
      by (simp add: s'_def remove_item_trgt_def Let_def a)
    then show ?thesis unfolding u .
  qed
  have k: "nk (mem s') a = fold (\<lambda>c ks. ks[c - 1 := ks ! c]) [pos + 1..<n + 1] (nk (mem s) a)"
    and c: "nc (mem s') a = fold (\<lambda>c cs. cs[c := cs ! (c + 1)]) [pos + 1..<n + 1] (nc (mem s) a)"
    unfolding m' by (simp_all only: node_same f(2,3))
  show "ukeys (mem s') a = take pos (ukeys (mem s) a) @ drop (pos + 1) (ukeys (mem s) a)"
    unfolding ukeys_def u n(1) k using remove_at_shift(1) [OF n(2,3), of "nk (mem s) a"] n(3) by (simp add: min_def)
  show "uch (mem s') a = take (pos + 1) (uch (mem s) a) @ drop (pos + 2) (uch (mem s) a)"
    unfolding uch_def u n(1) c using remove_at_shift(2) [OF n(2,3), of "nc (mem s) a"] n(3) by (simp add: min_def)
  show "only_nodes {a} (mem s) (mem s')" unfolding m' using f(4) by (simp add: only_nodes_step)
qed

section \<open>Moving an item between siblings\<close>

lemma push_front_cases:
  "\<forall>n\<in>{0, 1, 2, 3}.
    take (n + 1) ((fold (\<lambda>c ks. ks[c := ks ! (c - 1)]) (rev [1..<n + 1]) [k0, k1, k2, k3])[0 := x]) =
      x # take n [k0, k1, k2, k3]"
  "\<forall>n\<in>{0, 1, 2, 3}. let cs = fold (\<lambda>c cs. cs[c + 1 := cs ! c]) (rev [1..<n + 1]) [c0, c1, c2, c3, c4] in
    take (n + 2) (cs[1 := cs ! 0, 0 := y]) = y # take (n + 1) [c0, c1, c2, c3, c4]"
  by (simp_all add: upt_conv_Cons Let_def)

lemma push_front:
  assumes "n < 4"
  shows "length ks = 4 \<Longrightarrow>
      take (n + 1) ((fold (\<lambda>c ks. ks[c := ks ! (c - 1)]) (rev [1..<n + 1]) ks)[0 := x]) = x # take n ks"
    "length cs = 5 \<Longrightarrow> cs' = fold (\<lambda>c cs. cs[c + 1 := cs ! c]) (rev [1..<n + 1]) cs \<Longrightarrow>
      take (n + 2) (cs'[1 := cs' ! 0, 0 := y]) = y # take (n + 1) cs"
proof -
  have n: "n \<in> {0, 1, 2, 3}" using assms by (simp, linarith)
  show "take (n + 1) ((fold (\<lambda>c ks. ks[c := ks ! (c - 1)]) (rev [1..<n + 1]) ks)[0 := x]) = x # take n ks"
    if "length ks = 4"
  proof -
    obtain k0 k1 k2 k3 where ks: "ks = [k0, k1, k2, k3]" using list4 [OF \<open>length ks = 4\<close>] by auto
    show ?thesis unfolding ks by (rule bspec [OF push_front_cases(1) n])
  qed
  show "take (n + 2) (cs'[1 := cs' ! 0, 0 := y]) = y # take (n + 1) cs"
    if "length cs = 5" "cs' = fold (\<lambda>c cs. cs[c + 1 := cs ! c]) (rev [1..<n + 1]) cs"
  proof -
    obtain c0 c1 c2 c3 c4 where cs: "cs = [c0, c1, c2, c3, c4]" using list5 [OF \<open>length cs = 5\<close>] by auto
    show ?thesis unfolding that(2) cs by (rule bspec [OF push_front_cases(2) n, unfolded Let_def])
  qed
qed

lemma moveright_effect:
  assumes def: "m = mem s" "REFNODE nodei = a" "REFNODE (uch m a ! (pos - 1)) = l" "REFNODE (uch m a ! pos) = r"
    and n: "0 < pos" "pos \<le> unat (node_count m a)" "unat (node_count m a) \<le> 4"
    and nl: "unat (node_count m l) = nl + 1" "nl < 4" and nr: "unat (node_count m r) = nr" "nr < 4"
    and ap: "apart a l" "apart a r" "apart l r"
  obtains m' where "remove_item_moveright nodei pos s = s\<lparr>mem := m'\<rparr>" "only_nodes {a, l, r} m m'"
    "node_count m' a = node_count m a" "ukeys m' a = (ukeys m a)[pos - 1 := ukeys m l ! nl]" "uch m' a = uch m a"
    "unat (node_count m' l) = nl" "ukeys m' l = take nl (ukeys m l)" "uch m' l = take (nl + 1) (uch m l)"
    "unat (node_count m' r) = nr + 1" "ukeys m' r = ukeys m a ! (pos - 1) # ukeys m r"
    "uch m' r = uch m l ! (nl + 1) # uch m r"
proof -
  note ap' = ap [THEN apart_sym]
  have ch: "childsi m a (pos - 1) = uch m a ! (pos - 1)" "childsi m a pos = uch m a ! pos"
    using n by (intro used_nth(2); linarith)+
  define m1 where "m1 = fold (shift_right r) (rev [1..<nr + 1]) m"
  have "\<forall>c\<in>set (rev [1..<nr + 1]). 0 < c \<and> c < 4" using nr by auto
  note f = shift_right_fold [OF this, where a = r and m = m, folded m1_def]
  define m2 where "m2 = set_count r (node_count m r + 1) (set_childsi r 1 (nc m1 r ! 0) m1)"
  define m3 where "m3 = set_keys r 0 (ukeys m a ! (pos - 1)) m2"
  define m4 where "m4 = set_keys a (pos - 1) (ukeys m l ! nl) m3"
  define m5 where "m5 = set_childsi r 0 (uch m l ! (nl + 1)) m4"
  define m6 where "m6 = set_count l (node_count m l - 1) m5"
  have p: "pos - 1 < 4" using n by linarith
  have o1: "only_nodes {r} m m3" unfolding m3_def m2_def using f(4) by (simp add: only_nodes_step)
  note oa = only_nodes_other [OF o1, of a] and ol = only_nodes_other [OF o1, of l]
  have oa2: "ukeys m2 a = ukeys m a" "node_count m2 a = node_count m a"
    unfolding m2_def using only_nodes_other [OF f(4), of a] ap(2) by (simp_all add: used_other [OF ap(2)] node_other [OF ap(2)])
  have k: "node_keys m2 a (pos - 1) = ukeys m a ! (pos - 1)"
    using used_nth(1) [of "pos - 1" m2 a] n p oa2 by simp
  have kl: "node_keys m3 l nl = ukeys m l ! nl"
    using used_nth(1) [of nl m3 l] nl ol ap(3) by simp
  have ll: "uch m4 l = uch m l" "node_count m4 l = node_count m l" "node_count m5 l = node_count m l"
    unfolding m5_def m4_def using ol ap p
    by (simp_all add: used_other [OF ap'(1)] used_other [OF ap(3)] node_other [OF ap'(1)] node_other [OF ap(3)])
  have cl: "childsi m4 l (nl + 1) = uch m l ! (nl + 1)"
    using used_nth(2) [of "nl + 1" m4 l] nl ll by simp
  have b: "node_count m1 r = node_count m r" "childsi m1 r 0 = nc m1 r ! 0" "unat (node_count m l) - 1 = nl"
    "node_count m3 l = node_count m l"
    using f(1) nl ol(1) ap(3) by (simp_all add: node_fields)
  have eq: "remove_item_moveright nodei pos s = s\<lparr>mem := m6\<rparr>"
    unfolding remove_item_moveright_def Let_def def(1) [symmetric] def(2) ch def(3,4) nr(1) m1_def [symmetric] b(2)
      node_same(7) b(1) m2_def [symmetric] k m3_def [symmetric] b(4) nl(1) add_diff_cancel_right' kl m4_def [symmetric] ll(2) nl(1) cl
      m5_def [symmetric] ll(3) m6_def [symmetric] ..
  have ka: "nk m6 a = (nk m a)[pos - 1 := ukeys m l ! nl]" "nc m6 a = nc m a" "node_count m6 a = node_count m a"
    using only_nodes_other(1-3) [OF o1, of a] ap p
    unfolding m6_def m5_def m4_def by (simp_all add: node_same node_other [OF ap(1)] node_other [OF ap(2)])
  have kl: "nk m6 l = nk m l" "nc m6 l = nc m l" "node_count m6 l = node_count m l - 1"
    using only_nodes_other(1-3) [OF o1, of l] ap p
    unfolding m6_def m5_def m4_def by (simp_all add: node_same node_other [OF ap'(1)] node_other [OF ap(3)])
  have kr: "nk m6 r = (nk m1 r)[0 := ukeys m a ! (pos - 1)]"
    "nc m6 r = (nc m1 r)[1 := nc m1 r ! 0, 0 := uch m l ! (nl + 1)]" "node_count m6 r = node_count m r + 1"
    using p unfolding m6_def m5_def m4_def m3_def m2_def
    by (simp_all add: node_same node_other [OF ap'(2)] node_other [OF ap'(3)])
  have cr: "unat (node_count m6 r) = nr + 1" unfolding kr(3) using nr by (simp add: unat_succ)
  have cl: "unat (node_count m6 l) = nl" unfolding kl(3) using nl(1) by (rule unat_pred)
  from eq show thesis
  proof (rule that)
    show "only_nodes {a, l, r} m m6"
      unfolding m6_def m5_def m4_def using only_nodes_mono [OF o1, of "{a, l, r}"] p by (simp add: only_nodes_step)
    show "node_count m6 a = node_count m a" by (rule ka(3))
    show "ukeys m6 a = (ukeys m a)[pos - 1 := ukeys m l ! nl]" "uch m6 a = uch m a"
      unfolding ukeys_def [of m6 a] ukeys_def [of m a] uch_def ka by (simp_all add: take_update_swap)
    show "unat (node_count m6 l) = nl" by (rule cl)
    show "ukeys m6 l = take nl (ukeys m l)" "uch m6 l = take (nl + 1) (uch m l)"
      unfolding ukeys_def uch_def cl nl(1) unfolding kl by simp_all
    show "unat (node_count m6 r) = nr + 1" by (rule cr)
    show "ukeys m6 r = ukeys m a ! (pos - 1) # ukeys m r"
      unfolding ukeys_def [of _ r] cr nr(1) unfolding kr f(2) by (rule push_front(1) [OF nr(2)]) simp
    show "uch m6 r = uch m l ! (nl + 1) # uch m r"
      unfolding uch_def [of _ r] cr nr(1) unfolding kr f(3) using push_front(2) [OF nr(2) _ refl, of "nc m r"] by simp
  qed
qed


lemma append_effect:
  assumes c: "unat (node_count m l) = c" "c < 4"
    and m1: "m1 = set_count l (node_count m l + 1) m" and m2: "m2 = set_keys l c k m1"
    and m': "m' = set_childsi l (c + 1) ch m2"
  shows "unat (node_count m1 l) - 1 = c" "unat (node_count m2 l) = c + 1" "unat (node_count m' l) = c + 1"
    "ukeys m' l = ukeys m l @ [k]" "uch m' l = uch m l @ [ch]" "only_nodes {l} m m'"
proof -
  have u: "unat (node_count m l + 1) = c + 1" using unat_succ [of "node_count m l"] c by simp
  show "unat (node_count m1 l) - 1 = c" "unat (node_count m2 l) = c + 1" "unat (node_count m' l) = c + 1"
    unfolding m' m2 m1 using c by (simp_all add: node_same u)
  have n: "nk m' l = (nk m l)[c := k]" "nc m' l = (nc m l)[c + 1 := ch]" "node_count m' l = node_count m l + 1"
    unfolding m' m2 m1 using c by (simp_all add: node_same)
  have t: "take (i + 1) (xs[i := x]) = take i xs @ [x]" if "i < length xs" for i x and xs :: "'a list"
    using that by (simp add: take_Suc_conv_app_nth)
  show "ukeys m' l = ukeys m l @ [k]" unfolding ukeys_def n u c(1) using t [of c "nk m l"] c(2) by simp
  show "uch m' l = uch m l @ [ch]" unfolding uch_def n u c(1) using t [of "c + 1" "nc m l"] c(2) by simp
  show "only_nodes {l} m m'" unfolding m' m2 m1 using c by (simp add: only_nodes_step)
qed

lemma pop_front_cases:
  "\<forall>n\<in>{0, 1, 2, 3}. take n (fold (\<lambda>c ks. ks[c - 1 := ks ! c]) [1..<n + 1] [k0, k1, k2, k3]) =
      drop 1 (take (n + 1) [k0, k1, k2, k3])"
  "\<forall>n\<in>{0, 1, 2, 3}. take (n + 1) (fold (\<lambda>c cs. cs[c := cs ! (c + 1)]) [1..<n + 1] ([c0, c1, c2, c3, c4][0 := c1])) =
      drop 1 (take (n + 2) [c0, c1, c2, c3, c4])"
  by (simp_all add: upt_conv_Cons)

lemma pop_front:
  assumes "n < 4"
  shows "length ks = 4 \<Longrightarrow> take n (fold (\<lambda>c ks. ks[c - 1 := ks ! c]) [1..<n + 1] ks) = drop 1 (take (n + 1) ks)"
    "length cs = 5 \<Longrightarrow> take (n + 1) (fold (\<lambda>c cs. cs[c := cs ! (c + 1)]) [1..<n + 1] (cs[0 := cs ! 1])) =
      drop 1 (take (n + 2) cs)"
proof -
  have n: "n \<in> {0, 1, 2, 3}" using assms by (simp, linarith)
  show "take n (fold (\<lambda>c ks. ks[c - 1 := ks ! c]) [1..<n + 1] ks) = drop 1 (take (n + 1) ks)" if "length ks = 4"
  proof -
    obtain k0 k1 k2 k3 where ks: "ks = [k0, k1, k2, k3]" using list4 [OF \<open>length ks = 4\<close>] by auto
    show ?thesis unfolding ks by (rule bspec [OF pop_front_cases(1) n])
  qed
  show "take (n + 1) (fold (\<lambda>c cs. cs[c := cs ! (c + 1)]) [1..<n + 1] (cs[0 := cs ! 1])) = drop 1 (take (n + 2) cs)"
    if "length cs = 5"
  proof -
    obtain c0 c1 c2 c3 c4 where cs: "cs = [c0, c1, c2, c3, c4]" using list5 [OF \<open>length cs = 5\<close>] by auto
    show ?thesis using bspec [OF pop_front_cases(2) n, of c0 c1 c2 c3 c4] unfolding cs by simp
  qed
qed

lemma moveleft_effect:
  assumes def: "m = mem s" "REFNODE nodei = a" "REFNODE (uch m a ! (pos - 1)) = l" "REFNODE (uch m a ! pos) = r"
    and n: "0 < pos" "pos \<le> unat (node_count m a)" "unat (node_count m a) \<le> 4"
    and nl: "unat (node_count m l) = nl" "nl < 4" and nr: "unat (node_count m r) = nr + 1" "nr < 4"
    and ap: "apart a l" "apart a r" "apart l r"
  obtains m' where "remove_item_moveleft nodei pos s = s\<lparr>mem := m'\<rparr>" "only_nodes {a, l, r} m m'"
    "node_count m' a = node_count m a" "ukeys m' a = (ukeys m a)[pos - 1 := ukeys m r ! 0]" "uch m' a = uch m a"
    "unat (node_count m' l) = nl + 1" "ukeys m' l = ukeys m l @ [ukeys m a ! (pos - 1)]"
    "uch m' l = uch m l @ [uch m r ! 0]"
    "unat (node_count m' r) = nr" "ukeys m' r = drop 1 (ukeys m r)" "uch m' r = drop 1 (uch m r)"
proof -
  note ap' = ap [THEN apart_sym]
  have p: "pos - 1 < 4" using n by linarith
  have ch: "childsi m a (pos - 1) = uch m a ! (pos - 1)" "childsi m a pos = uch m a ! pos"
    using n by (intro used_nth(2); linarith)+
  let ?k = "ukeys m a ! (pos - 1)"
  define m1 where "m1 = set_count l (node_count m l + 1) m"
  define m2 where "m2 = set_keys l nl ?k m1"
  define m3 where "m3 = set_childsi l (nl + 1) (uch m r ! 0) m2"
  note A = append_effect [OF nl m1_def m2_def m3_def]
  have o1: "ukeys m1 a = ukeys m a" "node_count m1 a = node_count m a"
    "uch m2 r = uch m r" "node_count m2 r = node_count m r"
    unfolding m2_def m1_def using nl
    by (simp_all add: used_other [OF ap(1)] node_other [OF ap(1)] used_other [OF ap'(3)] node_other [OF ap'(3)])
  have k: "node_keys m1 a (pos - 1) = ?k" using used_nth(1) [of "pos - 1" m1 a] n p o1 by simp
  have c: "childsi m2 r 0 = uch m r ! 0" using used_nth(2) [of 0 m2 r] o1 by simp
  note o3r = only_nodes_other [OF A(6), of r] and o3a = only_nodes_other [OF A(6), of a]
  define m4 where "m4 = set_keys a (pos - 1) (ukeys m r ! 0) m3"
  have kr: "node_keys m3 r 0 = ukeys m r ! 0" using used_nth(1) [of 0 m3 r] o3r ap'(3) nr by simp
  have r4: "node_count m4 r = node_count m r" "nk m4 r = nk m r" "nc m4 r = nc m r"
    unfolding m4_def using o3r ap'(3) p by (simp_all add: node_other [OF ap'(2)])
  define m5 where "m5 = set_count r (node_count m r - 1) (set_childsi r 0 (nc m r ! 1) m4)"
  have c1: "childsi m4 r 1 = nc m r ! 1" using r4 by (simp add: node_fields)
  have ur: "unat (node_count m r - 1) = nr" using nr(1) by (rule unat_pred)
  have cr: "unat (node_count m5 r) = nr" unfolding m5_def node_same by (rule ur)
  define m6 where "m6 = fold (shift_left r) [1..<nr + 1] m5"
  have "\<forall>c\<in>set [1..<nr + 1]. 0 < c \<and> c < 4" using nr by auto
  note f = shift_left_fold [OF this, where a = r and m = m5, folded m6_def]
  have r5: "nk m5 r = nk m r" "nc m5 r = (nc m r)[0 := nc m r ! 1]"
    unfolding m5_def by (simp_all add: node_same r4)
  have eq: "remove_item_moveleft nodei pos s = s\<lparr>mem := m6\<rparr>"
    unfolding remove_item_moveleft_def Let_def def(1) [symmetric] def(2) ch def(3,4) m1_def [symmetric] A(1) k
      m2_def [symmetric] A(2) c m3_def [symmetric] kr m4_def [symmetric] c1 node_same(7) r4(1) m5_def [symmetric] cr
      m6_def [symmetric] ..
  have cr6: "unat (node_count m6 r) = nr" using f(1) cr by simp
  have o5: "only_nodes {r} m4 m6"
    using only_nodes_trans [OF _ f(4)] unfolding m5_def by (simp add: only_nodes_step)
  note o6a = only_nodes_other [OF o5, of a] and o6l = only_nodes_other [OF o5, of l]
  have a6: "node_count m6 a = node_count m a" "ukeys m6 a = (ukeys m a)[pos - 1 := ukeys m r ! 0]" "uch m6 a = uch m a"
    using o6a o3a ap p unfolding m4_def by (simp_all add: node_same used_same)
  have l6: "unat (node_count m6 l) = nl + 1" "ukeys m6 l = ukeys m l @ [?k]" "uch m6 l = uch m l @ [uch m r ! 0]"
    using o6l A(3-5) ap p unfolding m4_def by (simp_all add: node_other [OF ap'(1)] used_other [OF ap'(1)])
  from eq show thesis
  proof (rule that)
    have "only_nodes {a, l, r} m m4"
      unfolding m4_def using only_nodes_mono [OF A(6), of "{a, l, r}"] p by (simp add: only_nodes_step)
    then show "only_nodes {a, l, r} m m6" by (rule only_nodes_trans) (rule only_nodes_mono [OF o5], simp)
    show "ukeys m6 r = drop 1 (ukeys m r)"
      unfolding ukeys_def cr6 nr(1) f(2) r5 by (rule pop_front(1) [OF nr(2)]) simp
    show "uch m6 r = drop 1 (uch m r)"
      unfolding uch_def cr6 nr(1) f(3) r5 using pop_front(2) [OF nr(2), of "nc m r"] by simp
  qed (fact a6 l6 cr6)+
qed


lemma combine_append_fold:
  assumes nl: "unat (node_count m l) = nl" and nr: "unat (node_count m r) = nr" "nr \<le> 4" "nl + nr \<le> 4"
    and ap: "apart l r"
  shows "j \<le> nr \<Longrightarrow>
    unat (node_count (fold (combine_append l r) [1..<j + 1] m) l) = nl + j \<and>
    ukeys (fold (combine_append l r) [1..<j + 1] m) l = ukeys m l @ take j (ukeys m r) \<and>
    uch (fold (combine_append l r) [1..<j + 1] m) l = uch m l @ take j (drop 1 (uch m r)) \<and>
    only_nodes {l} m (fold (combine_append l r) [1..<j + 1] m)"
proof (induction j)
  case 0
  then show ?case using nl by simp
next
  case (Suc j)
  let ?m = "fold (combine_append l r) [1..<j + 1] m"
  from Suc have IH: "unat (node_count ?m l) = nl + j" "ukeys ?m l = ukeys m l @ take j (ukeys m r)"
    "uch ?m l = uch m l @ take j (drop 1 (uch m r))" "only_nodes {l} m ?m" by simp_all
  have j: "j < nr" "nl + j < 4" using Suc.prems nr by auto
  have "[1..<Suc j + 1] = [1..<j + 1] @ [Suc j]" by simp
  then have f: "fold (combine_append l r) [1..<Suc j + 1] m = combine_append l r (Suc j) ?m"
    by (simp only: fold_append fold_simps comp_def)
  define m1 where "m1 = set_count l (node_count ?m l + 1) ?m"
  define m2 where "m2 = set_keys l (nl + j) (ukeys m r ! j) m1"
  define m3 where "m3 = set_childsi l (nl + j + 1) (uch m r ! Suc j) m2"
  note A = append_effect [OF IH(1) j(2) m1_def m2_def m3_def]
  have lr: "length (ukeys m r) = nr" "length (uch m r) = nr + 1" using used_length [of m r] nr by simp_all
  note o = only_nodes_other [OF IH(4), of r]
  have "ukeys m1 r = ukeys m r" "node_count m1 r = node_count m r" "uch m2 r = uch m r" "node_count m2 r = node_count m r"
    unfolding m2_def m1_def using o j ap apart_sym [OF ap]
    by (simp_all add: used_other [OF apart_sym [OF ap]] node_other [OF apart_sym [OF ap]])
  then have kc: "node_keys m1 r (Suc j - 1) = ukeys m r ! j" "childsi m2 r (Suc j) = uch m r ! Suc j"
    using used_nth(1) [of j m1 r] used_nth(2) [of "Suc j" m2 r] j nr by simp_all
  have e: "combine_append l r (Suc j) ?m = m3"
    unfolding combine_append_def Let_def m1_def [symmetric] A(1) kc(1) m2_def [symmetric] A(2) kc(2) m3_def ..
  show ?case
    unfolding f e using A(3-5) only_nodes_trans [OF IH(4) A(6)] j lr IH(2,3)
    by (simp add: take_Suc_conv_app_nth)
qed

lemma combine_effect:
  assumes def: "m = mem s" "REFNODE nodei = a" "REFNODE (uch m a ! (pos - 1)) = l" "REFNODE (uch m a ! pos) = r"
    and n: "0 < pos" "pos \<le> n + 1" "unat (node_count m a) = n + 1" "n < 4"
    and nl: "unat (node_count m l) = nl" and nr: "unat (node_count m r) = nr" "nl + nr < 4"
    and ap: "apart a l" "apart a r" "apart l r"
  obtains m' where
    "remove_item_combine nodei pos s = s\<lparr>mem := shmfree (category s) r m', undersize := n < 2\<rparr>"
    "only_nodes {a, l} m m'" "unat (node_count m' a) = n"
    "ukeys m' a = take (pos - 1) (ukeys m a) @ drop pos (ukeys m a)"
    "uch m' a = take pos (uch m a) @ drop (pos + 1) (uch m a)"
    "unat (node_count m' l) = nl + nr + 1" "ukeys m' l = ukeys m l @ ukeys m a ! (pos - 1) # ukeys m r"
    "uch m' l = uch m l @ uch m r"
proof -
  note ap' = ap [THEN apart_sym]
  have p: "pos - 1 < 4" "nl < 4" using n nr by linarith+
  have ch: "childsi m a (pos - 1) = uch m a ! (pos - 1)" "childsi m a pos = uch m a ! pos"
    using n by (intro used_nth(2); linarith)+
  let ?k = "ukeys m a ! (pos - 1)"
  define m1 where "m1 = set_count l (node_count m l + 1) m"
  define m2 where "m2 = set_keys l nl ?k m1"
  define m3 where "m3 = set_childsi l (nl + 1) (uch m r ! 0) m2"
  note A = append_effect [OF nl p(2) m1_def m2_def m3_def]
  have o1: "ukeys m1 a = ukeys m a" "node_count m1 a = node_count m a"
    "uch m2 r = uch m r" "node_count m2 r = node_count m r"
    unfolding m2_def m1_def using p
    by (simp_all add: used_other [OF ap(1)] node_other [OF ap(1)] used_other [OF ap'(3)] node_other [OF ap'(3)])
  have k: "node_keys m1 a (pos - 1) = ?k" using used_nth(1) [of "pos - 1" m1 a] n p o1 by simp
  have c: "childsi m2 r 0 = uch m r ! 0" using used_nth(2) [of 0 m2 r] o1 by simp
  note o3r = only_nodes_other [OF A(6), of r]
  have r3: "unat (node_count m3 r) = nr" "ukeys m3 r = ukeys m r" "uch m3 r = uch m r" using o3r ap'(3) nr by simp_all
  define m4 where "m4 = fold (combine_append l r) [1..<nr + 1] m3"
  have lr: "length (ukeys m r) = nr" "length (uch m r) = nr + 1" using used_length [of m r] nr by simp_all
  then obtain c0 cs where c0: "uch m r = c0 # cs" by (cases "uch m r") auto
  have B: "unat (node_count m4 l) = nl + nr + 1" "ukeys m4 l = ukeys m l @ ?k # ukeys m r"
    "uch m4 l = uch m l @ uch m r" "only_nodes {l} m m4"
    using combine_append_fold [OF A(3) r3(1) _ _ ap(3), of nr, folded m4_def] nr lr A(4,5) r3 c0 only_nodes_trans [OF A(6)]
    by simp_all
  let ?s = "s\<lparr>mem := m4\<rparr>"
  have n4: "unat (node_count (mem ?s) a) = n + 1" and a4: "ukeys m4 a = ukeys m a" "uch m4 a = uch m a"
    using only_nodes_other [OF B(4), of a] ap(1) n by simp_all
  define s2 where "s2 = remove_item_trgt nodei (pos - 1) ?s"
  have "pos - 1 \<le> n" using n by linarith
  note T = remove_trgt_effect [OF def(2) n4 n(4) this, folded s2_def]
  have pp: "pos - 1 + 1 = pos" "pos - 1 + 2 = pos + 1" using n(1) by simp_all
  have eq: "remove_item_combine nodei pos s = s2\<lparr>mem := shmfree (category s2) r (mem s2)\<rparr>"
    unfolding remove_item_combine_def Let_def def(1) [symmetric] def(2) ch def(3,4) m1_def [symmetric] A(1) k
      m2_def [symmetric] A(2) c m3_def [symmetric] r3(1) m4_def [symmetric] s2_def [symmetric] ..
  have "s2\<lparr>mem := shmfree (category s2) r (mem s2)\<rparr> = s\<lparr>mem := shmfree (category s) r (mem s2), undersize := n < 2\<rparr>"
    using arg_cong [OF T(5), of category] by (subst T(5)) simp
  then have "remove_item_combine nodei pos s = s\<lparr>mem := shmfree (category s) r (mem s2), undersize := n < 2\<rparr>"
    using eq by simp
  then show thesis
  proof (rule that)
    have "only_nodes {a, l} m4 (mem s2)" using only_nodes_mono [OF T(4), of "{a, l}"] by simp
    moreover have "only_nodes {a, l} m m4" using only_nodes_mono [OF B(4), of "{a, l}"] by simp
    ultimately show "only_nodes {a, l} m (mem s2)" by (blast intro: only_nodes_trans)
    note o = only_nodes_other [OF T(4), of l]
    show "unat (node_count (mem s2) l) = nl + nr + 1" "ukeys (mem s2) l = ukeys m l @ ?k # ukeys m r"
      "uch (mem s2) l = uch m l @ uch m r"
      using o ap'(1) B by simp_all
    show "ukeys (mem s2) a = take (pos - 1) (ukeys m a) @ drop pos (ukeys m a)"
      "uch (mem s2) a = take pos (uch m a) @ drop (pos + 1) (uch m a)"
      using T(2,3) a4 pp by simp_all
  qed (rule T(1))
qed

end
