(* ===== verification/Smmr_Room.thy ===== *)
theory Smmr_Room
  imports Smmr_Store
begin

text \<open>
  What the clients of the allocator rely on when they hold several blocks: writes to any set of
  blocks in use, and the number of blocks of 64 bytes that are sure to be had.
\<close>

section \<open>Writing to several blocks\<close>

lemma user_write_bucket:
  assumes c: "cat_ok cid m" and b: "b \<in> live cid m" and same: "\<And>i. i \<notin> block m b \<Longrightarrow> m' i = m i"
    and k: "k \<in> {1..<PAGE_CNT}" "\<not> is_bit m SYSPAGE_ERR k"
  shows "bucket_len m' k = bucket_len m k"
proof -
  obtain n a where na: "b = (n, a)" by (cases b)
  obtain E us fs bk where p: "page_ok cid m (MMPOS_USRPAGE n) E us fs bk" and a: "a \<in> set us"
    using b na by (auto simp: live_def used_in_def)
  then have a': "a \<in> set (us @ fs)" by simp
  note bb = block_bounds [OF p a']
  obtain F vs gs bv where q: "page_ok cid m (MMPOS_USRPAGE k) F vs gs bv"
    using c k by (auto simp: cat_ok_def page_inv_def)
  show ?thesis
  proof (cases "k = n")
    case True
    have "page_ok cid m' (MMPOS_USRPAGE n) E us fs bk"
      by (rule page_ok_user [OF p a'], rule same) (simp add: na bb(1))
    then show ?thesis using bucket_len_eq p True by simp
  next
    case False
    have "page_ok cid m' (MMPOS_USRPAGE k) F vs gs bv"
    proof (rule page_ok_cong [OF same q])
      fix i
      assume i: "MMPOS_USRPAGE k \<le> i" "i < MMPOS_USRPAGE k + PAGE_SIZE"
      show "i \<notin> block m b" using bb(2) [of i] page_apart [OF False i(2,1)] na by auto
    qed
    then show ?thesis using bucket_len_eq q by simp
  qed
qed

text \<open>Everything the allocator knows is as before.\<close>

definition same_heap :: "u32 \<Rightarrow> mem \<Rightarrow> mem \<Rightarrow> bool" where
  "same_heap cid m m' \<longleftrightarrow> cat_ok cid m' \<and> live cid m' = live cid m \<and>
     (\<forall>b\<in>live cid m. block m' b = block m b) \<and>
     (\<forall>c\<le>10. \<forall>k<PAGE_CNT. is_bit m' c k = is_bit m c k) \<and>
     (\<forall>k\<in>{1..<PAGE_CNT}. \<not> is_bit m SYSPAGE_ERR k \<longrightarrow> bucket_len m' k = bucket_len m k)"

lemma same_heap_trans:
  assumes "same_heap cid m m1" "same_heap cid m1 m2"
  shows "same_heap cid m m2"
  using assms unfolding same_heap_def by auto

lemma user_writes_ok:
  assumes "finite S" "S \<subseteq> live cid m" "cat_ok cid m" "\<And>i. i \<notin> (\<Union>b\<in>S. block m b) \<Longrightarrow> m' i = m i"
  shows "same_heap cid m m'"
  using assms
proof (induction S arbitrary: m' rule: finite_induct)
  case empty
  then have "m' = m" by auto
  then show ?case using empty.prems by (simp add: same_heap_def)
next
  case (insert b S)
  define m1 where "m1 = (\<lambda>i. if i \<in> block m b then m i else m' i)"
  have IH: "same_heap cid m m1"
    by (rule insert.IH) (use insert.prems in \<open>auto simp: m1_def\<close>)
  have b: "b \<in> live cid m1" "block m1 b = block m b" and c: "cat_ok cid m1"
    using IH insert.prems(1) by (auto simp: same_heap_def)
  have w: "m' i = m1 i" if "i \<notin> block m1 b" for i using that b(2) by (simp add: m1_def)
  have "same_heap cid m1 m'"
    using user_write_ok [OF c b(1) w] user_write_bucket [OF c b(1) w] by (simp add: same_heap_def)
  with IH show ?case by (rule same_heap_trans)
qed

section \<open>Room for blocks of 64 bytes\<close>

lemma kept_page_bucket:
  assumes c: "cat_ok cid m" and k: "kept E I (MMPOS_USRPAGE n) m m'"
    and j: "j \<in> {1..<PAGE_CNT}" "\<not> is_bit m SYSPAGE_ERR j" "j \<noteq> n"
  shows "bucket_len m' j = bucket_len m j"
proof -
  obtain F vs gs bv where q: "page_ok cid m (MMPOS_USRPAGE j) F vs gs bv"
    using c j(1,2) by (auto simp: cat_ok_def page_inv_def)
  have "page_ok cid m' (MMPOS_USRPAGE j) F vs gs bv"
    by (rule page_ok_cong [OF _ q]) (use k page_apart [OF j(3)] in \<open>auto simp: kept_def\<close>)
  then show ?thesis using bucket_len_eq q by simp
qed

lemma alloc_from_page_bucket:
  assumes c: "cat_ok cid m" and n: "n \<in> {1..<PAGE_CNT}" and al: "4 \<le> al"
    and a: "alloc_from_page now cid al (dc, free) n m = (r, m')"
    and j: "j \<in> {1..<PAGE_CNT}" "\<not> is_bit m SYSPAGE_ERR j"
  shows "bucket_len m j \<le> bucket_len m' j + (if j = n then al + 32 else 0)"
proof (cases "is_bit m SYSPAGE_ERR n")
  case True
  then show ?thesis using a by (simp add: alloc_from_page_def)
next
  case False
  let ?P = "MMPOS_USRPAGE n"
  obtain E us fs bk where p: "page_ok cid m ?P E us fs bk"
    using c n False by (auto simp: cat_ok_def page_inv_def)
  obtain o1 m1 where r1: "(if is_bit m free n then operate_recycle ?P al m else (0, m)) = (o1, m1)"
    by (metis surj_pair)
  show ?thesis
  proof (cases "o1 = 0")
    case o1: False
    then have "operate_recycle ?P al m = (o1, m1)" using r1 by (auto split: if_splits)
    from operate_recycle_ok [OF p this] o1
    have o: "page_ok cid m1 ?P E (us @ [o1]) (remove1 o1 fs) bk" "kept E (parts (us @ fs) bk) ?P m m1" by auto
    have "m' = m1" using a False r1 o1 by (auto simp: alloc_from_page_def Let_def)
    then show ?thesis
      using kept_page_bucket [OF c o(2) j] bucket_len_eq [OF p] bucket_len_eq [OF o(1)] by (cases "j = n") auto
  next
    case o1: True
    then have m1: "m1 = m" using r1 operate_recycle_ok [OF p, of al o1 m1] by (auto split: if_splits)
    obtain o2 m2 where r2: "(if is_bit m dc n then operate_insert now cid ?P al m else (0, m)) = (o2, m2)"
      by (metis surj_pair)
    have m': "m' = m2" using a False r1 o1 m1 r2 by (auto simp: alloc_from_page_def Let_def split: if_splits)
    show ?thesis
    proof (cases "o2 = 0")
      case o2: False
      then have oi: "operate_insert now cid ?P al m = (o2, m2)" using r2 by (auto split: if_splits)
      then have room: "al + 32 \<le> 131016 - bk"
        using operate_insert_eq [OF p al, of now] o2 by (auto split: if_splits)
      note ins = insert_page_ok [OF p al room oi]
      show ?thesis
        using kept_page_bucket [OF c ins(3) j] bucket_len_eq [OF p] bucket_len_eq [OF ins(2)] m'
        by (cases "j = n") auto
    next
      case o2: True
      then have "m2 = m" using r2 operate_insert_eq [OF p al, of now] page_okD(1) [OF p]
        by (auto split: if_splits simp: geometry_def)
      then show ?thesis using m' by simp
    qed
  qed
qed

lemma alloc_scan_bucket:
  assumes c: "cat_ok cid m" and al: "4 \<le> al" and rs: "\<forall>(bmps, n)\<in>set rs. n \<in> {1..<PAGE_CNT}"
    and a: "alloc_scan now cid al rs m = (r, m')"
  shows "\<exists>n. \<forall>j\<in>{1..<PAGE_CNT}. \<not> is_bit m SYSPAGE_ERR j \<longrightarrow>
    bucket_len m j \<le> bucket_len m' j + (if j = n then al + 32 else 0)"
  using rs a
proof (induction rs)
  case (Cons q rs)
  obtain dc free n where q: "q = ((dc, free), n)" by (metis surj_pair)
  obtain r1 m1 where r1: "alloc_from_page now cid al (dc, free) n m = (r1, m1)" by (metis surj_pair)
  have n: "n \<in> {1..<PAGE_CNT}" using Cons.prems(1) q by auto
  show ?case
  proof (cases r1)
    case None
    then have "m1 = m" using alloc_from_page_ok [OF c n al r1] by simp
    then show ?thesis using Cons.IH Cons.prems q r1 None by simp
  next
    case (Some x)
    then have "m' = m1" using Cons.prems(2) q r1 by simp
    then show ?thesis using alloc_from_page_bucket [OF c n al r1] by blast
  qed
qed auto

text \<open>The number of blocks of 64 bytes that fit into the buckets of the pages for all sizes.\<close>

definition open_pages :: "mem \<Rightarrow> nat set" where
  "open_pages m = {n \<in> {1..<PAGE_CNT}. \<not> is_bit m SYSPAGE_ERR n \<and> is_bit m DC_2K n}"

definition slots :: "mem \<Rightarrow> nat" where
  "slots m = (\<Sum>n\<in>open_pages m. bucket_len m n div 96)"

lemma open_pages_cong:
  "(\<forall>c\<le>10. \<forall>k<PAGE_CNT. is_bit m' c k = is_bit m c k) \<Longrightarrow> open_pages m' = open_pages m"
proof -
  assume b: "\<forall>c\<le>10. \<forall>k<PAGE_CNT. is_bit m' c k = is_bit m c k"
  have "is_bit m' SYSPAGE_ERR n = is_bit m SYSPAGE_ERR n \<and> is_bit m' DC_2K n = is_bit m DC_2K n"
    if "n < PAGE_CNT" for n using b that by simp
  then show ?thesis unfolding open_pages_def by auto
qed

lemma finite_open_pages: "finite (open_pages m)"
  by (simp add: open_pages_def)

lemma same_heap_slots: "same_heap cid m m' \<Longrightarrow> slots m' = slots m"
proof -
  assume s: "same_heap cid m m'"
  then have "open_pages m' = open_pages m" by (intro open_pages_cong) (simp add: same_heap_def)
  moreover have "bucket_len m' n = bucket_len m n" if "n \<in> open_pages m" for n
    using s that by (simp add: same_heap_def open_pages_def)
  ultimately show ?thesis by (simp add: slots_def)
qed

lemma slots_alloc:
  assumes "open_pages m' = open_pages m"
    and "\<forall>j\<in>open_pages m. bucket_len m j \<le> bucket_len m' j + (if j = n then 96 else 0)"
  shows "slots m \<le> Suc (slots m')"
proof -
  have "slots m \<le> (\<Sum>j\<in>open_pages m. bucket_len m' j div 96 + (if j = n then 1 else 0))"
    unfolding slots_def
  proof (rule sum_mono)
    fix j
    assume "j \<in> open_pages m"
    then have "bucket_len m j \<le> bucket_len m' j + (if j = n then 1 else 0) * 96" using assms(2) by fastforce
    then have "bucket_len m j div 96 \<le> (bucket_len m' j + (if j = n then 1 else 0) * 96) div 96"
      by (rule div_le_mono)
    then show "bucket_len m j div 96 \<le> bucket_len m' j div 96 + (if j = n then 1 else 0)" by simp
  qed
  also have "\<dots> \<le> Suc (slots m')"
    using assms(1) finite_open_pages [of m] by (simp add: sum.distrib slots_def)
  finally show ?thesis .
qed

lemma shmalloc_slots:
  assumes c: "cat_ok cid m" and sz: "1 \<le> sz" "sz \<le> 64" and s: "0 < slots m"
  obtains a m' where "shmalloc now cid sz m = (Some a, m')" "alloc_effect cid (align4 sz) m a m'"
    "slots m \<le> Suc (slots m')"
proof -
  have al: "4 \<le> align4 sz" "align4 sz \<le> 64" using sz unfolding align4_def by (simp, presburger)+
  obtain n where n: "n \<in> open_pages m" "96 \<le> bucket_len m n"
  proof (rule ccontr)
    assume "\<not> thesis"
    then have "\<forall>n\<in>open_pages m. bucket_len m n div 96 = 0" using that by force
    then show False using s by (simp add: slots_def)
  qed
  then have "fst (shmalloc now cid sz m) \<noteq> None"
    using al sz by (intro shmalloc_some [OF c, of sz n]) (simp_all add: open_pages_def)
  then obtain a m' where e: "shmalloc now cid sz m = (Some a, m')" by (metis eq_fst_iff option.exhaust)
  have ef: "alloc_effect cid (align4 sz) m a m'" using shmalloc_ok [OF c e] by simp
  have "alloc_scan now cid (align4 sz)
      [(bmps, n). bmps \<leftarrow> drop (start_bmp_id (align4 sz)) bitmapids, n \<leftarrow> [1..<PAGE_CNT]] m = (Some a, m')"
    using e sz by (simp add: shmalloc_def)
  from alloc_scan_bucket [OF c al(1) _ this]
  obtain k where k: "\<forall>j\<in>{1..<PAGE_CNT}. \<not> is_bit m SYSPAGE_ERR j \<longrightarrow>
      bucket_len m j \<le> bucket_len m' j + (if j = k then align4 sz + 32 else 0)" by auto
  have o: "open_pages m' = open_pages m"
    by (rule open_pages_cong) (use ef in \<open>simp add: alloc_effect_def\<close>)
  have "slots m \<le> Suc (slots m')"
  proof (rule slots_alloc [OF o])
    show "\<forall>j\<in>open_pages m. bucket_len m j \<le> bucket_len m' j + (if j = k then 96 else 0)"
    proof
      fix j
      assume "j \<in> open_pages m"
      then have "bucket_len m j \<le> bucket_len m' j + (if j = k then align4 sz + 32 else 0)"
        using k by (simp add: open_pages_def)
      then show "bucket_len m j \<le> bucket_len m' j + (if j = k then 96 else 0)"
        using al(2) by (simp split: if_splits)
    qed
  qed
  then show ?thesis using that e ef by blast
qed

lemma free_scan_bucket:
  assumes c: "cat_ok cid m" and ns: "set ns \<subseteq> {1..<PAGE_CNT}" and h: "\<forall>n\<in>set ns. h \<noteq> MMPOS_USRPAGE n"
    and j: "j \<in> {1..<PAGE_CNT}" "\<not> is_bit m SYSPAGE_ERR j"
  shows "bucket_len (free_scan h ns m) j = bucket_len m j"
  using ns h
proof (induction ns)
  case (Cons n ns)
  have n: "n \<in> {1..<PAGE_CNT}" using Cons.prems by simp
  show ?case
  proof (cases "is_bit m SYSPAGE_ERR n")
    case True
    then show ?thesis using Cons by (simp add: Let_def)
  next
    case False
    then obtain E us fs bk where p: "page_ok cid m (MMPOS_USRPAGE n) E us fs bk"
      using c n by (auto simp: cat_ok_def page_inv_def)
    let ?hit = "\<lambda>offset. MMPOS_USRPAGE n + offset = h"
    have nr: "\<not> ?hit MMPOS_USED_ROOT" using Cons.prems(2) by simp
    have fi: "find_item MMSIG_USED (MMPOS_MIN_OFST + 1) ?hit m (MMPOS_USRPAGE n) 0 MMPOS_USED_ROOT
        (MMPOS_USRPAGE n + MMPOS_USED_ROOT + MMPOS_ROOT_FOOT) = find ?hit (MMPOS_USED_ROOT # us)"
      by (rule find_item_page(1) [OF p]) simp
    show ?thesis
    proof (cases "find ?hit (MMPOS_USED_ROOT # us)")
      case (Some x)
      from find_split [OF Some nr] obtain ys zs where us: "us = ys @ x # zs" .
      have e: "free_scan h (n # ns) m = link_last (MMPOS_USRPAGE n) MMPOS_FREE_ROOT MMSIG_FREE x
          (unlink_item (MMPOS_USRPAGE n) MMPOS_USED_ROOT x m)"
        unfolding free_scan.simps Let_def fi Some using False by (simp only: if_False option.case)
      note f = free_page_ok [OF p [unfolded us]]
      show ?thesis
        unfolding e using kept_page_bucket [OF c f(2) j] bucket_len_eq [OF p] bucket_len_eq [OF f(1)]
        by (cases "j = n") auto
    next
      case None
      have "free_scan h (n # ns) m = free_scan h ns m"
        unfolding free_scan.simps Let_def fi None using False by (simp only: if_False option.case)
      then show ?thesis using Cons by simp
    qed
  qed
qed simp

lemma shmfree_slots:
  assumes c: "cat_ok cid m" and a: "a \<in> live cid m"
  shows "slots (shmfree cid (user_addr a) m) = slots m"
proof -
  let ?h = "user_addr a - SIZEOF_HEAD" and ?m = "shmfree cid (user_addr a) m"
  have "?m = m \<or> ?m = free_scan ?h [1..<PAGE_CNT] m" by (auto simp: shmfree_def Let_def)
  moreover have "bucket_len (free_scan ?h [1..<PAGE_CNT] m) j = bucket_len m j" if "j \<in> open_pages m" for j
    by (rule free_scan_bucket [OF c]) (use live_item(5) [OF a] that in \<open>auto simp: open_pages_def\<close>)
  ultimately have b: "bucket_len ?m j = bucket_len m j" if "j \<in> open_pages m" for j using that by auto
  have "open_pages ?m = open_pages m"
    by (rule open_pages_cong) (use shmfree_live [OF c a] in \<open>simp add: free_effect_def\<close>)
  then show ?thesis using b by (simp add: slots_def)
qed

lemma formatted_slots: "slots (formatted idx now) = 1023 * 1363"
proof -
  have "open_pages (formatted idx now) = {1..<PAGE_CNT}"
    using formatted_ok(3) [where idx = idx and now = now] formatted_ok(4) [where idx = idx and now = now] by (auto simp: open_pages_def simp del: One_nat_def)
  then show ?thesis using formatted_ok(4) [where idx = idx and now = now] by (simp add: slots_def)
qed

end
