(* ===== verification/Btree.thy ===== *)
theory Btree
  imports Main "HOL-Library.Multiset"
begin

text \<open>
  The reference algorithm of the index: B-trees of two to four keys in a node (the root may have
  one) as a datatype, with the insertion and the removal that \<open>smmr_tree.c\<close> performs on memory. The
  type \<open>'k\<close> is that of the keys; \<open>'l\<close> is that of the locations of the nodes, which the algorithms
  carry along: insertion takes new locations from a supply, removal returns those it gives up.
\<close>

datatype ('k, 'l) btree = Leaf | Node 'l "'k list" "('k, 'l) btree list"

primrec bkeys :: "('k, 'l) btree \<Rightarrow> 'k list" where
  "bkeys Leaf = []"
| "bkeys (Node l ks ts) = ks"

text \<open>The keys in order.\<close>

fun weave :: "'k list list \<Rightarrow> 'k list \<Rightarrow> 'k list" where
  "weave (t # ts) (k # ks) = t @ k # weave ts ks"
| "weave (t # ts) [] = t"
| "weave [] ks = []"

primrec inorder :: "('k, 'l) btree \<Rightarrow> 'k list" where
  "inorder Leaf = []"
| "inorder (Node l ks ts) = weave (map inorder ts) ks"

text \<open>The locations of the nodes.\<close>

primrec locs :: "('k, 'l) btree \<Rightarrow> 'l multiset" where
  "locs Leaf = {#}"
| "locs (Node l ks ts) = add_mset l (sum_list (map locs ts))"

text \<open>
  A tree of height \<open>h\<close> whose nodes have one child more than keys, at most four keys, and at least
  two; at least \<open>lo\<close> in the root.
\<close>

primrec shape :: "nat \<Rightarrow> nat \<Rightarrow> ('k, 'l) btree \<Rightarrow> bool" where
  "shape lo 0 t \<longleftrightarrow> (case t of Leaf \<Rightarrow> True | Node l ks ts \<Rightarrow> False)"
| "shape lo (Suc h) t \<longleftrightarrow> (case t of Leaf \<Rightarrow> False | Node l ks ts \<Rightarrow>
     lo \<le> length ks \<and> length ks \<le> 4 \<and> length ts = Suc (length ks) \<and> (\<forall>t\<in>set ts. shape 2 h t))"

lemma size_child: "i < length ts \<Longrightarrow> size (ts ! i) < size (Node l ks ts)"
proof -
  assume "i < length ts"
  then have "size (ts ! i) \<le> size_list size ts" by (intro size_list_estimation' [where x = "ts ! i"]) auto
  then show ?thesis by simp
qed

definition find_pos :: "'k::linorder \<Rightarrow> 'k list \<Rightarrow> nat" where
  "find_pos x ks = length (takeWhile (\<lambda>k. k < x) ks)"

section \<open>Insertion\<close>

text \<open>The key is there; it went into the tree; or the tree was split around a key.\<close>

datatype ('k, 'l) ins_res = Found | Done "('k, 'l) btree" | Up "('k, 'l) btree" 'k "('k, 'l) btree"

definition put_up ::
  "nat \<Rightarrow> 'l \<Rightarrow> 'k list \<Rightarrow> ('k, 'l) btree list \<Rightarrow> ('k, 'l) ins_res \<times> 'l list \<Rightarrow> ('k, 'l) ins_res \<times> 'l list" where
  "put_up i l ks ts r = (case r of
     (Found, fr) \<Rightarrow> (Found, fr)
   | (Done t, fr) \<Rightarrow> (Done (Node l ks (ts[i := t])), fr)
   | (Up t k u, fr) \<Rightarrow>
       let ks' = take i ks @ k # drop i ks; ts' = take (Suc i) (ts[i := t]) @ u # drop (Suc i) ts in
       if length ks < 4 then (Done (Node l ks' ts'), fr)
       else (Up (Node l (take 2 ks') (take 3 ts')) (ks' ! 2) (Node (hd fr) (drop 3 ks') (drop 3 ts')), tl fr))"

function ins :: "'k::linorder \<Rightarrow> 'l list \<Rightarrow> ('k, 'l) btree \<Rightarrow> ('k, 'l) ins_res \<times> 'l list" where
  "ins x fr Leaf = (Up Leaf x Leaf, fr)"
| "ins x fr (Node l ks ts) =
     (let i = find_pos x ks in
      if i < length ks \<and> ks ! i = x then (Found, fr)
      else if i < length ts then put_up i l ks ts (ins x fr (ts ! i)) else (Found, fr))"
  by pat_completeness auto
termination
  by (relation "measure (\<lambda>(x, fr, t). size t)") (use size_child in auto)

definition insert_tree :: "'k::linorder \<Rightarrow> 'l list \<Rightarrow> ('k, 'l) btree \<Rightarrow> ('k, 'l) btree \<times> 'l list" where
  "insert_tree x fr t = (case ins x fr t of
     (Found, fr) \<Rightarrow> (t, fr)
   | (Done u, fr) \<Rightarrow> (u, fr)
   | (Up u k v, fr) \<Rightarrow> (Node (hd fr) [k] [u, v], tl fr))"

section \<open>Removal\<close>

definition moveright :: "nat \<Rightarrow> 'l \<Rightarrow> 'k list \<Rightarrow> ('k, 'l) btree list \<Rightarrow> ('k, 'l) btree" where
  "moveright i l ks ts = (case (ts ! (i - 1), ts ! i) of
     (Node a lk lt, Node b rk rt) \<Rightarrow>
       Node l (ks[i - 1 := last lk])
         (ts[i - 1 := Node a (butlast lk) (butlast lt), i := Node b (ks ! (i - 1) # rk) (last lt # rt)])
   | _ \<Rightarrow> Node l ks ts)"

definition moveleft :: "nat \<Rightarrow> 'l \<Rightarrow> 'k list \<Rightarrow> ('k, 'l) btree list \<Rightarrow> ('k, 'l) btree" where
  "moveleft i l ks ts = (case (ts ! (i - 1), ts ! i) of
     (Node a lk lt, Node b rk rt) \<Rightarrow>
       Node l (ks[i - 1 := hd rk])
         (ts[i - 1 := Node a (lk @ [ks ! (i - 1)]) (lt @ [hd rt]), i := Node b (tl rk) (tl rt)])
   | _ \<Rightarrow> Node l ks ts)"

definition combine :: "nat \<Rightarrow> 'l \<Rightarrow> 'k list \<Rightarrow> ('k, 'l) btree list \<Rightarrow> ('k, 'l) btree \<times> 'l list" where
  "combine i l ks ts = (case (ts ! (i - 1), ts ! i) of
     (Node a lk lt, Node b rk rt) \<Rightarrow>
       (Node l (take (i - 1) ks @ drop i ks)
          (take (i - 1) ts @ Node a (lk @ ks ! (i - 1) # rk) (lt @ rt) # drop (Suc i) ts), [b])
   | _ \<Rightarrow> (Node l ks ts, []))"

text \<open>The tree, whether its root has too few keys, and the locations given up.\<close>

definition restore :: "nat \<Rightarrow> 'l \<Rightarrow> 'k list \<Rightarrow> ('k, 'l) btree list \<Rightarrow> ('k, 'l) btree \<times> bool \<times> 'l list" where
  "restore i l ks ts =
     (let p = (if 0 < i then i else 1); sib = (if 0 < i then i - 1 else 1) in
      if 2 < length (bkeys (ts ! sib))
      then ((if 0 < i then moveright p l ks ts else moveleft p l ks ts), False, [])
      else let (t, fr) = combine p l ks ts in (t, length (bkeys t) < 2, fr))"

text \<open>\<open>put_back\<close>: the node after the removal in its child \<open>i\<close>.\<close>

definition put_back ::
  "nat \<Rightarrow> 'l \<Rightarrow> 'k list \<Rightarrow> ('k, 'l) btree list \<Rightarrow> ('k, 'l) btree \<times> bool \<times> 'l list \<Rightarrow>
     ('k, 'l) btree \<times> bool \<times> 'l list" where
  "put_back i l ks ts r = (case r of (t, few, fr) \<Rightarrow>
     if few then let (u, b, fr') = restore i l ks (ts[i := t]) in (u, b, fr @ fr')
     else (Node l ks (ts[i := t]), False, fr))"

function first_key :: "('k, 'l) btree \<Rightarrow> 'k option" where
  "first_key Leaf = None"
| "first_key (Node l ks ts) =
     (case ts of [] \<Rightarrow> None | t # _ \<Rightarrow> (case t of Leaf \<Rightarrow> Some (hd ks) | Node _ _ _ \<Rightarrow> first_key t))"
  by pat_completeness auto
termination
  by (relation "measure size") auto

function rem :: "'k::linorder \<Rightarrow> ('k, 'l) btree \<Rightarrow> ('k, 'l) btree \<times> bool \<times> 'l list" where
  "rem x Leaf = (Leaf, False, [])"
| "rem x (Node l ks ts) =
     (let i = find_pos x ks in
      if i < length ks \<and> ks ! i = x then
        (if Suc i < length ts then
           (case first_key (ts ! Suc i) of
              None \<Rightarrow> let ks' = take i ks @ drop (Suc i) ks in
                (Node l ks' (take (Suc i) ts @ drop (Suc (Suc i)) ts), length ks' < 2, [])
            | Some k \<Rightarrow> put_back (Suc i) l (ks[i := k]) ts (rem k (ts ! Suc i)))
         else (Node l ks ts, False, []))
      else if i < length ts then put_back i l ks ts (rem x (ts ! i)) else (Node l ks ts, False, []))"
  by pat_completeness auto
termination
  by (relation "measure (\<lambda>(x, t). size t)") (use size_child in auto)

text \<open>The removal; a root without keys is given up.\<close>

definition remove_tree :: "'k::linorder \<Rightarrow> ('k, 'l) btree \<Rightarrow> ('k, 'l) btree \<times> 'l list" where
  "remove_tree x t = (case rem x t of
     (Node l [] (u # us), _, fr) \<Rightarrow> (u, fr @ [l])
   | (u, _, fr) \<Rightarrow> (u, fr))"

end
