(* ===== verification/Btree_Inv.thy ===== *)
theory Btree_Inv
  imports Btree
begin

text \<open>
  The reference algorithm is right: insertion and removal keep the tree balanced and its nodes
  between two and four keys, and the keys in order are those of the sorted list with the key
  inserted or removed.
\<close>

declare ins.simps(2) [simp del] rem.simps(2) [simp del]

section \<open>The keys of a node and around a child\<close>

definition before :: "'k list list \<Rightarrow> 'k list \<Rightarrow> 'k list" where
  "before ts ks = concat (map2 (\<lambda>t k. t @ [k]) ts ks)"

definition behind :: "'k list \<Rightarrow> 'k list list \<Rightarrow> 'k list" where
  "behind ks ts = concat (map2 (\<lambda>k t. k # t) ks ts)"

lemma before_simps [simp]: "before [] ks = []" "before (t # ts) (k # ks) = t @ k # before ts ks"
  by (simp_all add: before_def)

lemma behind_simps [simp]: "behind [] ts = []" "behind (k # ks) (t # ts) = k # t @ behind ks ts"
  by (simp_all add: behind_def)

lemma weave_child:
  assumes "length ks1 = length as" "length ks2 = length bs"
  shows "weave (as @ t # bs) (ks1 @ ks2) = before as ks1 @ t @ behind ks2 bs"
  using assms(1)
proof (induction ks1 as rule: list_induct2)
  case Nil
  show ?case using assms(2) by (induction ks2 bs arbitrary: t rule: list_induct2) simp_all
qed simp

lemma weave_at_key:
  assumes "length as = Suc (length ks1)" "length bs = Suc (length ks2)"
  shows "weave (as @ bs) (ks1 @ k # ks2) = weave as ks1 @ k # weave bs ks2"
  using assms(1)
proof (induction ks1 arbitrary: as)
  case Nil
  then obtain a where "as = [a]" by (auto simp: length_Suc_conv)
  then show ?case using assms(2) by (auto simp: length_Suc_conv)
next
  case (Cons k' ks1)
  then obtain a as' where "as = a # as'" "length as' = Suc (length ks1)" by (auto simp: length_Suc_conv)
  then show ?case using Cons.IH by (auto simp: length_Suc_conv)
qed

lemma before_last:
  assumes "length ks = length ts" "ks \<noteq> []"
  shows "\<exists>A. before ts ks = A @ [last ks]"
  using assms
proof (induction ks ts rule: list_induct2)
  case (Cons k ks t ts)
  then show ?case by (cases "ks = []") auto
qed simp

lemma behind_hd: "length ks = length ts \<Longrightarrow> ks \<noteq> [] \<Longrightarrow> \<exists>B. behind ks ts = hd ks # B"
  by (cases ks; cases ts) auto

section \<open>Searching in a node\<close>

lemma find_pos_le: "find_pos x ks \<le> length ks"
  by (simp add: find_pos_def length_takeWhile_le)

lemma find_pos_take: "k \<in> set (take (find_pos x ks) ks) \<Longrightarrow> k < x"
  using set_takeWhileD [of k "\<lambda>k. k < x" ks] by (simp add: find_pos_def takeWhile_eq_take [symmetric])

lemma find_pos_nth: "find_pos x ks < length ks \<Longrightarrow> x \<le> ks ! find_pos x ks"
  using nth_length_takeWhile [of "\<lambda>k. k < x" ks] by (simp add: find_pos_def not_less)

lemma at_node:
  assumes ts: "length ts = Suc (length ks)" and i: "i \<le> length ks"
  obtains ks1 ks2 as t bs where "ks = ks1 @ ks2" "ts = as @ t # bs" "length ks1 = i" "length as = i"
    "length ks2 = length bs" "ts ! i = t" "take i ks = ks1" "drop i ks = ks2" "take i ts = as" "drop (Suc i) ts = bs"
    "inorder (Node l ks ts) = before (map inorder as) ks1 @ inorder t @ behind ks2 (map inorder bs)"
proof -
  have il: "i < length ts" using ts i by simp
  have "inorder (Node l ks ts) = weave (map inorder (take i ts) @ inorder (ts ! i) # map inorder (drop (Suc i) ts))
      (take i ks @ drop i ks)"
    using id_take_nth_drop [OF il] by (metis append_take_drop_id inorder.simps(2) list.simps(9) map_append)
  also have "\<dots> = before (map inorder (take i ts)) (take i ks) @ inorder (ts ! i) @
      behind (drop i ks) (map inorder (drop (Suc i) ts))"
    by (rule weave_child) (use ts i in simp_all)
  finally show ?thesis
    using that [of "take i ks" "drop i ks" "take i ts" "ts ! i" "drop (Suc i) ts"] ts i id_take_nth_drop [OF il]
    by simp
qed

lemma search_node:
  assumes ts: "length ts = Suc (length ks)" and i: "find_pos x ks = i"
    and s: "sorted_wrt (<) (inorder (Node l ks ts))"
  obtains ks1 ks2 as t bs A B where "ks = ks1 @ ks2" "ts = as @ t # bs" "length ks1 = i" "length as = i"
    "length ks2 = length bs" "ts ! i = t" "A = before (map inorder as) ks1" "B = behind ks2 (map inorder bs)"
    "inorder (Node l ks ts) = A @ inorder t @ B" "\<forall>a\<in>set A. a < x"
    "i < length ks \<and> ks ! i = x \<or> (\<forall>b\<in>set B. x < b)"
proof -
  have il: "i \<le> length ks" using find_pos_le i by blast
  obtain ks1 ks2 as t bs where d: "ks = ks1 @ ks2" "ts = as @ t # bs" "length ks1 = i" "length as = i"
    "length ks2 = length bs" "ts ! i = t" "take i ks = ks1" "drop i ks = ks2"
    "inorder (Node l ks ts) = before (map inorder as) ks1 @ inorder t @ behind ks2 (map inorder bs)"
    using at_node [OF ts il, of l] by metis
  let ?A = "before (map inorder as) ks1" and ?B = "behind ks2 (map inorder bs)"
  have sA: "sorted_wrt (<) ?A" and sB: "sorted_wrt (<) ?B" using s d(9) by (auto simp: sorted_wrt_append)
  have "\<forall>a\<in>set ?A. a < x"
  proof (cases "ks1 = []")
    case True
    then show ?thesis using d(3,4) by simp
  next
    case False
    obtain A where A: "?A = A @ [last ks1]" using before_last [of ks1 "map inorder as"] False d(3,4) by auto
    have "last ks1 < x" using find_pos_take [of "last ks1" x ks] False i d(7) by simp
    then show ?thesis using sA unfolding A by (auto simp: sorted_wrt_append)
  qed
  moreover have "i < length ks \<and> ks ! i = x \<or> (\<forall>b\<in>set ?B. x < b)"
  proof (cases "ks2 = []")
    case True
    then show ?thesis using d(5) by simp
  next
    case False
    obtain B where B: "?B = hd ks2 # B" using behind_hd [of ks2 "map inorder bs"] False d(5) by auto
    have "i < length ks" "ks ! i = hd ks2" using False d(1,3) by (auto simp: nth_append hd_conv_nth)
    then have "x \<le> hd ks2" using find_pos_nth [of x ks] i by simp
    then show ?thesis using sB \<open>i < length ks\<close> \<open>ks ! i = hd ks2\<close> unfolding B by auto
  qed
  ultimately show ?thesis using that [OF d(1-6) refl refl d(9)] by blast
qed

section \<open>Sorted lists\<close>

lemma insort_append:
  assumes "\<forall>a\<in>set A. a < x"
  shows "insort x (A @ C) = A @ insort x C"
  using assms by (induction A) auto

lemma insort_before: "\<forall>b\<in>set B. x < b \<Longrightarrow> insort x (C @ B) = insort x C @ B"
proof (induction C)
  case Nil
  then show ?case by (cases B) auto
qed simp

section \<open>Insertion\<close>

primrec res_keys :: "('k, 'l) ins_res \<Rightarrow> 'k list option" where
  "res_keys Found = None"
| "res_keys (Done t) = Some (inorder t)"
| "res_keys (Up t k u) = Some (inorder t @ k # inorder u)"

primrec res_locs :: "('k, 'l) ins_res \<Rightarrow> 'l multiset option" where
  "res_locs Found = None"
| "res_locs (Done t) = Some (locs t)"
| "res_locs (Up t k u) = Some (locs t + locs u)"

primrec res_shape :: "nat \<Rightarrow> nat \<Rightarrow> ('k, 'l) ins_res \<Rightarrow> bool" where
  "res_shape lo h Found = True"
| "res_shape lo h (Done t) = shape lo h t"
| "res_shape lo h (Up t k u) = (shape 2 h t \<and> shape 2 h u)"

lemma put_up_at:
  assumes "ks = ks1 @ ks2" "ts = as @ t # bs" "length ks1 = i" "length as = i" "length ks2 = length bs"
  shows "put_up i l ks ts (Found, fr) = (Found, fr)"
    "put_up i l ks ts (Done u, fr) = (Done (Node l ks (as @ u # bs)), fr)"
    "put_up i l ks ts (Up u k v, fr) =
      (let ks' = ks1 @ k # ks2; ts' = as @ u # v # bs in
       if length ks < 4 then (Done (Node l ks' ts'), fr)
       else (Up (Node l (take 2 ks') (take 3 ts')) (ks' ! 2) (Node (hd fr) (drop 3 ks') (drop 3 ts')), tl fr))"
proof -
  have "ts[i := u] = as @ u # bs" "take (Suc i) (ts[i := u]) = as @ [u]" "drop (Suc i) ts = bs"
    "take i ks = ks1" "drop i ks = ks2" for u
    using assms by (simp_all add: list_update_append)
  then show "put_up i l ks ts (Found, fr) = (Found, fr)"
    "put_up i l ks ts (Done u, fr) = (Done (Node l ks (as @ u # bs)), fr)"
    "put_up i l ks ts (Up u k v, fr) =
      (let ks' = ks1 @ k # ks2; ts' = as @ u # v # bs in
       if length ks < 4 then (Done (Node l ks' ts'), fr)
       else (Up (Node l (take 2 ks') (take 3 ts')) (ks' ! 2) (Node (hd fr) (drop 3 ks') (drop 3 ts')), tl fr))"
    by (simp_all add: put_up_def)
qed

lemma weave_split:
  assumes "length ks = 5" "length ts = 6"
  shows "weave ts ks = weave (take 3 ts) (take 2 ks) @ ks ! 2 # weave (drop 3 ts) (drop 3 ks)"
proof -
  have "weave (take 3 ts @ drop 3 ts) (take 2 ks @ ks ! 2 # drop 3 ks) =
      weave (take 3 ts) (take 2 ks) @ ks ! 2 # weave (drop 3 ts) (drop 3 ks)"
    by (rule weave_at_key) (use assms in simp_all)
  moreover have "take 2 ks @ ks ! 2 # drop 3 ks = ks"
    using id_take_nth_drop [of 2 ks] assms by (simp add: numeral_3_eq_3)
  ultimately show ?thesis by simp
qed

lemma put_up_keys:
  assumes d: "ks = ks1 @ ks2" "ts = as @ t # bs" "length ks1 = i" "length as = i" "length ks2 = length bs"
    and n: "length ks \<le> 4"
  shows "res_keys (fst (put_up i l ks ts (r, fr))) =
    map_option (\<lambda>I. before (map inorder as) ks1 @ I @ behind ks2 (map inorder bs)) (res_keys r)"
proof (cases r)
  case (Done u)
  have "weave (map inorder as @ inorder u # map inorder bs) (ks1 @ ks2) =
      before (map inorder as) ks1 @ inorder u @ behind ks2 (map inorder bs)"
    by (rule weave_child) (use d in simp_all)
  then show ?thesis unfolding Done put_up_at(2) [OF d] using d(1) by simp
next
  case (Up u k v)
  let ?ks = "ks1 @ k # ks2" and ?ts = "as @ u # v # bs"
  have w: "weave (map inorder ?ts) ?ks =
      before (map inorder as) ks1 @ inorder u @ behind (k # ks2) (map inorder (v # bs))"
    using weave_child [of ks1 "map inorder as" "k # ks2" "map inorder (v # bs)" "inorder u"] d by simp
  show ?thesis
  proof (cases "length ks < 4")
    case True
    then show ?thesis using w by (simp add: Up put_up_at(3) [OF d])
  next
    case False
    have e: "fst (put_up i l ks ts (Up u k v, fr)) =
        Up (Node l (take 2 ?ks) (take 3 ?ts)) (?ks ! 2) (Node (hd fr) (drop 3 ?ks) (drop 3 ?ts))"
      unfolding put_up_at(3) [OF d] Let_def using False by (simp only: if_False fst_conv)
    have "weave (map inorder ?ts) ?ks = weave (take 3 (map inorder ?ts)) (take 2 ?ks) @ ?ks ! 2 #
        weave (drop 3 (map inorder ?ts)) (drop 3 ?ks)"
      by (rule weave_split) (use False n d in auto)
    then have "inorder (Node l (take 2 ?ks) (take 3 ?ts)) @ ?ks ! 2 # inorder (Node (hd fr) (drop 3 ?ks) (drop 3 ?ts)) =
        before (map inorder as) ks1 @ inorder u @ behind (k # ks2) (map inorder (v # bs))"
      unfolding inorder.simps(2) take_map [symmetric] drop_map [symmetric] using w by (simp only:)
    then show ?thesis unfolding Up e res_keys.simps option.map by simp
  qed
qed (simp add: put_up_at(1) [OF d])

lemma put_up_shape:
  assumes d: "ks = ks1 @ ks2" "ts = as @ t # bs" "length ks1 = i" "length as = i" "length ks2 = length bs"
    and n: "lo \<le> length ks" "length ks \<le> 4" "\<forall>t\<in>set (as @ bs). shape 2 h t" "lo \<le> 2"
    and r: "res_shape 2 h r"
  shows "res_shape lo (Suc h) (fst (put_up i l ks ts (r, fr)))"
proof (cases r)
  case (Done u)
  then show ?thesis using n r d unfolding Done put_up_at(2) [OF d] by auto
next
  case (Up u k v)
  let ?ks = "ks1 @ k # ks2" and ?ts = "as @ u # v # bs"
  have a: "\<forall>t\<in>set ?ts. shape 2 h t" using n r Up by simp
  have l: "length ?ts = Suc (length ?ks)" "length ?ks = Suc (length ks)" using d by simp_all
  show ?thesis
  proof (cases "length ks < 4")
    case True
    then show ?thesis using a l n by (simp add: Up put_up_at(3) [OF d])
  next
    case False
    have "\<forall>t\<in>set (take 3 ?ts). shape 2 h t" "\<forall>t\<in>set (drop 3 ?ts). shape 2 h t"
      using a by (meson in_set_takeD in_set_dropD)+
    moreover have "length ?ks = 5" "length ?ts = 6" using False l n by linarith+
    ultimately have "shape 2 (Suc h) (Node l (take 2 ?ks) (take 3 ?ts))"
      "shape 2 (Suc h) (Node (hd fr) (drop 3 ?ks) (drop 3 ?ts))"
      unfolding shape.simps btree.case length_take length_drop by simp_all
    then show ?thesis unfolding Up put_up_at(3) [OF d] Let_def using False by (simp only: if_False fst_conv res_shape.simps)
  qed
qed (simp add: put_up_at(1) [OF d])

lemma ins_node:
  assumes "length ts = Suc (length ks)"
  shows "find_pos x ks < length ks \<and> ks ! find_pos x ks = x \<Longrightarrow> ins x fr (Node l ks ts) = (Found, fr)"
    "\<not> (find_pos x ks < length ks \<and> ks ! find_pos x ks = x) \<Longrightarrow>
      ins x fr (Node l ks ts) = put_up (find_pos x ks) l ks ts (ins x fr (ts ! find_pos x ks))"
  using assms find_pos_le [of x ks] by (auto simp: Let_def ins.simps(2))

lemma ins_shape:
  "shape lo h t \<Longrightarrow> lo \<le> 2 \<Longrightarrow> res_shape lo h (fst (ins x fr t))"
proof (induction h arbitrary: lo t fr)
  case 0
  then show ?case by (cases t) auto
next
  case (Suc h)
  then obtain l ks ts where t: "t = Node l ks ts" by (cases t) auto
  let ?i = "find_pos x ks"
  have s: "lo \<le> length ks" "length ks \<le> 4" "length ts = Suc (length ks)" "\<forall>t\<in>set ts. shape 2 h t"
    using Suc.prems(1) t by auto
  obtain ks1 ks2 as c bs where d: "ks = ks1 @ ks2" "ts = as @ c # bs" "length ks1 = ?i" "length as = ?i"
    "length ks2 = length bs" "ts ! ?i = c"
    using at_node [OF s(3) find_pos_le] by metis
  obtain r fr' where r: "ins x fr c = (r, fr')" by (cases "ins x fr c") auto
  have "res_shape 2 h r" using Suc.IH [of 2 c fr] s(4) d(2) r by simp
  then have "res_shape lo (Suc h) (fst (put_up ?i l ks ts (r, fr')))"
    using put_up_shape [OF d(1-5) s(1,2), of h r l fr'] s(4) d(2) Suc.prems(2) by auto
  then show ?case unfolding t using ins_node [OF s(3), of x fr l] d(6) r by (cases "?i < length ks \<and> ks ! ?i = x") simp_all
qed

lemma ins_keys:
  "shape lo h t \<Longrightarrow> sorted_wrt (<) (inorder t) \<Longrightarrow>
    res_keys (fst (ins x fr t)) = (if x \<in> set (inorder t) then None else Some (insort x (inorder t)))"
proof (induction h arbitrary: lo t fr)
  case 0
  then show ?case by (cases t) auto
next
  case (Suc h)
  then obtain l ks ts where t: "t = Node l ks ts" by (cases t) auto
  let ?i = "find_pos x ks"
  have s: "lo \<le> length ks" "length ks \<le> 4" "length ts = Suc (length ks)" "\<forall>t\<in>set ts. shape 2 h t"
    using Suc.prems(1) t by auto
  note so = Suc.prems(2) [unfolded t]
  obtain ks1 ks2 as c bs A B where d: "ks = ks1 @ ks2" "ts = as @ c # bs" "length ks1 = ?i" "length as = ?i"
    "length ks2 = length bs" "ts ! ?i = c" "A = before (map inorder as) ks1" "B = behind ks2 (map inorder bs)"
    "inorder (Node l ks ts) = A @ inorder c @ B" "\<forall>a\<in>set A. a < x"
    "?i < length ks \<and> ks ! ?i = x \<or> (\<forall>b\<in>set B. x < b)"
    using search_node [OF s(3) refl so] by metis
  show ?case
  proof (cases "?i < length ks \<and> ks ! ?i = x")
    case True
    then have "ks2 \<noteq> []" "hd ks2 = x" using d(1,3) by (auto simp: nth_append hd_conv_nth)
    then have "x \<in> set B" using behind_hd [of ks2 "map inorder bs"] d(5,8) by auto
    then show ?thesis using ins_node(1) [OF s(3) True] d(9) unfolding t by simp
  next
    case False
    then have B: "\<forall>b\<in>set B. x < b" using d(11) by blast
    obtain r fr' where r: "ins x fr c = (r, fr')" by (cases "ins x fr c") auto
    have "shape 2 h c" "sorted_wrt (<) (inorder c)" using s(4) d(2) so d(9) by (auto simp: sorted_wrt_append)
    then have IH: "res_keys r = (if x \<in> set (inorder c) then None else Some (insort x (inorder c)))"
      using Suc.IH [of 2 c fr] r by simp
    have e: "ins x fr t = put_up ?i l ks ts (r, fr')" using ins_node(2) [OF s(3) False] t d(6) r by simp
    have x: "x \<in> set (inorder t) \<longleftrightarrow> x \<in> set (inorder c)" using d(9,10) B unfolding t by auto
    have "insort x (inorder t) = A @ insort x (inorder c) @ B"
      unfolding t d(9) by (simp add: insort_append [OF d(10)] insort_before [OF B])
    then show ?thesis unfolding e put_up_keys [OF d(1-5) s(2)] IH x d(7,8) by simp
  qed
qed

text \<open>The supply: at most one new location a level, and all that is taken is in the result.\<close>

lemma put_up_locs:
  assumes d: "ks = ks1 @ ks2" "ts = as @ t # bs" "length ks1 = i" "length as = i" "length ks2 = length bs"
    and r: "case res_locs r of None \<Rightarrow> us = [] | Some L \<Rightarrow> L = locs t + mset us" and n: "0 < length fr"
  obtains r' us' fr' where "put_up i l ks ts (r, fr) = (r', fr')" "fr = us' @ fr'" "length us' \<le> 1"
    "case res_locs r' of None \<Rightarrow> us @ us' = [] | Some L \<Rightarrow> L = locs (Node l ks ts) + mset (us @ us')"
proof (cases r)
  case Found
  then show ?thesis using that [of Found fr "[]"] r by (simp add: put_up_at(1) [OF d])
next
  case (Done u)
  then have "locs (Node l ks (as @ u # bs)) = locs (Node l ks ts) + mset us"
    using r d(2) by (simp add: ac_simps)
  then show ?thesis
    using that [of "Done (Node l ks (as @ u # bs))" fr "[]"] unfolding Done put_up_at(2) [OF d] by simp
next
  case (Up u k v)
  let ?ks = "ks1 @ k # ks2" and ?ts = "as @ u # v # bs"
  have s: "sum_list (map locs ?ts) + {#} = sum_list (map locs ts) + mset us"
    using r d(2) by (simp add: Up ac_simps)
  show ?thesis
  proof (cases "length ks < 4")
    case True
    then show ?thesis
      using that [of _ fr "[]"] s by (simp add: Up put_up_at(3) [OF d])
  next
    case False
    obtain a fr' where fr: "fr = a # fr'" using n by (cases fr) auto
    have sum: "sum_list (map locs (take 3 ?ts)) + sum_list (map locs (drop 3 ?ts)) = sum_list (map locs ?ts)"
      by (metis append_take_drop_id map_append sum_list.append)
    let ?r = "Up (Node l (take 2 ?ks) (take 3 ?ts)) (?ks ! 2) (Node a (drop 3 ?ks) (drop 3 ?ts))"
    have "locs (Node l (take 2 ?ks) (take 3 ?ts)) + locs (Node a (drop 3 ?ks) (drop 3 ?ts)) =
        add_mset a (add_mset l (sum_list (map locs (take 3 ?ts)) + sum_list (map locs (drop 3 ?ts))))"
      unfolding locs.simps by (simp only: add_mset_add_mset_same_iff union_mset_add_mset_left union_mset_add_mset_right)
    also have "\<dots> = locs (Node l ks ts) + mset (us @ [a])"
      unfolding sum using s by simp
    finally have "case res_locs ?r of None \<Rightarrow> us @ [a] = [] | Some L \<Rightarrow> L = locs (Node l ks ts) + mset (us @ [a])"
      unfolding res_locs.simps option.case .
    moreover have "put_up i l ks ts (r, fr) = (?r, fr')"
      unfolding Up put_up_at(3) [OF d] Let_def fr using False by (simp only: if_False list.sel)
    ultimately show ?thesis using that [of ?r fr' "[a]"] fr by simp
  qed
qed

lemma ins_locs:
  "shape lo h t \<Longrightarrow> h \<le> length fr \<Longrightarrow> \<exists>r us fr'. ins x fr t = (r, fr') \<and> fr = us @ fr' \<and> length us \<le> h \<and>
    (case res_locs r of None \<Rightarrow> us = [] | Some L \<Rightarrow> L = locs t + mset us)"
proof (induction h arbitrary: lo t fr)
  case 0
  then show ?case by (cases t) auto
next
  case (Suc h)
  then obtain l ks ts where t: "t = Node l ks ts" by (cases t) auto
  let ?i = "find_pos x ks"
  have s: "length ts = Suc (length ks)" "\<forall>t\<in>set ts. shape 2 h t" using Suc.prems(1) t by auto
  show ?case
  proof (cases "?i < length ks \<and> ks ! ?i = x")
    case True
    then show ?thesis using ins_node(1) [OF s(1) True] t by simp
  next
    case False
    obtain ks1 ks2 as c bs where d: "ks = ks1 @ ks2" "ts = as @ c # bs" "length ks1 = ?i" "length as = ?i"
      "length ks2 = length bs" "ts ! ?i = c"
      using at_node [OF s(1) find_pos_le] by metis
    obtain r us fr1 where r: "ins x fr c = (r, fr1)" "fr = us @ fr1" "length us \<le> h"
      "case res_locs r of None \<Rightarrow> us = [] | Some L \<Rightarrow> L = locs c + mset us"
      using Suc.IH [of 2 c fr] s(2) d(2) Suc.prems(2) by auto
    have "0 < length fr1" using r(2,3) Suc.prems(2) by auto
    then obtain r' us' fr' where "put_up ?i l ks ts (r, fr1) = (r', fr')" "fr1 = us' @ fr'" "length us' \<le> 1"
      "case res_locs r' of None \<Rightarrow> us @ us' = [] | Some L \<Rightarrow> L = locs (Node l ks ts) + mset (us @ us')"
      using put_up_locs [OF d(1-5) r(4), of fr1 l] by metis
    then show ?thesis using ins_node(2) [OF s(1) False, of fr l] d(6) r(1-3) unfolding t
      by (intro exI [of _ r'] exI [of _ "us @ us'"] exI [of _ fr']) auto
  qed
qed

text \<open>The whole tree: balanced, with at least one key in the root.\<close>

definition balanced :: "('k, 'l) btree \<Rightarrow> bool" where
  "balanced t \<longleftrightarrow> (\<exists>h. shape 1 h t)"

lemma shape_mono: "shape lo h t \<Longrightarrow> lo' \<le> lo \<Longrightarrow> shape lo' h t"
  by (cases h; cases t) auto

theorem insert_tree_ok:
  assumes "shape 1 h t" "sorted_wrt (<) (inorder t)" "Suc h \<le> length fr" "insert_tree x fr t = (t', fr')"
  shows "shape 1 h t' \<or> shape 1 (Suc h) t'" 
    "inorder t' = (if x \<in> set (inorder t) then inorder t else insort x (inorder t))"
    "\<exists>us. fr = us @ fr' \<and> length us \<le> Suc h \<and> locs t' = locs t + mset us"
proof -
  obtain r us fr1 where r: "ins x fr t = (r, fr1)" "fr = us @ fr1" "length us \<le> h"
    "case res_locs r of None \<Rightarrow> us = [] | Some L \<Rightarrow> L = locs t + mset us"
    using ins_locs [OF assms(1), of fr x] assms(3) by (meson Suc_leD)
  have s: "res_shape 1 h r" using ins_shape [OF assms(1), of x fr] r(1) by simp
  have k: "res_keys r = (if x \<in> set (inorder t) then None else Some (insort x (inorder t)))"
    using ins_keys [OF assms(1,2), of x fr] r(1) by simp
  obtain a fr2 where f: "fr1 = a # fr2" using r(2,3) assms(3) by (cases fr1) auto
  have "(shape 1 h t' \<or> shape 1 (Suc h) t') \<and>
    inorder t' = (if x \<in> set (inorder t) then inorder t else insort x (inorder t)) \<and>
    (\<exists>us. fr = us @ fr' \<and> length us \<le> Suc h \<and> locs t' = locs t + mset us)"
  proof (cases r)
    case Found
    then show ?thesis
      using r k assms(1,4) by (auto simp: insert_tree_def split: if_splits)
  next
    case (Done u)
    then show ?thesis using r k s assms(4) by (auto simp: insert_tree_def split: if_splits)
  next
    case (Up u k' v)
    then have "t' = Node a [k'] [u, v]" "fr' = fr2" using r(1) assms(4) f by (auto simp: insert_tree_def)
    then show ?thesis using r(2-4) k s f Up
      by (auto split: if_splits intro!: exI [of _ "us @ [a]"])
  qed
  then show "shape 1 h t' \<or> shape 1 (Suc h) t'" 
    "inorder t' = (if x \<in> set (inorder t) then inorder t else insort x (inorder t))"
    "\<exists>us. fr = us @ fr' \<and> length us \<le> Suc h \<and> locs t' = locs t + mset us" by blast+
qed

end
