(* ===== verification/Btree_Rem.thy ===== *)
theory Btree_Rem
  imports Btree_Inv
begin

section \<open>Removal\<close>

lemma shape_simps [simp]:
  "shape lo 0 t \<longleftrightarrow> t = Leaf" "\<not> shape lo (Suc h) Leaf"
  "shape lo (Suc h) (Node l ks ts) \<longleftrightarrow>
     lo \<le> length ks \<and> length ks \<le> 4 \<and> length ts = Suc (length ks) \<and> (\<forall>t\<in>set ts. shape 2 h t)"
  by (auto split: btree.splits)

declare shape.simps [simp del]

lemma shapeE:
  assumes "shape lo (Suc h) t"
  obtains l ks ts where "t = Node l ks ts" "lo \<le> length ks" "length ks \<le> 4" "length ts = Suc (length ks)"
    "\<forall>t\<in>set ts. shape 2 h t"
  using assms by (cases t) auto

lemma shape_child: "shape lo (Suc h) (Node l ks ts) \<Longrightarrow> i \<le> length ks \<Longrightarrow> shape 2 h (ts ! i)"
  by simp

lemma first_key_ok: "shape lo (Suc h) t \<Longrightarrow> 1 \<le> lo \<Longrightarrow> \<exists>k ks. first_key t = Some k \<and> inorder t = k # ks"
proof (induction h arbitrary: lo t)
  case 0
  obtain l ks ts where t: "t = Node l ks ts" "lo \<le> length ks" "length ts = Suc (length ks)"
    "\<forall>t\<in>set ts. shape 2 0 t"
    using shapeE [OF 0(1)] by metis
  then obtain k ks' u us where "ks = k # ks'" "ts = u # us" "u = Leaf"
    using 0(2) by (cases ks; cases ts) auto
  then show ?case using t(1) by simp
next
  case (Suc h)
  obtain l ks ts where t: "t = Node l ks ts" "lo \<le> length ks" "length ts = Suc (length ks)"
    "\<forall>t\<in>set ts. shape 2 (Suc h) t"
    using shapeE [OF Suc(2)] by metis
  then obtain k ks' u us where d: "ks = k # ks'" "ts = u # us" and u: "shape 2 (Suc h) u"
    using Suc(3) by (cases ks; cases ts) auto
  obtain k' ks'' where "first_key u = Some k'" "inorder u = k' # ks''" using Suc.IH [OF u] by auto
  moreover have "u \<noteq> Leaf" using u by auto
  ultimately show ?case unfolding t d by (cases u) auto
qed

text \<open>Two neighbours among the children.\<close>

lemma at_pair:
  assumes ts: "length ts = Suc (length ks)" and i: "0 < i" "i \<le> length ks"
  obtains ks1 k ks2 as t u bs where "ks = ks1 @ k # ks2" "ts = as @ t # u # bs" "length ks1 = i - 1"
    "length as = i - 1" "length ks2 = length bs" "ts ! (i - 1) = t" "ts ! i = u" "ks ! (i - 1) = k"
    "take (i - 1) ks = ks1" "drop i ks = ks2" "take (i - 1) ts = as" "drop (Suc i) ts = bs"
proof -
  obtain j where j: "i = Suc j" using i by (cases i) auto
  have k: "ks = take j ks @ ks ! j # drop i ks" using id_take_nth_drop [of j ks] i j by simp
  have t: "ts = take j ts @ ts ! j # ts ! i # drop (Suc i) ts"
    using id_take_nth_drop [of j ts] Cons_nth_drop_Suc [of i ts] i j ts by simp
  show ?thesis by (rule that [OF k t]) (use ts i j in auto)
qed

lemma pair_keys:
  assumes "length ks1 = length as" "length ks2 = length bs"
  shows "inorder (Node l (ks1 @ k # ks2) (as @ t # u # bs)) =
    before (map inorder as) ks1 @ (inorder t @ k # inorder u) @ behind ks2 (map inorder bs)"
  using weave_child [of ks1 "map inorder as" "k # ks2" "map inorder (u # bs)" "inorder t"] assms by simp

lemma weave_snoc: "length ts = Suc (length ks) \<Longrightarrow> weave (ts @ [t]) (ks @ [k]) = weave ts ks @ k # t"
  using weave_at_key [of ts ks "[t]" "[]" k] by simp

lemma weave_push: "length ts = Suc (length ks) \<Longrightarrow> weave (t # ts) (k # ks) = t @ k # weave ts ks"
  using weave_at_key [of "[t]" "[]" ts ks k] by simp

lemma snoc_cases: "0 < length xs \<Longrightarrow> \<exists>ys y. xs = ys @ [y]"
  by (metis length_greater_0_conv rev_exhaust)

lemma pair_move:
  assumes d: "ks = ks1 @ k # ks2" "ts = as @ Node a lk lt # Node b rk rt # bs" "length ks1 = i - 1"
    "length as = i - 1" "length ks2 = length bs" "0 < i"
    and n: "length lt = Suc (length lk)" "length rt = Suc (length rk)"
  shows "moveright i l ks ts = Node l (ks1 @ last lk # ks2)
      (as @ Node a (butlast lk) (butlast lt) # Node b (k # rk) (last lt # rt) # bs)"
    "moveleft i l ks ts = Node l (ks1 @ hd rk # ks2)
      (as @ Node a (lk @ [k]) (lt @ [hd rt]) # Node b (tl rk) (tl rt) # bs)"
    "combine i l ks ts = (Node l (ks1 @ ks2) (as @ Node a (lk @ k # rk) (lt @ rt) # bs), [b])"
proof -
  have x: "ts ! (i - 1) = Node a lk lt" "ts ! i = Node b rk rt" "ks ! (i - 1) = k"
    "ks[i - 1 := v] = ks1 @ v # ks2" "ts[i - 1 := w, i := w'] = as @ w # w' # bs"
    "take (i - 1) ks = ks1" "drop i ks = ks2" "take (i - 1) ts = as" "drop (Suc i) ts = bs" for v w w'
    using d by (cases i; simp add: nth_append list_update_append)+
  note e = moveright_def moveleft_def combine_def
  show "moveright i l ks ts = Node l (ks1 @ last lk # ks2)
      (as @ Node a (butlast lk) (butlast lt) # Node b (k # rk) (last lt # rt) # bs)"
    unfolding e x prod.case btree.case ..
  show "moveleft i l ks ts = Node l (ks1 @ hd rk # ks2)
      (as @ Node a (lk @ [k]) (lt @ [hd rt]) # Node b (tl rk) (tl rt) # bs)"
    unfolding e x prod.case btree.case ..
  show "combine i l ks ts = (Node l (ks1 @ ks2) (as @ Node a (lk @ k # rk) (lt @ rt) # bs), [b])"
    unfolding e x prod.case btree.case ..
qed

lemma pair_move_keys:
  assumes n: "length lt = Suc (length lk)" "length rt = Suc (length rk)"
  shows "0 < length lk \<Longrightarrow> inorder (Node a (butlast lk) (butlast lt)) @ last lk # inorder (Node b (k # rk) (last lt # rt)) =
      inorder (Node a lk lt) @ k # inorder (Node b rk rt)"
    "0 < length rk \<Longrightarrow> inorder (Node a (lk @ [k]) (lt @ [hd rt])) @ hd rk # inorder (Node b (tl rk) (tl rt)) =
      inorder (Node a lk lt) @ k # inorder (Node b rk rt)"
    "inorder (Node a (lk @ k # rk) (lt @ rt)) = inorder (Node a lk lt) @ k # inorder (Node b rk rt)"
proof -
  show "inorder (Node a (butlast lk) (butlast lt)) @ last lk # inorder (Node b (k # rk) (last lt # rt)) =
      inorder (Node a lk lt) @ k # inorder (Node b rk rt)" if "0 < length lk"
  proof -
    obtain lk' z lt' y where "lk = lk' @ [z]" "lt = lt' @ [y]"
      using snoc_cases [of lk] snoc_cases [of lt] \<open>0 < length lk\<close> n(1) by auto
    then show ?thesis using n weave_snoc [of "map inorder lt'" lk' "inorder y" z]
        weave_push [of "map inorder rt" rk "inorder y" k] by simp
  qed
  show "inorder (Node a (lk @ [k]) (lt @ [hd rt])) @ hd rk # inorder (Node b (tl rk) (tl rt)) =
      inorder (Node a lk lt) @ k # inorder (Node b rk rt)" if "0 < length rk"
  proof -
    obtain z rk' y rt' where "rk = z # rk'" "rt = y # rt'"
      using \<open>0 < length rk\<close> n(2) by (cases rk; cases rt) auto
    then show ?thesis using n weave_snoc [of "map inorder lt" lk "inorder y" k]
        weave_push [of "map inorder rt'" rk' "inorder y" z] by simp
  qed
  show "inorder (Node a (lk @ k # rk) (lt @ rt)) = inorder (Node a lk lt) @ k # inorder (Node b rk rt)"
    using weave_at_key [of "map inorder lt" lk "map inorder rt" rk k] n by simp
qed

lemma restore_ok:
  assumes n: "length ts = Suc (length ks)" "1 \<le> length ks" "length ks \<le> 4" and i: "i \<le> length ks"
    and c: "\<forall>j<length ts. j \<noteq> i \<longrightarrow> shape 2 (Suc h) (ts ! j)" "shape 1 (Suc h) (ts ! i)" "length (bkeys (ts ! i)) < 2"
    and r: "restore i l ks ts = (t', few, fr)"
  shows "\<exists>ks' ts'. t' = Node l ks' ts' \<and> length ts' = Suc (length ks') \<and> length ks' \<le> length ks \<and>
      length ks \<le> Suc (length ks') \<and> (\<forall>t\<in>set ts'. shape 2 (Suc h) t)" (is ?S)
    and "few \<longrightarrow> length (bkeys t') < 2" (is ?F)
    and "\<not> few \<longrightarrow> length (bkeys t') = length ks \<or> 2 \<le> length (bkeys t')" (is ?G)
    and "inorder t' = inorder (Node l ks ts)" (is ?K)
    and "locs (Node l ks ts) = locs t' + mset fr" (is ?L)
proof -
  let ?p = "if 0 < i then i else 1"
  have p: "0 < ?p" "?p \<le> length ks" using i n by auto
  obtain ks1 k ks2 as L R bs where d: "ks = ks1 @ k # ks2" "ts = as @ L # R # bs" "length ks1 = ?p - 1"
    "length as = ?p - 1" "length ks2 = length bs" "ts ! (?p - 1) = L" "ts ! ?p = R" "ks ! (?p - 1) = k"
    using at_pair [OF n(1) p] by metis
  let ?s = "if 0 < i then i - 1 else 1"
  have sib: "?s < length ts" "?s \<noteq> i" using i n by auto
  have all: "shape 1 (Suc h) (ts ! j)" if "j \<le> length ks" for j
  proof (cases "j = i")
    case False
    then show ?thesis using c(1) n(1) that shape_mono [of 2 "Suc h" "ts ! j" 1] by simp
  qed (use c(2) in simp)
  have sh: "shape 1 (Suc h) L" "shape 1 (Suc h) R"
    using all [of "?p - 1"] all [of ?p] p(2) unfolding d(6,7) by linarith+
  obtain a lk lt b rk rt where LR: "L = Node a lk lt" "R = Node b rk rt" using sh by (cases L; cases R) auto
  have len: "length lt = Suc (length lk)" "length rt = Suc (length rk)" "1 \<le> length lk" "1 \<le> length rk"
    "length lk \<le> 4" "length rk \<le> 4"
    and sub: "\<forall>t\<in>set lt. shape 2 h t" "\<forall>t\<in>set rt. shape 2 h t" using sh LR by auto
  have lk0: "0 < length lk" and rk0: "0 < length rk" using len by auto
  have rest: "\<forall>t\<in>set (as @ bs). shape 2 (Suc h) t"
  proof
    fix t
    assume "t \<in> set (as @ bs)"
    then obtain j where "j < length ts" "j \<noteq> ?p - 1" "j \<noteq> ?p" "ts ! j = t"
    proof -
      assume a: "\<And>j. j < length ts \<Longrightarrow> j \<noteq> ?p - 1 \<Longrightarrow> j \<noteq> ?p \<Longrightarrow> ts ! j = t \<Longrightarrow> thesis"
      consider j where "j < length as" "as ! j = t" | j where "j < length bs" "bs ! j = t"
        using \<open>t \<in> set (as @ bs)\<close> by (auto simp: in_set_conv_nth)
      then show thesis
      proof cases
        case 1
        then show ?thesis using a [of j] d(2,4) by (auto simp: nth_append)
      next
        case (2 j)
        have "ts ! (length as + 2 + j) = bs ! j" unfolding d(2) by (simp add: nth_append)
        then show ?thesis using a [of "length as + 2 + j"] 2 d(2,4) p by (auto split: if_splits)
      qed
    qed
    then show "shape 2 (Suc h) t" using c(1) p by (auto split: if_splits)
  qed
  note dd = d(1) d(2) [unfolded LR] d(3-5) p(1)
  note pm = pair_move [OF dd len(1,2)] and pk = pair_move_keys [OF len(1,2)]
  have lens: "length ks1 = length as" "length ks2 = length bs" using d by auto
  have keys: "inorder (Node l ks ts) =
      before (map inorder as) ks1 @ (inorder (Node a lk lt) @ k # inorder (Node b rk rt)) @ behind ks2 (map inorder bs)"
    unfolding d(1,2) LR by (rule pair_keys [OF lens])
  have own: "if 0 < i then length rk < 2 else length lk < 2" using c(3) d(6,7) LR by (auto split: if_splits)
  have sibs: "ts ! ?s = (if 0 < i then L else R)" using d(6,7) by (auto split: if_splits)
  then have two: "2 \<le> length (if 0 < i then lk else rk)" using c(1) sib LR by (auto split: if_splits)
  have "?S \<and> ?F \<and> ?G \<and> ?K \<and> ?L"
  proof (cases "2 < length (if 0 < i then lk else rk)")
    case move: True
    then have "2 < length (bkeys (ts ! ?s))" using sibs LR by (auto split: if_splits)
    then have t': "t' = (if 0 < i then moveright ?p l ks ts else moveleft ?p l ks ts)" "\<not> few" "fr = []"
      using r by (auto simp: restore_def Let_def)
    show ?thesis
    proof (cases "0 < i")
      case True
      have e: "t' = Node l (ks1 @ last lk # ks2)
          (as @ Node a (butlast lk) (butlast lt) # Node b (k # rk) (last lt # rt) # bs)"
        using t'(1) pm(1) True by simp
      obtain lt' y where lt: "lt = lt' @ [y]" using snoc_cases [of lt] len by auto
      have "shape 2 (Suc h) (Node a (butlast lk) (butlast lt))" "shape 2 (Suc h) (Node b (k # rk) (last lt # rt))"
        using len sub own move True unfolding lt by auto
      moreover have "inorder t' = inorder (Node l ks ts)"
        unfolding e keys pair_keys [OF lens] using pk(1) [OF lk0] by simp
      moreover have "locs (Node l ks ts) = locs t'" unfolding e d(2) LR lt by simp
      ultimately show ?thesis using t'(2,3) rest d(1,2) lens unfolding e by auto
    next
      case False
      have e: "t' = Node l (ks1 @ hd rk # ks2)
          (as @ Node a (lk @ [k]) (lt @ [hd rt]) # Node b (tl rk) (tl rt) # bs)"
        using t'(1) pm(2) False by simp
      obtain y rt' where rt: "rt = y # rt'" using len by (cases rt) auto
      have "shape 2 (Suc h) (Node a (lk @ [k]) (lt @ [hd rt]))" "shape 2 (Suc h) (Node b (tl rk) (tl rt))"
        using len sub own move False unfolding rt by auto
      moreover have "inorder t' = inorder (Node l ks ts)"
        unfolding e keys pair_keys [OF lens] using pk(2) [OF rk0] by simp
      moreover have "locs (Node l ks ts) = locs t'" unfolding e d(2) LR rt by simp
      ultimately show ?thesis using t'(2,3) rest d(1,2) lens unfolding e by auto
    qed
  next
    case False
    then have "\<not> 2 < length (bkeys (ts ! ?s))" using sibs LR by (auto split: if_splits)
    then have e: "t' = Node l (ks1 @ ks2) (as @ Node a (lk @ k # rk) (lt @ rt) # bs)" "fr = [b]"
      "few \<longleftrightarrow> length (ks1 @ ks2) < 2"
      using r pm(3) by (auto simp: restore_def Let_def)
    have "length lk + length rk = 3" using own two False len by (auto split: if_splits)
    then have "shape 2 (Suc h) (Node a (lk @ k # rk) (lt @ rt))" using len sub by auto
    moreover have "inorder t' = inorder (Node l ks ts)"
    proof -
      have "inorder t' = before (map inorder as) ks1 @ inorder (Node a (lk @ k # rk) (lt @ rt)) @ behind ks2 (map inorder bs)"
        unfolding e inorder.simps(2) map_append list.map by (rule weave_child) (use lens in simp_all)
      then show ?thesis by (simp only: keys pk(3) [where a = a and b = b and k = k])
    qed
    moreover have "locs (Node l ks ts) = locs t' + mset fr" unfolding e d(2) LR by simp
    ultimately show ?thesis using rest d(1,2) lens unfolding e by auto
  qed
  then show ?S ?F ?G ?K ?L by blast+
qed

lemma put_back_ok:
  assumes n: "length ts = Suc (length ks)" "lo \<le> length ks" "length ks \<le> 4" "1 \<le> lo" "lo \<le> 2"
    and ts: "\<forall>t\<in>set ts. shape 2 h t" and i: "i \<le> length ks"
    and c: "shape 1 h t'" "few \<longrightarrow> length (bkeys t') < 2 \<and> 0 < h" "\<not> few \<longrightarrow> shape 2 h t'"
    and l: "locs (ts ! i) = locs t' + mset fr"
    and r: "put_back i l ks ts (t', few, fr) = (u, b, fr')"
  shows "shape (lo - 1) (Suc h) u \<and> (b \<longrightarrow> length (bkeys u) < 2) \<and> (\<not> b \<and> 2 \<le> lo \<longrightarrow> shape 2 (Suc h) u) \<and>
    inorder u = inorder (Node l ks (ts[i := t'])) \<and> locs (Node l ks ts) = locs u + mset fr'"
proof -
  obtain ks1 ks2 as t bs where d: "ks = ks1 @ ks2" "ts = as @ t # bs" "length ks1 = i" "length as = i"
    "length ks2 = length bs" "ts ! i = t"
    using at_node [OF n(1) i] by metis
  have ts': "ts[i := t'] = as @ t' # bs" using d(2,4) by (simp add: list_update_append)
  have ll: "locs (Node l ks ts) = locs (Node l ks (ts[i := t'])) + mset fr"
    unfolding ts' using l d(2,6) by (simp add: ac_simps)
  show ?thesis
  proof (cases few)
    case False
    then have u: "u = Node l ks (ts[i := t'])" "\<not> b" "fr' = fr" using r by (auto simp: put_back_def)
    have "\<forall>t\<in>set (ts[i := t']). shape 2 h t" unfolding ts' using ts c(3) False d(2) by auto
    then show ?thesis using u ll n by auto
  next
    case True
    obtain h' where h: "h = Suc h'" using c(2) True by (cases h) auto
    obtain fr2 where r2: "restore i l ks (ts[i := t']) = (u, b, fr2)" "fr' = fr @ fr2"
      using r True by (auto simp: put_back_def split: prod.splits)
    have c': "\<forall>j<length (ts[i := t']). j \<noteq> i \<longrightarrow> shape 2 (Suc h') (ts[i := t'] ! j)"
      "shape 1 (Suc h') (ts[i := t'] ! i)" "length (bkeys (ts[i := t'] ! i)) < 2"
      using ts c(1,2) True h i n(1) by auto
    have n': "length (ts[i := t']) = Suc (length ks)" "1 \<le> length ks" using n by auto
    note R = restore_ok [OF n' n(3) i c' r2(1)]
    obtain ks' ts' where u: "u = Node l ks' ts'" "length ts' = Suc (length ks')" "length ks' \<le> length ks"
      "length ks \<le> Suc (length ks')" "\<forall>t\<in>set ts'. shape 2 h t"
      using R(1) h by blast
    have "shape (lo - 1) (Suc h) u" using u n(2,3) by auto
    moreover have "shape 2 (Suc h) u" if "\<not> b" "2 \<le> lo"
      using R(3) u n(2,3) that by auto
    ultimately show ?thesis using R(2,4,5) ll r2(2) by (simp add: ac_simps)
  qed
qed

lemma remove1_append_left: "x \<notin> set A \<Longrightarrow> remove1 x (A @ C) = A @ remove1 x C"
  by (simp add: remove1_append)

lemma remove1_append_right: "x \<notin> set B \<Longrightarrow> remove1 x (C @ B) = remove1 x C @ B"
  by (simp add: remove1_append remove1_idem)

lemma take_drop_at:
  "ks = ks1 @ x # ks3 \<Longrightarrow> length ks1 = i \<Longrightarrow> take i ks = ks1" "ks = ks1 @ x # ks3 \<Longrightarrow> length ks1 = i \<Longrightarrow> drop (Suc i) ks = ks3"
  "ts = as @ t # u # bs \<Longrightarrow> length as = i \<Longrightarrow> take (Suc i) ts = as @ [t]"
  "ts = as @ t # u # bs \<Longrightarrow> length as = i \<Longrightarrow> drop (Suc (Suc i)) ts = bs"
  by auto

definition removed :: "nat \<Rightarrow> nat \<Rightarrow> 'k::linorder \<Rightarrow> ('k, 'l) btree \<Rightarrow> ('k, 'l) btree \<times> bool \<times> 'l list \<Rightarrow> bool" where
  "removed lo h x t = (\<lambda>(u, b, fr).
     shape (lo - 1) h u \<and> (b \<longrightarrow> length (bkeys u) < 2 \<and> 0 < h) \<and> (\<not> b \<and> 2 \<le> lo \<longrightarrow> shape 2 h u) \<and>
     inorder u = remove1 x (inorder t) \<and> locs t = locs u + mset fr)"

lemma rem_node:
  assumes "length ts = Suc (length ks)" "i = find_pos x ks"
  shows "i < length ks \<and> ks ! i = x \<Longrightarrow> first_key (ts ! Suc i) = Some k \<Longrightarrow>
      rem x (Node l ks ts) = put_back (Suc i) l (ks[i := k]) ts (rem k (ts ! Suc i))"
    "i < length ks \<and> ks ! i = x \<Longrightarrow> first_key (ts ! Suc i) = None \<Longrightarrow>
      rem x (Node l ks ts) = (let ks' = take i ks @ drop (Suc i) ks in
        (Node l ks' (take (Suc i) ts @ drop (Suc (Suc i)) ts), length ks' < 2, []))"
    "\<not> (i < length ks \<and> ks ! i = x) \<Longrightarrow> rem x (Node l ks ts) = put_back i l ks ts (rem x (ts ! i))"
  using assms find_pos_le [of x ks] by (auto simp: Let_def rem.simps(2))

lemma rem_ok:
  "shape lo h t \<Longrightarrow> 1 \<le> lo \<Longrightarrow> lo \<le> 2 \<Longrightarrow> sorted_wrt (<) (inorder t) \<Longrightarrow> removed lo h x t (rem x t)"
proof (induction h arbitrary: lo x t)
  case 0
  then show ?case by (simp add: removed_def)
next
  case (Suc h)
  obtain l ks ts where t: "t = Node l ks ts" and n: "lo \<le> length ks" "length ks \<le> 4" "length ts = Suc (length ks)"
    "\<forall>t\<in>set ts. shape 2 h t"
    using shapeE [OF Suc.prems(1)] by metis
  let ?i = "find_pos x ks"
  note so = Suc.prems(4) [unfolded t]
  obtain ks1 ks2 as c bs A B where d: "ks = ks1 @ ks2" "ts = as @ c # bs" "length ks1 = ?i" "length as = ?i"
    "length ks2 = length bs" "ts ! ?i = c" "A = before (map inorder as) ks1" "B = behind ks2 (map inorder bs)"
    "inorder (Node l ks ts) = A @ inorder c @ B" "\<forall>a\<in>set A. a < x"
    "?i < length ks \<and> ks ! ?i = x \<or> (\<forall>b\<in>set B. x < b)"
    using search_node [OF n(3) refl so] by metis
  have xA: "x \<notin> set A" using d(10) by auto
  show ?case
  proof (cases "?i < length ks \<and> ks ! ?i = x")
    case False
    then have xB: "x \<notin> set B" using d(11) by auto
    obtain u b fr where r: "rem x c = (u, b, fr)" by (cases "rem x c") auto
    have "shape 2 h c" "sorted_wrt (<) (inorder c)" using n(4) d(2) so d(9) by (auto simp: sorted_wrt_append)
    then have IH: "removed 2 h x c (u, b, fr)" using Suc.IH [of 2 c x] r by simp
    obtain u' b' fr' where p: "put_back ?i l ks ts (u, b, fr) = (u', b', fr')"
      by (cases "put_back ?i l ks ts (u, b, fr)") auto
    have "shape (lo - 1) (Suc h) u' \<and> (b' \<longrightarrow> length (bkeys u') < 2) \<and> (\<not> b' \<and> 2 \<le> lo \<longrightarrow> shape 2 (Suc h) u') \<and>
      inorder u' = inorder (Node l ks (ts[?i := u])) \<and> locs (Node l ks ts) = locs u' + mset fr'"
      by (rule put_back_ok [OF n(3,1,2) Suc.prems(2,3) n(4) find_pos_le _ _ _ _ p])
        (use IH d(6) in \<open>auto simp: removed_def\<close>)
    moreover have "inorder (Node l ks (ts[?i := u])) = remove1 x (inorder t)"
    proof -
      have "inorder (Node l ks (ts[?i := u])) = A @ inorder u @ B"
        unfolding inorder.simps(2) using weave_child [of ks1 "map inorder as" ks2 "map inorder bs" "inorder u"] d
        by (simp add: list_update_append)
      also have "\<dots> = remove1 x (inorder t)"
        unfolding t d(9) remove1_append_left [OF xA] remove1_append_right [OF xB] using IH by (simp add: removed_def)
      finally show ?thesis .
    qed
    ultimately show ?thesis unfolding t rem_node(3) [OF n(3) refl False] d(6) r p by (simp add: removed_def)
  next
    case True
    then obtain ks3 where k3: "ks2 = x # ks3" using d(1,3) by (cases ks2) (auto simp: nth_append)
    then obtain e bs' where bs: "bs = e # bs'" "length bs' = length ks3" using d(5) by (cases bs) auto
    have c1: "ts ! Suc ?i = e" unfolding d(2) bs using d(4) by (simp add: nth_append)
    have B: "B = x # inorder e @ behind ks3 (map inorder bs')" unfolding d(8) k3 bs by simp
    have xc: "x \<notin> set (inorder c)" "x \<notin> set (inorder e)" "x \<notin> set (behind ks3 (map inorder bs'))"
      "sorted_wrt (<) (inorder e)"
      using so unfolding d(9) B by (auto simp: sorted_wrt_append)
    have rm: "remove1 x (inorder t) = A @ inorder c @ inorder e @ behind ks3 (map inorder bs')"
      unfolding t d(9) remove1_append_left [OF xA] remove1_append_left [OF xc(1)] B by simp
    have sh: "shape 2 h e" "shape 2 h c" using n(4) d(2) bs by auto
    show ?thesis
    proof (cases h)
      case 0
      then have L: "e = Leaf" "c = Leaf" using sh by auto
      have f: "first_key (ts ! Suc ?i) = None" using c1 L by simp
      let ?ks = "take ?i ks @ drop (Suc ?i) ks" and ?ts = "take (Suc ?i) ts @ drop (Suc (Suc ?i)) ts"
      have e: "?ks = ks1 @ ks3" "?ts = as @ Leaf # bs'"
        using d(1-4) unfolding k3 bs L by (simp_all add: take_drop_at)
      have i: "inorder (Node l (ks1 @ ks3) (as @ Leaf # bs')) = remove1 x (inorder t)"
        unfolding rm d(7) L using weave_child [of ks1 "map inorder as" ks3 "map inorder bs'" "[]"] d(3,4) bs(2)
        by simp
      have "shape (lo - 1) (Suc h) (Node l (ks1 @ ks3) (as @ Leaf # bs'))"
        using n d(1,2,3,4) bs k3 L by auto
      moreover have "shape 2 (Suc h) (Node l (ks1 @ ks3) (as @ Leaf # bs'))" if "\<not> length (ks1 @ ks3) < 2"
        using n d(1,2,3,4) bs k3 L that by auto
      moreover have "locs t = locs (Node l (ks1 @ ks3) (as @ Leaf # bs'))" unfolding t d(2) bs L by simp
      ultimately show ?thesis
        unfolding t rem_node(2) [OF n(3) refl True f] e Let_def using i t by (simp add: removed_def)
    next
      case (Suc h')
      obtain k ke where k: "first_key e = Some k" "inorder e = k # ke"
        using first_key_ok [of 2 h' e] sh(1) Suc by auto
      obtain u b fr where r: "rem k e = (u, b, fr)" by (cases "rem k e") auto
      have IH: "removed 2 h k e (u, b, fr)" using Suc.IH [of 2 e k] sh(1) xc(4) r by simp
      let ?ks = "ks[?i := k]"
      obtain u' b' fr' where p: "put_back (Suc ?i) l ?ks ts (u, b, fr) = (u', b', fr')"
        by (cases "put_back (Suc ?i) l ?ks ts (u, b, fr)") auto
      have n': "length ts = Suc (length ?ks)" "lo \<le> length ?ks" "length ?ks \<le> 4" "Suc ?i \<le> length ?ks"
        using n True by auto
      have "shape (lo - 1) (Suc h) u' \<and> (b' \<longrightarrow> length (bkeys u') < 2) \<and> (\<not> b' \<and> 2 \<le> lo \<longrightarrow> shape 2 (Suc h) u') \<and>
        inorder u' = inorder (Node l ?ks (ts[Suc ?i := u])) \<and> locs (Node l ?ks ts) = locs u' + mset fr'"
        by (rule put_back_ok [OF n'(1-3) Suc.prems(2,3) n(4) n'(4) _ _ _ _ p])
          (use IH c1 in \<open>auto simp: removed_def\<close>)
      moreover have "inorder (Node l ?ks (ts[Suc ?i := u])) = remove1 x (inorder t)"
      proof -
        have ks: "?ks = ks1 @ k # ks3" using d(1) [unfolded k3] d(3) by (metis list_update_length)
        have us: "ts[Suc ?i := u] = as @ c # u # bs'" using d(2) [unfolded bs] d(4) by (auto simp: list_update_append)
        have "inorder u = ke" using IH k(2) by (simp add: removed_def)
        then show ?thesis
          unfolding ks us rm pair_keys [OF _ bs(2) [symmetric], of ks1 as, unfolded d(3,4), OF refl] d(7) k(2) by simp
      qed
      moreover have "locs (Node l ?ks ts) = locs t" unfolding t by simp
      ultimately show ?thesis
        unfolding t using rem_node(1) [OF n(3) refl True, of k l] c1 k(1) r p by (simp add: removed_def)
    qed
  qed
qed

lemma rem_absent:
  "shape lo h t \<Longrightarrow> sorted_wrt (<) (inorder t) \<Longrightarrow> x \<notin> set (inorder t) \<Longrightarrow> rem x t = (t, False, [])"
proof (induction h arbitrary: lo t)
  case (Suc h)
  obtain l ks ts where t: "t = Node l ks ts" and n: "length ts = Suc (length ks)" "\<forall>t\<in>set ts. shape 2 h t"
    using shapeE [OF Suc.prems(1)] by metis
  let ?i = "find_pos x ks"
  note so = Suc.prems(2) [unfolded t]
  obtain ks1 ks2 as c bs A B where d: "ks = ks1 @ ks2" "ts = as @ c # bs" "length ks1 = ?i" "length as = ?i"
    "length ks2 = length bs" "ts ! ?i = c" "A = before (map inorder as) ks1" "B = behind ks2 (map inorder bs)"
    "inorder (Node l ks ts) = A @ inorder c @ B" "\<forall>a\<in>set A. a < x"
    "?i < length ks \<and> ks ! ?i = x \<or> (\<forall>b\<in>set B. x < b)"
    using search_node [OF n(1) refl so] by metis
  have no: "\<not> (?i < length ks \<and> ks ! ?i = x)"
  proof
    assume a: "?i < length ks \<and> ks ! ?i = x"
    then obtain ks3 where k3: "ks2 = x # ks3" using d(1,3) by (cases ks2) (auto simp: nth_append)
    then obtain e bs' where "bs = e # bs'" using d(5) by (cases bs) auto
    then show False using Suc.prems(3) k3 unfolding t d(9) d(8) by simp
  qed
  have "rem x c = (c, False, [])"
  proof (rule Suc.IH [of 2])
    show "shape 2 h c" using n(2) d(2) by simp
    show "sorted_wrt (<) (inorder c)" using so unfolding d(9) by (simp add: sorted_wrt_append)
    show "x \<notin> set (inorder c)" using Suc.prems(3) unfolding t d(9) by simp
  qed
  then show ?case unfolding t rem_node(3) [OF n(1) refl no] d(6) by (simp add: put_back_def d(6) [symmetric])
qed simp

theorem remove_tree_ok:
  assumes "shape 1 h t" "sorted_wrt (<) (inorder t)" "remove_tree x t = (t', fr)"
  shows "shape 1 h t' \<or> shape 1 (h - 1) t'"
    "inorder t' = remove1 x (inorder t)"
    "locs t = locs t' + mset fr"
proof -
  obtain u b fr' where r: "rem x t = (u, b, fr')" by (cases "rem x t") auto
  have R: "shape 0 h u" "inorder u = remove1 x (inorder t)" "locs t = locs u + mset fr'"
    using rem_ok [OF assms(1) _ _ assms(2), of x] r by (auto simp: removed_def)
  have "(shape 1 h t' \<or> shape 1 (h - 1) t') \<and> inorder t' = remove1 x (inorder t) \<and> locs t = locs t' + mset fr"
  proof (cases h)
    case 0
    then show ?thesis using R r assms(1,3) by (auto simp: remove_tree_def)
  next
    case (Suc h')
    obtain l ks ts where u: "u = Node l ks ts" "length ks \<le> 4" "length ts = Suc (length ks)" "\<forall>t\<in>set ts. shape 2 h' t"
      using shapeE R(1) Suc by metis
    show ?thesis
    proof (cases ks)
      case Nil
      then obtain c where "ts = [c]" using u(3) by (cases ts) auto
      then show ?thesis using R r assms(3) u Nil Suc shape_mono [of 2 h' c 1] by (auto simp: remove_tree_def)
    next
      case (Cons k ks')
      then show ?thesis using R r assms(3) u Suc by (auto simp: remove_tree_def)
    qed
  qed
  then show "shape 1 h t' \<or> shape 1 (h - 1) t'" "inorder t' = remove1 x (inorder t)"
    "locs t = locs t' + mset fr" by blast+
qed

section \<open>The height\<close>

lemma length_weave: "length ts = Suc (length ks) \<Longrightarrow> Suc (length (weave ts ks)) = sum_list (map (\<lambda>t. Suc (length t)) ts)"
proof (induction ks arbitrary: ts)
  case Nil
  then show ?case by (auto simp: length_Suc_conv)
next
  case (Cons k ks)
  then show ?case by (cases ts) auto
qed

lemma sum_list_bounds:
  fixes f :: "'a \<Rightarrow> nat"
  assumes "\<forall>t\<in>set ts. a \<le> f t \<and> f t \<le> b"
  shows "length ts * a \<le> sum_list (map f ts) \<and> sum_list (map f ts) \<le> length ts * b"
  using assms by (induction ts) auto

lemma shape_size: "shape lo h t \<Longrightarrow> lo \<le> 2 \<Longrightarrow>
    (case h of 0 \<Rightarrow> 1 | Suc h' \<Rightarrow> Suc lo * 3 ^ h') \<le> Suc (length (inorder t)) \<and> Suc (length (inorder t)) \<le> 5 ^ h"
proof (induction h arbitrary: lo t)
  case (Suc h)
  obtain l ks ts where t: "t = Node l ks ts" "lo \<le> length ks" "length ks \<le> 4" "length ts = Suc (length ks)"
    "\<forall>t\<in>set ts. shape 2 h t"
    using shapeE [OF Suc.prems(1)] by metis
  have "(3 :: nat) ^ h = (case h of 0 \<Rightarrow> 1 | Suc h' \<Rightarrow> Suc 2 * 3 ^ h')" by (cases h) auto
  then have "\<forall>u\<in>set ts. 3 ^ h \<le> Suc (length (inorder u)) \<and> Suc (length (inorder u)) \<le> 5 ^ h"
    using Suc.IH [of 2] t(5) by auto
  then have b: "length ts * 3 ^ h \<le> sum_list (map (\<lambda>u. Suc (length (inorder u))) ts)"
    "sum_list (map (\<lambda>u. Suc (length (inorder u))) ts) \<le> length ts * 5 ^ h"
    using sum_list_bounds [of ts "3 ^ h" "\<lambda>u. Suc (length (inorder u))" "5 ^ h"] by auto
  have "Suc (length (inorder t)) = sum_list (map (\<lambda>u. Suc (length (inorder u))) ts)"
    unfolding t(1) inorder.simps(2) using length_weave [of "map inorder ts" ks] t(4) by (simp add: comp_def)
  moreover have "Suc lo * 3 ^ h \<le> length ts * 3 ^ h" "length ts * 5 ^ h \<le> 5 * 5 ^ h"
    using t(2-4) by (simp_all add: mult_le_mono1 del: mult_le_cancel2 mult_Suc)
  ultimately show ?case using b unfolding power_Suc nat.case by linarith
qed simp

lemma balanced_height: "shape 1 (Suc h) t \<Longrightarrow> 2 * 3 ^ h \<le> Suc (length (inorder t))"
  using shape_size [of 1 "Suc h" t] by simp

end
