(* ===== verification/Tree_Heap.thy ===== *)
theory Tree_Heap
  imports Tree_Node Smmr_Room Btree_Rem
begin

text \<open>
  The index in the memory of a category: when the nodes in memory form a B-tree of the reference
  algorithm, whose locations are the blocks of the nodes, and what an operation on them leaves
  alone.
\<close>

type_synonym ntree = "(node_key, blk) btree"

section \<open>Nodes are blocks\<close>

definition noff_of :: "u32 \<Rightarrow> blk \<Rightarrow> node_instance_offset" where
  "noff_of cid b = \<lparr>category_id = ucast cid, page_id = of_nat (fst b), offset = of_nat (snd b)\<rparr>"

definition root_of :: "u32 \<Rightarrow> ntree \<Rightarrow> node_instance_offset" where
  "root_of cid t = (case t of Leaf \<Rightarrow> empty_node | Node b ks ts \<Rightarrow> noff_of cid b)"

lemma root_of_simps [simp]: "root_of cid Leaf = empty_node" "root_of cid (Node b ks ts) = noff_of cid b"
  by (simp_all add: root_of_def)

lemma empty_node_empty [simp]: "ISEMPTY_NODE empty_node"
  by (simp add: ISEMPTY_NODE_def empty_node_def)

lemma noff_live:
  assumes "b \<in> live cid m"
  shows "\<not> ISEMPTY_NODE (noff_of cid b)" "REFNODE (noff_of cid b) = user_addr b"
proof -
  have p: "1 \<le> fst b" "fst b < 1024" "snd b < 131072" using live_item(2,4) [OF assms] by simp_all
  have o: "unat (of_nat (snd b) :: u24) = snd b" by (intro unat_of_nat_small) (use p in simp)
  have g: "unat (of_nat (fst b) :: u16) = fst b" by (intro unat_of_nat_small) (use p in simp)
  then have "(of_nat (fst b) :: u16) \<noteq> 0" using p(1) by (metis not_one_le_zero unat_0)
  then show "\<not> ISEMPTY_NODE (noff_of cid b)" by (simp add: ISEMPTY_NODE_def noff_of_def)
  show "REFNODE (noff_of cid b) = user_addr b" using o g by (simp add: REFNODE_def noff_of_def user_addr_def)
qed

definition node_blk :: "u32 \<Rightarrow> mem \<Rightarrow> blk \<Rightarrow> bool" where
  "node_blk cid m b \<longleftrightarrow> b \<in> live cid m \<and> 64 \<le> user_len m b"

lemma node_in_block: "node_blk cid m b \<Longrightarrow> user_addr b \<le> i \<Longrightarrow> i < user_addr b + 64 \<Longrightarrow> i \<in> block m b"
  by (simp add: node_blk_def block_def)

lemma blocks_sep:
  assumes "b \<in> live cid m" "d \<in> live cid m" "b \<noteq> d" "n \<le> user_len m b" "k \<le> user_len m d" "0 < n" "0 < k"
  shows "user_addr b + n \<le> user_addr d \<or> user_addr d + k \<le> user_addr b"
proof (rule ccontr)
  assume "\<not> ?thesis"
  then have "max (user_addr b) (user_addr d) \<in> block m b \<inter> block m d"
    using assms(4-7) by (auto simp: block_def max_def)
  then show False using live_blocks_disjoint [OF assms(1-3)] by blast
qed

lemma nodes_apart: "node_blk cid m b \<Longrightarrow> node_blk cid m d \<Longrightarrow> b \<noteq> d \<Longrightarrow> apart (user_addr b) (user_addr d)"
  using blocks_sep [of b cid m d 64 64] by (simp add: node_blk_def apart_def)

text \<open>The block of the shared part of the instance.\<close>

definition itm_blk :: "u32 \<Rightarrow> tree_cur \<Rightarrow> blk \<Rightarrow> bool" where
  "itm_blk cid s b \<longleftrightarrow> b \<in> live cid (mem s) \<and> 16 \<le> user_len (mem s) b \<and> root_itm s = user_addr b"

lemma itm_apart:
  assumes "itm_blk cid s ib" "node_blk cid (mem s) b" "b \<noteq> ib"
  shows "root_itm s + 16 \<le> user_addr b \<or> user_addr b + 64 \<le> root_itm s"
  using assms blocks_sep [of ib cid "mem s" b 16 64] by (simp add: itm_blk_def node_blk_def)

section \<open>Trees in memory\<close>

fun rep :: "u32 \<Rightarrow> mem \<Rightarrow> ntree \<Rightarrow> bool" where
  "rep cid m Leaf \<longleftrightarrow> True"
| "rep cid m (Node b ks ts) \<longleftrightarrow> node_blk cid m b \<and> unat (node_count m (user_addr b)) \<le> 4 \<and>
     ukeys m (user_addr b) = ks \<and> uch m (user_addr b) = map (root_of cid) ts \<and> (\<forall>t\<in>set ts. rep cid m t)"

text \<open>No block is used twice.\<close>

definition dis :: "ntree \<Rightarrow> bool" where
  "dis t \<longleftrightarrow> (\<forall>b. count (locs t) b \<le> 1)"

lemma rep_live: "rep cid m t \<Longrightarrow> set_mset (locs t) \<subseteq> live cid m"
proof (induction t)
  case (Node b ks ts)
  have "set_mset (sum_list (map locs ts)) = (\<Union>t\<in>set ts. set_mset (locs t))" by (induction ts) auto
  then show ?case using Node by (auto simp: node_blk_def)
qed simp

lemma count_sum_list: "t \<in> set ts \<Longrightarrow> count (locs t) b \<le> count (sum_list (map locs ts)) b"
  by (induction ts) auto

lemma dis_child:
  assumes "dis (Node b ks ts)" "t \<in> set ts"
  shows "dis t" "b \<notin># locs t"
proof -
  have le: "count (add_mset b (sum_list (map locs ts))) d \<le> 1" for d
    using assms(1) unfolding dis_def locs.simps by blast
  have c: "count (locs t) d + (if d = b then 1 else 0) \<le> 1" for d
  proof -
    have "count (locs t) d + (if d = b then 1 else 0) \<le> count (add_mset b (sum_list (map locs ts))) d"
      using count_sum_list [OF assms(2), of d] by simp
    then show ?thesis using le [of d] by (rule le_trans)
  qed
  show "dis t" unfolding dis_def using c add_leD1 by blast
  show "b \<notin># locs t" using c [of b] by (simp add: not_in_iff)
qed

lemma dis_children:
  assumes "dis (Node b ks (as @ t # bs))" "u \<in> set (as @ bs)"
  shows "set_mset (locs t) \<inter> set_mset (locs u) = {}"
proof -
  have "count (locs t) d + count (locs u) d \<le> 1" for d
  proof -
    have "count (locs u) d \<le> count (sum_list (map locs (as @ bs))) d" by (rule count_sum_list [OF assms(2)])
    moreover have "count (locs t) d + count (sum_list (map locs (as @ bs))) d \<le> count (locs (Node b ks (as @ t # bs))) d"
      by simp
    moreover have "count (locs (Node b ks (as @ t # bs))) d \<le> 1" using assms(1) unfolding dis_def by blast
    ultimately show ?thesis by linarith
  qed
  note c = this
  show ?thesis
  proof (rule ccontr)
    assume "\<not> ?thesis"
    then obtain d where "d \<in># locs t" "d \<in># locs u" by blast
    then have "0 < count (locs t) d" "0 < count (locs u) d" by simp_all
    then show False using c [of d] by linarith
  qed
qed

section \<open>What an operation leaves alone\<close>

text \<open>
  Outside the blocks \<open>W\<close> and the bytes \<open>R\<close> the contents of the blocks in use stay.
\<close>

definition frame :: "u32 \<Rightarrow> blk set \<Rightarrow> nat set \<Rightarrow> mem \<Rightarrow> mem \<Rightarrow> bool" where
  "frame cid W R m m' \<longleftrightarrow> cat_ok cid m' \<and>
     (\<forall>b\<in>live cid m - W. b \<in> live cid m' \<and> block m' b = block m b \<and> (\<forall>i\<in>block m b - R. m' i = m i))"

lemma frame_refl: "cat_ok cid m \<Longrightarrow> frame cid W R m m"
  by (simp add: frame_def)

lemma frame_trans:
  "frame cid W R m m1 \<Longrightarrow> frame cid W' R' m1 m2 \<Longrightarrow> W' \<inter> live cid m \<subseteq> W \<Longrightarrow> R' \<subseteq> R \<Longrightarrow> frame cid W R m m2"
  unfolding frame_def
proof (elim conjE, intro conjI ballI, assumption)
  fix b
  assume a: "\<forall>b\<in>live cid m - W. b \<in> live cid m1 \<and> block m1 b = block m b \<and> (\<forall>i\<in>block m b - R. m1 i = m i)"
    "\<forall>b\<in>live cid m1 - W'. b \<in> live cid m2 \<and> block m2 b = block m1 b \<and> (\<forall>i\<in>block m1 b - R'. m2 i = m1 i)"
    "W' \<inter> live cid m \<subseteq> W" "R' \<subseteq> R" "b \<in> live cid m - W"
  then have b: "b \<in> live cid m1" "b \<notin> W'" "block m1 b = block m b" "\<forall>i\<in>block m b - R. m1 i = m i" by auto
  then have c: "b \<in> live cid m2" "block m2 b = block m1 b" "\<forall>i\<in>block m1 b - R'. m2 i = m1 i" using a(2) by auto
  show "b \<in> live cid m2" "block m2 b = block m b" using b c by simp_all
  show "m2 i = m i" if i: "i \<in> block m b - R" for i
  proof -
    have "m1 i = m i" using b(4) i by blast
    moreover have "m2 i = m1 i" using c(3) b(3) a(4) i by blast
    ultimately show ?thesis by simp
  qed
qed

lemma frame_mono: "frame cid W R m m' \<Longrightarrow> W \<subseteq> W' \<Longrightarrow> R \<subseteq> R' \<Longrightarrow> frame cid W' R' m m'"
  unfolding frame_def by blast

lemma frame_alloc: "alloc_effect cid al m a m' \<Longrightarrow> frame cid W R m m'"
  unfolding frame_def alloc_effect_def by blast

lemma frame_free: "free_effect cid m a m' \<Longrightarrow> frame cid {a} R m m'"
  unfolding frame_def free_effect_def by blast

lemma user_len_block: "block m' b = block m b \<Longrightarrow> 0 < user_len m b \<Longrightarrow> user_len m' b = user_len m b"
proof -
  assume e: "block m' b = block m b" and "0 < user_len m b"
  then have "{user_addr b..<user_addr b + user_len m b} \<noteq> {}" by simp
  then show ?thesis using e unfolding block_def by (metis add_left_cancel atLeastLessThan_eq_iff atLeastLessThan_empty_iff)
qed

lemma node_frame:
  assumes f: "frame cid W R m m'" and b: "node_blk cid m b" "b \<notin> W" and R: "block m b \<inter> R = {}"
  shows "node_blk cid m' b" "node_count m' (user_addr b) = node_count m (user_addr b)"
    "ukeys m' (user_addr b) = ukeys m (user_addr b)" "uch m' (user_addr b) = uch m (user_addr b)"
proof -
  have k: "b \<in> live cid m'" "block m' b = block m b" "\<forall>i\<in>block m b. m' i = m i"
    using f b R unfolding frame_def node_blk_def by blast+
  have "user_len m' b = user_len m b" using user_len_block [OF k(2)] b(1) by (simp add: node_blk_def)
  then show "node_blk cid m' b" using b(1) k(1) by (simp add: node_blk_def)
  have e: "m' i = m i" if "user_addr b \<le> i" "i < user_addr b + 64" for i
    using k(3) node_in_block [OF b(1) that] by blast
  show "node_count m' (user_addr b) = node_count m (user_addr b)" by (rule node_cong(1)) (rule e)
  show "ukeys m' (user_addr b) = ukeys m (user_addr b)" by (rule used_cong(1)) (rule e)
  show "uch m' (user_addr b) = uch m (user_addr b)" by (rule used_cong(2)) (rule e)
qed

lemma rep_frame:
  assumes f: "frame cid W R m m'"
  shows "rep cid m t \<Longrightarrow> set_mset (locs t) \<inter> W = {} \<Longrightarrow> \<forall>b\<in>set_mset (locs t). block m b \<inter> R = {} \<Longrightarrow> rep cid m' t"
proof (induction t)
  case (Node b ks ts)
  have s: "set_mset (locs t) \<subseteq> set_mset (locs (Node b ks ts))" if "t \<in> set ts" for t
    using that by (induction ts) auto
  have "rep cid m' t" if "t \<in> set ts" for t
    using Node.IH [OF that] Node.prems s [OF that] that by auto
  moreover have "node_blk cid m b" "b \<notin> W" "block m b \<inter> R = {}" using Node.prems by auto
  ultimately show ?case using node_frame [OF f, of b] Node.prems(1) by simp
qed simp

lemma itm_frame:
  assumes f: "frame cid W R (mem s) (mem s')" and i: "itm_blk cid s ib" "ib \<notin> W" and r: "root_itm s' = root_itm s"
  shows "itm_blk cid s' ib"
    and "R \<inter> {root_itm s + 4..<root_itm s + 10} = {} \<Longrightarrow> rooti s' = rooti s"
    and "R \<inter> {root_itm s + 10..<root_itm s + 16} = {} \<Longrightarrow> newnodei s' = newnodei s"
proof -
  have k: "ib \<in> live cid (mem s')" "block (mem s') ib = block (mem s) ib"
    "\<forall>i\<in>block (mem s) ib - R. mem s' i = mem s i"
    using f i unfolding frame_def itm_blk_def by blast+
  have "user_len (mem s') ib = user_len (mem s) ib" using user_len_block [OF k(2)] i(1) by (simp add: itm_blk_def)
  then show "itm_blk cid s' ib" using i(1) k(1) r by (simp add: itm_blk_def)
  have e: "mem s' i = mem s i" if "root_itm s \<le> i" "i < root_itm s + 16" "i \<notin> R" for i
    using k(3) that i(1) by (auto simp: itm_blk_def block_def)
  show "rooti s' = rooti s" if "R \<inter> {root_itm s + 4..<root_itm s + 10} = {}"
    unfolding rooti_def r by (rule ld_noff_cong) (use that in \<open>intro e; auto\<close>)
  show "newnodei s' = newnodei s" if "R \<inter> {root_itm s + 10..<root_itm s + 16} = {}"
    unfolding newnodei_def r by (rule ld_noff_cong) (use that in \<open>intro e; auto\<close>)
qed

lemma frame_nodes:
  assumes c: "cat_ok cid m" and b: "\<forall>b\<in>S. node_blk cid m b" "finite S" and o: "only_nodes (user_addr ` S) m m'"
  shows "same_heap cid m m'" "frame cid S R m m'"
proof -
  have e: "m' i = m i" if "i \<notin> (\<Union>b\<in>S. block m b)" for i
  proof -
    have "\<forall>a\<in>user_addr ` S. i < a \<or> a + 64 \<le> i"
    proof
      fix a
      assume "a \<in> user_addr ` S"
      then obtain b' where "b' \<in> S" "a = user_addr b'" by blast
      then show "i < a \<or> a + 64 \<le> i"
        using node_in_block [of cid m b' i] b(1) that by (meson UN_I not_le)
    qed
    then show ?thesis using o by (simp add: only_nodes_def)
  qed
  have S: "S \<subseteq> live cid m" using b(1) by (auto simp: node_blk_def)
  show h: "same_heap cid m m'" by (rule user_writes_ok [OF b(2) S c e])
  have "m' i = m i" if "d \<in> live cid m - S" "i \<in> block m d" for d i
  proof (rule e)
    show "i \<notin> (\<Union>b\<in>S. block m b)" using live_blocks_disjoint [of _ cid m d] that S by blast
  qed
  then show "frame cid S R m m'" using h by (auto simp: frame_def same_heap_def)
qed

lemma frame_itm:
  assumes c: "cat_ok cid (mem s)" and i: "itm_blk cid s ib" and k: "k + 6 \<le> 16"
  shows "same_heap cid (mem s) (st_noff (root_itm s + k) n (mem s))"
    "frame cid {} {root_itm s + k..<root_itm s + k + 6} (mem s) (st_noff (root_itm s + k) n (mem s))"
proof -
  let ?m = "st_noff (root_itm s + k) n (mem s)"
  have o: "?m i = mem s i" if "i \<notin> {root_itm s + k..<root_itm s + k + 6}" for i
    by (rule set_outside(4)) (use that in auto)
  have "?m i = mem s i" if "i \<notin> (\<Union>b\<in>{ib}. block (mem s) b)" for i
    by (rule o) (use that i k in \<open>auto simp: itm_blk_def block_def\<close>)
  then show h: "same_heap cid (mem s) ?m"
    using user_writes_ok [of "{ib}" cid "mem s" ?m] c i by (simp add: itm_blk_def)
  show "frame cid {} {root_itm s + k..<root_itm s + k + 6} (mem s) ?m"
    using h o by (auto simp: frame_def same_heap_def)
qed

end
