(* ===== verification/Tree_Insert.thy ===== *)
theory Tree_Insert
  imports Tree_Heap
begin

text \<open>
  Insertion into the index in memory refines insertion into the reference tree, and search finds
  what the reference tree holds.
\<close>

section \<open>Reading a node\<close>

lemma key_pos_from:
  assumes "unat (node_count m a) \<le> 4"
  shows "pos \<le> unat (node_count m a) \<Longrightarrow>
    key_pos m a x pos = pos + length (takeWhile (\<lambda>k. k < x) (drop pos (ukeys m a)))"
  using assms
proof (induction m a x pos rule: key_pos.induct)
  case (1 m a x pos)
  note len = used_length(1) [OF 1(3)]
  show ?case
  proof (cases "pos < unat (node_count m a)")
    case True
    have d: "drop pos (ukeys m a) = ukeys m a ! pos # drop (pos + 1) (ukeys m a)"
      using Cons_nth_drop_Suc [of pos "ukeys m a"] True len by simp
    have k: "node_keys m a pos = ukeys m a ! pos" by (rule used_nth(1)) (use True 1(3) in auto)
    show ?thesis
    proof (cases "compare_node_key_unsafe (node_keys m a pos) x < 0")
      case lt: True
      then have "key_pos m a x pos = key_pos m a x (pos + 1)" using True by (subst key_pos.simps) simp
      also have "\<dots> = pos + 1 + length (takeWhile (\<lambda>k. k < x) (drop (pos + 1) (ukeys m a)))"
        using 1 True lt by simp
      finally show ?thesis using lt unfolding d k compare_less by simp
    next
      case False
      then show ?thesis using True unfolding d k compare_less by (subst key_pos.simps) (simp add: k compare_less)
    qed
  next
    case False
    then show ?thesis using len by (subst key_pos.simps) simp
  qed
qed

lemma rep_node:
  assumes r: "rep cid m (Node b ks ts)" and n: "length ts = Suc (length ks)" and nodei: "nodei = noff_of cid b"
  shows "\<not> ISEMPTY_NODE nodei" "REFNODE nodei = user_addr b" "node_blk cid m b"
    "unat (node_count m (user_addr b)) = length ks" "length ks \<le> 4"
    "ukeys m (user_addr b) = ks" "uch m (user_addr b) = map (root_of cid) ts"
    "key_pos m (user_addr b) x 0 = find_pos x ks"
    "key_at m (user_addr b) x i \<longleftrightarrow> i < length ks \<and> ks ! i = x"
    "i \<le> length ks \<Longrightarrow> childsi m (user_addr b) i = root_of cid (ts ! i)"
    "i < length ks \<Longrightarrow> node_keys m (user_addr b) i = ks ! i"
    "\<forall>t\<in>set ts. rep cid m t"
proof -
  have f: "node_blk cid m b" "unat (node_count m (user_addr b)) \<le> 4" "ukeys m (user_addr b) = ks"
    "uch m (user_addr b) = map (root_of cid) ts" "\<forall>t\<in>set ts. rep cid m t" using r by simp_all
  then have b: "b \<in> live cid m" by (simp add: node_blk_def)
  show "\<not> ISEMPTY_NODE nodei" "REFNODE nodei = user_addr b" unfolding nodei using noff_live [OF b] by simp_all
  show "node_blk cid m b" "ukeys m (user_addr b) = ks" "uch m (user_addr b) = map (root_of cid) ts"
    "\<forall>t\<in>set ts. rep cid m t" by (fact f)+
  show c: "unat (node_count m (user_addr b)) = length ks" using used_length(1) [OF f(2)] f(3) by simp
  then show l: "length ks \<le> 4" using f(2) by simp
  show "key_pos m (user_addr b) x 0 = find_pos x ks"
    using key_pos_from [OF f(2), of 0 x] f(3) by (simp add: find_pos_def)
  show k: "i < length ks \<Longrightarrow> node_keys m (user_addr b) i = ks ! i" for i
    using used_nth(1) [of i m "user_addr b"] c l f(3) by simp
  then show "key_at m (user_addr b) x i \<longleftrightarrow> i < length ks \<and> ks ! i = x"
    using c by (auto simp: key_at_def compare_eq)
  show "i \<le> length ks \<Longrightarrow> childsi m (user_addr b) i = root_of cid (ts ! i)"
    using used_nth(2) [of i m "user_addr b"] c l n f(4) by simp
qed

section \<open>Insertion\<close>

definition tree_pre :: "u32 \<Rightarrow> blk \<Rightarrow> ntree \<Rightarrow> tree_cur \<Rightarrow> bool" where
  "tree_pre cid ib t s \<longleftrightarrow> category s = cid \<and> cat_ok cid (mem s) \<and> itm_blk cid s ib \<and>
     rep cid (mem s) t \<and> dis t \<and> ib \<notin># locs t"

definition newnode_bytes :: "tree_cur \<Rightarrow> nat set" where
  "newnode_bytes s = {root_itm s + 10..<root_itm s + 16}"

text \<open>What insertion never assigns.\<close>

definition same_tree :: "tree_cur \<Rightarrow> tree_cur \<Rightarrow> bool" where
  "same_tree s s' \<longleftrightarrow> category s' = category s \<and> root_itm s' = root_itm s \<and> deleted s' = deleted s \<and>
     undersize s' = undersize s"

definition ins_frame :: "u32 \<Rightarrow> blk set \<Rightarrow> blk list \<Rightarrow> tree_cur \<Rightarrow> tree_cur \<Rightarrow> bool" where
  "ins_frame cid W us s s' \<longleftrightarrow>
     same_tree s s' \<and>
     frame cid W (newnode_bytes s) (mem s) (mem s') \<and>
     distinct us \<and> set us \<inter> live cid (mem s) = {} \<and> live cid (mem s') = live cid (mem s) \<union> set us \<and>
     slots (mem s) \<le> slots (mem s') + length us"

definition ins_post :: "u32 \<Rightarrow> ntree \<Rightarrow> (node_key, blk) ins_res \<Rightarrow> tree_cur \<Rightarrow> bool" where
  "ins_post cid t r s' \<longleftrightarrow> (case r of
     Found \<Rightarrow> item_done s' \<and> rep cid (mem s') t
   | Done t' \<Rightarrow> item_done s' \<and> rep cid (mem s') t' \<and> root_of cid t' = root_of cid t
   | Up t' k u \<Rightarrow> \<not> item_done s' \<and> rep cid (mem s') t' \<and> rep cid (mem s') u \<and> root_of cid t' = root_of cid t \<and>
       current_item s' = k \<and> newnodei s' = root_of cid u)"

text \<open>The locations of the result, when the supply is only looked at as far as it is used.\<close>

lemma ins_used:
  assumes "shape lo h t" "\<forall>fr. ins x (us @ fr) t = (r, fr)"
  shows "length us \<le> h" "case res_locs r of None \<Rightarrow> us = [] | Some L \<Rightarrow> L = locs t + mset us"
proof -
  let ?fr = "us @ replicate h undefined"
  obtain r' us' fr' where "ins x ?fr t = (r', fr')" "?fr = us' @ fr'" "length us' \<le> h"
    "case res_locs r' of None \<Rightarrow> us' = [] | Some L \<Rightarrow> L = locs t + mset us'"
    using ins_locs [OF assms(1), of ?fr x] by (metis le_add2 length_append length_replicate)
  moreover have "ins x ?fr t = (r, replicate h undefined)" using assms(2) by blast
  ultimately have "r' = r" "us' = us" "length us' \<le> h"
    "case res_locs r' of None \<Rightarrow> us' = [] | Some L \<Rightarrow> L = locs t + mset us'" by auto
  then show "length us \<le> h" "case res_locs r of None \<Rightarrow> us = [] | Some L \<Rightarrow> L = locs t + mset us" by auto
qed

lemma itm_not_node:
  assumes "itm_blk cid s ib" "d \<in> live cid (mem s)" "d \<noteq> ib"
  shows "block (mem s) d \<inter> newnode_bytes s = {}" "block (mem s) d \<inter> {root_itm s..<root_itm s + 16} = {}"
proof -
  have "{root_itm s..<root_itm s + 16} \<subseteq> block (mem s) ib" using assms(1) by (auto simp: itm_blk_def block_def)
  moreover have "block (mem s) d \<inter> block (mem s) ib = {}"
    using live_blocks_disjoint [of d cid "mem s" ib] assms by (simp add: itm_blk_def)
  ultimately show "block (mem s) d \<inter> {root_itm s..<root_itm s + 16} = {}" by blast
  then show "block (mem s) d \<inter> newnode_bytes s = {}" by (auto simp: newnode_bytes_def)
qed

lemma rep_frame_itm:
  assumes f: "frame cid W (newnode_bytes s) (mem s) m'" and i: "itm_blk cid s ib" "ib \<notin># locs t"
    and t: "rep cid (mem s) t" "set_mset (locs t) \<inter> W = {}"
  shows "rep cid m' t"
proof (rule rep_frame [OF f t])
  show "\<forall>b\<in>set_mset (locs t). block (mem s) b \<inter> newnode_bytes s = {}"
    using itm_not_node(1) [OF i(1)] rep_live [OF t(1)] i(2) by blast
qed

lemma ins_frame_trans:
  assumes f1: "ins_frame cid W1 us s s1" and f2: "ins_frame cid W2 us' s1 s2"
    and W: "W1 \<subseteq> W" "W2 \<inter> live cid (mem s) \<subseteq> W"
  shows "ins_frame cid W (us @ us') s s2"
proof -
  have r: "root_itm s1 = root_itm s" using f1 by (simp add: ins_frame_def same_tree_def)
  have "frame cid W (newnode_bytes s) (mem s) (mem s1)"
    by (rule frame_mono [of cid W1 "newnode_bytes s"]) (use f1 W(1) in \<open>simp_all add: ins_frame_def\<close>)
  moreover have "frame cid W2 (newnode_bytes s) (mem s1) (mem s2)"
    using f2 r by (simp add: ins_frame_def newnode_bytes_def)
  ultimately have "frame cid W (newnode_bytes s) (mem s) (mem s2)"
    by (rule frame_trans [OF _ _ W(2) subset_refl])
  moreover have "same_tree s s2" using f1 f2 by (simp add: ins_frame_def same_tree_def)
  ultimately show ?thesis using f1 f2 unfolding ins_frame_def by auto
qed

lemma ins_frame_same:
  assumes "same_heap cid (mem s) (mem s')" "frame cid W (newnode_bytes s) (mem s) (mem s')"
    and "same_tree s s'"
  shows "ins_frame cid W [] s s'"
  using assms same_heap_slots [OF assms(1)] by (simp add: ins_frame_def same_heap_def)

lemma ins_frame_nodes:
  assumes "cat_ok cid (mem s)" "\<forall>b\<in>S. node_blk cid (mem s) b" "finite S"
    and "only_nodes (user_addr ` S) (mem s) (mem s')"
    and "same_tree s s'"
  shows "ins_frame cid S [] s s'"
  using frame_nodes [OF assms(1-4)] frame_mono [of cid S "{}" "mem s" "mem s'" S "newnode_bytes s"]
  by (intro ins_frame_same assms(5)) auto

lemma ins_frame_newnodei:
  assumes "cat_ok cid (mem s)" "itm_blk cid s ib"
  shows "ins_frame cid {} [] s (set_newnodei n s)"
  using frame_itm [OF assms, of 10 n]
  by (intro ins_frame_same) (simp_all add: set_newnodei_def newnode_bytes_def same_tree_def add.commute)

lemma newnodei_set [simp]: "newnodei (set_newnodei n s) = n"
  by (simp add: newnodei_def set_newnodei_def ld_st_noff_same)

lemma ins_frame_keeps:
  assumes f: "ins_frame cid W us s s'" and i: "itm_blk cid s ib" "ib \<notin> W"
  shows "category s' = category s" "root_itm s' = root_itm s" "cat_ok cid (mem s')" "itm_blk cid s' ib"
    "\<And>u. rep cid (mem s) u \<Longrightarrow> ib \<notin># locs u \<Longrightarrow> set_mset (locs u) \<inter> W = {} \<Longrightarrow> rep cid (mem s') u"
    "\<And>b. node_blk cid (mem s) b \<Longrightarrow> b \<noteq> ib \<Longrightarrow> b \<notin> W \<Longrightarrow> node_blk cid (mem s') b \<and>
      node_count (mem s') (user_addr b) = node_count (mem s) (user_addr b) \<and>
      ukeys (mem s') (user_addr b) = ukeys (mem s) (user_addr b) \<and> uch (mem s') (user_addr b) = uch (mem s) (user_addr b)"
proof -
  have e: "same_tree s s'"
    and fr: "frame cid W (newnode_bytes s) (mem s) (mem s')" using f unfolding ins_frame_def by blast+
  show "category s' = category s" and r: "root_itm s' = root_itm s" using e by (simp_all add: same_tree_def)
  show "cat_ok cid (mem s')" using fr by (simp add: frame_def)
  show "itm_blk cid s' ib" by (rule itm_frame(1) [OF fr i r])
  show "rep cid (mem s) u \<Longrightarrow> ib \<notin># locs u \<Longrightarrow> set_mset (locs u) \<inter> W = {} \<Longrightarrow> rep cid (mem s') u" for u
    by (rule rep_frame_itm [OF fr i(1)])
  show "node_blk cid (mem s') b \<and>
      node_count (mem s') (user_addr b) = node_count (mem s) (user_addr b) \<and>
      ukeys (mem s') (user_addr b) = ukeys (mem s) (user_addr b) \<and> uch (mem s') (user_addr b) = uch (mem s) (user_addr b)"
    if "node_blk cid (mem s) b" "b \<noteq> ib" "b \<notin> W" for b
    using node_frame [OF fr that(1,3)] itm_not_node(1) [OF i(1), of b] that by (simp add: node_blk_def)
qed

lemma insert_leaf:
  assumes "tree_pre cid ib Leaf s"
  shows "\<exists>s'. insert_item_recurcive now (root_of cid Leaf) s = Some s' \<and> ins_frame cid {} [] s s' \<and>
    ins_post cid Leaf (Up Leaf (current_item s) Leaf) s'"
proof -
  let ?s = "set_newnodei empty_node (s\<lparr>item_done := False\<rparr>)"
  have p: "cat_ok cid (mem s)" "itm_blk cid s ib" using assms by (simp_all add: tree_pre_def)
  have "insert_item_recurcive now (root_of cid Leaf) s = Some ?s"
    by (subst insert_item_recurcive.simps) simp
  moreover have "ins_frame cid {} [] s (s\<lparr>item_done := False\<rparr>)"
    using p(1) by (intro ins_frame_same) (auto simp: same_heap_def same_tree_def frame_refl)
  then have "ins_frame cid {} ([] @ []) s ?s"
    by (rule ins_frame_trans) (use p in \<open>auto intro!: ins_frame_newnodei simp: itm_blk_def\<close>)
  ultimately show ?thesis by (simp add: ins_post_def) (simp add: set_newnodei_def)
qed

section \<open>An item for a node\<close>

text \<open>The state in which a node gets the item and the tree \<open>v\<close> to the right of it.\<close>

definition node_pre :: "u32 \<Rightarrow> blk \<Rightarrow> blk \<Rightarrow> node_key list \<Rightarrow> ntree list \<Rightarrow> ntree \<Rightarrow> tree_cur \<Rightarrow> bool" where
  "node_pre cid ib b ks ts v s \<longleftrightarrow> category s = cid \<and> cat_ok cid (mem s) \<and> itm_blk cid s ib \<and> b \<noteq> ib \<and>
     rep cid (mem s) (Node b ks ts) \<and> length ts = Suc (length ks) \<and> rep cid (mem s) v \<and>
     (\<forall>u\<in>insert v (set ts). b \<notin># locs u \<and> ib \<notin># locs u) \<and> newnodei s = root_of cid v"

lemma put_free:
  assumes p: "node_pre cid ib b ks ts v s" and i: "i \<le> length ks" and n: "length ks < 4"
  defines "s' \<equiv> (add_item_to_free_node (noff_of cid b) i s)\<lparr>item_done := True\<rparr>"
  shows "ins_frame cid {b} [] s s'"
    "rep cid (mem s') (Node b (take i ks @ current_item s # drop i ks) (take (Suc i) ts @ v # drop (Suc i) ts))"
proof -
  have c: "cat_ok cid (mem s)" "itm_blk cid s ib" "b \<noteq> ib" "length ts = Suc (length ks)" "rep cid (mem s) v"
    "newnodei s = root_of cid v" and r: "rep cid (mem s) (Node b ks ts)"
    and d: "\<forall>u\<in>insert v (set ts). b \<notin># locs u \<and> ib \<notin># locs u" using p unfolding node_pre_def by blast+
  note rn = rep_node [OF r c(4) refl]
  note ap = itm_apart [OF c(2) rn(3) c(3)]
  note e = add_item_arrays [OF rn(1,2) rn(4) n i ap]
  have m: "mem s' = mem (add_item_to_free_node (noff_of cid b) i s)" by (simp add: s'_def)
  have o: "only_nodes (user_addr ` {b}) (mem s) (mem s')" using e(4) m by simp
  have st: "same_tree s s'"
    unfolding s'_def same_tree_def by (subst (1 2 3 4) e(5)) simp
  show f: "ins_frame cid {b} [] s s'"
    by (rule ins_frame_nodes [OF c(1) _ _ o st]) (use rn(3) in auto)
  note k = ins_frame_keeps [OF f c(2)]
  have ib: "ib \<notin> {b}" using c(3) by simp
  have sub: "rep cid (mem s') u" if "u \<in> insert v (set ts)" for u
    using k(5) [OF ib, of u] d rn(12) c(5) that by auto
  have "node_blk cid (mem s') b"
    using f rn(3) user_len_block [of "mem s'" b "mem s"] frame_nodes(1) [OF c(1) _ _ o] rn(3)
    by (auto simp: node_blk_def same_heap_def)
  moreover have "uch (mem s') (user_addr b) = map (root_of cid) (take (Suc i) ts @ v # drop (Suc i) ts)"
    using e(3) rn(7) c(6) m by (simp add: take_map drop_map)
  moreover have "ukeys (mem s') (user_addr b) = take i ks @ current_item s # drop i ks"
    using e(2) rn(6) m by simp
  moreover have "unat (node_count (mem s') (user_addr b)) \<le> 4" using e(1) n m by simp
  moreover have "\<forall>u\<in>set (take (Suc i) ts @ v # drop (Suc i) ts). rep cid (mem s') u"
    using sub by (auto dest: in_set_takeD in_set_dropD)
  ultimately show "rep cid (mem s') (Node b (take i ks @ current_item s # drop i ks) (take (Suc i) ts @ v # drop (Suc i) ts))"
    by simp
qed

lemma alloc_node:
  assumes c: "cat_ok cid (mem s)" "category s = cid" and s: "0 < slots (mem s)"
  obtains b m where "SHMALLOC_NODE now s = Some (noff_of cid b, user_addr b, s\<lparr>mem := m\<rparr>)"
    "ins_frame cid {} [b] s (s\<lparr>mem := m\<rparr>)" "node_blk cid m b" "b \<notin> live cid (mem s)"
    "frame cid {} {} (mem s) m"
proof -
  obtain a m where a: "shmalloc now cid 64 (mem s) = (Some a, m)" "alloc_effect cid (align4 64) (mem s) a m"
    "slots (mem s) \<le> Suc (slots m)"
    using shmalloc_slots [OF c(1) _ _ s, of 64 now] by auto
  have al: "align4 64 = 64" by (simp add: align4_def)
  show ?thesis
  proof (rule that)
    show "SHMALLOC_NODE now s = Some (noff_of cid a, user_addr a, s\<lparr>mem := m\<rparr>)"
      using a(1) c(2) by (cases a) (simp add: SHMALLOC_NODE_def noff_of_def user_addr_def)
    show "ins_frame cid {} [a] s (s\<lparr>mem := m\<rparr>)"
      using a(2,3) frame_alloc [OF a(2)] by (simp add: ins_frame_def same_tree_def alloc_effect_def)
    show "frame cid {} {} (mem s) m" by (rule frame_alloc [OF a(2)])
    show "node_blk cid m a" "a \<notin> live cid (mem s)" using a(2) al by (auto simp: alloc_effect_def node_blk_def)
  qed
qed

lemma put_split:
  assumes p: "node_pre cid ib b ks ts v s" and i: "i \<le> length ks" and n: "length ks = 4" and sl: "0 < slots (mem s)"
  defines "ks' \<equiv> take i ks @ current_item s # drop i ks" and "ts' \<equiv> take (Suc i) ts @ v # drop (Suc i) ts"
  obtains b' s' where "split_node now (noff_of cid b) i s = Some s'" "b' \<notin> live cid (mem s)"
    "ins_frame cid {b} [b'] s (s'\<lparr>item_done := False\<rparr>)"
    "rep cid (mem s') (Node b (take 2 ks') (take 3 ts'))" "rep cid (mem s') (Node b' (drop 3 ks') (drop 3 ts'))"
    "current_item s' = ks' ! 2" "newnodei s' = noff_of cid b'"
proof -
  have c: "cat_ok cid (mem s)" "itm_blk cid s ib" "b \<noteq> ib" "length ts = Suc (length ks)" "rep cid (mem s) v"
    "newnodei s = root_of cid v" "category s = cid" and r: "rep cid (mem s) (Node b ks ts)"
    and d: "\<forall>u\<in>insert v (set ts). b \<notin># locs u \<and> ib \<notin># locs u" using p unfolding node_pre_def by blast+
  note rn = rep_node [OF r c(4) refl]
  obtain b' m where a: "SHMALLOC_NODE now s = Some (noff_of cid b', user_addr b', s\<lparr>mem := m\<rparr>)"
    "ins_frame cid {} [b'] s (s\<lparr>mem := m\<rparr>)" "node_blk cid m b'" "b' \<notin> live cid (mem s)"
    "frame cid {} {} (mem s) m"
    using alloc_node [OF c(1,7) sl] by metis
  let ?s1 = "s\<lparr>mem := m\<rparr>"
  note k1 = ins_frame_keeps [OF a(2) c(2)]
  have ne: "b' \<noteq> b" "b' \<noteq> ib" using a(4) rn(3) c(2) by (auto simp: node_blk_def itm_blk_def)
  have b1: "node_blk cid m b" "node_count m (user_addr b) = node_count (mem s) (user_addr b)"
    "ukeys m (user_addr b) = ks" "uch m (user_addr b) = map (root_of cid) ts"
    using k1(6) [of b] rn(3,6,7) c(3) by simp_all
  have c1: "cat_ok cid m" "itm_blk cid ?s1 ib" using k1(3,4) by simp_all
  have nn: "newnodei ?s1 = newnodei s"
    using itm_frame(3) [of cid "{}" "{}" s ?s1 ib] a(5) c(2) by simp
  have rep1: "rep cid m u" if "u \<in> insert v (set ts)" for u
    using k1(5) [of u] d rn(12) c(5) that by auto
  have ap: "apart (user_addr b) (user_addr b')" using nodes_apart [OF b1(1) a(3)] ne by simp
  have ri: "root_itm s + 16 \<le> user_addr b \<or> user_addr b + 64 \<le> root_itm s"
    "root_itm s + 16 \<le> user_addr b' \<or> user_addr b' + 64 \<le> root_itm s"
    using itm_apart [OF c1(2), of b] itm_apart [OF c1(2), of b'] b1(1) a(3) c(3) ne by simp_all
  have lb': "b' \<in> live cid m" using a(3) by (simp add: node_blk_def)
  have u1: "unat (node_count (mem ?s1) (user_addr b)) = 4" using b1(2) rn(4) n by simp
  have i4: "i \<le> 4" using i n by simp
  have ks': "take i (ukeys (mem ?s1) (user_addr b)) @ current_item s # drop i (ukeys (mem ?s1) (user_addr b)) = ks'"
    using b1(3) by (simp add: ks'_def)
  have cs': "take (i + 1) (uch (mem ?s1) (user_addr b)) @ newnodei ?s1 # drop (i + 1) (uch (mem ?s1) (user_addr b)) =
      map (root_of cid) ts'"
    using b1(4) nn c(6) by (simp add: ts'_def take_map drop_map)
  obtain m2 where sp: "split_node now (noff_of cid b) i s =
      Some (set_newnodei (noff_of cid b') (s\<lparr>current_item := ks' ! 2, mem := m2\<rparr>))"
    and e: "unat (node_count m2 (user_addr b)) = 2" "ukeys m2 (user_addr b) = take 2 ks'"
    "uch m2 (user_addr b) = take 3 (map (root_of cid) ts')"
    "unat (node_count m2 (user_addr b')) = 2" "ukeys m2 (user_addr b') = drop 3 ks'"
    "uch m2 (user_addr b') = drop 3 (map (root_of cid) ts')"
    "only_nodes {user_addr b, user_addr b'} (mem ?s1) m2"
    using split_effect [OF rn(1,2) noff_live [OF lb'] a(1) _ u1 i4 ap ri, unfolded ks' cs'] by auto
  let ?s2 = "s\<lparr>current_item := ks' ! 2, mem := m2\<rparr>"
  let ?s' = "set_newnodei (noff_of cid b') ?s2"
  have nb: "\<forall>d\<in>{b, b'}. node_blk cid (mem ?s1) d" using b1(1) a(3) by simp
  have o: "only_nodes (user_addr ` {b, b'}) (mem ?s1) (mem ?s2)" using e(7) by simp
  have f2: "ins_frame cid {b, b'} [] ?s1 ?s2"
    by (rule ins_frame_nodes [OF _ nb _ o]) (use c1(1) in \<open>simp_all add: same_tree_def\<close>)
  have sh: "same_heap cid m m2" using frame_nodes(1) [OF _ nb _ o] c1(1) by simp
  have nb2: "node_blk cid m2 d" if "d \<in> {b, b'}" for d
    using sh nb that user_len_block [of m2 d m] by (auto simp: same_heap_def node_blk_def)
  have ib2: "ib \<notin> {b, b'}" using c(3) ne by auto
  note k2 = ins_frame_keeps [OF f2 c1(2) ib2]
  have rep2: "rep cid m2 u" if "u \<in> set ts'" for u
  proof -
    have u: "u \<in> insert v (set ts)" using that unfolding ts'_def by (auto dest: in_set_takeD in_set_dropD)
    then have "rep cid (mem s) u" using rn(12) c(5) by auto
    then have "b' \<notin># locs u" using rep_live a(4) by blast
    then show ?thesis using k2(5) [of u] rep1 [OF u] d u by auto
  qed
  have R: "rep cid m2 (Node b (take 2 ks') (take 3 ts'))" "rep cid m2 (Node b' (drop 3 ks') (drop 3 ts'))"
    using e nb2 rep2 by (auto simp: take_map drop_map dest: in_set_takeD in_set_dropD)
  have f3: "ins_frame cid {} [] ?s2 ?s'" by (rule ins_frame_newnodei) (use k2(3,4) in simp_all)
  note k3 = ins_frame_keeps [OF f3 k2(4), simplified]
  have ibt: "ib \<notin># locs u" if "u \<in> set ts'" for u
    using that d unfolding ts'_def by (auto dest: in_set_takeD in_set_dropD)
  have sumib: "ib \<notin># sum_list (map locs us)" if "\<forall>u\<in>set us. ib \<notin># locs u" for us
    using that by (induction us) auto
  have ib3: "ib \<notin># locs (Node b (take 2 ks') (take 3 ts'))" "ib \<notin># locs (Node b' (drop 3 ks') (drop 3 ts'))"
    using sumib [of "take 3 ts'"] sumib [of "drop 3 ts'"] ibt c(3) ne(2)
    by (auto dest: in_set_takeD in_set_dropD)
  have "ins_frame cid {b} ([b'] @ []) s ?s2"
    by (rule ins_frame_trans [OF a(2) f2]) (use a(4) in auto)
  then have "ins_frame cid {b} (([b'] @ []) @ []) s ?s'"
    by (rule ins_frame_trans [OF _ f3]) auto
  then have f: "ins_frame cid {b} [b'] s (?s'\<lparr>item_done := False\<rparr>)"
    by (simp add: ins_frame_def same_tree_def)
  show ?thesis
  proof (rule that [OF sp a(4) f])
    show "rep cid (mem ?s') (Node b (take 2 ks') (take 3 ts'))" by (rule k3(5) [OF R(1) ib3(1)])
    show "rep cid (mem ?s') (Node b' (drop 3 ks') (drop 3 ts'))" by (rule k3(5) [OF R(2) ib3(2)])
    show "current_item ?s' = ks' ! 2" by (simp add: set_newnodei_def)
    show "newnodei ?s' = noff_of cid b'" by simp
  qed
qed

section \<open>The refinement\<close>

definition ins_refines :: "u32 \<Rightarrow> u32 \<Rightarrow> ntree \<Rightarrow> tree_cur \<Rightarrow> bool" where
  "ins_refines now cid t s \<longleftrightarrow> (\<exists>s' us r.
     insert_item_recurcive now (root_of cid t) s = Some s' \<and>
     (\<forall>fr. ins (current_item s) (us @ fr) t = (r, fr)) \<and>
     ins_frame cid (set_mset (locs t)) us s s' \<and> ins_post cid t r s')"

lemma child_pre:
  assumes "tree_pre cid ib (Node b ks (as @ c # bs)) s"
  shows "tree_pre cid ib c s" "b \<noteq> ib" "b \<notin># locs c"
    "\<forall>u\<in>set (as @ bs). b \<notin># locs u \<and> ib \<notin># locs u \<and> rep cid (mem s) u \<and> set_mset (locs u) \<inter> set_mset (locs c) = {}"
    "set_mset (locs c) \<subseteq> set_mset (locs (Node b ks (as @ c # bs)))"
proof -
  let ?t = "Node b ks (as @ c # bs)"
  have p: "dis ?t" "ib \<notin># locs ?t" "rep cid (mem s) ?t" using assms unfolding tree_pre_def by blast+
  note d = dis_child [OF p(1)]
  have s: "set_mset (locs u) \<subseteq> set_mset (locs ?t)" if "u \<in> set (as @ c # bs)" for u
  proof
    fix x
    assume "x \<in># locs u"
    then have "0 < count (sum_list (map locs (as @ c # bs))) x"
      using count_sum_list [OF that, of x] by (metis count_greater_zero_iff order_less_le_trans)
    then have "x \<in># sum_list (map locs (as @ c # bs))" by (simp only: count_greater_zero_iff)
    then show "x \<in># locs ?t" unfolding locs.simps by (simp only: insert_iff set_mset_add_mset_insert simp_thms)
  qed
  show "set_mset (locs c) \<subseteq> set_mset (locs ?t)" using s by simp
  show "tree_pre cid ib c s" using assms d(1) [of c] s [of c] by (auto simp: tree_pre_def)
  show "b \<noteq> ib" using p(2) by auto
  show "b \<notin># locs c" using d(2) by simp
  show "\<forall>u\<in>set (as @ bs). b \<notin># locs u \<and> ib \<notin># locs u \<and> rep cid (mem s) u \<and> set_mset (locs u) \<inter> set_mset (locs c) = {}"
  proof
    fix u
    assume u: "u \<in> set (as @ bs)"
    then have u': "u \<in> set (as @ c # bs)" by auto
    have "rep cid (mem s) u" using p(3) u' unfolding rep.simps(2) by blast
    moreover have "set_mset (locs c) \<inter> set_mset (locs u) = {}" by (rule dis_children [OF p(1) u])
    ultimately show "b \<notin># locs u \<and> ib \<notin># locs u \<and> rep cid (mem s) u \<and> set_mset (locs u) \<inter> set_mset (locs c) = {}"
      using d(2) [OF u'] s [OF u'] p(2) by blast
  qed
qed

lemma insert_node:
  assumes pre: "tree_pre cid ib (Node b ks (as @ c # bs)) s" (is "tree_pre cid ib ?t s")
    and n: "length (as @ c # bs) = Suc (length ks)" and i: "find_pos (current_item s) ks = length as"
    and nf: "\<not> (length as < length ks \<and> ks ! length as = current_item s)"
    and sh: "shape 2 h c" and sl: "Suc h \<le> slots (mem s)" and IH: "ins_refines now cid c s"
  shows "ins_refines now cid ?t s"
proof -
  let ?i = "length as" and ?x = "current_item s"
  have p: "itm_blk cid s ib" "category s = cid" "rep cid (mem s) ?t" using pre unfolding tree_pre_def by blast+
  note cp = child_pre [OF pre]
  note rn = rep_node [OF p(3) n refl]
  obtain s1 us r where s1: "insert_item_recurcive now (root_of cid c) s = Some s1"
    and r: "\<forall>fr. ins ?x (us @ fr) c = (r, fr)"
    and f1: "ins_frame cid (set_mset (locs c)) us s s1" and post: "ins_post cid c r s1"
    using IH unfolding ins_refines_def by blast
  note used = ins_used [OF sh r]
  have ibc: "ib \<notin> set_mset (locs c)" using cp(1) by (simp add: tree_pre_def)
  note k1 = ins_frame_keeps [OF f1 p(1) ibc]
  have b1: "node_blk cid (mem s1) b" "unat (node_count (mem s1) (user_addr b)) = length ks"
    "ukeys (mem s1) (user_addr b) = ks" "uch (mem s1) (user_addr b) = map (root_of cid) (as @ c # bs)"
    using k1(6) [OF rn(3) cp(2,3)] rn(4,6,7) by simp_all
  have sib: "rep cid (mem s1) u" if "u \<in> set (as @ bs)" for u
    using k1(5) [of u] cp(4) that by blast
  have node1: "rep cid (mem s1) (Node b ks (as @ c' # bs))" if "rep cid (mem s1) c'" "root_of cid c' = root_of cid c" for c'
    using b1 rn(5) sib that by auto
  have f1': "ins_frame cid (set_mset (locs ?t)) (us @ []) s s1"
    by (rule ins_frame_trans [OF f1 _ cp(5)])
      (use ins_frame_same [of cid s1 s1 "{}"] k1(3) in \<open>auto simp: same_heap_def frame_refl same_tree_def\<close>)
  have ch: "childsi (mem s) (user_addr b) ?i = root_of cid c"
    using rn(10) [of ?i] n by simp
  have lt: "(unat (node_count (mem s1) (user_addr b)) < TREE_NODECOUNT) = (length ks < 4)" using b1(2) by simp
  have step: "insert_item_recurcive now (root_of cid ?t) s =
    (if item_done s1 then Some s1
     else if length ks < 4 then Some ((add_item_to_free_node (noff_of cid b) ?i s1)\<lparr>item_done := True\<rparr>)
     else do { s \<leftarrow> split_node now (noff_of cid b) ?i s1; Some (s\<lparr>item_done := False\<rparr>) })"
    unfolding root_of_simps
    by (subst insert_item_recurcive.simps)
      (simp only: rn(1,2,8,9) i ch s1 lt nf Let_def if_True if_False Option.bind.simps)
  have ins: "ins ?x (us @ fr) ?t = put_up ?i b ks (as @ c # bs) (r, fr)" for fr
    using ins_node(2) [OF n, of ?x "us @ fr" b] i nf r by simp
  have il: "?i \<le> length ks" using n by simp
  have pu: "take ?i ks @ drop ?i ks = ks" "(as @ c # bs) ! ?i = c" "length (drop ?i ks) = length bs"
    "length (take ?i ks) = ?i" using n by simp_all
  note put = put_up_at [OF pu(1) [symmetric] refl pu(4) refl pu(3)]
  show ?thesis
  proof (cases r)
    case Found
    then have "item_done s1" "rep cid (mem s1) ?t" using post node1 [of c] by (simp_all add: ins_post_def)
    then show ?thesis
      unfolding ins_refines_def using step f1' ins put(1) Found
      by (intro exI [of _ s1] exI [of _ us] exI [of _ Found]) (simp add: ins_post_def)
  next
    case (Done c')
    then have d: "item_done s1" "rep cid (mem s1) (Node b ks (as @ c' # bs))"
      using post node1 [of c'] unfolding ins_post_def by simp_all
    show ?thesis
      unfolding ins_refines_def
    proof (intro exI conjI allI)
      show "insert_item_recurcive now (root_of cid ?t) s = Some s1" using step d(1) by simp
      show "ins ?x (us @ fr) ?t = (Done (Node b ks (as @ c' # bs)), fr)" for fr
        unfolding ins Done by (rule put(2))
      show "ins_frame cid (set_mset (locs ?t)) us s s1" using f1' by simp
      show "ins_post cid ?t (Done (Node b ks (as @ c' # bs))) s1" using d by (simp add: ins_post_def)
    qed
  next
    case (Up c' k u)
    then have d: "\<not> item_done s1" "rep cid (mem s1) c'" "rep cid (mem s1) u" "root_of cid c' = root_of cid c"
      "current_item s1 = k" "newnodei s1 = root_of cid u"
      using post unfolding ins_post_def by simp_all
    have L: "locs c' + locs u = locs c + mset us" using used(2) Up by simp
    have new: "x \<notin># locs c' \<and> x \<notin># locs u" if "x \<in> live cid (mem s)" "x \<notin># locs c" for x
    proof -
      have "x \<notin># locs c + mset us" using that f1 by (auto simp: ins_frame_def)
      then show ?thesis unfolding L [symmetric] by simp
    qed
    have nb: "b \<notin># locs c' \<and> b \<notin># locs u" "ib \<notin># locs c' \<and> ib \<notin># locs u"
      using new [of b] new [of ib] rn(3) cp(3) p(1) ibc by (auto simp: node_blk_def itm_blk_def)
    let ?ts = "as @ c' # bs"
    have np: "node_pre cid ib b ks ?ts u s1"
      unfolding node_pre_def using k1(1-4) p(2) cp(2) node1 [OF d(2,4)] n d(3,6) nb cp(4) by auto
    let ?ks = "take ?i ks @ k # drop ?i ks"
    have ts': "take (Suc ?i) ?ts @ u # drop (Suc ?i) ?ts = as @ c' # u # bs" by simp
    have Wb: "{b} \<inter> live cid (mem s) \<subseteq> set_mset (locs ?t)" by auto
    show ?thesis
    proof (cases "length ks < 4")
      case True
      let ?s' = "(add_item_to_free_node (noff_of cid b) ?i s1)\<lparr>item_done := True\<rparr>"
      note pf = put_free [OF np il True]
      show ?thesis
        unfolding ins_refines_def
      proof (intro exI conjI allI)
        show "insert_item_recurcive now (root_of cid ?t) s = Some ?s'" using step d(1) True by simp
        show "ins ?x (us @ fr) ?t = (Done (Node b ?ks (as @ c' # u # bs)), fr)" for fr
          unfolding ins Up put(3) Let_def using True by (simp only: if_True)
        show "ins_frame cid (set_mset (locs ?t)) us s ?s'"
          using ins_frame_trans [OF f1 pf(1) cp(5) Wb] by simp
        show "ins_post cid ?t (Done (Node b ?ks (as @ c' # u # bs))) ?s'"
          using pf(2) d(5) unfolding ins_post_def by simp
      qed
    next
      case False
      have n4: "length ks = 4" using False rn(5) by simp
      have "0 < slots (mem s1)" using f1 used(1) sl by (simp add: ins_frame_def)
      then obtain b' s' where sp: "split_node now (noff_of cid b) ?i s1 = Some s'" "b' \<notin> live cid (mem s1)"
        "ins_frame cid {b} [b'] s1 (s'\<lparr>item_done := False\<rparr>)"
        "rep cid (mem s') (Node b (take 2 ?ks) (take 3 (as @ c' # u # bs)))"
        "rep cid (mem s') (Node b' (drop 3 ?ks) (drop 3 (as @ c' # u # bs)))"
        "current_item s' = ?ks ! 2" "newnodei s' = noff_of cid b'"
        using put_split [OF np il n4, of now] unfolding d(5) ts' by metis
      let ?r = "Up (Node b (take 2 ?ks) (take 3 (as @ c' # u # bs))) (?ks ! 2) (Node b' (drop 3 ?ks) (drop 3 (as @ c' # u # bs)))"
      let ?s' = "s'\<lparr>item_done := False\<rparr>"
      show ?thesis
        unfolding ins_refines_def
      proof (intro exI conjI allI)
        show "insert_item_recurcive now (root_of cid ?t) s = Some ?s'" using step d(1) False sp(1) by simp
        show "ins ?x ((us @ [b']) @ fr) ?t = (?r, fr)" for fr
          using ins [of "b' # fr"] False unfolding Up put(3) Let_def by (simp only: if_False append.simps append_assoc list.sel)
        show "ins_frame cid (set_mset (locs ?t)) (us @ [b']) s ?s'"
          by (rule ins_frame_trans [OF f1 sp(3) cp(5) Wb])
        show "ins_post cid ?t ?r ?s'"
          unfolding ins_post_def ins_res.case using sp(4-7) by (simp add: newnodei_def)
      qed
    qed
  qed
qed

lemma insert_refines:
  "shape lo h t \<Longrightarrow> tree_pre cid ib t s \<Longrightarrow> h \<le> slots (mem s) \<Longrightarrow> ins_refines now cid t s"
proof (induction h arbitrary: lo t)
  case 0
  then have "t = Leaf" by simp
  then show ?case using insert_leaf [of cid ib s now] 0 unfolding ins_refines_def
    by (auto intro!: exI [of _ "[]"])
next
  case (Suc h)
  obtain b ks ts where t: "t = Node b ks ts" and n: "length ts = Suc (length ks)" "\<forall>t\<in>set ts. shape 2 h t"
    using shapeE [OF Suc.prems(1)] by metis
  let ?i = "find_pos (current_item s) ks"
  note pre = Suc.prems(2) [unfolded t]
  have r: "rep cid (mem s) (Node b ks ts)" using pre by (simp only: tree_pre_def)
  note rn = rep_node [OF r n(1) refl]
  show ?case
  proof (cases "?i < length ks \<and> ks ! ?i = current_item s")
    case True
    let ?s = "s\<lparr>item_done := True\<rparr>"
    have "insert_item_recurcive now (root_of cid t) s = Some ?s"
      unfolding t root_of_simps
      by (subst insert_item_recurcive.simps) (simp only: rn(1,2,8,9) True Let_def if_True if_False simp_thms)
    moreover have "ins_frame cid (set_mset (locs t)) [] s ?s"
      using pre by (intro ins_frame_same) (auto simp: same_heap_def same_tree_def frame_refl tree_pre_def)
    ultimately show ?thesis
      unfolding ins_refines_def using ins_node(1) [OF n(1) True] r t
      by (intro exI [of _ ?s] exI [of _ "[]"] exI [of _ Found]) (simp add: ins_post_def)
  next
    case False
    obtain ks1 ks2 as c bs where d: "ts = as @ c # bs" "length as = ?i"
      using at_node [OF n(1) find_pos_le] by metis
    have "ins_refines now cid c s"
      by (rule Suc.IH [of 2]) (use n(2) d(1) child_pre(1) [OF pre [unfolded d(1)]] Suc.prems(3) in auto)
    then show ?thesis
      unfolding t d(1) using insert_node [OF pre [unfolded d(1)] n(1) [unfolded d(1)]] d False n(2) Suc.prems(3) by auto
  qed
qed

section \<open>The root\<close>

lemma calloc_effect:
  assumes al: "SHMALLOC_NODE now s = Some (newi, b, s1)" and s1: "s1 = s\<lparr>mem := m1\<rparr>"
    and r: "root_itm s + 16 \<le> b \<or> b + 64 \<le> root_itm s"
  obtains m2 where "calloc_new_node now s = Some (newi, s\<lparr>mem := m2\<rparr>)" "unat (node_count m2 b) = 1"
    "ukeys m2 b = [current_item s]" "uch m2 b = [rooti s1, newnodei s1]" "only_nodes {b} m1 m2"
proof -
  define ma where "ma = set_count b 1 m1"
  define mb where "mb = set_keys b 0 (current_item s) ma"
  define mc where "mc = set_childsi b 0 (rooti s1) mb"
  define md where "md = set_childsi b 1 (newnodei s1) mc"
  have r': "root_itm s + 4 + 6 \<le> b \<or> b + 64 \<le> root_itm s + 4" "root_itm s + 10 + 6 \<le> b \<or> b + 64 \<le> root_itm s + 10"
    using r by arith+
  have i4: "ld_noff mb (root_itm s + 4) = rooti s1"
    unfolding mb_def ma_def s1 using itm_other [OF r'(1)] by (simp add: rooti_def)
  have i10: "ld_noff mc (root_itm s + 10) = newnodei s1"
    unfolding mc_def mb_def ma_def s1 using itm_other [OF r'(2)] by (simp add: newnodei_def)
  have e: "calloc_new_node now s = Some (newi, s\<lparr>mem := md\<rparr>)"
    unfolding calloc_new_node_def al s1 Let_def
    by (simp add: ma_def [symmetric] mb_def [symmetric] i4 mc_def [symmetric] i10 md_def [symmetric]
        del: One_nat_def)
  have l: "length (ukeys ma b) = 1" "length (uch ma b) = 2"
    by (simp_all add: ukeys_def uch_def ma_def node_same)
  have c: "node_count md b = 1" unfolding md_def mc_def mb_def ma_def by (simp add: node_same)
  have "ukeys md b = (ukeys ma b)[0 := current_item s]"
    unfolding md_def mc_def mb_def by (simp add: used_same)
  then have k: "ukeys md b = [current_item s]" using l(1) by (cases "ukeys ma b") auto
  have "uch md b = (uch ma b)[0 := rooti s1, 1 := newnodei s1]"
    unfolding md_def mc_def mb_def by (simp add: used_same)
  then have h: "uch md b = [rooti s1, newnodei s1]" using l(2) by (auto simp: numeral_2_eq_2 length_Suc_conv)
  have "only_nodes {b} m1 md"
    unfolding md_def mc_def mb_def ma_def by (intro only_nodes_step) simp_all
  then show ?thesis using that [OF e] c k h by simp
qed

lemma new_root:
  assumes c: "category s = cid" "cat_ok cid (mem s)" "itm_blk cid s ib" and sl: "0 < slots (mem s)"
    and r: "rep cid (mem s) t" "rep cid (mem s) u" "ib \<notin># locs t" "ib \<notin># locs u"
    and n: "rooti s = root_of cid t" "newnodei s = root_of cid u"
  obtains b s' where "calloc_new_node now s = Some (noff_of cid b, s')" "b \<notin> live cid (mem s)" "b \<noteq> ib"
    "ins_frame cid {} [b] s s'" "rep cid (mem s') (Node b [current_item s] [t, u])" "current_item s' = current_item s"
proof -
  obtain b m where a: "SHMALLOC_NODE now s = Some (noff_of cid b, user_addr b, s\<lparr>mem := m\<rparr>)"
    "ins_frame cid {} [b] s (s\<lparr>mem := m\<rparr>)" "node_blk cid m b" "b \<notin> live cid (mem s)" "frame cid {} {} (mem s) m"
    using alloc_node [OF c(2,1) sl] by metis
  let ?s1 = "s\<lparr>mem := m\<rparr>"
  note k1 = ins_frame_keeps [OF a(2) c(3)]
  have ne: "b \<noteq> ib" using a(4) c(3) by (auto simp: itm_blk_def)
  have c1: "cat_ok cid m" "itm_blk cid ?s1 ib" using k1(3,4) by simp_all
  have i: "rooti ?s1 = rooti s" "newnodei ?s1 = newnodei s"
    using itm_frame(2,3) [of cid "{}" "{}" s ?s1 ib] a(5) c(3) by simp_all
  have ap: "root_itm s + 16 \<le> user_addr b \<or> user_addr b + 64 \<le> root_itm s"
    using itm_apart [OF c1(2), of b] a(3) ne by simp
  obtain m2 where e: "calloc_new_node now s = Some (noff_of cid b, s\<lparr>mem := m2\<rparr>)"
    "unat (node_count m2 (user_addr b)) = 1" "ukeys m2 (user_addr b) = [current_item s]"
    "uch m2 (user_addr b) = [rooti s, newnodei s]" "only_nodes {user_addr b} m m2"
    using calloc_effect [OF a(1) refl ap] unfolding i by metis
  let ?s2 = "s\<lparr>mem := m2\<rparr>"
  have o: "only_nodes (user_addr ` {b}) (mem ?s1) (mem ?s2)" using e(5) by simp
  have nb: "\<forall>d\<in>{b}. node_blk cid (mem ?s1) d" using a(3) by simp
  have f2: "ins_frame cid {b} [] ?s1 ?s2"
    by (rule ins_frame_nodes [OF _ nb _ o]) (use c1(1) in \<open>simp_all add: same_tree_def\<close>)
  have "same_heap cid m m2" using frame_nodes(1) [OF _ nb _ o] c1(1) by simp
  then have nb2: "node_blk cid m2 b"
    using a(3) user_len_block [of m2 b m] by (auto simp: same_heap_def node_blk_def)
  have ib2: "ib \<notin> {b}" using ne by simp
  note k2 = ins_frame_keeps [OF f2 c1(2) ib2]
  have "rep cid m2 v" if "v \<in> {t, u}" for v
  proof -
    have "rep cid m v" "b \<notin># locs v" using k1(5) [of v] r that rep_live [of cid "mem s" v] a(4) by auto
    then show ?thesis using k2(5) [of v] r that by auto
  qed
  then have R: "rep cid (mem ?s2) (Node b [current_item s] [t, u])" using e(2-4) nb2 n by simp
  have "ins_frame cid {} ([b] @ []) s ?s2" by (rule ins_frame_trans [OF a(2) f2]) (use a(4) in auto)
  then show ?thesis using that [OF e(1) a(4) ne _ R] by simp
qed

lemma set_rooti_effect:
  assumes c: "cat_ok cid (mem s)" "itm_blk cid s ib"
  shows "rooti (set_rooti n s) = n" "same_heap cid (mem s) (mem (set_rooti n s))"
    "frame cid {} {root_itm s + 4..<root_itm s + 10} (mem s) (mem (set_rooti n s))"
    "itm_blk cid (set_rooti n s) ib"
    "rep cid (mem s) t \<Longrightarrow> ib \<notin># locs t \<Longrightarrow> rep cid (mem (set_rooti n s)) t"
proof -
  show "rooti (set_rooti n s) = n" by (simp add: rooti_def set_rooti_def ld_st_noff_same)
  show "same_heap cid (mem s) (mem (set_rooti n s))"
    using frame_itm(1) [OF c, of 4 n] by (simp add: set_rooti_def)
  show f: "frame cid {} {root_itm s + 4..<root_itm s + 10} (mem s) (mem (set_rooti n s))"
    using frame_itm(2) [OF c, of 4 n] by (simp add: set_rooti_def add.commute)
  show "itm_blk cid (set_rooti n s) ib"
    by (rule itm_frame(1) [OF f c(2)]) (simp_all add: set_rooti_def)
  show "rep cid (mem (set_rooti n s)) t" if t: "rep cid (mem s) t" "ib \<notin># locs t"
  proof (rule rep_frame [OF f t(1)])
    show "\<forall>b\<in>set_mset (locs t). block (mem s) b \<inter> {root_itm s + 4..<root_itm s + 10} = {}"
    proof
      fix b
      assume "b \<in># locs t"
      then have "block (mem s) b \<inter> {root_itm s..<root_itm s + 16} = {}"
        using itm_not_node(2) [OF c(2)] rep_live [OF t(1)] t(2) by blast
      then show "block (mem s) b \<inter> {root_itm s + 4..<root_itm s + 10} = {}" by fastforce
    qed
  qed simp
qed

text \<open>The tree of a category, with its root where the instance says.\<close>

definition tree_in :: "u32 \<Rightarrow> blk \<Rightarrow> ntree \<Rightarrow> tree_cur \<Rightarrow> bool" where
  "tree_in cid ib t s \<longleftrightarrow> tree_pre cid ib t s \<and> rooti s = root_of cid t"

lemma insert_tree_used:
  assumes "shape 1 h t" "sorted_wrt (<) (inorder t)" "\<forall>fr. insert_tree x (us @ fr) t = (t', fr)"
  shows "length us \<le> Suc h" "locs t' = locs t + mset us"
proof -
  let ?fr = "us @ replicate (Suc h) undefined"
  have "insert_tree x ?fr t = (t', replicate (Suc h) undefined)" using assms(3) by blast
  from insert_tree_ok(3) [OF assms(1,2) _ this] show "length us \<le> Suc h" "locs t' = locs t + mset us" by auto
qed

lemma dis_new:
  assumes "dis t" "locs t' = locs t + mset us" "distinct us" "set us \<inter> set_mset (locs t) = {}"
  shows "dis t'"
  unfolding dis_def
proof
  fix b
  have "count (mset us) b \<le> 1" using assms(3) by (metis distinct_count_atmost_1 le_numeral_extra(4) le_zero_eq linear)
  moreover have "count (mset us) b = 0 \<or> count (locs t) b = 0"
    using assms(4) by (metis count_inI disjoint_iff set_mset_mset)
  moreover have "count (locs t) b \<le> 1" using assms(1) unfolding dis_def by blast
  ultimately show "count (locs t') b \<le> 1" unfolding assms(2) plus_multiset.rep_eq by arith
qed

definition add_post :: "u32 \<Rightarrow> blk \<Rightarrow> ntree \<Rightarrow> blk list \<Rightarrow> ntree \<Rightarrow> tree_cur \<Rightarrow> tree_cur \<Rightarrow> bool" where
  "add_post cid ib t us t' s s' \<longleftrightarrow>
     tree_in cid ib t' s' \<and> same_tree s s' \<and>
     frame cid (set_mset (locs t)) {root_itm s + 4..<root_itm s + 16} (mem s) (mem s') \<and>
     live cid (mem s') = live cid (mem s) \<union> set us \<and> set us \<inter> live cid (mem s) = {} \<and>
     slots (mem s) \<le> slots (mem s') + length us"

lemma frame_itm_bytes:
  "frame cid W (newnode_bytes s) m m' \<Longrightarrow> frame cid W {root_itm s + 4..<root_itm s + 16} m m'"
  by (erule frame_mono) (auto simp: newnode_bytes_def)

lemma add_item_refines:
  assumes t: "tree_in cid ib t s" "shape 1 h t" "sorted_wrt (<) (inorder t)" and sl: "Suc h \<le> slots (mem s)"
  obtains s' us t' where "add_item now x s = Some s'" "\<forall>fr. insert_tree x (us @ fr) t = (t', fr)"
    "add_post cid ib t us t' s s'"
proof -
  note result = that
  let ?s = "s\<lparr>current_item := x\<rparr>"
  have pre: "tree_pre cid ib t ?s" and root: "rooti s = root_of cid t"
    using t(1) by (simp_all add: tree_in_def tree_pre_def itm_blk_def)
  have ref: "ins_refines now cid t ?s" by (rule insert_refines [OF t(2) pre]) (use sl in simp)
  obtain s1 us r where s1: "insert_item_recurcive now (root_of cid t) ?s = Some s1"
    and r: "\<forall>fr. ins x (us @ fr) t = (r, fr)"
    and f: "ins_frame cid (set_mset (locs t)) us ?s s1" and post: "ins_post cid t r s1"
    using ref unfolding ins_refines_def by auto
  have p: "itm_blk cid ?s ib" "ib \<notin># locs t" "dis t" "category s = cid" "cat_ok cid (mem s)" "rep cid (mem s) t"
    using pre by (simp_all add: tree_pre_def)
  note k = ins_frame_keeps [OF f p(1,2)]
  have fr: "frame cid (set_mset (locs t)) (newnode_bytes ?s) (mem ?s) (mem s1)"
    using f by (simp add: ins_frame_def)
  have rt: "rooti s1 = rooti s"
    using itm_frame(2) [OF fr p(1,2) k(2)] by (auto simp: newnode_bytes_def rooti_def)
  have sub: "set_mset (locs t) \<subseteq> live cid (mem s)" by (rule rep_live [OF p(6)])
  have ibl: "ib \<in> live cid (mem s)" using p(1) by (simp add: itm_blk_def)
  have add: "add_item now x s = (if item_done s1 then Some s1
      else do { (nodei, s) \<leftarrow> calloc_new_node now s1; Some (set_rooti nodei s) })"
    using s1 root by (simp add: add_item_def rooti_def)
  have fs: "distinct us" "set us \<inter> live cid (mem s) = {}" "live cid (mem s1) = live cid (mem s) \<union> set us"
    "slots (mem s) \<le> slots (mem s1) + length us" "same_tree s s1"
    using f by (simp_all add: ins_frame_def same_tree_def)
  have lu: "length us \<le> h" by (rule ins_used(1) [OF t(2) r])
  have finish: ?thesis if d: "item_done s1" "rep cid (mem s1) t'" "root_of cid t' = root_of cid t"
    "\<forall>fr. insert_tree x (us @ fr) t = (t', fr)" for t'
  proof (rule result)
    show "add_item now x s = Some s1" using add d(1) by simp
    show "\<forall>fr. insert_tree x (us @ fr) t = (t', fr)" by (fact d)
    note L = insert_tree_used(2) [OF t(2,3) d(4)]
    have "dis t'" by (rule dis_new [OF p(3) L fs(1)]) (use fs(2) sub in blast)
    moreover have "ib \<notin># locs t'" unfolding L using p(2) fs(2) ibl by auto
    ultimately show "add_post cid ib t us t' s s1"
      using d k(1-4) rt root fs fr p(4) frame_itm_bytes [OF fr]
      by (simp add: add_post_def tree_in_def tree_pre_def)
  qed
  show ?thesis
  proof (cases r)
    case Found
    then show ?thesis
      using finish [of t] post r by (simp add: ins_post_def insert_tree_def)
  next
    case (Done t')
    then show ?thesis using finish [of t'] post r by (simp add: ins_post_def insert_tree_def)
  next
    case (Up t1 k' u)
    have d: "\<not> item_done s1" "rep cid (mem s1) t1" "rep cid (mem s1) u" "root_of cid t1 = root_of cid t"
      "current_item s1 = k'" "newnodei s1 = root_of cid u" using post Up unfolding ins_post_def by simp_all
    have L1: "locs t1 + locs u = locs t + mset us" using ins_used(2) [OF t(2) r] Up by simp
    have "ib \<notin># locs t + mset us" using p(2) fs(2) ibl by auto
    then have ib: "ib \<notin># locs t1" "ib \<notin># locs u" unfolding L1 [symmetric] by simp_all
    have sl1: "0 < slots (mem s1)" using fs(4) lu sl by simp
    have c1: "category s1 = cid" using k(1) p(4) by simp
    obtain b s2 where e: "calloc_new_node now s1 = Some (noff_of cid b, s2)" "b \<notin> live cid (mem s1)" "b \<noteq> ib"
      "ins_frame cid {} [b] s1 s2" "rep cid (mem s2) (Node b [current_item s1] [t1, u])"
      using new_root [OF c1 k(3,4) sl1 d(2,3) ib _ d(6)] rt root d(4) by metis
    let ?t' = "Node b [k'] [t1, u]"
    have it: "insert_tree x ((us @ [b]) @ fr) t = (?t', fr)" for fr
      using r Up by (simp add: insert_tree_def)
    note L = insert_tree_used(2) [OF t(2,3), of x "us @ [b]" ?t'] it
    have ib2: "ib \<notin> {}" by simp
    note k2 = ins_frame_keeps [OF e(4) k(4) ib2]
    let ?s' = "set_rooti (noff_of cid b) s2"
    note sr = set_rooti_effect [OF k2(3,4), where n = "noff_of cid b"]
    have f2: "ins_frame cid (set_mset (locs t)) (us @ [b]) ?s s2"
      by (rule ins_frame_trans [OF f e(4)]) auto
    have ri: "root_itm s2 = root_itm s" using k(2) k2(2) by simp
    have fr2: "frame cid (set_mset (locs t)) {root_itm s + 4..<root_itm s + 16} (mem s) (mem s2)"
      using f2 frame_itm_bytes [of cid _ ?s] by (simp add: ins_frame_def)
    have fr3: "frame cid (set_mset (locs t)) {root_itm s + 4..<root_itm s + 16} (mem s) (mem ?s')"
      by (rule frame_trans [OF fr2 sr(3)]) (auto simp: ri)
    show ?thesis
    proof (rule result)
      show "add_item now x s = Some ?s'" using add d(1) e(1) by simp
      show "\<forall>fr. insert_tree x ((us @ [b]) @ fr) t = (?t', fr)" using it by blast
      have us: "distinct (us @ [b])" "set (us @ [b]) \<inter> live cid (mem s) = {}"
        using fs(1-3) e(2) by auto
      have LL: "locs ?t' = locs t + mset (us @ [b])" using L by blast
      have "dis ?t'" by (rule dis_new [OF p(3) LL us(1)]) (use us(2) sub in blast)
      moreover have ibt: "ib \<notin># locs ?t'" unfolding LL using p(2) us(2) ibl by auto
      moreover have "rep cid (mem ?s') ?t'" by (rule sr(5)) (use e(5) d(5) ibt in simp_all)
      moreover have "cat_ok cid (mem ?s')" "live cid (mem ?s') = live cid (mem s2)" "slots (mem ?s') = slots (mem s2)"
        using sr(2) same_heap_slots [OF sr(2)] by (simp_all add: same_heap_def)
      ultimately show "add_post cid ib t (us @ [b]) ?t' s ?s'"
        unfolding add_post_def tree_in_def tree_pre_def
        using sr(1,4) fr3 f2 us k(1) k2(1) p(4)
        by (simp add: ins_frame_def same_tree_def set_rooti_def)
    qed
  qed
qed

end
