(* ===== verification/Tree_Search.thy ===== *)
theory Tree_Search
  imports Tree_Insert
begin

text \<open>
  The operations that read the index: the search for a key calls the callback if and only if the key
  is in the tree, the search by hash alone calls it for every key with the hash, and the count is
  the number of keys. All of them return.
\<close>

section \<open>The search for a key\<close>

lemma search_step:
  "search_loop m x func a u =
    (let pos = key_pos m a x 0 in
     if key_at m a x pos then Some (func (node_keys m a pos) u)
     else search_item_recurcive m (childsi m a pos) x func u)"
  by (subst search_loop.simps) (simp add: search_item_recurcive_def Let_def)

lemma search_refines:
  "shape lo h t \<Longrightarrow> rep cid m t \<Longrightarrow> sorted_wrt (<) (inorder t) \<Longrightarrow>
    search_item_recurcive m (root_of cid t) x func u =
      Some (if x \<in> set (inorder t) then func x u else (RET_NG, u))"
proof (induction h arbitrary: lo t)
  case 0
  then show ?case by (simp add: search_item_recurcive_def)
next
  case (Suc h)
  obtain b ks ts where t: "t = Node b ks ts" and n: "length ts = Suc (length ks)" "\<forall>t\<in>set ts. shape 2 h t"
    using shapeE [OF Suc.prems(1)] by metis
  let ?i = "find_pos x ks"
  note rn = rep_node [OF Suc.prems(2) [unfolded t] n(1) refl] and so = Suc.prems(3) [unfolded t]
  obtain ks1 ks2 as c bs A B where d: "ks = ks1 @ ks2" "ts = as @ c # bs" "length ks1 = ?i" "length as = ?i"
    "length ks2 = length bs" "ts ! ?i = c" "A = before (map inorder as) ks1" "B = behind ks2 (map inorder bs)"
    "inorder (Node b ks ts) = A @ inorder c @ B" "\<forall>a\<in>set A. a < x"
    "?i < length ks \<and> ks ! ?i = x \<or> (\<forall>b\<in>set B. x < b)"
    using search_node [OF n(1) refl so] by metis
  have e: "search_item_recurcive m (root_of cid t) x func u =
      (if ?i < length ks \<and> ks ! ?i = x then Some (func (node_keys m (user_addr b) ?i) u)
       else search_item_recurcive m (root_of cid c) x func u)"
    unfolding t root_of_simps search_item_recurcive_def [of m "noff_of cid b"]
    using rn(1,2) rn(10) [OF find_pos_le] d(6) by (simp add: search_step rn(8,9) Let_def)
  show ?case
  proof (cases "?i < length ks \<and> ks ! ?i = x")
    case True
    then have "ks2 \<noteq> []" "hd ks2 = x" using d(1,3) by (auto simp: nth_append hd_conv_nth)
    then have "x \<in> set B" using behind_hd [of ks2 "map inorder bs"] d(5,8) by auto
    then have "x \<in> set (inorder t)" unfolding t d(9) by simp
    then show ?thesis using True rn(11) [of ?i] unfolding e by simp
  next
    case False
    then have B: "\<forall>b\<in>set B. x < b" using d(11) by blast
    have "search_item_recurcive m (root_of cid c) x func u =
        Some (if x \<in> set (inorder c) then func x u else (RET_NG, u))"
      by (rule Suc.IH [of 2]) (use n(2) d(2) rn(12) so d(9) in \<open>auto simp: sorted_wrt_append\<close>)
    moreover have "x \<in> set (inorder t) \<longleftrightarrow> x \<in> set (inorder c)" using d(10) B unfolding t d(9) by auto
    ultimately show ?thesis using False unfolding e by (simp only: if_False)
  qed
qed

section \<open>Counting\<close>

lemma ofold_Inl:
  assumes "\<forall>x\<in>set xs. \<forall>s. f x s = Some (Inl (g x s))"
  shows "ofold f xs s = Some (Inl (fold g xs s))"
  using assms by (induction xs arbitrary: s) auto

lemma fold_add: "fold (\<lambda>i (c :: 'a :: comm_monoid_add). c + v i) xs s = s + sum_list (map v xs)"
  by (induction xs arbitrary: s) (simp_all add: ac_simps)

lemma map_nth_part: "map (\<lambda>i. f (xs ! i)) [0..<length xs] = map f xs"
  by (rule nth_equalityI) simp_all

lemma count_refines:
  "shape lo h t \<Longrightarrow> rep cid m t \<Longrightarrow>
    count_node_recursive_unsafe m (root_of cid t) = Some (of_nat (length (inorder t)))"
proof (induction h arbitrary: lo t)
  case 0
  then show ?case by (subst count_node_recursive_unsafe.simps) simp
next
  case (Suc h)
  obtain b ks ts where t: "t = Node b ks ts" and n: "length ts = Suc (length ks)" "\<forall>t\<in>set ts. shape 2 h t"
    using shapeE [OF Suc.prems(1)] by metis
  note rn = rep_node [OF Suc.prems(2) [unfolded t] n(1) refl]
  let ?v = "\<lambda>i. of_nat (Suc (length (inorder (ts ! i)))) :: u32"
  have ch: "count_node_recursive_unsafe m (childsi m (user_addr b) i) = Some (of_nat (length (inorder (ts ! i))))"
    if "i \<le> length ks" for i
    unfolding rn(10) [OF that] by (rule Suc.IH [of 2]) (use n rn(12) that in auto)
  have loop: "ofold (\<lambda>i count. do {
        c \<leftarrow> count_node_recursive_unsafe m (childsi m (user_addr b) i); Some (Inl (count + c + 1)) })
      [0..<length ks] (0 :: u32) = Some (Inl (0 + sum_list (map ?v [0..<length ks])) :: (u32 + u32))"
    unfolding fold_add [symmetric] by (rule ofold_Inl) (simp add: ch ac_simps)
  have "count_node_recursive_unsafe m (root_of cid t) =
      Some (sum_list (map ?v [0..<length ks]) + of_nat (length (inorder (ts ! length ks))))"
    unfolding t root_of_simps
    by (subst count_node_recursive_unsafe.simps) (simp add: rn(1,2,4) Let_def loop ch)
  also have "sum_list (map ?v [0..<length ks]) + of_nat (length (inorder (ts ! length ks))) =
      of_nat (sum_list (map (\<lambda>t. Suc (length (inorder t))) ts) - 1)"
  proof -
    have "sum_list (map (\<lambda>t. Suc (length (inorder t))) ts) =
        sum_list (map (\<lambda>i. Suc (length (inorder (ts ! i)))) [0..<length ks]) + Suc (length (inorder (ts ! length ks)))"
      unfolding map_nth_part [of "\<lambda>t. Suc (length (inorder t))" ts, symmetric] n(1) by simp
    moreover have "sum_list (map ?v xs) = of_nat (sum_list (map (\<lambda>i. Suc (length (inorder (ts ! i)))) xs))" for xs
      by (induction xs) simp_all
    ultimately show ?thesis by simp
  qed
  also have "sum_list (map (\<lambda>t. Suc (length (inorder t))) ts) - 1 = length (inorder t)"
    using length_weave [of "map inorder ts" ks] n(1) t by (simp add: comp_def)
  finally show ?case .
qed

section \<open>The search by hash\<close>

text \<open>The keys in the order in which they are visited.\<close>

function hash_visit :: "u32 \<Rightarrow> (node_key, 'l) btree \<Rightarrow> node_key list" where
  "hash_visit h Leaf = []"
| "hash_visit h (Node l ks ts) =
     (let n = length ks; pos = length (takeWhile (\<lambda>k. keyhash k < h) ks) in
      if length ts \<noteq> Suc n then []
      else if pos = 0 \<and> n > 0 \<and> keyhash (ks ! 0) > h then hash_visit h (ts ! 0)
      else concat (map (\<lambda>p. (if h = keyhash (ks ! p) then [ks ! p] else []) @
             (if pos \<noteq> p \<and> p < length ts then hash_visit h (ts ! p) else [])) [pos..<n]) @
        (if n \<noteq> pos then hash_visit h (ts ! n) else []) @
        (if pos < length ts then hash_visit h (ts ! pos) else []))"
  by pat_completeness auto
termination
  by (relation "measure (\<lambda>(h, t). size t)")
    (auto intro: size_child [THEN order_less_le_trans] simp del: One_nat_def)

declare hash_visit.simps(2) [simp del]

lemma hash_pos_take:
  assumes "length ks = n" "\<forall>i<n. k i = ks ! i" "p \<le> n"
  shows "hash_pos_from k h n [p..<n] = p + length (takeWhile (\<lambda>k. keyhash k < h) (drop p ks))"
  using assms(3)
proof (induction "n - p" arbitrary: p)
  case 0
  then show ?case using assms(1) by simp
next
  case (Suc d)
  then have p: "p < n" by simp
  have u: "[p..<n] = p # [p + 1..<n]" using p by (simp add: upt_conv_Cons)
  have d: "drop p ks = ks ! p # drop (p + 1) ks" using Cons_nth_drop_Suc [of p ks] p assms(1) by simp
  show ?case unfolding u d using Suc.hyps(1) [of "p + 1"] Suc.hyps(2) p assms(2) by simp
qed

lemma fold_concat: "fold f (concat (map g xs)) s = fold (\<lambda>x. fold f (g x)) xs s"
  by (induction xs arbitrary: s) simp_all

lemma hash_search_refines:
  assumes ok: "\<And>k u. fst (func k u) \<noteq> RET_NG"
  shows "shape lo h' t \<Longrightarrow> rep cid m t \<Longrightarrow>
    search_item_only_keyhash_recurcive m h func (root_of cid t) u =
      Some (RET_NG, fold (\<lambda>k u. snd (func k u)) (hash_visit h t) u)"
proof (induction h' arbitrary: lo t u)
  case 0
  then show ?case by (subst search_item_only_keyhash_recurcive.simps) simp
next
  case (Suc h')
  obtain b ks ts where t: "t = Node b ks ts" and n: "length ts = Suc (length ks)" "\<forall>t\<in>set ts. shape 2 h' t"
    using shapeE [OF Suc.prems(1)] by metis
  note rn = rep_node [OF Suc.prems(2) [unfolded t] n(1) refl]
  let ?pos = "length (takeWhile (\<lambda>k. keyhash k < h) ks)" and ?n = "length ks"
  let ?F = "\<lambda>k u. snd (func k u)"
  have pos: "hash_pos m (user_addr b) h = ?pos"
    using hash_pos_take [of ks ?n "node_keys m (user_addr b)" 0 h] rn(4,11) by (simp add: hash_pos_def)
  have posn: "?pos \<le> ?n" by (rule length_takeWhile_le)
  have ch: "search_item_only_keyhash_recurcive m h func (childsi m (user_addr b) i) u =
      Some (RET_NG, fold ?F (hash_visit h (ts ! i)) u)" if "i \<le> ?n" for i u
    unfolding rn(10) [OF that] by (rule Suc.IH [of 2]) (use n rn(12) that in auto)
  let ?body = "\<lambda>p. (if h = keyhash (ks ! p) then [ks ! p] else []) @ (if ?pos \<noteq> p then hash_visit h (ts ! p) else [])"
  have loop: "ofold (\<lambda>p u.
        let (result, u) = (if h = keyhash (node_keys m (user_addr b) p)
                           then func (node_keys m (user_addr b) p) u else (RET_OK, u)) in
        if h = keyhash (node_keys m (user_addr b) p) \<and> result = RET_NG then Some (Inr u)
        else if ?pos \<noteq> p
        then do { (_, u) \<leftarrow> search_item_only_keyhash_recurcive m h func (childsi m (user_addr b) p) u; Some (Inl u) }
        else Some (Inl u)) [?pos..<?n] u = Some (Inl (fold ?F (concat (map ?body [?pos..<?n])) u))" for u
    unfolding fold_concat
  proof (rule ofold_Inl, intro ballI allI)
    fix p v
    assume p: "p \<in> set [?pos..<?n]"
    have f: "func k u = (a, c) \<Longrightarrow> a \<noteq> RET_NG" for k u a c using ok [of k u] by simp
    show "(let (result, u) = (if h = keyhash (node_keys m (user_addr b) p)
                           then func (node_keys m (user_addr b) p) v else (RET_OK, v)) in
        if h = keyhash (node_keys m (user_addr b) p) \<and> result = RET_NG then Some (Inr u)
        else if ?pos \<noteq> p
        then do { (_, u) \<leftarrow> search_item_only_keyhash_recurcive m h func (childsi m (user_addr b) p) u; Some (Inl u) }
        else Some (Inl u)) = Some (Inl (fold ?F (?body p) v))"
    proof (cases "h = keyhash (ks ! p)")
      case True
      then show ?thesis
        using p rn(11) [of p] f [of "ks ! p" v] by (cases "func (ks ! p) v") (simp add: ch True [symmetric])
    next
      case False
      then show ?thesis using p rn(11) [of p] by (simp add: ch)
    qed
  qed
  have v: "hash_visit h t = (if ?pos = 0 \<and> ?n > 0 \<and> keyhash (ks ! 0) > h then hash_visit h (ts ! 0)
      else concat (map ?body [?pos..<?n]) @ (if ?n \<noteq> ?pos then hash_visit h (ts ! ?n) else []) @ hash_visit h (ts ! ?pos))"
  proof -
    have me: "map (\<lambda>p. (if h = keyhash (ks ! p) then [ks ! p] else []) @
             (if ?pos \<noteq> p \<and> p < length ts then hash_visit h (ts ! p) else [])) [?pos..<?n] = map ?body [?pos..<?n]"
      using n(1) by (intro map_cong) auto
    have c: "(length ts \<noteq> Suc ?n) = False" "(?pos < length ts) = True" using n(1) posn by simp_all
    show ?thesis unfolding t hash_visit.simps(2) Let_def by (simp only: me c if_True if_False)
  qed
  show ?case
  proof (cases "?pos = 0 \<and> ?n > 0 \<and> keyhash (ks ! 0) > h")
    case True
    then show ?thesis unfolding v using ch [of 0 u] rn(11) [of 0] unfolding t root_of_simps
      by (subst search_item_only_keyhash_recurcive.simps) (simp add: rn(1,2,4) pos)
  next
    case False
    have k0: "?n > 0 \<Longrightarrow> keyhash (node_keys m (user_addr b) 0) = keyhash (ks ! 0)" using rn(11) [of 0] by simp
    have "search_item_only_keyhash_recurcive m h func (noff_of cid b) u =
      (case (Inl (fold ?F (concat (map ?body [?pos..<?n])) u)) of
            Inr u \<Rightarrow> Some (RET_OK, u)
          | Inl u \<Rightarrow> do {
              (_, u) \<leftarrow> (if ?n \<noteq> ?pos
                then search_item_only_keyhash_recurcive m h func (childsi m (user_addr b) ?n) u
                else Some (RET_NG, u));
              search_item_only_keyhash_recurcive m h func (childsi m (user_addr b) ?pos) u })"
      using False k0 by (subst search_item_only_keyhash_recurcive.simps)
        (simp only: rn(1,2,4) pos Let_def loop [unfolded Let_def] if_False Option.bind.simps cong: conj_cong)
    then show ?thesis unfolding v if_not_P [OF False] using posn unfolding t root_of_simps by (simp add: ch)
  qed
qed

text \<open>The visited keys are those with the hash.\<close>

lemma key_less_hash: "a < b \<Longrightarrow> keyhash a \<le> keyhash b"
  unfolding less_node_key_def compare_node_key_unsafe_def by (auto split: if_splits)

definition with_hash :: "u32 \<Rightarrow> node_key list \<Rightarrow> node_key multiset" where
  "with_hash h ks = mset (filter (\<lambda>k. h = keyhash k) ks)"

lemma with_hash_simps [simp]:
  "with_hash h [] = {#}" "with_hash h (ks @ ks') = with_hash h ks + with_hash h ks'"
  "with_hash h (k # ks) = (if h = keyhash k then {#k#} else {#}) + with_hash h ks"
  by (simp_all add: with_hash_def)

lemma with_hash_none: "\<forall>k\<in>set ks. h \<noteq> keyhash k \<Longrightarrow> with_hash h ks = {#}"
  by (simp add: with_hash_def filter_empty_conv)

lemma with_hash_weave: "length ts = Suc (length ks) \<Longrightarrow>
    with_hash h (weave ts ks) = with_hash h ks + sum_list (map (with_hash h) ts)"
proof (induction ks arbitrary: ts)
  case Nil
  then show ?case by (auto simp: length_Suc_conv)
next
  case (Cons k ks)
  then show ?case by (cases ts) (auto simp: ac_simps)
qed

lemma with_hash_nth: "with_hash h ks = sum_list (map (\<lambda>i. with_hash h [ks ! i]) [0..<length ks])"
proof -
  have "with_hash h ks = sum_list (map (\<lambda>k. with_hash h [k]) ks)" by (induction ks) simp_all
  then show ?thesis using map_nth_part [of "\<lambda>k. with_hash h [k]" ks] by simp
qed

lemma sum_upt_split:
  fixes f :: "nat \<Rightarrow> 'a :: comm_monoid_add"
  shows "p \<le> n \<Longrightarrow> sum_list (map f [0..<n]) = sum_list (map f [0..<p]) + sum_list (map f [p..<n])"
  using upt_add_eq_append [of 0 p "n - p"] by simp

lemma sum_upt_zero:
  fixes f :: "nat \<Rightarrow> 'a :: comm_monoid_add"
  shows "\<forall>i\<in>set xs. f i = 0 \<Longrightarrow> sum_list (map f xs) = 0"
  by (induction xs) simp_all

lemma node_hashes:
  assumes n: "length ts = Suc (length ks)" and s: "sorted_wrt (<) (inorder (Node l ks ts))"
    and pos_def: "pos = length (takeWhile (\<lambda>k. keyhash k < h) ks)"
  shows "i < pos \<Longrightarrow> with_hash h [ks ! i] = {#} \<and> with_hash h (inorder (ts ! i)) = {#}"
    and "pos < length ks \<Longrightarrow> h < keyhash (ks ! pos) \<Longrightarrow>
      (\<forall>i. pos \<le> i \<and> i < length ks \<longrightarrow> with_hash h [ks ! i] = {#} \<and> with_hash h (inorder (ts ! Suc i)) = {#})"
proof -
  have around: "(\<forall>x\<in>set (inorder (ts ! i)). x < ks ! i) \<and> (\<forall>x\<in>set (inorder (ts ! Suc i)). ks ! i < x) \<and>
      (\<forall>j<i. ks ! j < ks ! i)" if i: "i < length ks" for i
  proof -
    have ksplit: "ks = take i ks @ ks ! i # drop (Suc i) ks" by (rule id_take_nth_drop [OF i])
    have "inorder (Node l ks ts) = weave (take (Suc i) (map inorder ts) @ drop (Suc i) (map inorder ts))
        (take i ks @ ks ! i # drop (Suc i) ks)"
      using ksplit by simp
    also have "\<dots> = weave (take (Suc i) (map inorder ts)) (take i ks) @ ks ! i #
        weave (drop (Suc i) (map inorder ts)) (drop (Suc i) ks)"
      by (rule weave_at_key) (use n i in simp_all)
    finally have e: "inorder (Node l ks ts) = weave (take (Suc i) (map inorder ts)) (take i ks) @ ks ! i #
        weave (drop (Suc i) (map inorder ts)) (drop (Suc i) ks)" .
    have so: "(\<forall>x\<in>set (weave (take (Suc i) (map inorder ts)) (take i ks)). x < ks ! i) \<and>
      (\<forall>x\<in>set (weave (drop (Suc i) (map inorder ts)) (drop (Suc i) ks)). ks ! i < x)"
      using s unfolding e by (simp add: sorted_wrt_append)
    have w: "set (weave us vs) = set vs \<union> (\<Union>u\<in>set us. set u)" if "length us = Suc (length vs)"
      for us :: "node_key list list" and vs
      using that
    proof (induction vs arbitrary: us)
      case Nil
      then show ?case by (auto simp: length_Suc_conv)
    next
      case (Cons v vs)
      then show ?case by (cases us) auto
    qed
    have a: "ts ! i \<in> set (take (Suc i) ts)" using n i by (auto simp: in_set_conv_nth intro!: exI [of _ i])
    have b: "ts ! Suc i \<in> set (drop (Suc i) ts)"
      using n i by (auto simp: in_set_conv_nth intro!: exI [of _ 0])
    have "\<forall>j<i. ks ! j \<in> set (take i ks)" using i by (auto simp: in_set_conv_nth)
    then show ?thesis
      using so a b n i by (auto simp: w take_map drop_map)
  qed
  have below: "keyhash (ks ! i) < h" if "i < pos" for i
  proof -
    have w: "takeWhile (\<lambda>k. keyhash k < h) ks ! i = ks ! i" using that by (simp add: pos_def takeWhile_nth)
    have "takeWhile (\<lambda>k. keyhash k < h) ks ! i \<in> set (takeWhile (\<lambda>k. keyhash k < h) ks)"
      by (rule nth_mem) (use that in \<open>simp add: pos_def\<close>)
    then show ?thesis unfolding w using set_takeWhileD by metis
  qed
  have pn: "pos \<le> length ks" by (simp add: pos_def length_takeWhile_le)
  show "with_hash h [ks ! i] = {#} \<and> with_hash h (inorder (ts ! i)) = {#}" if i: "i < pos"
  proof -
    have "keyhash x < h" if "x \<in> set (inorder (ts ! i))" for x
      using around [of i] i pn that key_less_hash [of x "ks ! i"] below [OF i] by fastforce
    then show ?thesis using below [OF i] by (auto intro!: with_hash_none)
  qed
  show "\<forall>i. pos \<le> i \<and> i < length ks \<longrightarrow> with_hash h [ks ! i] = {#} \<and> with_hash h (inorder (ts ! Suc i)) = {#}"
    if p: "pos < length ks" "h < keyhash (ks ! pos)"
  proof (intro allI impI)
    fix i
    assume i: "pos \<le> i \<and> i < length ks"
    have "ks ! pos \<le> ks ! i"
    proof (cases "pos = i")
      case False
      then have "pos < i" using i by simp
      then show ?thesis using around [of i] i by (intro order.strict_implies_order) blast
    qed simp
    then have hi: "h < keyhash (ks ! i)"
    proof (cases "ks ! pos = ks ! i")
      case False
      then have "ks ! pos < ks ! i" using \<open>ks ! pos \<le> ks ! i\<close> by simp
      from order_less_le_trans [OF p(2) key_less_hash [OF this]] show ?thesis .
    qed (use p(2) in simp)
    then have "h < keyhash x" if "x \<in> set (inorder (ts ! Suc i))" for x
      using around [of i] i that key_less_hash [of "ks ! i" x] by fastforce
    then show "with_hash h [ks ! i] = {#} \<and> with_hash h (inorder (ts ! Suc i)) = {#}"
      using hi by (auto intro!: with_hash_none)
  qed
qed

lemma mset_concat_map: "mset (concat (map f xs)) = sum_list (map (\<lambda>x. mset (f x)) xs)"
  by (induction xs) simp_all

lemma hash_visit_keys:
  "shape lo h' t \<Longrightarrow> sorted_wrt (<) (inorder t) \<Longrightarrow> mset (hash_visit h t) = with_hash h (inorder t)"
proof (induction h' arbitrary: lo t)
  case 0
  then show ?case by simp
next
  case (Suc h')
  obtain l ks ts where t: "t = Node l ks ts" and n: "length ts = Suc (length ks)" "\<forall>t\<in>set ts. shape 2 h' t"
    using shapeE [OF Suc.prems(1)] by metis
  let ?pos = "length (takeWhile (\<lambda>k. keyhash k < h) ks)" and ?n = "length ks"
  note so = Suc.prems(2) [unfolded t] and nh = node_hashes [OF n(1) Suc.prems(2) [unfolded t] refl, where h = h]
  let ?f = "\<lambda>i. with_hash h [ks ! i]" and ?g = "\<lambda>i. with_hash h (inorder (ts ! i))"
  have posn: "?pos \<le> ?n" by (rule length_takeWhile_le)
  have IH: "mset (hash_visit h (ts ! i)) = ?g i" if "i \<le> ?n" for i
  proof (rule Suc.IH [of 2])
    show "shape 2 h' (ts ! i)" using n that by simp
    show "sorted_wrt (<) (inorder (ts ! i))"
      using at_node [OF n(1) that] so by (metis (no_types, lifting) sorted_wrt_append)
  qed
  have all: "with_hash h (inorder t) = sum_list (map ?f [?pos..<?n]) + sum_list (map ?g [?pos..<Suc ?n])"
  proof -
    have "with_hash h (inorder t) = sum_list (map ?f [0..<?n]) + sum_list (map ?g [0..<Suc ?n])"
      using with_hash_weave [of "map inorder ts" ks h] n(1) with_hash_nth [of h ks]
        map_nth_part [of "\<lambda>t. with_hash h (inorder t)" ts] unfolding t by (simp add: comp_def)
    also have "\<dots> = sum_list (map ?f [?pos..<?n]) + sum_list (map ?g [?pos..<Suc ?n])"
      using sum_upt_split [OF posn, of ?f] sum_upt_split [of ?pos "Suc ?n" ?g] posn
        sum_upt_zero [of "[0..<?pos]" ?f] sum_upt_zero [of "[0..<?pos]" ?g] nh(1) by simp
    finally show ?thesis .
  qed
  let ?body = "\<lambda>p. (if h = keyhash (ks ! p) then [ks ! p] else []) @
             (if ?pos \<noteq> p \<and> p < length ts then hash_visit h (ts ! p) else [])"
  have c: "(length ts \<noteq> Suc ?n) = False" "(?pos < length ts) = True" using n(1) posn by simp_all
  have v: "hash_visit h t = (if ?pos = 0 \<and> ?n > 0 \<and> keyhash (ks ! 0) > h then hash_visit h (ts ! 0)
      else concat (map ?body [?pos..<?n]) @ (if ?n \<noteq> ?pos then hash_visit h (ts ! ?n) else []) @ hash_visit h (ts ! ?pos))"
    unfolding t hash_visit.simps(2) Let_def by (simp only: c if_True if_False)
  show ?case
  proof (cases "?pos = 0 \<and> ?n > 0 \<and> keyhash (ks ! 0) > h")
    case True
    then have z: "\<forall>i<?n. ?f i = {#} \<and> ?g (Suc i) = {#}" using nh(2) by simp
    have "sum_list (map ?f [?pos..<?n]) = {#}" by (rule sum_upt_zero) (use z in auto)
    moreover have "sum_list (map ?g [?pos..<Suc ?n]) = ?g 0 + sum_list (map ?g [Suc 0..<Suc ?n])"
      using True upt_conv_Cons [of 0 "Suc ?n"] by simp
    moreover have "sum_list (map ?g [Suc 0..<Suc ?n]) = {#}"
    proof (rule sum_upt_zero)
      show "\<forall>i\<in>set [Suc 0..<Suc ?n]. ?g i = {#}"
      proof
        fix i
        assume "i \<in> set [Suc 0..<Suc ?n]"
        then have "1 \<le> i \<and> i \<le> ?n" by (simp only: set_upt atLeastLessThan_iff) linarith
        then obtain j where "i = Suc j" "j < ?n" by (cases i) auto
        then show "?g i = {#}" using z by simp
      qed
    qed
    ultimately have "with_hash h (inorder t) = ?g 0" unfolding all by simp
    then show ?thesis unfolding v if_P [OF True] using IH [of 0] by simp
  next
    case False
    have b: "mset (?body p) = ?f p + (if ?pos \<noteq> p then ?g p else {#})" if "p \<in> set [?pos..<?n]" for p
      using that IH [of p] n(1) by simp
    have "mset (hash_visit h t) = sum_list (map (\<lambda>p. ?f p + (if ?pos \<noteq> p then ?g p else {#})) [?pos..<?n]) +
        (if ?n \<noteq> ?pos then ?g ?n else {#}) + ?g ?pos"
    proof -
      have "sum_list (map (\<lambda>p. mset (?body p)) [?pos..<?n]) =
          sum_list (map (\<lambda>p. ?f p + (if ?pos \<noteq> p then ?g p else {#})) [?pos..<?n])"
        by (intro arg_cong [where f = sum_list] map_cong refl b)
      then show ?thesis
        unfolding v if_not_P [OF False] mset_append mset_concat_map using IH [of ?n] IH [OF posn] by simp
    qed
    also have "\<dots> = sum_list (map ?f [?pos..<?n]) + sum_list (map ?g [?pos..<Suc ?n])"
    proof (cases "?pos = ?n")
      case False
      then have u: "[?pos..<?n] = ?pos # [Suc ?pos..<?n]" using posn by (simp add: upt_conv_Cons)
      have "map (\<lambda>p. ?f p + (if ?pos \<noteq> p then ?g p else {#})) [Suc ?pos..<?n] = map (\<lambda>p. ?f p + ?g p) [Suc ?pos..<?n]"
        by (intro map_cong) auto
      then have r: "sum_list (map (\<lambda>p. ?f p + (if ?pos \<noteq> p then ?g p else {#})) [Suc ?pos..<?n]) =
          sum_list (map ?f [Suc ?pos..<?n]) + sum_list (map ?g [Suc ?pos..<?n])"
        by (simp only: sum_list_addf)
      have w: "[?pos..<Suc ?n] = ?pos # [Suc ?pos..<?n] @ [?n]"
        using posn u by simp
      show ?thesis
        unfolding w u list.map map_append sum_list.append sum_list.Cons sum_list.Nil r
        using False by (simp only: if_False if_True refl simp_thms ac_simps add_0_right) simp
    qed simp
    finally show ?thesis unfolding all .
  qed
qed

end
