(* ===== verification/Tree_Remove.thy ===== *)
theory Tree_Remove
  imports Tree_Search
begin

text \<open>
  Removal from the index in memory refines removal from the reference tree.
\<close>

section \<open>Frames of a removal\<close>

definition rem_frame :: "u32 \<Rightarrow> blk set \<Rightarrow> blk list \<Rightarrow> tree_cur \<Rightarrow> tree_cur \<Rightarrow> bool" where
  "rem_frame cid W ff s s' \<longleftrightarrow>
     category s' = category s \<and> root_itm s' = root_itm s \<and> item_done s' = item_done s \<and>
     frame cid W {} (mem s) (mem s') \<and> live cid (mem s') = live cid (mem s) - set ff \<and>
     slots (mem s') = slots (mem s)"

lemma rem_frame_trans:
  assumes f1: "rem_frame cid W1 ff s s1" and f2: "rem_frame cid W2 ff' s1 s2"
    and W: "W1 \<subseteq> W" "W2 \<subseteq> W"
  shows "rem_frame cid W (ff @ ff') s s2"
proof -
  have "frame cid W {} (mem s) (mem s1)"
    by (rule frame_mono [of cid W1 "{}"]) (use f1 W(1) in \<open>simp_all add: rem_frame_def\<close>)
  moreover have "frame cid W2 {} (mem s1) (mem s2)" using f2 by (simp add: rem_frame_def)
  moreover have "W2 \<inter> live cid (mem s) \<subseteq> W" using W(2) by blast
  ultimately have "frame cid W {} (mem s) (mem s2)" by (rule frame_trans) simp
  then show ?thesis using f1 f2 unfolding rem_frame_def by auto
qed

lemma rem_frame_mono: "rem_frame cid W ff s s' \<Longrightarrow> W \<subseteq> W' \<Longrightarrow> rem_frame cid W' ff s s'"
  unfolding rem_frame_def using frame_mono [of cid W "{}" "mem s" "mem s'" W' "{}"] by blast

lemma rem_frame_nodes:
  assumes "cat_ok cid (mem s)" "\<forall>b\<in>S. node_blk cid (mem s) b" "finite S"
    and "only_nodes (user_addr ` S) (mem s) (mem s')"
    and "category s' = category s" "root_itm s' = root_itm s" "item_done s' = item_done s"
  shows "rem_frame cid S [] s s'" "\<forall>b\<in>S. node_blk cid (mem s') b"
proof -
  note f = frame_nodes [OF assms(1-4)]
  show "rem_frame cid S [] s s'"
    using f same_heap_slots [OF f(1)] assms(5-7) by (simp add: rem_frame_def same_heap_def)
  show "\<forall>b\<in>S. node_blk cid (mem s') b"
    using f(1) assms(2) user_len_block [of "mem s'" _ "mem s"] by (auto simp: same_heap_def node_blk_def)
qed

lemma rem_frame_free:
  assumes c: "cat_ok cid (mem s)" and b: "b \<in> live cid (mem s)"
    and e: "mem s' = shmfree cid (user_addr b) (mem s)"
    and "category s' = category s" "root_itm s' = root_itm s" "item_done s' = item_done s"
  shows "rem_frame cid {b} [b] s s'"
  using shmfree_live [OF c b] shmfree_slots [OF c b] frame_free [OF shmfree_live [OF c b]] assms(4-6)
  unfolding rem_frame_def e by (simp add: free_effect_def)

lemma rem_frame_keeps:
  assumes f: "rem_frame cid W ff s s'"
  shows "cat_ok cid (mem s')"
    "itm_blk cid s ib \<Longrightarrow> ib \<notin> W \<Longrightarrow> itm_blk cid s' ib \<and> rooti s' = rooti s \<and> newnodei s' = newnodei s"
    "\<And>u. rep cid (mem s) u \<Longrightarrow> set_mset (locs u) \<inter> W = {} \<Longrightarrow> rep cid (mem s') u"
    "\<And>b. node_blk cid (mem s) b \<Longrightarrow> b \<notin> W \<Longrightarrow> node_blk cid (mem s') b \<and>
      node_count (mem s') (user_addr b) = node_count (mem s) (user_addr b) \<and>
      ukeys (mem s') (user_addr b) = ukeys (mem s) (user_addr b) \<and> uch (mem s') (user_addr b) = uch (mem s) (user_addr b)"
proof -
  have fr: "frame cid W {} (mem s) (mem s')" and r: "root_itm s' = root_itm s"
    using f by (simp_all add: rem_frame_def)
  show "cat_ok cid (mem s')" using fr by (simp add: frame_def)
  show "itm_blk cid s ib \<Longrightarrow> ib \<notin> W \<Longrightarrow> itm_blk cid s' ib \<and> rooti s' = rooti s \<and> newnodei s' = newnodei s"
    using itm_frame [OF fr _ _ r] by simp
  show "rep cid (mem s) u \<Longrightarrow> set_mset (locs u) \<inter> W = {} \<Longrightarrow> rep cid (mem s') u" for u
    by (rule rep_frame [OF fr]) simp_all
  show "node_blk cid (mem s') b \<and>
      node_count (mem s') (user_addr b) = node_count (mem s) (user_addr b) \<and>
      ukeys (mem s') (user_addr b) = ukeys (mem s) (user_addr b) \<and> uch (mem s') (user_addr b) = uch (mem s) (user_addr b)"
    if "node_blk cid (mem s) b" "b \<notin> W" for b
    using node_frame [OF fr that] by simp
qed

section \<open>Restoring a child\<close>

text \<open>Two children of a node that are neighbours, with everything that is known about them.\<close>

lemma pair_pre:
  assumes pre: "tree_pre cid ib (Node b ks (as @ Node a lk lt # Node c rk rt # bs)) s" (is "tree_pre cid ib ?t s")
    and n: "length lt = Suc (length lk)" "length rt = Suc (length rk)"
  shows "node_blk cid (mem s) b" "node_blk cid (mem s) a" "node_blk cid (mem s) c" "distinct [b, a, c]"
    "ib \<notin> {b, a, c}"
    "unat (node_count (mem s) (user_addr a)) = length lk" "unat (node_count (mem s) (user_addr c)) = length rk"
    "ukeys (mem s) (user_addr a) = lk" "ukeys (mem s) (user_addr c) = rk"
    "uch (mem s) (user_addr a) = map (root_of cid) lt" "uch (mem s) (user_addr c) = map (root_of cid) rt"
    "\<forall>u\<in>set as \<union> set bs \<union> set lt \<union> set rt. rep cid (mem s) u \<and> set_mset (locs u) \<inter> {b, a, c} = {}"
    "apart (user_addr b) (user_addr a)" "apart (user_addr b) (user_addr c)" "apart (user_addr a) (user_addr c)"
    "REFNODE (noff_of cid a) = user_addr a" "REFNODE (noff_of cid c) = user_addr c"
proof -
  let ?L = "Node a lk lt" and ?R = "Node c rk rt"
  have p: "rep cid (mem s) ?t" "dis ?t" "ib \<notin># locs ?t" using pre unfolding tree_pre_def by blast+
  have R: "rep cid (mem s) ?L" "rep cid (mem s) ?R" using p(1) by simp_all
  note rl = rep_node [OF R(1) n(1) refl] and rr = rep_node [OF R(2) n(2) refl]
  show nb: "node_blk cid (mem s) b" using p(1) by simp
  show na: "node_blk cid (mem s) a" and nc: "node_blk cid (mem s) c" by (fact rl(3) rr(3))+
  show "unat (node_count (mem s) (user_addr a)) = length lk" "unat (node_count (mem s) (user_addr c)) = length rk"
    "ukeys (mem s) (user_addr a) = lk" "ukeys (mem s) (user_addr c) = rk"
    "uch (mem s) (user_addr a) = map (root_of cid) lt" "uch (mem s) (user_addr c) = map (root_of cid) rt"
    "REFNODE (noff_of cid a) = user_addr a" "REFNODE (noff_of cid c) = user_addr c"
    by (fact rl(4) rr(4) rl(6) rr(6) rl(7) rr(7) rl(2) rr(2))+
  have c1: "count (locs ?t) x \<le> 1" for x using p(2) unfolding dis_def by blast
  have cnt: "count (locs ?t) x = count {#b, a, c#} x + (count (sum_list (map locs as)) x + count (sum_list (map locs bs)) x +
      (count (sum_list (map locs lt)) x + count (sum_list (map locs rt)) x))" for x by simp
  show d: "distinct [b, a, c]"
  proof (rule ccontr)
    assume "\<not> distinct [b, a, c]"
    then have "2 \<le> count {#b, a, c#} b \<or> 2 \<le> count {#b, a, c#} a" by auto
    then show False using c1 [of b] c1 [of a] unfolding cnt by linarith
  qed
  show "ib \<notin> {b, a, c}" using p(3) by auto
  show "apart (user_addr b) (user_addr a)" "apart (user_addr b) (user_addr c)" "apart (user_addr a) (user_addr c)"
    using nodes_apart nb na nc d by auto
  show "\<forall>u\<in>set as \<union> set bs \<union> set lt \<union> set rt. rep cid (mem s) u \<and> set_mset (locs u) \<inter> {b, a, c} = {}"
  proof (intro ballI conjI)
    fix u
    assume u: "u \<in> set as \<union> set bs \<union> set lt \<union> set rt"
    show "rep cid (mem s) u" using u p(1) by auto
    have "x \<notin># locs u" if "x \<in> {b, a, c}" for x
    proof -
      have "1 \<le> count {#b, a, c#} x" using that by auto
      moreover have "count (locs u) x \<le> count (sum_list (map locs as)) x + count (sum_list (map locs bs)) x +
          (count (sum_list (map locs lt)) x + count (sum_list (map locs rt)) x)"
        using u count_sum_list [of u as x] count_sum_list [of u bs x] count_sum_list [of u lt x] count_sum_list [of u rt x]
        by (elim UnE) linarith+
      ultimately have "count (locs u) x = 0" using c1 [of x] unfolding cnt by linarith
      then show ?thesis by (simp add: count_eq_zero_iff)
    qed
    then show "set_mset (locs u) \<inter> {b, a, c} = {}" by blast
  qed
qed

text \<open>The node and its two children after the writes of an operation on them.\<close>

lemma pair_post:
  assumes pre: "tree_pre cid ib (Node b ks (as @ Node a lk lt # Node c rk rt # bs)) s"
    and n: "length lt = Suc (length lk)" "length rt = Suc (length rk)"
    and s': "s' = s\<lparr>mem := m'\<rparr>" and o: "only_nodes {user_addr b, user_addr a, user_addr c} (mem s) m'"
  shows "rem_frame cid {b, a, c} [] s s'" "node_blk cid m' b" "node_blk cid m' a" "node_blk cid m' c"
    "\<forall>u\<in>set as \<union> set bs \<union> set lt \<union> set rt. rep cid m' u"
proof -
  note pp = pair_pre [OF pre n]
  have c: "cat_ok cid (mem s)" using pre by (simp add: tree_pre_def)
  have nb: "\<forall>d\<in>{b, a, c}. node_blk cid (mem s) d" using pp(1-3) by simp
  have o': "only_nodes (user_addr ` {b, a, c}) (mem s) (mem s')" using o s' by simp
  note f = rem_frame_nodes [OF c nb _ o']
  show f1: "rem_frame cid {b, a, c} [] s s'" using f(1) s' by simp
  show "node_blk cid m' b" "node_blk cid m' a" "node_blk cid m' c" using f(2) s' by simp_all
  show "\<forall>u\<in>set as \<union> set bs \<union> set lt \<union> set rt. rep cid m' u"
    using rem_frame_keeps(3) [OF f1] pp(12) s' by auto
qed

lemma pair_at:
  assumes pre: "tree_pre cid ib (Node b ks (as @ Node a lk lt # Node c rk rt # bs)) s"
    and n: "length lt = Suc (length lk)" "length rt = Suc (length rk)"
    and p: "0 < p" "length as = p - 1" "p \<le> length ks" "length (as @ Node a lk lt # Node c rk rt # bs) = Suc (length ks)"
  shows "REFNODE (noff_of cid b) = user_addr b" "\<not> ISEMPTY_NODE (noff_of cid b)"
    "unat (node_count (mem s) (user_addr b)) = length ks" "length ks \<le> 4" "ukeys (mem s) (user_addr b) = ks"
    "uch (mem s) (user_addr b) = map (root_of cid) as @ noff_of cid a # noff_of cid c # map (root_of cid) bs"
    "uch (mem s) (user_addr b) ! (p - 1) = noff_of cid a" "uch (mem s) (user_addr b) ! p = noff_of cid c"
    "REFNODE (uch (mem s) (user_addr b) ! (p - 1)) = user_addr a" "REFNODE (uch (mem s) (user_addr b) ! p) = user_addr c"
    "childsi (mem s) (user_addr b) (p - 1) = noff_of cid a" "childsi (mem s) (user_addr b) p = noff_of cid c"
proof -
  have r: "rep cid (mem s) (Node b ks (as @ Node a lk lt # Node c rk rt # bs))" using pre by (simp only: tree_pre_def)
  note rn = rep_node [OF r p(4) refl]
  note pp = pair_pre [OF pre n]
  show "REFNODE (noff_of cid b) = user_addr b" "\<not> ISEMPTY_NODE (noff_of cid b)"
    "unat (node_count (mem s) (user_addr b)) = length ks" "length ks \<le> 4" "ukeys (mem s) (user_addr b) = ks"
    by (fact rn(1,2,4,5,6))+
  show u: "uch (mem s) (user_addr b) = map (root_of cid) as @ noff_of cid a # noff_of cid c # map (root_of cid) bs"
    using rn(7) by simp
  obtain q where q: "p = Suc q" using p(1) by (cases p) auto
  show x: "uch (mem s) (user_addr b) ! (p - 1) = noff_of cid a" "uch (mem s) (user_addr b) ! p = noff_of cid c"
    unfolding u using p(2) by (simp_all add: nth_append q)
  show "REFNODE (uch (mem s) (user_addr b) ! (p - 1)) = user_addr a" "REFNODE (uch (mem s) (user_addr b) ! p) = user_addr c"
    unfolding x by (fact pp(16,17))+
  show "childsi (mem s) (user_addr b) (p - 1) = noff_of cid a" "childsi (mem s) (user_addr b) p = noff_of cid c"
    using rn(10) [of "p - 1"] rn(10) [of p] p by (simp_all add: nth_append q)
qed

lemma moveright_refines:
  assumes pre: "tree_pre cid ib (Node b (ks1 @ k # ks2) (as @ Node a lk lt # Node c rk rt # bs)) s"
    and n: "length lt = Suc (length lk)" "length rt = Suc (length rk)" "0 < length lk" "length lk \<le> 4" "length rk < 4"
    and p: "0 < p" "length as = p - 1" "length ks1 = p - 1" "length ks2 = length bs"
  obtains m' where "remove_item_moveright (noff_of cid b) p s = s\<lparr>mem := m'\<rparr>"
    "rem_frame cid {b, a, c} [] s (s\<lparr>mem := m'\<rparr>)"
    "rep cid m' (Node b (ks1 @ last lk # ks2)
      (as @ Node a (butlast lk) (butlast lt) # Node c (k # rk) (last lt # rt) # bs))"
proof -
  have q: "p \<le> length (ks1 @ k # ks2)" "length (as @ Node a lk lt # Node c rk rt # bs) = Suc (length (ks1 @ k # ks2))"
    using p by simp_all
  note pp = pair_pre [OF pre n(1,2)] and pa = pair_at [OF pre n(1,2) p(1,2) q]
  have pc: "p \<le> unat (node_count (mem s) (user_addr b))" "unat (node_count (mem s) (user_addr b)) \<le> 4"
    using q(1) pa(3,4) by simp_all
  obtain nl where nl: "length lk = nl + 1" "nl < 4" using n(3,4) by (cases "length lk") auto
  obtain m' where m': "remove_item_moveright (noff_of cid b) p s = s\<lparr>mem := m'\<rparr>"
    "only_nodes {user_addr b, user_addr a, user_addr c} (mem s) m'"
    "node_count m' (user_addr b) = node_count (mem s) (user_addr b)"
    "ukeys m' (user_addr b) = (ks1 @ k # ks2)[p - 1 := lk ! nl]" "uch m' (user_addr b) = uch (mem s) (user_addr b)"
    "unat (node_count m' (user_addr a)) = nl" "ukeys m' (user_addr a) = take nl lk"
    "uch m' (user_addr a) = take (nl + 1) (map (root_of cid) lt)"
    "unat (node_count m' (user_addr c)) = length rk + 1" "ukeys m' (user_addr c) = (ks1 @ k # ks2) ! (p - 1) # rk"
    "uch m' (user_addr c) = map (root_of cid) lt ! (nl + 1) # map (root_of cid) rt"
    using moveright_effect [OF refl pa(1,9,10) p(1) pc pp(6) [unfolded nl(1)] nl(2) pp(7) n(5) pp(13-15)]
    unfolding pa(5) pp(8-11) by metis
  note po = pair_post [OF pre n(1,2) refl m'(2)]
  have x: "(ks1 @ k # ks2)[p - 1 := v] = ks1 @ v # ks2" "(ks1 @ k # ks2) ! (p - 1) = k" for v
    using p(3) by (simp_all add: list_update_append nth_append)
  have l: "lk ! nl = last lk" "take nl lk = butlast lk" "lt ! (nl + 1) = last lt" "take (nl + 1) lt = butlast lt"
    using nl n(1) last_conv_nth [of lk] last_conv_nth [of lt]
    by (cases "lk = []"; cases "lt = []"; simp add: butlast_conv_take)+
  have ml: "map (root_of cid) lt ! (nl + 1) = root_of cid (last lt)" "take (nl + 1) (map (root_of cid) lt) = map (root_of cid) (butlast lt)"
    using l(3,4) nl n(1) by (simp_all add: take_map)
  have sub: "set (butlast lt) \<subseteq> set lt" "last lt \<in> set lt" using n(1) by (auto dest: in_set_butlastD intro!: last_in_set)
  have "rep cid m' (Node a (butlast lk) (butlast lt))"
    using m'(6-8) po(3,5) nl sub l ml by auto
  moreover have "rep cid m' (Node c (k # rk) (last lt # rt))"
    using m'(9-11) po(4,5) n(5) sub ml x by auto
  ultimately have "rep cid m' (Node b (ks1 @ last lk # ks2)
      (as @ Node a (butlast lk) (butlast lt) # Node c (k # rk) (last lt # rt) # bs))"
    using m'(3-5) po(2,5) pa(3,4,6) x l by auto
  then show ?thesis using that [OF m'(1) po(1)] by simp
qed

lemma moveleft_refines:
  assumes pre: "tree_pre cid ib (Node b (ks1 @ k # ks2) (as @ Node a lk lt # Node c rk rt # bs)) s"
    and n: "length lt = Suc (length lk)" "length rt = Suc (length rk)" "0 < length rk" "length rk \<le> 4" "length lk < 4"
    and p: "0 < p" "length as = p - 1" "length ks1 = p - 1" "length ks2 = length bs"
  obtains m' where "remove_item_moveleft (noff_of cid b) p s = s\<lparr>mem := m'\<rparr>"
    "rem_frame cid {b, a, c} [] s (s\<lparr>mem := m'\<rparr>)"
    "rep cid m' (Node b (ks1 @ hd rk # ks2)
      (as @ Node a (lk @ [k]) (lt @ [hd rt]) # Node c (tl rk) (tl rt) # bs))"
proof -
  have q: "p \<le> length (ks1 @ k # ks2)" "length (as @ Node a lk lt # Node c rk rt # bs) = Suc (length (ks1 @ k # ks2))"
    using p by simp_all
  note pp = pair_pre [OF pre n(1,2)] and pa = pair_at [OF pre n(1,2) p(1,2) q]
  have pc: "p \<le> unat (node_count (mem s) (user_addr b))" "unat (node_count (mem s) (user_addr b)) \<le> 4"
    using q(1) pa(3,4) by simp_all
  obtain nr where nr: "length rk = nr + 1" "nr < 4" using n(3,4) by (cases "length rk") auto
  obtain m' where m': "remove_item_moveleft (noff_of cid b) p s = s\<lparr>mem := m'\<rparr>"
    "only_nodes {user_addr b, user_addr a, user_addr c} (mem s) m'"
    "node_count m' (user_addr b) = node_count (mem s) (user_addr b)"
    "ukeys m' (user_addr b) = (ks1 @ k # ks2)[p - 1 := rk ! 0]" "uch m' (user_addr b) = uch (mem s) (user_addr b)"
    "unat (node_count m' (user_addr a)) = length lk + 1" "ukeys m' (user_addr a) = lk @ [(ks1 @ k # ks2) ! (p - 1)]"
    "uch m' (user_addr a) = map (root_of cid) lt @ [map (root_of cid) rt ! 0]"
    "unat (node_count m' (user_addr c)) = nr" "ukeys m' (user_addr c) = drop 1 rk"
    "uch m' (user_addr c) = drop 1 (map (root_of cid) rt)"
    using moveleft_effect [OF refl pa(1,9,10) p(1) pc pp(6) n(5) pp(7) [unfolded nr(1)] nr(2) pp(13-15)]
    unfolding pa(5) pp(8-11) by metis
  note po = pair_post [OF pre n(1,2) refl m'(2)]
  have x: "(ks1 @ k # ks2)[p - 1 := v] = ks1 @ v # ks2" "(ks1 @ k # ks2) ! (p - 1) = k" for v
    using p(3) by (simp_all add: list_update_append nth_append)
  obtain z rk' y rt' where r: "rk = z # rk'" "rt = y # rt'" using n(2,3) by (cases rk; cases rt) auto
  have "rep cid m' (Node a (lk @ [k]) (lt @ [hd rt]))"
    using m'(6-8) po(3,5) n(5) x r by auto
  moreover have "rep cid m' (Node c (tl rk) (tl rt))"
    using m'(9-11) po(4,5) nr r by auto
  ultimately have "rep cid m' (Node b (ks1 @ hd rk # ks2)
      (as @ Node a (lk @ [k]) (lt @ [hd rt]) # Node c (tl rk) (tl rt) # bs))"
    using m'(3-5) po(2,5) pa(3,4,6) x r by auto
  then show ?thesis using that [OF m'(1) po(1)] by simp
qed

lemma combine_refines:
  assumes pre: "tree_pre cid ib (Node b (ks1 @ k # ks2) (as @ Node a lk lt # Node c rk rt # bs)) s"
    and n: "length lt = Suc (length lk)" "length rt = Suc (length rk)" "length lk + length rk < 4"
    and p: "0 < p" "length as = p - 1" "length ks1 = p - 1" "length ks2 = length bs"
  obtains m' where
    "remove_item_combine (noff_of cid b) p s = s\<lparr>mem := m', undersize := length (ks1 @ ks2) < 2\<rparr>"
    "rem_frame cid {b, a, c} [c] s (s\<lparr>mem := m'\<rparr>)"
    "rep cid m' (Node b (ks1 @ ks2) (as @ Node a (lk @ k # rk) (lt @ rt) # bs))"
proof -
  let ?ks = "ks1 @ k # ks2"
  have q: "p \<le> length ?ks" "length (as @ Node a lk lt # Node c rk rt # bs) = Suc (length ?ks)"
    using p by simp_all
  note pp = pair_pre [OF pre n(1,2)] and pa = pair_at [OF pre n(1,2) p(1,2) q]
  have cat: "category s = cid" "cat_ok cid (mem s)" using pre by (simp_all add: tree_pre_def)
  let ?n = "length (ks1 @ ks2)"
  have n4: "p \<le> ?n + 1" "unat (node_count (mem s) (user_addr b)) = ?n + 1" "?n < 4"
    using q pa(3,4) by simp_all
  obtain m' where m': "remove_item_combine (noff_of cid b) p s =
      s\<lparr>mem := shmfree (category s) (user_addr c) m', undersize := ?n < 2\<rparr>"
    "only_nodes {user_addr b, user_addr a} (mem s) m'" "unat (node_count m' (user_addr b)) = ?n"
    "ukeys m' (user_addr b) = take (p - 1) ?ks @ drop p ?ks"
    "uch m' (user_addr b) = take p (uch (mem s) (user_addr b)) @ drop (p + 1) (uch (mem s) (user_addr b))"
    "unat (node_count m' (user_addr a)) = length lk + length rk + 1"
    "ukeys m' (user_addr a) = lk @ ?ks ! (p - 1) # rk"
    "uch m' (user_addr a) = map (root_of cid) lt @ map (root_of cid) rt"
    using combine_effect [OF refl pa(1,9,10) p(1) n4 pp(6,7) n(3) pp(13-15)] unfolding pa(5) pp(8-11) by metis
  have o: "only_nodes {user_addr b, user_addr a, user_addr c} (mem s) m'"
    by (rule only_nodes_mono [OF m'(2)]) blast
  note po = pair_post [OF pre n(1,2) refl o]
  let ?m = "shmfree cid (user_addr c) m'"
  have fr: "rem_frame cid {c} [c] (s\<lparr>mem := m'\<rparr>) (s\<lparr>mem := ?m\<rparr>)"
    by (rule rem_frame_free) (use po(4) rem_frame_keeps(1) [OF po(1)] in \<open>simp_all add: node_blk_def\<close>)
  note k = rem_frame_keeps [OF fr, simplified]
  have f: "rem_frame cid {b, a, c} ([] @ [c]) s (s\<lparr>mem := ?m\<rparr>)"
    by (rule rem_frame_trans [OF po(1) fr]) auto
  have x: "?ks ! (p - 1) = k" "take (p - 1) ?ks = ks1" "drop p ?ks = ks2"
    using p(1,3) by (cases p; simp add: nth_append)+
  have u: "take p (uch (mem s) (user_addr b)) @ drop (p + 1) (uch (mem s) (user_addr b)) =
      map (root_of cid) (as @ Node a (lk @ k # rk) (lt @ rt) # bs)"
    unfolding pa(6) using p(1,2) by (cases p) simp_all
  have d: "a \<noteq> c" "b \<noteq> c" using pp(4) by auto
  have sub: "rep cid ?m u" if "u \<in> set as \<union> set bs \<union> set lt \<union> set rt" for u
    using k(3) [of u] po(5) pp(12) that by blast
  have "rep cid ?m (Node a (lk @ k # rk) (lt @ rt))"
    using k(4) [OF po(3) d(1)] m'(6-8) x sub n(3) by auto
  moreover have "node_blk cid ?m b \<and> unat (node_count ?m (user_addr b)) \<le> 4 \<and> ukeys ?m (user_addr b) = ks1 @ ks2 \<and>
      uch ?m (user_addr b) = map (root_of cid) (as @ Node a (lk @ k # rk) (lt @ rt) # bs)"
    using k(4) [OF po(2) d(2)] m'(3-5) x u n4 by simp
  ultimately have "rep cid ?m (Node b (ks1 @ ks2) (as @ Node a (lk @ k # rk) (lt @ rt) # bs))"
    using sub by auto
  then show ?thesis using that [of ?m] m'(1) f cat(1) by simp
qed

lemma tree_pre_flags [simp]:
  "tree_pre cid ib t (s\<lparr>undersize := x\<rparr>) = tree_pre cid ib t s"
  "tree_pre cid ib t (s\<lparr>deleted := x\<rparr>) = tree_pre cid ib t s"
  "tree_pre cid ib t (s\<lparr>current_item := k\<rparr>) = tree_pre cid ib t s"
  by (simp_all add: tree_pre_def itm_blk_def)

lemma rem_frame_flags [simp]:
  "rem_frame cid W ff (s\<lparr>undersize := x\<rparr>) s' = rem_frame cid W ff s s'"
  "rem_frame cid W ff (s\<lparr>deleted := x\<rparr>) s' = rem_frame cid W ff s s'"
  "rem_frame cid W ff (s\<lparr>current_item := k\<rparr>) s' = rem_frame cid W ff s s'"
  "rem_frame cid W ff s (s'\<lparr>undersize := x\<rparr>) = rem_frame cid W ff s s'"
  "rem_frame cid W ff s (s'\<lparr>current_item := k\<rparr>) = rem_frame cid W ff s s'"
  "rem_frame cid W ff s (s'\<lparr>undersize := x, mem := m\<rparr>) = rem_frame cid W ff s (s'\<lparr>mem := m\<rparr>)"
  by (simp_all add: rem_frame_def)

lemma restore_refines:
  assumes pre: "tree_pre cid ib (Node b ks ts) s"
    and n: "length ts = Suc (length ks)" "1 \<le> length ks" "length ks \<le> 4" and i: "i \<le> length ks"
    and c: "\<forall>j<length ts. j \<noteq> i \<longrightarrow> shape 2 (Suc h) (ts ! j)" "shape 1 (Suc h) (ts ! i)" "length (bkeys (ts ! i)) < 2"
    and r: "restore i b ks ts = (t', few, ff)"
  defines "s' \<equiv> remove_item_restore (noff_of cid b) i s"
  shows "rem_frame cid (set_mset (locs (Node b ks ts))) ff s s' \<and> rep cid (mem s') t' \<and> undersize s' = few \<and>
    deleted s' = deleted s \<and> root_of cid t' = noff_of cid b"
proof -
  let ?p = "if 0 < i then i else 1" and ?sb = "if 0 < i then i - 1 else 1"
  have p: "0 < ?p" "?p \<le> length ks" using i n by auto
  obtain ks1 k ks2 as L R bs where d: "ks = ks1 @ k # ks2" "ts = as @ L # R # bs" "length ks1 = ?p - 1"
    "length as = ?p - 1" "length ks2 = length bs" "ts ! (?p - 1) = L" "ts ! ?p = R"
    using at_pair [OF n(1) p] by metis
  have all: "shape 1 (Suc h) (ts ! j)" if "j \<le> length ks" for j
  proof (cases "j = i")
    case False
    then show ?thesis using c(1) n(1) that shape_mono [of 2 "Suc h" "ts ! j" 1] by simp
  qed (use c(2) in simp)
  have sh: "shape 1 (Suc h) L" "shape 1 (Suc h) R"
    using all [of "?p - 1"] all [of ?p] p(2) unfolding d(6,7) by linarith+
  obtain a lk lt e rk rt where LR: "L = Node a lk lt" "R = Node e rk rt" using sh by (cases L; cases R) auto
  have len: "length lt = Suc (length lk)" "length rt = Suc (length rk)" "1 \<le> length lk" "1 \<le> length rk"
    "length lk \<le> 4" "length rk \<le> 4" using sh LR by auto
  have own: "if 0 < i then length rk < 2 else length lk < 2" using c(3) d(6,7) LR by (auto split: if_splits)
  have sibs: "ts ! ?sb = (if 0 < i then L else R)" using d(6,7) by (auto split: if_splits)
  note dd = d(1) d(2) [unfolded LR] d(3-5) p(1)
  note pm = pair_move [OF dd len(1,2), where l = b]
  let ?s0 = "s\<lparr>undersize := False\<rparr>"
  have pre': "tree_pre cid ib (Node b (ks1 @ k # ks2) (as @ Node a lk lt # Node e rk rt # bs)) ?s0"
    using pre unfolding d(1) d(2) LR by simp
  have q: "?p \<le> length (ks1 @ k # ks2)" "length (as @ Node a lk lt # Node e rk rt # bs) = Suc (length (ks1 @ k # ks2))"
    using p(2) n(1) d(1) d(2) by simp_all
  note pp = pair_pre [OF pre' len(1,2), simplified] and pa = pair_at [OF pre' len(1,2) p(1) d(4) q, simplified]
  have st: "s' = (if 0 < i
      then (if length lk > 2 then remove_item_moveright (noff_of cid b) ?p ?s0 else remove_item_combine (noff_of cid b) ?p ?s0)
      else (if length rk > 2 then remove_item_moveleft (noff_of cid b) ?p ?s0 else remove_item_combine (noff_of cid b) ?p ?s0))"
  proof (cases "0 < i")
    case True
    then have x: "childsi (mem s) (user_addr b) (i - 1) = noff_of cid a" using pa(11) by simp
    show ?thesis unfolding s'_def remove_item_restore_def Let_def using True x pa(1,2) pp(6,16) by simp
  next
    case False
    then have x: "childsi (mem s) (user_addr b) 1 = noff_of cid e" using pa(12) by simp
    show ?thesis unfolding s'_def remove_item_restore_def Let_def using False x pa(1,2) pp(7,17) by simp
  qed
  have W: "{b, a, e} \<subseteq> set_mset (locs (Node b ks ts))" unfolding d(2) LR by auto
  have sib: "length (bkeys (ts ! ?sb)) = (if 0 < i then length lk else length rk)" unfolding sibs LR by simp
  show ?thesis
  proof (cases "2 < (if 0 < i then length lk else length rk)")
    case move: True
    show ?thesis
    proof (cases "0 < i")
      case True
      then have t': "t' = moveright ?p b ks ts" "\<not> few" "ff = []"
        using r move sib by (auto simp: restore_def Let_def)
      obtain m' where m: "remove_item_moveright (noff_of cid b) ?p ?s0 = ?s0\<lparr>mem := m'\<rparr>"
        "rem_frame cid {b, a, e} [] ?s0 (?s0\<lparr>mem := m'\<rparr>)"
        "rep cid m' (Node b (ks1 @ last lk # ks2)
          (as @ Node a (butlast lk) (butlast lt) # Node e (k # rk) (last lt # rt) # bs))"
        by (rule moveright_refines [OF pre' len(1,2) _ len(5) _ p(1) d(4,3,5)])
          (use len own True in auto)
      have "s' = ?s0\<lparr>mem := m'\<rparr>" using st move True m(1) by simp
      then show ?thesis using m(2,3) rem_frame_mono [OF _ W] t' unfolding pm(1) by simp
    next
      case False
      then have t': "t' = moveleft ?p b ks ts" "\<not> few" "ff = []"
        using r move sib by (auto simp: restore_def Let_def)
      obtain m' where m: "remove_item_moveleft (noff_of cid b) ?p ?s0 = ?s0\<lparr>mem := m'\<rparr>"
        "rem_frame cid {b, a, e} [] ?s0 (?s0\<lparr>mem := m'\<rparr>)"
        "rep cid m' (Node b (ks1 @ hd rk # ks2)
          (as @ Node a (lk @ [k]) (lt @ [hd rt]) # Node e (tl rk) (tl rt) # bs))"
        by (rule moveleft_refines [OF pre' len(1,2) _ len(6) _ p(1) d(4,3,5)])
          (use len own False in auto)
      have "s' = ?s0\<lparr>mem := m'\<rparr>" using st move False m(1) by simp
      then show ?thesis using m(2,3) rem_frame_mono [OF _ W] t' unfolding pm(2) by simp
    qed
  next
    case False
    then have t': "t' = Node b (ks1 @ ks2) (as @ Node a (lk @ k # rk) (lt @ rt) # bs)" "ff = [e]"
      "few \<longleftrightarrow> length (ks1 @ ks2) < 2"
      using r sib pm(3) by (auto simp: restore_def Let_def)
    have l4: "length lk + length rk < 4" using own False by (auto split: if_splits)
    obtain m' where m: "remove_item_combine (noff_of cid b) ?p ?s0 =
        ?s0\<lparr>mem := m', undersize := length (ks1 @ ks2) < 2\<rparr>"
      "rem_frame cid {b, a, e} [e] ?s0 (?s0\<lparr>mem := m'\<rparr>)"
      "rep cid m' (Node b (ks1 @ ks2) (as @ Node a (lk @ k # rk) (lt @ rt) # bs))"
      by (rule combine_refines [OF pre' len(1,2) l4 p(1) d(4,3,5)])
    have "s' = ?s0\<lparr>mem := m', undersize := length (ks1 @ ks2) < 2\<rparr>" using st False m(1) by (auto split: if_splits)
    then show ?thesis using m(3) rem_frame_mono [OF m(2) W] t' by simp
  qed
qed

section \<open>The refinement\<close>

definition rem_done :: "u32 \<Rightarrow> ntree \<Rightarrow> bool \<Rightarrow> ntree \<times> bool \<times> blk list \<Rightarrow> tree_cur \<Rightarrow> tree_cur \<Rightarrow> bool" where
  "rem_done cid t del r s s' \<longleftrightarrow> (case r of (u, few, ff) \<Rightarrow>
     rem_frame cid (set_mset (locs t)) ff s s' \<and> rep cid (mem s') u \<and> root_of cid u = root_of cid t \<and>
     undersize s' = few \<and> deleted s' = del)"

text \<open>
  The state after the removal in the child \<open>i\<close> of a node: the tree with the new child is in memory,
  and the child's report is in the flag.
\<close>

lemma put_back_refines:
  assumes pre: "tree_pre cid ib (Node b ks (ts[i := u])) s" and few: "undersize s = few"
    and n: "length ts = Suc (length ks)" "1 \<le> length ks" "length ks \<le> 4" and i: "i \<le> length ks"
    and ts: "\<forall>t\<in>set ts. shape 2 h t"
    and u: "shape 1 h u" "few \<longrightarrow> length (bkeys u) < 2 \<and> 0 < h"
    and r: "put_back i b ks ts (u, few, ff) = (t', few', ff')"
  shows "\<exists>ff2. ff' = ff @ ff2 \<and> rem_done cid (Node b ks (ts[i := u])) (deleted s) (t', few', ff2) s
      (if undersize s then remove_item_restore (noff_of cid b) i s else s)"
proof (cases few)
  case False
  then have r': "t' = Node b ks (ts[i := u])" "\<not> few'" "ff' = ff" using r by (auto simp: put_back_def)
  have "rem_frame cid (set_mset (locs (Node b ks (ts[i := u])))) [] s s"
    using pre by (simp add: rem_frame_def frame_refl tree_pre_def)
  moreover have "rep cid (mem s) (Node b ks (ts[i := u]))" using pre by (simp only: tree_pre_def)
  ultimately show ?thesis using few False r' by (auto simp: rem_done_def)
next
  case True
  obtain h' where h: "h = Suc h'" using u(2) True by (cases h) auto
  obtain ff2 where r2: "restore i b ks (ts[i := u]) = (t', few', ff2)" "ff' = ff @ ff2"
    using r True by (auto simp: put_back_def split: prod.splits)
  have c: "\<forall>j<length (ts[i := u]). j \<noteq> i \<longrightarrow> shape 2 (Suc h') (ts[i := u] ! j)"
    "shape 1 (Suc h') (ts[i := u] ! i)" "length (bkeys (ts[i := u] ! i)) < 2"
    using ts u True h i n(1) by auto
  have n': "length (ts[i := u]) = Suc (length ks)" using n by simp
  show ?thesis
    using restore_refines [OF pre n' n(2,3) i c r2(1)] r2(2) few True by (auto simp: rem_done_def)
qed

definition rem_refines :: "u32 \<Rightarrow> ntree \<Rightarrow> tree_cur \<Rightarrow> bool" where
  "rem_refines cid t s \<longleftrightarrow> (\<exists>s'.
     remove_item_recursive (root_of cid t) s = Some s' \<and>
     rem_done cid t (deleted s \<or> current_item s \<in> set (inorder t)) (rem (current_item s) t) s s')"

lemma dis_sub:
  assumes "dis t" "locs t = locs t' + X"
  shows "dis t'"
  using assms unfolding dis_def by (metis add_leD1 plus_multiset.rep_eq)

text \<open>The tree around a child that an operation replaced.\<close>

lemma replace_child:
  assumes pre: "tree_pre cid ib (Node b ks (as @ c # bs)) s" and f: "rem_frame cid (set_mset (locs c)) ff s s1"
    and u: "rep cid (mem s1) u" "root_of cid u = root_of cid c" "locs c = locs u + mset ff"
  shows "tree_pre cid ib (Node b ks (as @ u # bs)) s1"
    "set_mset (locs (Node b ks (as @ u # bs))) \<subseteq> set_mset (locs (Node b ks (as @ c # bs)))"
proof -
  let ?t = "Node b ks (as @ c # bs)" and ?t' = "Node b ks (as @ u # bs)"
  have p: "category s = cid" "itm_blk cid s ib" "rep cid (mem s) ?t" "dis ?t" "ib \<notin># locs ?t"
    using pre unfolding tree_pre_def by blast+
  note cp = child_pre [OF pre]
  have ibc: "ib \<notin> set_mset (locs c)" using cp(1) by (simp add: tree_pre_def)
  note k = rem_frame_keeps [OF f]
  have nb: "node_blk cid (mem s) b" using p(3) by simp
  have L: "locs ?t = locs ?t' + mset ff" using u(3) by (simp add: ac_simps)
  then show sub: "set_mset (locs ?t') \<subseteq> set_mset (locs ?t)" by (metis mset_subset_eq_add_left set_mset_mono)
  have "rep cid (mem s1) ?t'"
    using k(4) [OF nb cp(3)] p(3) u(1,2) k(3) cp(4) by auto
  moreover have "dis ?t'" by (rule dis_sub [OF p(4) L])
  moreover have "ib \<notin># locs ?t'" using p(5) sub by blast
  ultimately show "tree_pre cid ib ?t' s1"
    using k(1) k(2) [OF p(2) ibc] p(1) f by (simp add: tree_pre_def rem_frame_def)
qed

lemma rem_done_node:
  assumes f: "rem_frame cid (set_mset (locs c)) ff s s1" "set_mset (locs c) \<subseteq> set_mset (locs t)"
    and d: "rem_done cid t1 del (t', few', ff2) s1 s'" "set_mset (locs t1) \<subseteq> set_mset (locs t)"
      "root_of cid t1 = root_of cid t"
  shows "rem_done cid t del (t', few', ff @ ff2) s s'"
proof -
  have "rem_frame cid (set_mset (locs t1)) ff2 s1 s'" using d(1) by (simp add: rem_done_def)
  then have "rem_frame cid (set_mset (locs t)) (ff @ ff2) s s'" by (rule rem_frame_trans [OF f(1) _ f(2) d(2)])
  then show ?thesis using d(1,3) by (simp add: rem_done_def)
qed

lemma leftmost_refines:
  "shape lo (Suc h) t \<Longrightarrow> 1 \<le> lo \<Longrightarrow> rep cid m t \<Longrightarrow> \<exists>a. leftmost m (REFNODE (root_of cid t)) = Some a \<and>
    first_key t = Some (node_keys m a 0)"
proof (induction h arbitrary: lo t)
  case 0
  obtain b ks ts where t: "t = Node b ks ts" and n: "length ts = Suc (length ks)" "lo \<le> length ks" "\<forall>t\<in>set ts. shape 2 0 t"
    using shapeE [OF 0(1)] by metis
  note rn = rep_node [OF 0(3) [unfolded t] n(1) refl]
  obtain k ks' u us where d: "ks = k # ks'" "ts = u # us" "u = Leaf" using n 0(2) by (cases ks; cases ts) auto
  have "leftmost m (user_addr b) = Some (user_addr b)"
    using rn(10) [of 0] d by (subst leftmost.simps) simp
  then show ?case using rn(2) rn(11) [of 0] d unfolding t by simp
next
  case (Suc h)
  obtain b ks ts where t: "t = Node b ks ts" and n: "length ts = Suc (length ks)" "lo \<le> length ks" "\<forall>t\<in>set ts. shape 2 (Suc h) t"
    using shapeE [OF Suc(2)] by metis
  note rn = rep_node [OF Suc(4) [unfolded t] n(1) refl]
  obtain k ks' u us where d: "ks = k # ks'" "ts = u # us" using n Suc(3) by (cases ks; cases ts) auto
  have u: "shape 2 (Suc h) u" "rep cid m u" using n(3) rn(12) d by auto
  obtain e uk ut where e: "u = Node e uk ut" "length ut = Suc (length uk)" using shapeE [OF u(1)] by metis
  note ru = rep_node [OF u(2) [unfolded e] e(2) refl]
  obtain a where a: "leftmost m (REFNODE (root_of cid u)) = Some a" "first_key u = Some (node_keys m a 0)"
    using Suc.IH [OF u(1) _ u(2)] by auto
  have "leftmost m (user_addr b) = leftmost m (REFNODE (root_of cid u))"
    using rn(10) [of 0] d e(1) ru(1) by (subst leftmost.simps) simp
  then show ?case using rn(2) a d e(1) unfolding t by simp
qed

text \<open>The removal in the child \<open>i\<close> of a node, and what follows it.\<close>

lemma remove_child:
  assumes pre: "tree_pre cid ib (Node b ks ts) s" and n: "length ts = Suc (length ks)" "1 \<le> length ks" "length ks \<le> 4"
    and i: "i \<le> length ks" and ts: "\<forall>t\<in>set ts. shape 2 h t" and so: "sorted_wrt (<) (inorder (ts ! i))"
    and IH: "rem_refines cid (ts ! i) s"
    and p: "put_back i b ks ts (rem (current_item s) (ts ! i)) = r"
  shows "\<exists>s'. do {
        s1 \<leftarrow> remove_item_recursive (root_of cid (ts ! i)) s;
        Some (if undersize s1 then remove_item_restore (noff_of cid b) i s1 else s1) } = Some s' \<and>
      rem_done cid (Node b ks ts) (deleted s \<or> current_item s \<in> set (inorder (ts ! i))) r s s'"
proof -
  obtain ks1 ks2 as c bs where d: "ks = ks1 @ ks2" "ts = as @ c # bs" "length ks1 = i" "length as = i"
    "length ks2 = length bs" "ts ! i = c"
    using at_node [OF n(1) i] by metis
  obtain u few ff where u: "rem (current_item s) c = (u, few, ff)" by (cases "rem (current_item s) c") auto
  have sh: "shape 2 h c" using ts d(2) by simp
  have ok: "removed 2 h (current_item s) c (u, few, ff)"
    using rem_ok [OF sh, of "current_item s"] so d(6) u by simp
  obtain s1 where s1: "remove_item_recursive (root_of cid c) s = Some s1"
    and done1: "rem_done cid c (deleted s \<or> current_item s \<in> set (inorder c)) (u, few, ff) s s1"
    using IH u d(6) unfolding rem_refines_def by auto
  have f1: "rem_frame cid (set_mset (locs c)) ff s s1" "rep cid (mem s1) u" "root_of cid u = root_of cid c"
    "undersize s1 = few" "deleted s1 = (deleted s \<or> current_item s \<in> set (inorder c))"
    using done1 by (simp_all add: rem_done_def)
  have L: "locs c = locs u + mset ff" using ok by (simp add: removed_def)
  have us: "ts[i := u] = as @ u # bs" using d(2,4) by (simp add: list_update_append)
  note rc = replace_child [OF pre [unfolded d(2)] f1(1-3) L, folded us, folded d(2)]
  obtain t' few' ff' where r: "r = (t', few', ff')" by (cases r) auto
  have su: "shape 1 h u" "few \<longrightarrow> length (bkeys u) < 2 \<and> 0 < h"
    using ok shape_mono [of 2 h u 1] by (auto simp: removed_def)
  have pb: "put_back i b ks ts (u, few, ff) = (t', few', ff')" using p u d(6) r by simp
  let ?s' = "if undersize s1 then remove_item_restore (noff_of cid b) i s1 else s1"
  obtain ff2 where d2: "ff' = ff @ ff2" "rem_done cid (Node b ks (ts[i := u])) (deleted s1) (t', few', ff2) s1 ?s'"
    using put_back_refines [OF rc(1) f1(4) n i ts su pb] by blast
  have "set_mset (locs c) \<subseteq> set_mset (locs (Node b ks ts))" using child_pre(5) [OF pre [unfolded d(2)]] d(2) by simp
  then have "rem_done cid (Node b ks ts) (deleted s1) (t', few', ff @ ff2) s ?s'"
    by (rule rem_done_node [OF f1(1) _ d2(2) rc(2)]) simp
  then show ?thesis unfolding d(6) s1 r d2(1) using f1(5) by simp
qed

lemma remove_leaf_key:
  assumes pre: "tree_pre cid ib (Node b ks ts) s" and n: "length ts = Suc (length ks)" "i < length ks"
    and L: "\<forall>t\<in>set ts. t = Leaf"
  shows "rem_done cid (Node b ks ts) (deleted s)
    (let ks' = take i ks @ drop (Suc i) ks in
      (Node b ks' (take (Suc i) ts @ drop (Suc (Suc i)) ts), length ks' < 2, [])) s
    (remove_item_trgt (noff_of cid b) i s)"
proof -
  let ?s' = "remove_item_trgt (noff_of cid b) i s" and ?ks = "take i ks @ drop (Suc i) ks"
  have r: "rep cid (mem s) (Node b ks ts)" and c: "cat_ok cid (mem s)" using pre by (simp_all only: tree_pre_def)
  note rn = rep_node [OF r n(1) refl]
  obtain k where k: "length ks = k + 1" "k < 4" using n(2) rn(5) by (cases "length ks") auto
  have e: "unat (node_count (mem s) (user_addr b)) = k + 1" "i \<le> k" using rn(4) k n(2) by simp_all
  note ef = remove_trgt_effect [OF rn(2) e(1) k(2) e(2)]
  have lk: "length ?ks = k" using k n(2) by simp
  have o: "only_nodes (user_addr ` {b}) (mem s) (mem ?s')" using ef(4) by simp
  have fl: "category ?s' = category s" "root_itm ?s' = root_itm s" "item_done ?s' = item_done s" "deleted ?s' = deleted s"
    "undersize ?s' = (k < 2)"
    by (subst ef(5); simp)+
  note f = rem_frame_nodes [OF c _ _ o fl(1-3)]
  have "rep cid (mem ?s') (Node b ?ks (take (Suc i) ts @ drop (Suc (Suc i)) ts))"
    using f(2) rn(3) ef(1-3) rn(6,7) k L by (auto simp: take_map drop_map dest!: in_set_takeD in_set_dropD)
  moreover have "rem_frame cid (set_mset (locs (Node b ks ts))) [] s ?s'"
    by (rule rem_frame_mono [OF f(1)]) (use rn(3) in auto)
  ultimately show ?thesis using fl lk by (simp add: rem_done_def Let_def)
qed

lemma set_key_effect:
  assumes pre: "tree_pre cid ib (Node b ks ts) s" and n: "length ts = Suc (length ks)" "i < length ks"
    and s': "s' = s\<lparr>deleted := True, current_item := k, mem := set_keys (user_addr b) i k (mem s)\<rparr>"
  shows "tree_pre cid ib (Node b (ks[i := k]) ts) s'" "rem_frame cid {b} [] s s'"
proof -
  have p: "rep cid (mem s) (Node b ks ts)" "cat_ok cid (mem s)" "category s = cid" "itm_blk cid s ib" "dis (Node b ks ts)"
    "ib \<notin># locs (Node b ks ts)"
    using pre unfolding tree_pre_def by blast+
  note rn = rep_node [OF p(1) n(1) refl]
  have i4: "i < 4" using n(2) rn(5) by simp
  have o: "only_nodes (user_addr ` {b}) (mem s) (mem s')"
    unfolding s' using i4 by (simp add: only_nodes_step)
  have nb: "\<forall>d\<in>{b}. node_blk cid (mem s) d" using rn(3) by simp
  note f = rem_frame_nodes [OF p(2) nb _ o]
  show f1: "rem_frame cid {b} [] s s'" using f(1) by (simp add: s')
  have nb': "node_blk cid (mem s') b" using f(2) by (simp add: s')
  note k = rem_frame_keeps [OF f1]
  have b: "b \<notin># locs t" if "t \<in> set ts" for t using dis_child(2) [OF p(5) that] .
  have u: "ukeys (mem s') (user_addr b) = ks[i := k]" "uch (mem s') (user_addr b) = map (root_of cid) ts"
    "unat (node_count (mem s') (user_addr b)) \<le> 4"
    using used_same(1,2) [OF i4, of "user_addr b" k "mem s"] rn(4-7) by (simp_all add: s' node_same)
  have "rep cid (mem s') t" if "t \<in> set ts" for t
    using k(3) [of t] rn(12) b that by auto
  then have "rep cid (mem s') (Node b (ks[i := k]) ts)" using nb' u by simp
  moreover have "itm_blk cid s' ib" using k(2) [OF p(4)] p(6) by simp
  moreover have "dis (Node b (ks[i := k]) ts)" using p(5) unfolding dis_def by simp
  ultimately show "tree_pre cid ib (Node b (ks[i := k]) ts) s'"
    using k(1) p(3,6) unfolding tree_pre_def by (simp add: s')
qed

lemma remove_refines:
  "shape lo h t \<Longrightarrow> 1 \<le> lo \<Longrightarrow> lo \<le> 2 \<Longrightarrow> sorted_wrt (<) (inorder t) \<Longrightarrow> tree_pre cid ib t s \<Longrightarrow> \<not> undersize s \<Longrightarrow>
    rem_refines cid t s"
proof (induction h arbitrary: lo t s)
  case 0
  have "remove_item_recursive empty_node s = Some s" by (subst remove_item_recursive.simps) simp
  then show ?case using 0 by (simp add: rem_refines_def rem_done_def rem_frame_def frame_refl tree_pre_def)
next
  case (Suc h)
  obtain b ks ts where t: "t = Node b ks ts" and n: "length ts = Suc (length ks)" "lo \<le> length ks" "length ks \<le> 4"
    "\<forall>t\<in>set ts. shape 2 h t"
    using shapeE [OF Suc.prems(1)] by metis
  let ?x = "current_item s"
  let ?i = "find_pos ?x ks"
  note pre = Suc.prems(5) [unfolded t] and so = Suc.prems(4) [unfolded t]
  have n1: "1 \<le> length ks" using n(2) Suc.prems(2) by simp
  have r: "rep cid (mem s) (Node b ks ts)" using pre by (simp only: tree_pre_def)
  note rn = rep_node [OF r n(1) refl]
  obtain ks1 ks2 as c bs A B where d: "ks = ks1 @ ks2" "ts = as @ c # bs" "length ks1 = ?i" "length as = ?i"
    "length ks2 = length bs" "ts ! ?i = c" "A = before (map inorder as) ks1" "B = behind ks2 (map inorder bs)"
    "inorder (Node b ks ts) = A @ inorder c @ B" "\<forall>a\<in>set A. a < ?x"
    "?i < length ks \<and> ks ! ?i = ?x \<or> (\<forall>b\<in>set B. ?x < b)"
    using search_node [OF n(1) refl so] by metis
  have child: "tree_pre cid ib (ts ! j) s'" if tp: "tree_pre cid ib (Node b ks' ts) s'" and "j < length ts" for j ks' s'
    using child_pre(1) [of cid ib b ks' "take j ts" "ts ! j" "drop (Suc j) ts" s'] id_take_nth_drop [OF that(2)] tp by simp
  show ?case
  proof (cases "?i < length ks \<and> ks ! ?i = ?x")
    case False
    then have B: "\<forall>b\<in>set B. ?x < b" using d(11) by blast
    have xc: "?x \<in> set (inorder t) \<longleftrightarrow> ?x \<in> set (inorder c)" using d(9,10) B unfolding t by auto
    have sc: "shape 2 h c" "sorted_wrt (<) (inorder c)" using n(4) d(2) so d(9) by (auto simp: sorted_wrt_append)
    have il: "?i < length ts" using n(1) find_pos_le [of ?x ks] by simp
    have IH: "rem_refines cid (ts ! ?i) s"
      by (rule Suc.IH [of 2]) (use sc d(6) child [OF pre il] Suc.prems(6) in auto)
    obtain s' where s': "do {
        s1 \<leftarrow> remove_item_recursive (root_of cid (ts ! ?i)) s;
        Some (if undersize s1 then remove_item_restore (noff_of cid b) ?i s1 else s1) } = Some s'"
      "rem_done cid (Node b ks ts) (deleted s \<or> ?x \<in> set (inorder (ts ! ?i)))
        (put_back ?i b ks ts (rem ?x (ts ! ?i))) s s'"
      using remove_child [OF pre n(1) n1 n(3) find_pos_le n(4) _ IH refl] sc(2) d(6) by auto
    have "remove_item_recursive (root_of cid t) s = Some s'"
      unfolding t root_of_simps s'(1) [symmetric]
      by (subst remove_item_recursive.simps)
        (simp only: rn(1,2,8,9) rn(10) [OF find_pos_le] False Let_def if_True if_False simp_thms)
    then show ?thesis
      unfolding rem_refines_def t rem_node(3) [OF n(1) refl False] using s'(2) d(6) xc t by auto
  next
    case True
    then obtain ks3 where k3: "ks2 = ?x # ks3" using d(1,3) by (cases ks2) (auto simp: nth_append)
    then obtain e bs' where bs: "bs = e # bs'" using d(5) by (cases bs) auto
    have c1: "ts ! Suc ?i = e" unfolding d(2) bs using d(4) by (simp add: nth_append)
    have i1: "Suc ?i \<le> length ks" "Suc ?i < length ts" using True n(1) by auto
    have xt: "?x \<in> set (inorder t)" unfolding t d(9) d(8) k3 bs by simp
    have ce: "childsi (mem s) (user_addr b) (?i + 1) = root_of cid e"
      using rn(10) [OF i1(1)] c1 by simp
    let ?s0 = "s\<lparr>deleted := True\<rparr>"
    show ?thesis
    proof (cases h)
      case 0
      then have L: "\<forall>t\<in>set ts. t = Leaf" "e = Leaf" using n(4) d(2) bs by auto
      have f: "first_key (ts ! Suc ?i) = None" using c1 L by simp
      have "remove_item_recursive (root_of cid t) s = Some (remove_item_trgt (noff_of cid b) ?i ?s0)"
        unfolding t root_of_simps
        by (subst remove_item_recursive.simps)
          (use True in \<open>simp add: rn(1,2,8,9) ce [simplified] L Let_def\<close>)
      moreover have "rem_done cid (Node b ks ts) (deleted ?s0) (rem ?x t) ?s0 (remove_item_trgt (noff_of cid b) ?i ?s0)"
        unfolding t rem_node(2) [OF n(1) refl True f] using remove_leaf_key [of cid ib b ks ts ?s0 ?i] pre n(1) True L(1) by simp
      ultimately show ?thesis unfolding rem_refines_def using xt t by (simp add: rem_done_def split: prod.splits)
    next
      case (Suc h')
      have she: "shape 2 (Suc h') e" "rep cid (mem s) e" using n(4) rn(12) d(2) bs Suc by auto
      obtain be ke te where e: "e = Node be ke te" "length te = Suc (length ke)" using shapeE [OF she(1)] by metis
      note re = rep_node [OF she(2) [unfolded e(1)] e(2) refl]
      obtain a where a: "leftmost (mem s) (REFNODE (root_of cid e)) = Some a" "first_key e = Some (node_keys (mem s) a 0)"
        using leftmost_refines [OF she(1) _ she(2)] by auto
      let ?k = "node_keys (mem s) a 0"
      let ?s1 = "s\<lparr>deleted := True, current_item := ?k, mem := set_keys (user_addr b) ?i ?k (mem s)\<rparr>"
      let ?ks = "ks[?i := ?k]"
      have il: "?i < length ks" using True by simp
      note sk = set_key_effect [OF pre n(1) il refl, of ?k]
      have r1: "rep cid (mem ?s1) (Node b ?ks ts)" using sk(1) unfolding tree_pre_def by blast
      have n': "length ts = Suc (length ?ks)" "1 \<le> length ?ks" "length ?ks \<le> 4" "Suc ?i \<le> length ?ks"
        using n n1 i1 by simp_all
      note rn1 = rep_node [OF r1 n'(1) refl]
      have soe: "sorted_wrt (<) (inorder e)" using so unfolding d(9) d(8) k3 bs by (auto simp: sorted_wrt_append)
      have IH: "rem_refines cid (ts ! Suc ?i) ?s1"
        by (rule Suc.IH [of 2]) (use n(4) i1 c1 soe child [OF sk(1) i1(2)] Suc.prems(6) in auto)
      have cur: "current_item ?s1 = ?k" "deleted ?s1" by simp_all
      obtain s' where s': "do {
          s1 \<leftarrow> remove_item_recursive (root_of cid (ts ! Suc ?i)) ?s1;
          Some (if undersize s1 then remove_item_restore (noff_of cid b) (Suc ?i) s1 else s1) } = Some s'"
        "rem_done cid (Node b ?ks ts) (deleted ?s1 \<or> current_item ?s1 \<in> set (inorder (ts ! Suc ?i)))
          (put_back (Suc ?i) b ?ks ts (rem (current_item ?s1) (ts ! Suc ?i))) ?s1 s'"
        using remove_child [OF sk(1) n'(1-4) n(4) _ IH refl] soe c1 by auto
      have ch: "childsi (set_keys (user_addr b) ?i ?k (mem s)) (user_addr b) (Suc ?i) = root_of cid (ts ! Suc ?i)"
        using rn1(10) [OF n'(4)] by simp
      have ce': "childsi (mem s) (user_addr b) (Suc ?i) = root_of cid e" using ce by simp
      have st: "remove_item_recursive (root_of cid t) s = Some s'"
        unfolding t root_of_simps s'(1) [symmetric]
        by (subst remove_item_recursive.simps)
          (use True a(1) re(1) in \<open>simp add: rn(1,2,8,9) ce' e(1) Let_def ch cong: if_cong\<close>)
      have eq: "rem ?x t = put_back (Suc ?i) b ?ks ts (rem ?k (ts ! Suc ?i))"
        unfolding t using rem_node(1) [OF n(1) refl True, of ?k b] c1 a(2) by simp
      have "rem_done cid (Node b ?ks ts) True (rem ?x t) ?s1 s'" unfolding eq using s'(2) cur by simp
      then obtain u few ff where "rem ?x t = (u, few, ff)" "rem_done cid (Node b ?ks ts) True (u, few, ff) ?s1 s'"
        by (cases "rem ?x t") auto
      then have "rem_done cid t True (rem ?x t) s s'"
        using rem_frame_trans [OF sk(2), of "set_mset (locs t)" ff s' "set_mset (locs t)"] unfolding t
        by (simp add: rem_done_def)
      then show ?thesis unfolding rem_refines_def using st xt by auto
    qed
  qed
qed

section \<open>The removal from the tree of a category\<close>

definition remove_post :: "u32 \<Rightarrow> blk \<Rightarrow> ntree \<Rightarrow> blk list \<Rightarrow> ntree \<Rightarrow> tree_cur \<Rightarrow> tree_cur \<Rightarrow> bool" where
  "remove_post cid ib t ff t' s s' \<longleftrightarrow>
     tree_in cid ib t' s' \<and> category s' = category s \<and> root_itm s' = root_itm s \<and>
     frame cid (set_mset (locs t)) {root_itm s + 4..<root_itm s + 16} (mem s) (mem s') \<and>
     live cid (mem s') = live cid (mem s) - set ff \<and> slots (mem s') = slots (mem s)"

lemma remove_item_refines:
  assumes t: "tree_in cid ib t s" "shape 1 h t" "sorted_wrt (<) (inorder t)" and r: "remove_tree x t = (t', ff)"
  obtains s' where "remove_item x s = Some s'" "remove_post cid ib t ff t' s s'"
proof -
  note result = that
  let ?s = "s\<lparr>undersize := False, deleted := False, current_item := x\<rparr>"
  have pre: "tree_pre cid ib t ?s" and root: "rooti s = root_of cid t"
    using t(1) by (simp_all add: tree_in_def tree_pre_def itm_blk_def)
  obtain u few fu where u: "rem x t = (u, few, fu)" by (cases "rem x t") auto
  have ref: "rem_refines cid t ?s" by (rule remove_refines [OF t(2) _ _ t(3) pre]) simp_all
  obtain s1 where s1: "remove_item_recursive (root_of cid t) ?s = Some s1"
    and dn: "rem_frame cid (set_mset (locs t)) fu ?s s1" "rep cid (mem s1) u" "root_of cid u = root_of cid t"
      "deleted s1 = (x \<in> set (inorder t))"
    using ref u unfolding rem_refines_def rem_done_def by auto
  have p: "itm_blk cid ?s ib" "ib \<notin># locs t" "dis t" "category s = cid"
    using pre by (simp_all add: tree_pre_def)
  have ok: "shape 0 h u" "locs t = locs u + mset fu"
    using rem_ok [OF t(2) _ _ t(3), of x] u by (simp_all add: removed_def)
  note k = rem_frame_keeps [OF dn(1)]
  have ib: "ib \<notin> set_mset (locs t)" using p(2) by simp
  note ki = k(2) [OF p(1) ib]
  have rt: "rooti s1 = root_of cid u" using ki root dn(3) by (simp add: rooti_def)
  have fr: "frame cid (set_mset (locs t)) {root_itm s + 4..<root_itm s + 16} (mem s) (mem s1)"
    by (rule frame_mono [of _ "set_mset (locs t)" "{}"]) (use dn(1) in \<open>simp_all add: rem_frame_def\<close>)
  have lv: "live cid (mem s1) = live cid (mem s) - set fu" "slots (mem s1) = slots (mem s)" "category s1 = cid"
    "root_itm s1 = root_itm s" "item_done s1 = item_done s"
    using dn(1) p(4) by (simp_all add: rem_frame_def)
  have item: "remove_item x s = (if x \<in> set (inorder t) \<and> node_count (mem s1) (REFNODE (rooti s1)) = 0
    then (let s2 = set_rooti (childsi (mem s1) (REFNODE (rooti s1)) 0) s1
      in Some (s2\<lparr>mem := shmfree (category s2) (REFNODE (rooti s1)) (mem s2)\<rparr>))
    else Some s1)"
    using s1 root dn(4) by (simp add: remove_item_def rooti_def Let_def)
  have keep: ?thesis if "remove_item x s = Some s1" "t' = u" "ff = fu"
  proof (rule result)
    have "dis u" by (rule dis_sub [OF p(3) ok(2)])
    moreover have "ib \<notin># locs u" using p(2) ok(2) by simp
    ultimately show "remove_post cid ib t ff t' s s1"
      using that ki rt fr lv dn(2) k(1) p(4) by (simp add: remove_post_def tree_in_def tree_pre_def)
  qed (use that in simp)
  show ?thesis
  proof (cases "x \<in> set (inorder t)")
    case False
    have "rem x t = (t, False, [])" by (rule rem_absent [OF t(2,3) False])
    then have "remove_tree x t = (t, [])"
      using t(2) by (cases h) (auto simp: remove_tree_def split: list.splits btree.splits elim: shapeE)
    then show ?thesis using keep item False r u \<open>rem x t = (t, False, [])\<close> by simp
  next
    case True
    then obtain h' where h: "h = Suc h'" using t(2) by (cases h) auto
    obtain b ks ts where un: "u = Node b ks ts" "length ts = Suc (length ks)" "\<forall>t\<in>set ts. shape 2 h' t"
      using shapeE ok(1) h by metis
    note rn = rep_node [OF dn(2) [unfolded un(1)] un(2) refl]
    have rb: "REFNODE (rooti s1) = user_addr b" using rt un(1) rn(2) by simp
    have cnt: "node_count (mem s1) (user_addr b) = 0 \<longleftrightarrow> ks = []"
      using rn(4) by (metis length_0_conv unat_eq_zero)
    show ?thesis
    proof (cases ks)
      case (Cons k ks')
      then have "remove_tree x t = (u, fu)" using u un by (simp add: remove_tree_def)
      then show ?thesis using keep item True rb cnt Cons r by simp
    next
      case Nil
      then obtain c where ts: "ts = [c]" using un(2) by (cases ts) auto
      have rm: "t' = c" "ff = fu @ [b]" using r u un(1) Nil ts by (simp_all add: remove_tree_def)
      have L: "locs u = add_mset b (locs c)" using un(1) ts by simp
      let ?s2 = "set_rooti (root_of cid c) s1"
      have itm1: "itm_blk cid s1 ib" using ki by simp
      note sr = set_rooti_effect [OF k(1) itm1, where n = "root_of cid c"]
      have c2: "cat_ok cid (mem ?s2)" "live cid (mem ?s2) = live cid (mem s1)" "slots (mem ?s2) = slots (mem s1)"
        using sr(2) same_heap_slots [OF sr(2)] by (simp_all add: same_heap_def)
      have bl: "b \<in> live cid (mem ?s2)" using rn(3) c2(2) by (simp add: node_blk_def)
      have f2: "category ?s2 = cid" "root_itm ?s2 = root_itm s" "item_done ?s2 = item_done s"
        using lv by (simp_all add: set_rooti_def)
      let ?s3 = "?s2\<lparr>mem := shmfree cid (user_addr b) (mem ?s2)\<rparr>"
      have ff: "rem_frame cid {b} [b] ?s2 ?s3" by (rule rem_frame_free [OF c2(1) bl]) simp_all
      note k3 = rem_frame_keeps [OF ff]
      have bi: "ib \<notin># locs u" "dis u" using p(2) ok(2) dis_sub [OF p(3) ok(2)] by simp_all
      have bn: "b \<notin># locs c"
      proof -
        have "count (locs u) b \<le> 1" using bi(2) unfolding dis_def by blast
        then show ?thesis unfolding L by (simp add: count_eq_zero_iff)
      qed
      have dc: "dis c" using bi(2) L by (intro dis_sub [of u c "{#b#}"]) simp_all
      have ic: "ib \<notin># locs c" "ib \<noteq> b" using bi(1) L by auto
      have "rep cid (mem s1) c" using rn(12) ts by simp
      then have rc2: "rep cid (mem ?s2) c" by (rule sr(5) [OF _ ic(1)])
      have rc: "rep cid (mem ?s3) c" by (rule k3(3) [OF rc2]) (use bn in simp)
      have i3: "itm_blk cid ?s3 ib \<and> rooti ?s3 = rooti ?s2" using k3(2) [OF sr(4)] ic(2) by simp
      have fr2: "frame cid (set_mset (locs t)) {root_itm s + 4..<root_itm s + 16} (mem s) (mem ?s2)"
        by (rule frame_trans [OF fr sr(3)]) (use lv(4) in auto)
      have fr3: "frame cid (set_mset (locs t)) {root_itm s + 4..<root_itm s + 16} (mem s) (mem ?s3)"
      proof (rule frame_trans [OF fr2])
        show "frame cid {b} {} (mem ?s2) (mem ?s3)" using ff unfolding rem_frame_def by blast
      qed (use ok(2) L in auto)
      have lv3: "live cid (mem ?s3) = live cid (mem s) - set (fu @ [b])" "slots (mem ?s3) = slots (mem s)"
        using ff lv(1,2) c2(2,3) unfolding rem_frame_def by auto
      have ch: "childsi (mem s1) (user_addr b) 0 = root_of cid c" using rn(10) [of 0] ts by simp
      show ?thesis
      proof (rule result)
        show "remove_item x s = Some ?s3"
          unfolding item using True rb cnt Nil ch f2(1) by (simp add: Let_def)
        show "remove_post cid ib t ff t' s ?s3"
          unfolding remove_post_def tree_in_def tree_pre_def rm
          using i3 sr(1) rc dc ic(1) f2 fr3 lv3 k3(1) lv(3) p(4) by simp
      qed
    qed
  qed
qed

end
