(* ===== verification/Tree_Index.thy ===== *)
theory Tree_Index
  imports Tree_Remove
begin

text \<open>
  The index as its callers see it: a set of keys spread over the trees of the four categories. The
  operations of \<open>smmr_tree.c\<close> on a consistent instance return, change this set as their names say and
  leave every other block of the shared memory alone; a run of them is a run on a set.
\<close>

section \<open>A consistent instance\<close>

text \<open>
  The tree \<open>t\<close> of category \<open>n\<close>, whose root is kept in the block \<open>ib\<close>: it is in memory, balanced and
  sorted, and its keys belong to the category.
\<close>

definition tree_ok :: "nat \<Rightarrow> u32 \<Rightarrow> blk \<Rightarrow> ntree \<Rightarrow> tree_cur \<Rightarrow> bool" where
  "tree_ok n cid ib t s \<longleftrightarrow> tree_in cid ib t s \<and> (\<exists>h. shape 1 h t) \<and> sorted_wrt (<) (inorder t) \<and>
     (\<forall>k\<in>set (inorder t). keyhash k \<noteq> 0 \<and> unat (keyhash k) mod CATEGORY_CNT = n) \<and>
     ld32 (mem s) (root_itm s) = SMMR_TREEROOT_ID"

definition index_ok :: "(nat \<Rightarrow> blk \<times> ntree) \<Rightarrow> tree_instance \<Rightarrow> bool" where
  "index_ok f inst \<longleftrightarrow> categories_attached (categories inst) \<and>
     length (itm inst) = CATEGORY_CNT \<and> length (itm_p inst) = CATEGORY_CNT \<and>
     (\<forall>n<CATEGORY_CNT. tree_ok n (cat_id (categories inst ! n)) (fst (f n)) (snd (f n)) (tree_of inst n))"

definition index_keys :: "(nat \<Rightarrow> blk \<times> ntree) \<Rightarrow> node_key set" where
  "index_keys f = (\<Union>n<CATEGORY_CNT. set (inorder (snd (f n))))"

text \<open>The blocks of the index in a category.\<close>

definition index_blocks :: "(nat \<Rightarrow> blk \<times> ntree) \<Rightarrow> nat \<Rightarrow> blk set" where
  "index_blocks f n = insert (fst (f n)) (set_mset (locs (snd (f n))))"

definition data_kept :: "(nat \<Rightarrow> blk \<times> ntree) \<Rightarrow> tree_instance \<Rightarrow> tree_instance \<Rightarrow> bool" where
  "data_kept f inst inst' \<longleftrightarrow> (\<forall>n<CATEGORY_CNT.
     let cid = cat_id (categories inst ! n); m = mem (tree_of inst n); m' = mem (tree_of inst' n) in
     \<forall>b\<in>live cid m - index_blocks f n. b \<in> live cid m' \<and> block m' b = block m b \<and> (\<forall>i\<in>block m b. m' i = m i))"

text \<open>
  Room for \<open>N\<close> more keys. A tree with fewer than \<open>2 \<cdot> 3 ^ H - 1\<close> keys is at most \<open>H\<close> high, and an
  insertion allocates at most one node more than the height.
\<close>

definition room_for :: "nat \<Rightarrow> (nat \<Rightarrow> blk \<times> ntree) \<Rightarrow> tree_instance \<Rightarrow> bool" where
  "room_for N f inst \<longleftrightarrow> (\<exists>H. Suc (card (index_keys f) + N) < 2 * 3 ^ H \<and>
     (\<forall>n<CATEGORY_CNT. N * Suc H \<le> slots (mem (tree_of inst n))))"

lemma room_forI:
  "Suc (card (index_keys f) + N) < 2 * 3 ^ H \<Longrightarrow> (\<And>n. n < CATEGORY_CNT \<Longrightarrow> N * Suc H \<le> slots (mem (tree_of inst n))) \<Longrightarrow>
    room_for N f inst"
  unfolding room_for_def by blast

lemma tree_of_sel [simp]:
  "category (tree_of inst n) = cat_id (categories inst ! n)" "root_itm (tree_of inst n) = itm inst ! n"
  "mem (tree_of inst n) = the (data_pointer (categories inst ! n))"
  by (simp_all add: tree_of_def tree_itm_p.defs tree_cur.defs)

lemma tree_of_into:
  assumes "n < length (categories inst)" "n < length (itm_p inst)" "category s = cat_id (categories inst ! n)"
    "root_itm s = itm inst ! n"
  shows "tree_of (tree_into n s inst) n = s" "j \<noteq> n \<Longrightarrow> tree_of (tree_into n s inst) j = tree_of inst j"
  using assms by (simp_all add: tree_of_def tree_into_def tree_itm_p.defs tree_cur.defs)

lemma index_category:
  assumes "index_ok f inst" "h \<noteq> 0"
  shows "get_category_id_by_hashkey_unsafe (categories inst) h = int (unat h mod CATEGORY_CNT)"
    "unat h mod CATEGORY_CNT < CATEGORY_CNT"
    "tree_ok (unat h mod 4) (cat_id (categories inst ! (unat h mod 4))) (fst (f (unat h mod 4))) (snd (f (unat h mod 4)))
      (tree_of inst (unat h mod 4))"
  using assms category_id_attached by (auto simp: index_ok_def)

lemma index_keys_at:
  assumes "index_ok f inst" "keyhash k \<noteq> 0"
  shows "k \<in> index_keys f \<longleftrightarrow> k \<in> set (inorder (snd (f (unat (keyhash k) mod 4))))"
  using assms by (auto simp: index_ok_def index_keys_def tree_ok_def)

lemma index_keys_upd:
  "n < CATEGORY_CNT \<Longrightarrow>
    index_keys (f(n := (ib, t'))) = set (inorder t') \<union> (\<Union>j\<in>{..<CATEGORY_CNT} - {n}. set (inorder (snd (f j))))"
  by (auto simp: index_keys_def split: if_splits)

lemma index_keys_split:
  "n < CATEGORY_CNT \<Longrightarrow> index_keys f = set (inorder (snd (f n))) \<union> (\<Union>j\<in>{..<CATEGORY_CNT} - {n}. set (inorder (snd (f j))))"
  by (auto simp: index_keys_def)

text \<open>The instance after an operation on the tree of category \<open>n\<close>.\<close>

lemma index_into:
  assumes i: "index_ok f inst" and n: "n < CATEGORY_CNT"
    and e: "categories inst1 = categories inst" "itm inst1 = itm inst" "itm_p inst1 = (itm_p inst)[n := p]"
    and s: "category s' = cat_id (categories inst ! n)" "root_itm s' = itm inst ! n"
    and t: "tree_ok n (cat_id (categories inst ! n)) (fst (f n)) t' s'"
  shows "index_ok (f(n := (fst (f n), t'))) (tree_into n s' inst1)"
    "tree_of (tree_into n s' inst1) n = s'" "j < CATEGORY_CNT \<Longrightarrow> j \<noteq> n \<Longrightarrow> tree_of (tree_into n s' inst1) j = tree_of inst j"
proof -
  have l: "n < length (categories inst1)" "n < length (itm_p inst1)"
    using i n e by (simp_all add: index_ok_def categories_attached_def)
  note into = tree_of_into [OF l, of s', unfolded e(1,2), OF s]
  show here: "tree_of (tree_into n s' inst1) n = s'" by (fact into(1))
  show there: "tree_of (tree_into n s' inst1) j = tree_of inst j" if "j < CATEGORY_CNT" "j \<noteq> n" for j
    using into(2) [OF that(2)] that e by (simp add: tree_of_def)
  have c: "cat_id (categories (tree_into n s' inst1) ! j) = cat_id (categories inst ! j)" for j
    using e(1) l(1) by (cases "j = n") (simp_all add: tree_into_def)
  have "tree_ok j (cat_id (categories (tree_into n s' inst1) ! j)) (fst ((f(n := (fst (f n), t'))) j))
      (snd ((f(n := (fst (f n), t'))) j)) (tree_of (tree_into n s' inst1) j)" if "j < CATEGORY_CNT" for j
    using t here there [OF that] i that unfolding c by (cases "j = n") (simp_all add: index_ok_def)
  moreover have "categories_attached (categories (tree_into n s' inst1))"
    using i e(1) l(1) nth_mem [OF l(1)]
    by (auto simp: index_ok_def categories_attached_def tree_into_def dest!: set_update_subset_insert [THEN subsetD])
  moreover have "length (itm (tree_into n s' inst1)) = CATEGORY_CNT" "length (itm_p (tree_into n s' inst1)) = CATEGORY_CNT"
    using i e by (simp_all add: index_ok_def tree_into_def)
  ultimately show "index_ok (f(n := (fst (f n), t'))) (tree_into n s' inst1)" unfolding index_ok_def by blast
qed

lemma data_kept_into:
  assumes i: "index_ok f inst" and n: "n < CATEGORY_CNT"
    and here: "tree_of inst' n = s'" and there: "\<And>j. j < CATEGORY_CNT \<Longrightarrow> j \<noteq> n \<Longrightarrow> tree_of inst' j = tree_of inst j"
    and fr: "frame (cat_id (categories inst ! n)) (set_mset (locs (snd (f n)))) {itm inst ! n + 4..<itm inst ! n + 16}
      (mem (tree_of inst n)) (mem s')"
  shows "data_kept f inst inst'"
proof -
  have "b \<in> live (cat_id (categories inst ! j)) (mem (tree_of inst' j)) \<and>
      block (mem (tree_of inst' j)) b = block (mem (tree_of inst j)) b \<and>
      (\<forall>i\<in>block (mem (tree_of inst j)) b. mem (tree_of inst' j) i = mem (tree_of inst j) i)"
    if j: "j < CATEGORY_CNT" and b: "b \<in> live (cat_id (categories inst ! j)) (mem (tree_of inst j)) - index_blocks f j" for j b
  proof (cases "j = n")
    case True
    let ?m = "mem (tree_of inst n)" and ?cid = "cat_id (categories inst ! n)"
    have "itm_blk ?cid (tree_of inst n) (fst (f n))"
      using i n by (simp add: index_ok_def tree_ok_def tree_in_def tree_pre_def)
    then have ib: "fst (f n) \<in> live ?cid ?m" "{itm inst ! n + 4..<itm inst ! n + 16} \<subseteq> block ?m (fst (f n))"
      by (auto simp: itm_blk_def block_def)
    have "block ?m b \<inter> {itm inst ! n + 4..<itm inst ! n + 16} = {}"
      using live_blocks_disjoint [of b ?cid ?m "fst (f n)"] b ib True by (auto simp: index_blocks_def)
    then show ?thesis using fr b unfolding True here frame_def index_blocks_def by blast
  next
    case False
    then show ?thesis using there [OF j] b by simp
  qed
  then show ?thesis by (simp add: data_kept_def Let_def)
qed

lemma sig_kept:
  assumes "itm_blk cid s ib" "ib \<notin> W" "frame cid W {root_itm s + 4..<root_itm s + 16} (mem s) (mem s')"
    "root_itm s' = root_itm s"
  shows "ld32 (mem s') (root_itm s') = ld32 (mem s) (root_itm s)"
proof -
  have ib: "ib \<in> live cid (mem s) - W" "\<forall>i<16. root_itm s + i \<in> block (mem s) ib"
    using assms(1,2) by (auto simp: itm_blk_def block_def)
  have "\<forall>i\<in>block (mem s) ib - {root_itm s + 4..<root_itm s + 16}. mem s' i = mem s i"
    using assms(3) ib(1) unfolding frame_def by blast
  then have "mem s' (root_itm s + i) = mem s (root_itm s + i)" if "i < 4" for i using ib(2) that by simp
  then have "map (\<lambda>i. mem s' (root_itm s + i)) [0..<4] = map (\<lambda>i. mem s (root_itm s + i)) [0..<4]" by simp
  then show ?thesis unfolding assms(4) ld32_def ld_bytes_def by (simp only:)
qed

section \<open>The operations\<close>

lemma shape_room:
  assumes "shape 1 h t" "length (inorder t) \<le> c" "Suc (c + N) < 2 * 3 ^ H"
  shows "h \<le> H"
proof (cases h)
  case (Suc h')
  have "2 * 3 ^ h' \<le> Suc (length (inorder t))" using balanced_height [of h' t] assms(1) Suc by simp
  then have "(2 :: nat) * 3 ^ h' < 2 * 3 ^ H" using assms(2,3) by linarith
  then have "h' < H" by simp
  then show ?thesis using Suc by simp
qed simp

lemma tree_card: "sorted_wrt (<) xs \<Longrightarrow> card (set xs) = length (xs :: 'a::linorder list)"
  by (rule distinct_card) (simp add: strict_sorted_iff)

lemma strict_insort: "sorted_wrt (<) xs \<Longrightarrow> x \<notin> set xs \<Longrightarrow> sorted_wrt (<) (insort x (xs :: 'a::linorder list))"
  by (simp add: strict_sorted_iff distinct_insort sorted_insort)

lemma tree_in_cong:
  "category s = category s' \<Longrightarrow> root_itm s = root_itm s' \<Longrightarrow> mem s = mem s' \<Longrightarrow> tree_in cid ib t s = tree_in cid ib t s'"
  by (simp add: tree_in_def tree_pre_def itm_blk_def rooti_def)

lemma index_finite: "finite (index_keys f)"
  by (simp add: index_keys_def)

lemma insert_tree_set:
  assumes "shape 1 h t" "sorted_wrt (<) (inorder t)" "\<forall>fr. insert_tree x (us @ fr) t = (t', fr)"
  shows "set (inorder t') = insert x (set (inorder t))" "sorted_wrt (<) (inorder t')" "\<exists>h. shape 1 h t'"
proof -
  have "insert_tree x (us @ replicate (Suc h) undefined) t = (t', replicate (Suc h) undefined)" using assms(3) by blast
  note io = insert_tree_ok(1,2) [OF assms(1,2) _ this]
  then show "set (inorder t') = insert x (set (inorder t))" by (simp add: set_insort_key insert_absorb)
  show "sorted_wrt (<) (inorder t')" using io(2) assms(2) by (simp add: strict_insort)
  show "\<exists>h. shape 1 h t'" using io(1) by auto
qed

lemma remove_tree_set:
  assumes "shape 1 h t" "sorted_wrt (<) (inorder t)" "remove_tree x t = (t', ff)"
  shows "set (inorder t') = set (inorder t) - {x}" "sorted_wrt (<) (inorder t')" "\<exists>h. shape 1 h t'"
proof -
  note ro = remove_tree_ok [OF assms]
  have d: "sorted (inorder t)" "distinct (inorder t)" using assms(2) by (simp_all add: strict_sorted_iff)
  then show "set (inorder t') = set (inorder t) - {x}" using ro(2) by simp
  show "sorted_wrt (<) (inorder t')" using ro(2) d by (simp add: strict_sorted_iff sorted_remove1 distinct_remove1)
  show "\<exists>h. shape 1 h t'" using ro(1) by blast
qed

lemma tree_size_le:
  assumes "n < CATEGORY_CNT" "sorted_wrt (<) (inorder (snd (f n)))"
  shows "length (inorder (snd (f n))) \<le> card (index_keys f)"
  unfolding tree_card [OF assms(2), symmetric]
  by (rule card_mono [OF index_finite]) (use assms(1) in \<open>auto simp: index_keys_def\<close>)

lemma add_tree_effect:
  assumes i: "index_ok f inst" and h: "keyhash k \<noteq> 0" and r: "room_for (Suc N) f inst"
  obtains t' inst' where "add_tree_safe 0 now k inst = Some (RET_OK, inst')"
    "index_ok (f(unat (keyhash k) mod 4 := (fst (f (unat (keyhash k) mod 4)), t'))) inst'"
    "index_keys (f(unat (keyhash k) mod 4 := (fst (f (unat (keyhash k) mod 4)), t'))) = insert k (index_keys f)"
    "room_for N (f(unat (keyhash k) mod 4 := (fst (f (unat (keyhash k) mod 4)), t'))) inst'" "data_kept f inst inst'"
proof -
  note result = that
  let ?n = "unat (keyhash k) mod 4"
  let ?t = "snd (f ?n)" and ?cid = "cat_id (categories inst ! ?n)" and ?ib = "fst (f ?n)"
  note c = index_category [OF i h]
  have ln: "?n < length (itm_p inst)" using i by (simp add: index_ok_def)
  let ?inst1 = "inst\<lparr>curid := ?n, itm_p := (itm_p inst)[?n := (itm_p inst ! ?n)\<lparr>current_item := k\<rparr>]\<rparr>"
  let ?s = "tree_of ?inst1 ?n"
  have s: "category ?s = category (tree_of inst ?n)" "root_itm ?s = root_itm (tree_of inst ?n)"
    "mem ?s = mem (tree_of inst ?n)" by simp_all
  obtain h0 where t: "tree_in ?cid ?ib ?t (tree_of inst ?n)" "shape 1 h0 ?t" "sorted_wrt (<) (inorder ?t)"
    "\<forall>k\<in>set (inorder ?t). keyhash k \<noteq> 0 \<and> unat (keyhash k) mod CATEGORY_CNT = ?n"
    "ld32 (mem (tree_of inst ?n)) (root_itm (tree_of inst ?n)) = SMMR_TREEROOT_ID"
    using c(3) unfolding tree_ok_def by blast
  have ti: "tree_in ?cid ?ib ?t ?s"
    using tree_in_cong [OF s] t(1) by simp
  obtain H where H: "Suc (card (index_keys f) + Suc N) < 2 * 3 ^ H"
    "\<forall>n<CATEGORY_CNT. Suc N * Suc H \<le> slots (mem (tree_of inst n))"
    using r unfolding room_for_def by blast
  have "length (inorder ?t) \<le> card (index_keys f)"
    using tree_size_le [of ?n f] c(2) t(3) by blast
  then have hH: "h0 \<le> H" using shape_room [OF t(2) _ H(1)] by blast
  have "Suc N * Suc H \<le> slots (mem ?s)" using H(2) c(2) s(3) by simp
  then have sl: "Suc h0 \<le> slots (mem ?s)" using hH by (simp add: le_trans)
  obtain s' us t' where a: "add_item now k ?s = Some s'" "\<forall>fr. insert_tree k (us @ fr) ?t = (t', fr)"
    "add_post ?cid ?ib ?t us t' ?s s'"
    using add_item_refines [OF ti t(2,3) sl] by metis
  have us: "length us \<le> Suc h0" by (rule insert_tree_used(1) [OF t(2,3) a(2)])
  note ks = insert_tree_set [OF t(2,3) a(2)]
  have p: "tree_in ?cid ?ib t' s'" "category s' = ?cid" "root_itm s' = itm inst ! ?n"
    "frame ?cid (set_mset (locs ?t)) {root_itm ?s + 4..<root_itm ?s + 16} (mem ?s) (mem s')"
    "slots (mem ?s) \<le> slots (mem s') + length us"
    using a(3) by (simp_all add: add_post_def same_tree_def)
  have ib: "itm_blk ?cid ?s ?ib" "?ib \<notin> set_mset (locs ?t)" using ti by (simp_all add: tree_in_def tree_pre_def)
  have sg: "ld32 (mem s') (root_itm s') = SMMR_TREEROOT_ID"
    using sig_kept [OF ib p(4)] p(3) t(5) by simp
  have ok: "tree_ok ?n ?cid ?ib t' s'"
    using p(1) ks t(4) h sg by (simp add: tree_ok_def)
  let ?f = "f(?n := (?ib, t'))"
  have e: "categories ?inst1 = categories inst" "itm ?inst1 = itm inst"
    "itm_p ?inst1 = (itm_p inst)[?n := (itm_p inst ! ?n)\<lparr>current_item := k\<rparr>]" by simp_all
  note into = index_into [OF i c(2) e p(2,3) ok]
  have keys: "index_keys ?f = insert k (index_keys f)"
    unfolding index_keys_upd [OF c(2)] ks(1) index_keys_split [OF c(2), of f] by simp
  show ?thesis
  proof (rule result)
    show "add_tree_safe 0 now k inst = Some (RET_OK, tree_into ?n s' ?inst1)"
      using c(1) a(1) by (simp add: add_tree_safe_def Let_def)
    show "index_ok ?f (tree_into ?n s' ?inst1)" by (rule into(1))
    show "index_keys ?f = insert k (index_keys f)" by (fact keys)
    have "card (index_keys ?f) + N \<le> card (index_keys f) + Suc N"
      unfolding keys using index_finite by (simp add: card_insert_if)
    moreover have "N * Suc H \<le> slots (mem (tree_of (tree_into ?n s' ?inst1) j))" if "j < CATEGORY_CNT" for j
    proof (cases "j = ?n")
      case True
      then show ?thesis unfolding True into(2) using \<open>Suc N * Suc H \<le> slots (mem ?s)\<close> p(5) us hH by simp
    next
      case False
      then show ?thesis unfolding into(3) [OF that False] using H(2) that by (metis add_leD2 mult_Suc)
    qed
    moreover note H(1)
    ultimately show "room_for N ?f (tree_into ?n s' ?inst1)" by (intro room_forI [of _ _ H]) simp_all
    show "data_kept f inst (tree_into ?n s' ?inst1)"
      by (rule data_kept_into [OF i c(2) into(2)]) (use into(3) p(4) s in simp_all)
  qed
qed

lemma remove_tree_effect:
  assumes i: "index_ok f inst" and h: "keyhash k \<noteq> 0" and r: "room_for N f inst"
  obtains t' inst' where "remove_tree_safe 0 k inst = Some (RET_OK, inst')" "remove_tree_unsafe k inst = Some (RET_OK, inst')"
    "index_ok (f(unat (keyhash k) mod 4 := (fst (f (unat (keyhash k) mod 4)), t'))) inst'"
    "index_keys (f(unat (keyhash k) mod 4 := (fst (f (unat (keyhash k) mod 4)), t'))) = index_keys f - {k}"
    "room_for N (f(unat (keyhash k) mod 4 := (fst (f (unat (keyhash k) mod 4)), t'))) inst'" "data_kept f inst inst'"
proof -
  note result = that
  let ?n = "unat (keyhash k) mod 4"
  let ?t = "snd (f ?n)" and ?cid = "cat_id (categories inst ! ?n)" and ?ib = "fst (f ?n)" and ?inst1 = "inst\<lparr>curid := unat (keyhash k) mod 4\<rparr>"
  note c = index_category [OF i h]
  let ?s = "tree_of ?inst1 ?n"
  have s: "category ?s = category (tree_of inst ?n)" "root_itm ?s = root_itm (tree_of inst ?n)"
    "mem ?s = mem (tree_of inst ?n)" by simp_all
  obtain h0 where t: "tree_in ?cid ?ib ?t (tree_of inst ?n)" "shape 1 h0 ?t" "sorted_wrt (<) (inorder ?t)"
    "\<forall>k\<in>set (inorder ?t). keyhash k \<noteq> 0 \<and> unat (keyhash k) mod CATEGORY_CNT = ?n"
    "ld32 (mem (tree_of inst ?n)) (root_itm (tree_of inst ?n)) = SMMR_TREEROOT_ID"
    using c(3) unfolding tree_ok_def by blast
  have ti: "tree_in ?cid ?ib ?t ?s"
    using tree_in_cong [OF s] t(1) by simp
  obtain t' ff where rt: "remove_tree k ?t = (t', ff)" by (cases "remove_tree k ?t")
  obtain s' where a: "remove_item k ?s = Some s'" "remove_post ?cid ?ib ?t ff t' ?s s'"
    using remove_item_refines [OF ti t(2,3) rt] by metis
  note ks = remove_tree_set [OF t(2,3) rt]
  have p: "tree_in ?cid ?ib t' s'" "category s' = ?cid" "root_itm s' = itm inst ! ?n"
    "frame ?cid (set_mset (locs ?t)) {root_itm ?s + 4..<root_itm ?s + 16} (mem ?s) (mem s')"
    "slots (mem s') = slots (mem ?s)"
    using a(2) by (simp_all add: remove_post_def)
  have ib: "itm_blk ?cid ?s ?ib" "?ib \<notin> set_mset (locs ?t)" using ti by (simp_all add: tree_in_def tree_pre_def)
  have sg: "ld32 (mem s') (root_itm s') = SMMR_TREEROOT_ID"
    using sig_kept [OF ib p(4)] p(3) t(5) by simp
  have ok: "tree_ok ?n ?cid ?ib t' s'"
    using p(1) ks t(4) h sg by (simp add: tree_ok_def)
  let ?f = "f(?n := (?ib, t'))"
  have e: "categories ?inst1 = categories inst" "itm ?inst1 = itm inst" "itm_p ?inst1 = (itm_p inst)[?n := itm_p inst ! ?n]"
    by simp_all
  note into = index_into [OF i c(2) e p(2,3) ok]
  have "k \<notin> set (inorder (snd (f j)))" if "j \<noteq> ?n" "j < CATEGORY_CNT" for j
    using i that by (auto simp: index_ok_def tree_ok_def)
  then have keys: "index_keys ?f = index_keys f - {k}"
    unfolding index_keys_upd [OF c(2)] ks(1) index_keys_split [OF c(2), of f] by auto
  obtain H where H: "Suc (card (index_keys f) + N) < 2 * 3 ^ H"
    "\<forall>n<CATEGORY_CNT. N * Suc H \<le> slots (mem (tree_of inst n))"
    using r unfolding room_for_def by blast
  show ?thesis
  proof (rule result)
    show "remove_tree_safe 0 k inst = Some (RET_OK, tree_into ?n s' ?inst1)"
      using c(1) a(1) by (simp add: remove_tree_safe_def Let_def)
    show "remove_tree_unsafe k inst = Some (RET_OK, tree_into ?n s' ?inst1)"
      using c(1) a(1) by (simp add: remove_tree_unsafe_def Let_def)
    show "index_ok ?f (tree_into ?n s' ?inst1)" by (rule into(1))
    show "index_keys ?f = index_keys f - {k}" by (fact keys)
    have "card (index_keys ?f) \<le> card (index_keys f)"
      unfolding keys by (rule card_mono [OF index_finite]) blast
    moreover have "N * Suc H \<le> slots (mem (tree_of (tree_into ?n s' ?inst1) j))" if "j < CATEGORY_CNT" for j
      using H(2) that p(5) into(2) into(3) [OF that] by (cases "j = ?n") simp_all
    moreover note H(1)
    ultimately show "room_for N ?f (tree_into ?n s' ?inst1)" by (intro room_forI [of _ _ H]) simp_all
    show "data_kept f inst (tree_into ?n s' ?inst1)"
      by (rule data_kept_into [OF i c(2) into(2)]) (use into(3) p(4) s in simp_all)
  qed
qed

lemma index_tree:
  assumes "index_ok f inst" "n < CATEGORY_CNT"
  obtains h where "shape 1 h (snd (f n))" "sorted_wrt (<) (inorder (snd (f n)))"
    "rep (cat_id (categories inst ! n)) (mem (tree_of inst n)) (snd (f n))"
    "rooti (tree_of inst n) = root_of (cat_id (categories inst ! n)) (snd (f n))"
  using assms unfolding index_ok_def tree_ok_def tree_in_def tree_pre_def by blast

lemma tree_of_curid [simp]: "tree_of (inst\<lparr>curid := c\<rparr>) n = tree_of inst n"
  by (simp add: tree_of_def)

lemma find_tree_effect:
  assumes i: "index_ok f inst" and h: "keyhash k \<noteq> 0"
  shows "find_tree_safe 0 k func u inst =
    (let (ret, u') = (if k \<in> index_keys f then func k u else (RET_NG, u))
     in Some (ret, u', inst\<lparr>curid := unat (keyhash k) mod 4\<rparr>))"
proof -
  note c = index_category [OF i h]
  obtain h' where t: "shape 1 h' (snd (f (unat (keyhash k) mod 4)))" "sorted_wrt (<) (inorder (snd (f (unat (keyhash k) mod 4))))"
    "rep (cat_id (categories inst ! (unat (keyhash k) mod 4))) (mem (tree_of inst (unat (keyhash k) mod 4))) (snd (f (unat (keyhash k) mod 4)))"
    "rooti (tree_of inst (unat (keyhash k) mod 4)) = root_of (cat_id (categories inst ! (unat (keyhash k) mod 4))) (snd (f (unat (keyhash k) mod 4)))"
    by (rule index_tree [OF i c(2)])
  show ?thesis
    using c(1) search_refines [OF t(1,3,2), of k func u] index_keys_at [OF i h]
    by (simp add: find_tree_safe_def Let_def t(4) split: prod.splits)
qed

lemma find_hash_effect:
  assumes i: "index_ok f inst" and h: "h \<noteq> 0" and ok: "\<And>k u. fst (func k u) \<noteq> RET_NG"
  shows "\<exists>ks. distinct ks \<and> set ks = {k \<in> index_keys f. keyhash k = h} \<and>
    find_tree_only_keyhash_safe 0 h func u inst =
      Some (RET_NG, fold (\<lambda>k u. snd (func k u)) ks u, inst\<lparr>curid := unat h mod 4\<rparr>)"
proof -
  note c = index_category [OF i h]
  let ?t = "snd (f (unat h mod 4))"
  obtain h' where t: "shape 1 h' ?t" "sorted_wrt (<) (inorder ?t)"
    "rep (cat_id (categories inst ! (unat h mod 4))) (mem (tree_of inst (unat h mod 4))) ?t"
    "rooti (tree_of inst (unat h mod 4)) = root_of (cat_id (categories inst ! (unat h mod 4))) ?t"
    by (rule index_tree [OF i c(2)])
  have m: "mset (hash_visit h ?t) = mset (filter (\<lambda>k. h = keyhash k) (inorder ?t))"
    using hash_visit_keys [OF t(1,2)] by (simp add: with_hash_def)
  have "distinct (inorder ?t)" using t(2) by (simp add: strict_sorted_iff)
  then have d: "distinct (hash_visit h ?t)"
    using m by (metis distinct_filter mset_eq_imp_distinct_iff)
  have "k \<in> set (inorder ?t) \<longleftrightarrow> k \<in> index_keys f" if "keyhash k = h" for k
    using index_keys_at [OF i, of k] h that by simp
  then have st: "set (hash_visit h ?t) = {k \<in> index_keys f. keyhash k = h}"
    using mset_eq_setD [OF m] by auto
  have "find_tree_only_keyhash_safe 0 h func u inst =
      Some (RET_NG, fold (\<lambda>k u. snd (func k u)) (hash_visit h ?t) u, inst\<lparr>curid := unat h mod 4\<rparr>)"
    using c(1) hash_search_refines [where func = func and u = u, OF ok t(1,3), of h]
    by (simp add: find_tree_only_keyhash_safe_def Let_def t(4))
  then show ?thesis using d st by blast
qed

lemma index_apart:
  assumes "index_ok f inst" "n < CATEGORY_CNT" "j < CATEGORY_CNT" "n \<noteq> j"
  shows "set (inorder (snd (f n))) \<inter> set (inorder (snd (f j))) = {}"
proof -
  have "\<forall>k\<in>set (inorder (snd (f j))). unat (keyhash k) mod CATEGORY_CNT = j" if "j < CATEGORY_CNT" for j
    using assms(1) that by (simp add: index_ok_def tree_ok_def)
  from this [OF assms(2)] this [OF assms(3)] show ?thesis using assms(4) by fastforce
qed

lemma count_effect:
  assumes i: "index_ok f inst"
  shows "count_tree_safe [0, 0, 0, 0] inst = Some (of_nat (card (index_keys f)), inst\<lparr>curid := 3\<rparr>)"
proof -
  let ?g = "\<lambda>n count. if isvalid_lock ([0, 0, 0, 0] ! n) = RET_OK
    then do { c \<leftarrow> count_node_recursive_unsafe (mem (tree_of inst n)) (rooti (tree_of inst n)); Some (Inl (count + c)) }
    else Some (Inl count) :: (u32 + u32) option"
  have g: "?g n count = Some (Inl (count + of_nat (length (inorder (snd (f n))))))" if n: "n < CATEGORY_CNT" for n count
  proof -
    obtain h where t: "shape 1 h (snd (f n))" "sorted_wrt (<) (inorder (snd (f n)))"
      "rep (cat_id (categories inst ! n)) (mem (tree_of inst n)) (snd (f n))"
      "rooti (tree_of inst n) = root_of (cat_id (categories inst ! n)) (snd (f n))"
      by (rule index_tree [OF i n])
    have "[0, 0, 0, 0] ! n = (0 :: int)" using n by (auto simp: less_Suc_eq numeral_eq_Suc)
    then show ?thesis using count_refines [OF t(1,3)] by (simp add: t(4))
  qed
  have "ofold ?g [0..<CATEGORY_CNT] 0 = Some (Inl (fold (\<lambda>n c. c + of_nat (length (inorder (snd (f n))))) [0..<CATEGORY_CNT] 0))"
    by (rule ofold_Inl) (use g in simp)
  moreover have "card (index_keys f) = (\<Sum>n<CATEGORY_CNT. length (inorder (snd (f n))))"
  proof -
    have "card (index_keys f) = (\<Sum>n<CATEGORY_CNT. card (set (inorder (snd (f n)))))"
      unfolding index_keys_def
      by (rule card_UN_disjoint) (use index_apart [OF i] in auto)
    moreover have "card (set (inorder (snd (f n)))) = length (inorder (snd (f n)))" if "n < CATEGORY_CNT" for n
      using i that by (intro tree_card) (simp add: index_ok_def tree_ok_def)
    ultimately show ?thesis by simp
  qed
  ultimately show ?thesis unfolding count_tree_safe_def fold_add
    by (simp add: sum_list_sum_nth [of "map _ _"] lessThan_atLeast0 interv_sum_list_conv_sum_set_nat)
qed

end
