(* ===== verification/Tree_Create.thy ===== *)
theory Tree_Create
  imports Tree_Index
begin

text \<open>
  Creating the index (\<open>create_tree_unsafe\<close>): on freshly formatted categories the index is empty, and on
  categories that hold an index the same one is found again. Then the index as a set of keys: an
  interface, its interpretation by the operations on the trees, and the properties.
\<close>

section \<open>A block on an untouched page\<close>

lemma fresh_alloc:
  assumes c: "cat_ok cid m" and e: "page_empty m 1" "\<not> is_bit m SYSPAGE_ERR 1" and sz: "1 \<le> sz" "sz \<le> 32"
  obtains a m' where "shmalloc now cid sz m = (Some a, m')" "alloc_effect cid (align4 sz) m a m'"
    "user_len m' a = align4 sz" "\<forall>i<align4 sz. m' (user_addr a + i) = 0"
proof -
  let ?P = "MMPOS_USRPAGE 1" and ?al = "align4 sz"
  have al: "4 \<le> ?al" "?al \<le> 32" using sz unfolding align4_def by (simp, presburger)+
  obtain E us fs bk where p: "page_ok cid m ?P E us fs bk"
  proof -
    have "(1 :: nat) \<in> {1..<PAGE_CNT}" by simp
    then have "\<exists>E us fs bk. page_ok cid m ?P E us fs bk" using c e(2) unfolding cat_ok_def page_inv_def by blast
    then show ?thesis using that by blast
  qed
  have bkl: "131016 - bk = MMSIZ_BCKT_INIT_SIZE" "168 \<le> bk" "bk \<le> 131016"
    using bucket_len_eq [OF p] e(1) page_okD(1) [OF p] by (simp_all add: page_empty_def geometry_def)
  then have bk: "bk = 168" by linarith
  have "us @ fs = []"
  proof (rule ccontr)
    assume "us @ fs \<noteq> []"
    then obtain a where "a \<in> set (us @ fs)" by (meson last_in_set)
    then show False using page_okD(1) [OF p] bk unfolding geometry_def by fastforce
  qed
  then have emp: "us = []" "fs = []" by simp_all
  obtain o1 m1 where r1: "(if is_bit m FREE_000 1 then operate_recycle ?P ?al m else (0, m)) = (o1, m1)"
    by (metis surj_pair)
  have o1: "o1 = 0" "m1 = m"
    using r1 operate_recycle_ok [OF p, of ?al o1 m1] emp by (auto split: if_splits)
  obtain o2 m2 where oi: "operate_insert now cid ?P ?al m = (o2, m2)" by (metis surj_pair)
  have room: "?al + 32 \<le> 131016 - bk" using al bk by simp
  note ins = insert_page_ok [OF p al(1) room oi, unfolded bk emp]
  have dc: "is_bit m DC_032 1" using e(1) by (simp add: page_empty_def)
  have "alloc_from_page now cid ?al (DC_032, FREE_000) 1 m = (Some (Some (1, 168)), m2)"
    using r1 oi dc e(2) ins(1) o1 by (simp add: alloc_from_page_def Let_def del: One_nat_def)
  moreover have "drop (start_bmp_id ?al) bitmapids = (DC_032, FREE_000) # tl bitmapids"
    using al(2) by (simp add: start_bmp_id_def bitmapids_def)
  moreover have "[1..<PAGE_CNT] = 1 # [Suc 1..<PAGE_CNT]" by (rule upt_conv_Cons) simp
  moreover have "\<not> (sz = 0 \<or> sz > 2048)" using sz by simp
  ultimately have s: "shmalloc now cid sz m = (Some (1, 168), m2)"
    by (simp only: shmalloc_def if_False concat.simps list.map append_Cons alloc_scan.simps prod.case option.case)
  have ef: "alloc_effect cid ?al m (1, 168) m2" using shmalloc_ok [OF c s] by simp
  have "block m2 (1, 168) = {?P + 168 + 16 ..< ?P + 168 + (?al + 32) - 16}"
    using block_bounds(1) [OF ins(2), of 168] by simp
  then have "card (block m2 (1, 168)) = card {?P + 168 + 16 ..< ?P + 168 + (?al + 32) - 16}" by (rule arg_cong)
  then have "user_len m2 (1, 168) = ?al" by (simp add: block_def)
  moreover have "\<forall>i<?al. m2 (user_addr (1, 168) + i) = 0" using ins(4) by (simp add: user_addr_def)
  ultimately show ?thesis using that s ef by blast
qed

lemma formatted_page: "page_empty (formatted idx now) 1"
proof -
  have "used_in cid empty_file 1 = {}" for cid using empty_file_openable(2) [of cid] by (auto simp: all_blocks_def)
  then show ?thesis using formatted_keeps [of 0 idx now, unfolded keeps_blocks_def] by auto
qed

text \<open>A root without a tree in a new block.\<close>

lemma st32_same: "ld32 m a = v \<Longrightarrow> st32 a v m = m"
proof
  fix i
  assume v: "ld32 m a = v"
  then have t: "to_le 4 v = ld_bytes m a 4" by (auto simp: ld32_def to_le_of_le)
  show "st32 a v m i = m i" unfolding st32_def t by (auto simp: st_bytes_def)
qed

lemma of_le_zero: "of_le (replicate n 0) = 0"
  by (induction n) simp_all

lemma ld_noff_zero: "\<forall>i<6. m (a + i) = 0 \<Longrightarrow> ld_noff m a = empty_node"
proof -
  assume z: "\<forall>i<6. m (a + i) = 0"
  have "ld_bytes m (a + k) n = replicate n 0" if "k + n \<le> 6" for k n
    by (rule nth_equalityI) (use z that in \<open>simp_all add: add.assoc\<close>)
  from this [of 1 2] this [of 3 3] show ?thesis
    using z [rule_format, of 0] by (simp add: ld_noff_def empty_node_def ld16_def of_le_zero)
qed

lemma create_tree_itm_fresh:
  assumes c: "cat_ok cid m" "live cid m = {}" and e: "page_empty m 1" "\<forall>n\<in>{1..<PAGE_CNT}. \<not> is_bit m SYSPAGE_ERR n"
    and sl: "0 < slots m"
  obtains ib a m' where "create_tree_itm now cid m = Some (a, m')" "a = user_addr ib" "live cid m' = {ib}"
    "slots m \<le> Suc (slots m')" "user_len m' ib = 16" "\<forall>n\<in>{1..<PAGE_CNT}. \<not> is_bit m' SYSPAGE_ERR n"
    "\<And>s. category s = cid \<Longrightarrow> root_itm s = a \<Longrightarrow> mem s = m' \<Longrightarrow> tree_ok n cid ib Leaf s"
proof -
  have "attach SIZEOF_TREE_ITM SMMR_TREEROOT_ID m = None"
    using attach_live [OF c(1) e(2), of 16 SMMR_TREEROOT_ID] c(2) by (simp split: option.splits)
  moreover obtain ib m1 where a: "shmalloc now cid 16 m = (Some ib, m1)" "alloc_effect cid (align4 16) m ib m1"
    "user_len m1 ib = align4 16" "\<forall>i<align4 16. m1 (user_addr ib + i) = 0"
    by (rule fresh_alloc [OF c(1) e(1), of 16 now]) (use e(2) in simp_all)
  let ?a = "user_addr ib"
  let ?m = "st32 ?a SMMR_TREEROOT_ID m1"
  have ua: "MMPOS_USRPAGE (fst ib) + snd ib + SIZEOF_HEAD = ?a" by (simp add: user_addr_def)
  ultimately have cr: "create_tree_itm now cid m = Some (?a, ?m)"
    using ua a(1) by (cases ib) (simp add: create_tree_itm_def Let_def)
  have l: "user_len m1 ib = 16" using a(3) by (simp add: align4_def)
  have c1: "cat_ok cid m1" "live cid m1 = {ib}" using a(2) c(2) by (simp_all add: alloc_effect_def)
  have out: "?m i = m1 i" if "i \<notin> block m1 ib" for i
    by (rule st32_outside) (use that l in \<open>auto simp: block_def\<close>)
  have sh: "same_heap cid m1 ?m"
    by (rule user_writes_ok [of "{ib}"]) (use c1 out in simp_all)
  then have c2: "cat_ok cid ?m" "live cid ?m = {ib}" "block ?m ib = block m1 ib"
    using c1 by (auto simp: same_heap_def)
  have l2: "user_len ?m ib = 16" using user_len_block [OF c2(3)] l by simp
  obtain b m2 where "shmalloc now cid 16 m = (Some b, m2)" "slots m \<le> Suc (slots m2)"
    by (rule shmalloc_slots [OF c(1) _ _ sl, of 16 now]) simp_all
  then have sl1: "slots m \<le> Suc (slots ?m)" using a(1) same_heap_slots [OF sh] by simp
  have z: "?m (?a + i) = 0" if "4 \<le> i" "i < 16" for i
    using a(4) that by (simp add: st32_outside align4_def)
  have "tree_ok n cid ib Leaf s" if s: "category s = cid" "root_itm s = ?a" "mem s = ?m" for s :: tree_cur
  proof -
    have "ld_noff ?m (?a + 4) = empty_node"
      by (rule ld_noff_zero) (use z in \<open>simp add: add.assoc\<close>)
    moreover have "ld32 ?m ?a = SMMR_TREEROOT_ID" by (simp add: ld32_st32_same)
    moreover have "\<exists>h. shape 1 h (Leaf :: ntree)" by (rule exI [of _ 0]) simp
    ultimately show ?thesis
      using s c2 l2 by (simp add: tree_ok_def tree_in_def tree_pre_def itm_blk_def rooti_def dis_def)
  qed
  moreover have "\<forall>n\<in>{1..<PAGE_CNT}. \<not> is_bit ?m SYSPAGE_ERR n"
    using sh a(2) e(2) by (simp add: same_heap_def alloc_effect_def)
  ultimately show ?thesis using that cr c2(2) sl1 l2 by blast
qed

text \<open>The loop over the categories. The root's block is the only one in use.\<close>

definition only_root :: "u32 \<Rightarrow> blk \<Rightarrow> mem \<Rightarrow> bool" where
  "only_root cid ib m \<longleftrightarrow> live cid m = {ib} \<and> user_len m ib = SIZEOF_TREE_ITM \<and>
     (\<forall>n\<in>{1..<PAGE_CNT}. \<not> is_bit m SYSPAGE_ERR n)"

definition new_tree :: "nat \<Rightarrow> u32 \<Rightarrow> blk \<Rightarrow> tree_cur \<Rightarrow> bool" where
  "new_tree n cid ib s \<longleftrightarrow> tree_ok n cid ib Leaf s \<and> only_root cid ib (mem s) \<and> 1023 * 1363 - 1 \<le> slots (mem s)"

lemma create_trees_fresh:
  assumes "n \<le> CATEGORY_CNT" "length (categories inst) = CATEGORY_CNT" "length (itm inst) = CATEGORY_CNT"
    "length (itm_p inst) = CATEGORY_CNT"
    and "\<forall>j<CATEGORY_CNT. filefd (categories inst ! j) \<noteq> INVALID_SOCKET \<and> data_pointer (categories inst ! j) \<noteq> None"
    and "\<forall>j<n. new_tree j (cat_id (categories inst ! j)) (g j) (tree_of inst j)"
    and "\<forall>j<CATEGORY_CNT. n \<le> j \<longrightarrow> data_pointer (categories inst ! j) = Some (formatted j t)"
  shows "\<exists>g inst'. create_trees now [n..<CATEGORY_CNT] inst = Inr inst' \<and> index_ok (\<lambda>j. (g j, Leaf)) inst' \<and>
    (\<forall>j<CATEGORY_CNT. new_tree j (cat_id (categories inst' ! j)) (g j) (tree_of inst' j))"
  using assms
proof (induction "CATEGORY_CNT - n" arbitrary: n inst g)
  case 0
  then have "n = CATEGORY_CNT" by simp
  moreover have "index_ok (\<lambda>j. (g j, Leaf)) inst"
    using 0 by (auto simp: index_ok_def categories_attached_def in_set_conv_nth new_tree_def)
  ultimately show ?case using 0 by (intro exI [of _ g] exI [of _ inst]) simp
next
  case (Suc k)
  then have n: "n < CATEGORY_CNT" by simp
  let ?c = "categories inst ! n" and ?m = "formatted n t"
  have d: "data_pointer ?c = Some ?m" using Suc.prems(7) n by blast
  obtain ib a m' where cr: "create_tree_itm now (cat_id ?c) ?m = Some (a, m')" "a = user_addr ib"
    "live (cat_id ?c) m' = {ib}" "slots ?m \<le> Suc (slots m')" "user_len m' ib = 16"
    "\<forall>n\<in>{1..<PAGE_CNT}. \<not> is_bit m' SYSPAGE_ERR n"
    "\<And>s. category s = cat_id ?c \<Longrightarrow> root_itm s = a \<Longrightarrow> mem s = m' \<Longrightarrow> tree_ok n (cat_id ?c) ib Leaf s"
  proof (rule create_tree_itm_fresh [OF formatted_ok(1,2) formatted_page formatted_ok(3), of n t now "cat_id ?c" n])
    show "0 < slots ?m" by (simp add: formatted_slots)
  qed (rule that)
  let ?inst = "inst\<lparr>curid := n, categories := (categories inst)[n := ?c\<lparr>data_pointer := Some m'\<rparr>], itm := (itm inst)[n := a]\<rparr>"
  have e: "create_trees now [n..<CATEGORY_CNT] inst = create_trees now [Suc n..<CATEGORY_CNT] ?inst"
    using n d cr(1) by (simp add: upt_conv_Cons Let_def)
  have other: "tree_of ?inst j = tree_of inst j" if "j \<noteq> n" for j using that by (simp add: tree_of_def)
  let ?g = "g(n := ib)"
  have k: "k = CATEGORY_CNT - Suc n" using Suc.hyps(2) by simp
  have "\<forall>j<Suc n. new_tree j (cat_id (categories ?inst ! j)) (?g j) (tree_of ?inst j)"
  proof (intro allI impI)
    fix j
    assume j: "j < Suc n"
    show "new_tree j (cat_id (categories ?inst ! j)) (?g j) (tree_of ?inst j)"
    proof (cases "j = n")
      case True
      have "tree_ok n (cat_id ?c) ib Leaf (tree_of ?inst n)" using n Suc.prems(2,3) by (intro cr(7)) simp_all
      moreover have "1023 * 1363 - 1 \<le> slots m'" using cr(4) formatted_slots [of n t] by simp
      ultimately show ?thesis using True n Suc.prems(2) cr(3,5,6) by (simp add: new_tree_def only_root_def)
    next
      case False
      then show ?thesis using Suc.prems(6) j other [OF False] by simp
    qed
  qed
  from Suc.hyps(1) [OF k _ _ _ _ _ this] show ?case
    unfolding e using n Suc.prems(2-5,7) by (auto simp: nth_list_update)
qed

text \<open>
  What \<open>attach\<close> relies on: no page is in error, the root's block has the exact size, and no other
  block in use has this size and starts with the signature.
\<close>

definition roots_unique :: "(nat \<Rightarrow> blk \<times> ntree) \<Rightarrow> tree_instance \<Rightarrow> bool" where
  "roots_unique f inst \<longleftrightarrow> (\<forall>n<CATEGORY_CNT.
     let cid = cat_id (categories inst ! n); m = mem (tree_of inst n) in
     (\<forall>p\<in>{1..<PAGE_CNT}. \<not> is_bit m SYSPAGE_ERR p) \<and> user_len m (fst (f n)) = SIZEOF_TREE_ITM \<and>
     (\<forall>b\<in>live cid m. user_len m b = SIZEOF_TREE_ITM \<and> ld32 m (user_addr b) = SMMR_TREEROOT_ID \<longrightarrow> b = fst (f n)))"

lemma create_tree_on_formatted:
  assumes "length cats = CATEGORY_CNT" "\<forall>j<CATEGORY_CNT. filefd (cats ! j) \<noteq> INVALID_SOCKET \<and> data_pointer (cats ! j) = Some (formatted j t)"
  obtains f inst where "create_tree_unsafe 0 now cats = Inr inst" "index_ok f inst" "index_keys f = {}" "room_for 100000 f inst"
    "roots_unique f inst"
proof -
  note result = that
  have "\<exists>g inst'. create_tree_unsafe 0 now cats = Inr inst' \<and> index_ok (\<lambda>j. (g j, Leaf)) inst' \<and>
    (\<forall>j<CATEGORY_CNT. new_tree j (cat_id (categories inst' ! j)) (g j) (tree_of inst' j))"
    unfolding create_tree_unsafe_def Let_def isvalid_lock_OK
    by (simp only: refl if_True, rule create_trees_fresh [where n = 0 and t = t]) (use assms in simp_all)
  then obtain g inst where i: "create_tree_unsafe 0 now cats = Inr inst" "index_ok (\<lambda>j. (g j, Leaf)) inst"
    "\<forall>j<CATEGORY_CNT. new_tree j (cat_id (categories inst ! j)) (g j) (tree_of inst j)" by blast
  let ?f = "\<lambda>j. (g j, Leaf :: ntree)"
  have k: "index_keys ?f = {}" by (simp add: index_keys_def)
  have "room_for 100000 ?f inst"
  proof (rule room_forI [of _ _ 10])
    show "Suc (card (index_keys ?f) + 100000) < 2 * 3 ^ 10" by (simp add: k)
    show "100000 * Suc 10 \<le> slots (mem (tree_of inst n))" if "n < CATEGORY_CNT" for n
      using i(3) that unfolding new_tree_def by fastforce
  qed
  moreover have "roots_unique ?f inst"
    using i(3) by (simp add: roots_unique_def new_tree_def only_root_def Let_def)
  ultimately show ?thesis using i(1,2) k by (intro result)
qed

section \<open>The index of an earlier run\<close>

lemma create_tree_itm_again:
  assumes i: "index_ok f inst" and r: "roots_unique f inst" and n: "n < CATEGORY_CNT"
    and m: "data_pointer (categories inst ! n) = Some m"
  shows "create_tree_itm now (cat_id (categories inst ! n)) m = Some (itm inst ! n, m)"
proof -
  let ?cid = "cat_id (categories inst ! n)"
  have t: "tree_ok n ?cid (fst (f n)) (snd (f n)) (tree_of inst n)" using i n by (simp add: index_ok_def)
  have mm: "mem (tree_of inst n) = m" using m by simp
  have c: "cat_ok ?cid m" "fst (f n) \<in> live ?cid m" "itm inst ! n = user_addr (fst (f n))"
    "ld32 m (itm inst ! n) = SMMR_TREEROOT_ID"
    using t unfolding tree_ok_def tree_in_def tree_pre_def itm_blk_def mm tree_of_sel(1,2) by blast+
  have u: "\<forall>p\<in>{1..<PAGE_CNT}. \<not> is_bit m SYSPAGE_ERR p" "user_len m (fst (f n)) = SIZEOF_TREE_ITM"
    "\<forall>b\<in>live ?cid m. user_len m b = SIZEOF_TREE_ITM \<and> ld32 m (user_addr b) = SMMR_TREEROOT_ID \<longrightarrow> b = fst (f n)"
    using r [unfolded roots_unique_def Let_def, THEN spec, THEN mp, OF n, unfolded mm] by simp_all
  have a4: "align4 SIZEOF_TREE_ITM = SIZEOF_TREE_ITM" by (simp add: align4_def)
  have "attach SIZEOF_TREE_ITM SMMR_TREEROOT_ID m = Some (itm inst ! n)"
  proof (cases "attach SIZEOF_TREE_ITM SMMR_TREEROOT_ID m")
    case None
    then show ?thesis
      using attach_live [OF c(1) u(1), of SIZEOF_TREE_ITM SMMR_TREEROOT_ID, unfolded a4] u(2) c(2-4) by fastforce
  next
    case (Some p)
    then obtain b where "b \<in> live ?cid m" "p = user_addr b" "user_len m b = SIZEOF_TREE_ITM" "ld32 m p = SMMR_TREEROOT_ID"
      using attach_live [OF c(1) u(1), of SIZEOF_TREE_ITM SMMR_TREEROOT_ID, unfolded a4] by auto
    then show ?thesis using u(3) c(3) Some by simp
  qed
  then show ?thesis by (simp add: create_tree_itm_def st32_same [OF c(4)])
qed

lemma create_tree_again:
  assumes i: "index_ok f inst" and r: "roots_unique f inst"
  obtains inst' where "create_tree_unsafe 0 now (categories inst) = Inr inst'" "categories inst' = categories inst"
    "itm inst' = itm inst" "index_ok f inst'"
proof -
  have l: "length (categories inst) = 4" "length (itm inst) = 4" using i by (simp_all add: index_ok_def categories_attached_def)
  have st: "create_trees now (n # ns) x =
      create_trees now ns (x\<lparr>curid := n, itm := (itm x)[n := itm inst ! n]\<rparr>)"
    if "categories x = categories inst" "n < CATEGORY_CNT" for n ns x
  proof -
    have "data_pointer (categories inst ! n) \<noteq> None"
      using i that(2) by (simp add: index_ok_def categories_attached_def)
    then obtain m where m: "data_pointer (categories inst ! n) = Some m" by blast
    then have "(categories inst ! n)\<lparr>data_pointer := Some m\<rparr> = categories inst ! n" by simp
    then have "x\<lparr>curid := n, categories := (categories x)[n := (categories x ! n)\<lparr>data_pointer := Some m\<rparr>],
        itm := (itm x)[n := itm inst ! n]\<rparr> = x\<lparr>curid := n, itm := (itm x)[n := itm inst ! n]\<rparr>"
      using that(1) by simp
    then show ?thesis using m create_tree_itm_again [OF i r that(2) m, of now] that(1) by (simp add: Let_def)
  qed
  let ?p = "replicate CATEGORY_CNT \<lparr>current_item = node_key 0 0 0, item_done = False, deleted = False, undersize = False\<rparr>"
  let ?inst = "\<lparr>categories = categories inst, curid = 3, itm = itm inst, itm_p = ?p\<rparr>"
  have u: "[0..<CATEGORY_CNT] = [0, 1, 2, 3]" by (simp add: upt_rec)
  have it: "((((replicate CATEGORY_CNT 0)[0 := itm inst ! 0])[1 := itm inst ! 1])[2 := itm inst ! 2])[3 := itm inst ! 3] = itm inst"
    by (rule nth_equalityI) (use l in \<open>auto simp: nth_list_update less_Suc_eq numeral_eq_Suc\<close>)
  have "create_tree_unsafe 0 now (categories inst) = Inr ?inst"
    unfolding create_tree_unsafe_def Let_def u using it by (simp add: st del: create_trees.simps(2))
  moreover have "index_ok f ?inst"
  proof -
    have "tree_ok n (cat_id (categories inst ! n)) (fst (f n)) (snd (f n)) (tree_of ?inst n)" if "n < CATEGORY_CNT" for n
    proof -
      have "tree_ok n (cat_id (categories inst ! n)) (fst (f n)) (snd (f n)) (tree_of inst n)"
        using i that by (simp add: index_ok_def)
      moreover have "tree_in cid ib t (tree_of ?inst n) = tree_in cid ib t (tree_of inst n)" for cid ib t
        by (rule tree_in_cong) simp_all
      ultimately show ?thesis by (simp add: tree_ok_def)
    qed
    then show ?thesis using i by (simp add: index_ok_def)
  qed
  ultimately show ?thesis using that by simp
qed

end
