(* ===== verification/Tree_Set.thy ===== *)
theory Tree_Set
  imports Tree_Create
begin

text \<open>
  The index as a set of keys. The interface \<open>key_set\<close> says what an insertion, a deletion and a
  look-up promise; a client's run of them is a run on a set. The operations of \<open>smmr_tree.c\<close>
  provide it, so that a run on the shared memory, from the moment the categories are formatted, gives
  the answers that a set would give.
\<close>

section \<open>The interface\<close>

datatype 'k key_op = Insert 'k | Delete 'k | Member 'k

fun op_key :: "'k key_op \<Rightarrow> 'k" where
  "op_key (Insert k) = k"
| "op_key (Delete k) = k"
| "op_key (Member k) = k"

fun inserts :: "'k key_op list \<Rightarrow> nat" where
  "inserts [] = 0"
| "inserts (Insert k # ops) = Suc (inserts ops)"
| "inserts (_ # ops) = inserts ops"

text \<open>A run: the answers to its look-ups and the final state.\<close>

fun set_run :: "'k key_op list \<Rightarrow> 'k set \<Rightarrow> bool list \<times> 'k set" where
  "set_run [] K = ([], K)"
| "set_run (Insert k # ops) K = set_run ops (insert k K)"
| "set_run (Delete k # ops) K = set_run ops (K - {k})"
| "set_run (Member k # ops) K = (let (bs, K') = set_run ops K in ((k \<in> K) # bs, K'))"

fun key_run ::
  "('k \<Rightarrow> 's \<Rightarrow> 's option) \<Rightarrow> ('k \<Rightarrow> 's \<Rightarrow> 's option) \<Rightarrow> ('k \<Rightarrow> 's \<Rightarrow> (bool \<times> 's) option) \<Rightarrow>
     'k key_op list \<Rightarrow> 's \<Rightarrow> (bool list \<times> 's) option" where
  "key_run add del has [] s = Some ([], s)"
| "key_run add del has (Insert k # ops) s = do { s \<leftarrow> add k s; key_run add del has ops s }"
| "key_run add del has (Delete k # ops) s = do { s \<leftarrow> del k s; key_run add del has ops s }"
| "key_run add del has (Member k # ops) s =
     do { (b, s) \<leftarrow> has k s; (bs, s) \<leftarrow> key_run add del has ops s; Some (b # bs, s) }"

text \<open>\<open>inv N s K\<close>: the state \<open>s\<close> holds the keys \<open>K\<close> and has room for \<open>N\<close> more.\<close>

locale key_set =
  fixes inv :: "nat \<Rightarrow> 's \<Rightarrow> 'k set \<Rightarrow> bool" and valid :: "'k \<Rightarrow> bool"
    and add del :: "'k \<Rightarrow> 's \<Rightarrow> 's option" and has :: "'k \<Rightarrow> 's \<Rightarrow> (bool \<times> 's) option"
  assumes add: "inv (Suc N) s K \<Longrightarrow> valid k \<Longrightarrow> \<exists>s'. add k s = Some s' \<and> inv N s' (insert k K)"
    and del: "inv N s K \<Longrightarrow> valid k \<Longrightarrow> \<exists>s'. del k s = Some s' \<and> inv N s' (K - {k})"
    and has: "inv N s K \<Longrightarrow> valid k \<Longrightarrow> \<exists>s'. has k s = Some (k \<in> K, s') \<and> inv N s' K"
begin

lemma run_is_set_run:
  "inv (inserts ops + N) s K \<Longrightarrow> \<forall>p\<in>set ops. valid (op_key p) \<Longrightarrow>
    \<exists>s'. key_run add del has ops s = Some (fst (set_run ops K), s') \<and> inv N s' (snd (set_run ops K))"
proof (induction ops arbitrary: s K)
  case (Cons p ops)
  show ?case
  proof (cases p)
    case (Insert k)
    then obtain s1 where "add k s = Some s1" "inv (inserts ops + N) s1 (insert k K)"
      using Cons.prems add [of "inserts ops + N" s K k] by auto
    then show ?thesis using Insert Cons.IH [of s1 "insert k K"] Cons.prems(2) by simp
  next
    case (Delete k)
    then obtain s1 where "del k s = Some s1" "inv (inserts ops + N) s1 (K - {k})"
      using Cons.prems del [of "inserts ops + N" s K k] by auto
    then show ?thesis using Delete Cons.IH [of s1 "K - {k}"] Cons.prems(2) by simp
  next
    case (Member k)
    then obtain s1 where "has k s = Some (k \<in> K, s1)" "inv (inserts ops + N) s1 K"
      using Cons.prems has [of "inserts ops + N" s K k] by auto
    then show ?thesis using Member Cons.IH [of s1 K] Cons.prems(2) by (auto simp: Let_def split: prod.splits)
  qed
qed simp

end

section \<open>The operations on the trees provide it\<close>

definition index_insert :: "u32 \<Rightarrow> node_key \<Rightarrow> tree_instance \<Rightarrow> tree_instance option" where
  "index_insert now k inst = do { (r, inst) \<leftarrow> add_tree_safe 0 now k inst; if r = RET_OK then Some inst else None }"

definition index_delete :: "node_key \<Rightarrow> tree_instance \<Rightarrow> tree_instance option" where
  "index_delete k inst = do { (r, inst) \<leftarrow> remove_tree_safe 0 k inst; if r = RET_OK then Some inst else None }"

text \<open>A look-up with a callback that only says \<open>RET_OK\<close>.\<close>

definition index_member :: "node_key \<Rightarrow> tree_instance \<Rightarrow> (bool \<times> tree_instance) option" where
  "index_member k inst = do { (r, u, inst) \<leftarrow> find_tree_safe 0 k (\<lambda>_ u. (RET_OK, u)) () inst; Some (r = RET_OK, inst) }"

definition index_holds :: "nat \<Rightarrow> tree_instance \<Rightarrow> node_key set \<Rightarrow> bool" where
  "index_holds N inst K \<longleftrightarrow> (\<exists>f. index_ok f inst \<and> index_keys f = K \<and> room_for N f inst)"

lemma index_ok_curid: "index_ok f (inst\<lparr>curid := c\<rparr>) = index_ok f inst"
  by (simp add: index_ok_def)

lemma room_for_curid: "room_for N f (inst\<lparr>curid := c\<rparr>) = room_for N f inst"
  by (simp add: room_for_def)

interpretation index_set:
  key_set index_holds "\<lambda>k. keyhash k \<noteq> 0" "index_insert now" index_delete index_member
proof
  fix N inst K and k :: node_key
  assume h: "keyhash k \<noteq> 0"
  show "\<exists>inst'. index_insert now k inst = Some inst' \<and> index_holds N inst' (insert k K)" if "index_holds (Suc N) inst K"
  proof -
    from that obtain f where f: "index_ok f inst" "index_keys f = K" "room_for (Suc N) f inst"
      by (auto simp: index_holds_def)
    show ?thesis by (rule add_tree_effect [OF f(1) h f(3), of now]) (auto simp: index_insert_def index_holds_def f(2))
  qed
  assume "index_holds N inst K"
  then obtain f where f: "index_ok f inst" "index_keys f = K" "room_for N f inst" by (auto simp: index_holds_def)
  show "\<exists>inst'. index_delete k inst = Some inst' \<and> index_holds N inst' (K - {k})"
    by (rule remove_tree_effect [OF f(1) h f(3)]) (auto simp: index_delete_def index_holds_def f(2))
  show "\<exists>inst'. index_member k inst = Some (k \<in> K, inst') \<and> index_holds N inst' K"
    using f find_tree_effect [OF f(1) h, of "\<lambda>_ u. (RET_OK, u)" "()"]
    by (auto simp: index_member_def index_holds_def index_ok_curid room_for_curid Let_def)
qed

section \<open>Properties\<close>

text \<open>Four categories that have just been formatted.\<close>

definition new_categories :: "category_on_process list" where
  "new_categories = map (\<lambda>n. \<lparr>cat_id = of_nat n, filesize = of_nat CATEGORY_SIZE, filefd = 3, data_pointer = Some (formatted n 0)\<rparr>) [0..<CATEGORY_CNT]"

lemma new_categories_ok:
  "length new_categories = CATEGORY_CNT"
  "\<forall>j<CATEGORY_CNT. filefd (new_categories ! j) \<noteq> INVALID_SOCKET \<and> data_pointer (new_categories ! j) = Some (formatted j 0)"
  by (auto simp: new_categories_def)

lemma new_index:
  obtains f inst where "create_tree_unsafe 0 0 new_categories = Inr inst" "index_ok f inst" "index_keys f = {}"
    "room_for (Suc 99999) f inst" "roots_unique f inst"
  by (rule create_tree_on_formatted [OF new_categories_ok, of 0]) simp


text \<open>C26. The index is a set of keys. On categories that have just been formatted \<open>create_tree_unsafe\<close> makes an
  empty index, and any run of insertions (at most 100000 of them), deletions and look-ups of keys
  with a hash other than 0 returns, allocates what it needs, and answers every look-up as a set
  would; the trees at the end are balanced and sorted and hold exactly the keys of that set.\<close>

theorem index_is_a_set:
  assumes "length cats = CATEGORY_CNT" "\<forall>j<CATEGORY_CNT. filefd (cats ! j) \<noteq> INVALID_SOCKET \<and> data_pointer (cats ! j) = Some (formatted j t)"
    and "\<forall>p\<in>set ops. keyhash (op_key p) \<noteq> 0" "inserts ops \<le> 100000"
  shows "\<exists>inst inst' f. create_tree_unsafe 0 t' cats = Inr inst \<and>
    key_run (index_insert now) index_delete index_member ops inst = Some (fst (set_run ops {}), inst') \<and>
    index_ok f inst' \<and> index_keys f = snd (set_run ops {})"
proof -
  obtain f inst where i: "create_tree_unsafe 0 t' cats = Inr inst" "index_ok f inst" "index_keys f = {}" "room_for 100000 f inst"
    by (rule create_tree_on_formatted [OF assms(1,2)])
  have "inserts ops + (100000 - inserts ops) = 100000" using assms(4) by simp
  then have "index_holds (inserts ops + (100000 - inserts ops)) inst {}" using i(2-4) unfolding index_holds_def by auto
  from index_set.run_is_set_run [OF this, of now] assms(3) show ?thesis
    using i(1) unfolding index_holds_def by blast
qed

theorem index_is_a_set_witness:
  "\<exists>inst inst'. create_tree_unsafe 0 0 new_categories = Inr inst \<and>
    key_run (index_insert 5) index_delete index_member
      [Insert (node_key 8 1 2), Insert (node_key 9 1 2), Member (node_key 8 1 2), Delete (node_key 8 1 2),
       Member (node_key 8 1 2), Member (node_key 9 1 2)] inst = Some ([True, False, True], inst')"
  using index_is_a_set [OF new_categories_ok, of "[Insert (node_key 8 1 2), Insert (node_key 9 1 2), Member (node_key 8 1 2),
      Delete (node_key 8 1 2), Member (node_key 8 1 2), Member (node_key 9 1 2)]" 0 5]
  by auto

text \<open>C27. \<open>add_tree_safe\<close> on a consistent index with room returns \<open>RET_OK\<close>; afterwards the index is
  consistent again, with balanced and sorted trees, and holds the new key besides the old ones; every
  block of the shared memory that is not the index's own keeps its place and its bytes.\<close>

theorem add_tree_inserts:
  assumes "index_ok f inst" "keyhash k \<noteq> 0" "room_for (Suc N) f inst"
  shows "\<exists>f' inst'. add_tree_safe 0 now k inst = Some (RET_OK, inst') \<and> index_ok f' inst' \<and>
    index_keys f' = insert k (index_keys f) \<and> room_for N f' inst' \<and> data_kept f inst inst'"
  by (rule add_tree_effect [OF assms]) blast

theorem add_tree_inserts_witness:
  "\<exists>inst f' inst'. create_tree_unsafe 0 0 new_categories = Inr inst \<and>
    add_tree_safe 0 7 (node_key 10 1 2) inst = Some (RET_OK, inst') \<and> index_ok f' inst' \<and>
    index_keys f' = {node_key 10 1 2}"
proof -
  obtain f inst where i: "create_tree_unsafe 0 0 new_categories = Inr inst" "index_ok f inst" "index_keys f = {}"
    "room_for (Suc 99999) f inst" by (rule new_index)
  from add_tree_inserts [OF i(2) _ i(4), of "node_key 10 1 2" 7] i(1,3) show ?thesis by auto
qed

text \<open>C28. \<open>remove_tree_safe\<close> on a consistent index returns \<open>RET_OK\<close>, whether the key is there or not, and
  \<open>remove_tree_unsafe\<close> does the same without the lock: afterwards the index is consistent, holds the
  keys but this one, has as much room as before, and every other block of the shared memory is as it was.\<close>

theorem remove_tree_deletes:
  assumes "index_ok f inst" "keyhash k \<noteq> 0" "room_for N f inst"
  shows "\<exists>f' inst'. remove_tree_safe 0 k inst = Some (RET_OK, inst') \<and> remove_tree_unsafe k inst = Some (RET_OK, inst') \<and>
    index_ok f' inst' \<and> index_keys f' = index_keys f - {k} \<and> room_for N f' inst' \<and> data_kept f inst inst'"
  by (rule remove_tree_effect [OF assms]) blast

theorem remove_tree_deletes_witness:
  "\<exists>inst inst' f'' inst''. create_tree_unsafe 0 0 new_categories = Inr inst \<and>
    add_tree_safe 0 7 (node_key 10 1 2) inst = Some (RET_OK, inst') \<and>
    remove_tree_safe 0 (node_key 10 1 2) inst' = Some (RET_OK, inst'') \<and> index_ok f'' inst'' \<and> index_keys f'' = {}"
proof -
  obtain f inst where i: "create_tree_unsafe 0 0 new_categories = Inr inst" "index_ok f inst" "index_keys f = {}"
    "room_for (Suc 99999) f inst" by (rule new_index)
  have h: "keyhash (node_key 10 1 2) \<noteq> 0" by simp
  obtain t' inst' where a: "add_tree_safe 0 7 (node_key 10 1 2) inst = Some (RET_OK, inst')"
    and f': "index_ok (f(unat (keyhash (node_key 10 1 2)) mod 4 := (fst (f (unat (keyhash (node_key 10 1 2)) mod 4)), t'))) inst'"
      "index_keys (f(unat (keyhash (node_key 10 1 2)) mod 4 := (fst (f (unat (keyhash (node_key 10 1 2)) mod 4)), t'))) =
        insert (node_key 10 1 2) (index_keys f)"
      "room_for 99999 (f(unat (keyhash (node_key 10 1 2)) mod 4 := (fst (f (unat (keyhash (node_key 10 1 2)) mod 4)), t'))) inst'"
    by (rule add_tree_effect [OF i(2) h i(4), of 7])
  from remove_tree_deletes [OF f'(1) h f'(3)] a f'(2) i(1,3) show ?thesis by auto
qed

text \<open>C29. \<open>find_tree_safe\<close> on a consistent index calls the callback once, for exactly the searched key,
  when the key is there, and returns what the callback returned; it returns \<open>RET_NG\<close> and calls nothing
  when the key is not there. It changes no memory. \<open>count_tree_safe\<close> is the number of keys.\<close>

theorem find_tree_exact:
  assumes "index_ok f inst" "keyhash k \<noteq> 0"
  shows "find_tree_safe 0 k func u inst =
      (let (ret, u') = (if k \<in> index_keys f then func k u else (RET_NG, u))
       in Some (ret, u', inst\<lparr>curid := unat (keyhash k) mod CATEGORY_CNT\<rparr>)) \<and>
    count_tree_safe [0, 0, 0, 0] inst = Some (of_nat (card (index_keys f)), inst\<lparr>curid := 3\<rparr>)"
  using find_tree_effect [OF assms, of func u] count_effect [OF assms(1)] by (rule conjI)

theorem find_tree_exact_witness:
  "\<exists>inst. create_tree_unsafe 0 0 new_categories = Inr inst \<and>
    find_tree_safe 0 (node_key 10 1 2) (\<lambda>k u. (RET_OK, u + 1)) (0 :: nat) inst = Some (RET_NG, 0, inst\<lparr>curid := 2\<rparr>) \<and>
    count_tree_safe [0, 0, 0, 0] inst = Some (0, inst\<lparr>curid := 3\<rparr>)"
proof -
  obtain f inst where i: "create_tree_unsafe 0 0 new_categories = Inr inst" "index_ok f inst" "index_keys f = {}"
    by (rule new_index)
  from find_tree_exact [OF i(2), of "node_key 10 1 2" "\<lambda>k u. (RET_OK, u + 1)" "0 :: nat"] i(1,3) show ?thesis
    by auto
qed

text \<open>C30. The search by hash alone, with a callback that never returns \<open>RET_NG\<close>, calls it once for every
  key of the index with this hash and for no other, although the keys may lie in several nodes. Its
  result is \<open>RET_NG\<close> all the same.\<close>

theorem find_keyhash_visits:
  assumes "index_ok f inst" "h \<noteq> 0" "\<And>k u. fst (func k u) \<noteq> RET_NG"
  shows "\<exists>ks. distinct ks \<and> set ks = {k \<in> index_keys f. keyhash k = h} \<and>
    find_tree_only_keyhash_safe 0 h func u inst =
      Some (RET_NG, fold (\<lambda>k u. snd (func k u)) ks u, inst\<lparr>curid := unat h mod CATEGORY_CNT\<rparr>)"
  by (rule find_hash_effect [OF assms])

theorem find_keyhash_visits_witness:
  "\<exists>inst inst'. create_tree_unsafe 0 0 new_categories = Inr inst \<and>
    add_tree_safe 0 7 (node_key 10 1 2) inst = Some (RET_OK, inst') \<and>
    find_tree_only_keyhash_safe 0 10 (\<lambda>k ks. (RET_OK, k # ks)) [] inst' = Some (RET_NG, [node_key 10 1 2], inst'\<lparr>curid := 2\<rparr>)"
proof -
  obtain f inst where i: "create_tree_unsafe 0 0 new_categories = Inr inst" "index_ok f inst" "index_keys f = {}"
    "room_for (Suc 99999) f inst" by (rule new_index)
  have h: "keyhash (node_key 10 1 2) \<noteq> 0" by simp
  obtain f' inst' where a: "add_tree_safe 0 7 (node_key 10 1 2) inst = Some (RET_OK, inst')" "index_ok f' inst'"
    "index_keys f' = {node_key 10 1 2}"
    by (rule add_tree_effect [OF i(2) h i(4), of 7]) (simp add: i(3))
  have "{k \<in> index_keys f'. keyhash k = 10} = {node_key 10 1 2}" unfolding a(3) by auto
  then obtain ks where ks: "distinct ks" "set ks = {node_key 10 1 2}"
    "find_tree_only_keyhash_safe 0 10 (\<lambda>k ks. (RET_OK, k # ks)) [] inst' = Some (RET_NG, fold (\<lambda>k ks. k # ks) ks [], inst'\<lparr>curid := 2\<rparr>)"
    using find_keyhash_visits [OF a(2), of 10 "\<lambda>k ks. (RET_OK, k # ks)" "[]"] by auto
  from ks(1,2) have "ks = [node_key 10 1 2]" by (cases ks rule: remdups_adj.cases) auto
  then show ?thesis using i(1) a(1) ks(3) by auto
qed

text \<open>C31. A restart finds the index again: when the pages of the categories are intact and only the root's
  block has its size and signature, \<open>create_tree_unsafe\<close> attaches to the root in every category, writes
  nothing new, and the new instance holds the same trees.\<close>

theorem create_tree_attaches:
  assumes "index_ok f inst" "roots_unique f inst"
  shows "\<exists>inst'. create_tree_unsafe 0 now (categories inst) = Inr inst' \<and> categories inst' = categories inst \<and>
    itm inst' = itm inst \<and> index_ok f inst'"
  by (rule create_tree_again [OF assms, of now]) blast

theorem create_tree_attaches_witness:
  "\<exists>inst inst'. create_tree_unsafe 0 0 new_categories = Inr inst \<and> create_tree_unsafe 0 9 (categories inst) = Inr inst' \<and>
    categories inst' = categories inst \<and> itm inst' = itm inst"
proof -
  obtain f inst where i: "create_tree_unsafe 0 0 new_categories = Inr inst" "index_ok f inst" "roots_unique f inst"
    by (rule new_index)
  from create_tree_attaches [OF i(2,3), of 9] i(1) show ?thesis by blast
qed

text \<open>C32. What the operations do when they cannot work. For the hash 0 there is no category: they return
  \<open>RET_NG\<close>. When the lock is not granted, insertion and deletion return \<open>RET_NG\<close> and leave the shared
  memory alone, while both searches return \<open>RET_OK\<close> without having looked at anything.\<close>

theorem tree_operations_fail:
  assumes "index_ok f inst" "keyhash k \<noteq> 0" "lock \<noteq> 0" "keyhash k0 = 0"
  shows "add_tree_safe lock' now k0 inst = Some (RET_NG, inst) \<and> remove_tree_safe lock' k0 inst = Some (RET_NG, inst) \<and>
    find_tree_safe lock' k0 func u inst = Some (RET_NG, u, inst) \<and>
    find_tree_only_keyhash_safe lock' 0 func u inst = Some (RET_NG, u, inst) \<and>
    (\<exists>inst'. add_tree_safe lock now k inst = Some (RET_NG, inst') \<and> categories inst' = categories inst) \<and>
    (\<exists>inst'. remove_tree_safe lock k inst = Some (RET_NG, inst') \<and> categories inst' = categories inst) \<and>
    (\<exists>inst'. find_tree_safe lock k func u inst = Some (RET_OK, u, inst') \<and> categories inst' = categories inst) \<and>
    (\<exists>inst'. find_tree_only_keyhash_safe lock (keyhash k) func u inst = Some (RET_OK, u, inst') \<and>
      categories inst' = categories inst)"
proof -
  have z: "get_category_id_by_hashkey_unsafe (categories inst) 0 = - 1" by (simp add: category_id_eq)
  show ?thesis
    using index_category(1) [OF assms(1,2)] assms(3,4) z
    by (simp add: add_tree_safe_def remove_tree_safe_def find_tree_safe_def find_tree_only_keyhash_safe_def Let_def)
qed

theorem tree_operations_fail_witness:
  "\<exists>inst inst'. create_tree_unsafe 0 0 new_categories = Inr inst \<and>
    add_tree_safe 0 7 (node_key 0 1 2) inst = Some (RET_NG, inst) \<and>
    find_tree_safe 22 (node_key 10 1 2) (\<lambda>k u. (RET_OK, u)) () inst = Some (RET_OK, (), inst')"
proof -
  obtain f inst where i: "create_tree_unsafe 0 0 new_categories = Inr inst" "index_ok f inst" by (rule new_index)
  from tree_operations_fail [OF i(2), of "node_key 10 1 2" 22 "node_key 0 1 2" 0 7 "\<lambda>k u. (RET_OK, u)" "()"] i(1)
  show ?thesis by auto
qed

end
