(* ===== verification/Tree_Visit.thy ===== *)
theory Tree_Visit
  imports Tree_Index "HOL-Library.Sublist"
begin

text \<open>
  The search by hash with a callback that may end it. A callback that returns \<open>RET_NG\<close> ends the search
  in its subtree only, since the results of the nested calls are dropped; so the callback sees some of
  the keys with the hash, in the order of \<open>hash_visit\<close>, and all of them unless one of those it saw made
  it return \<open>RET_NG\<close>. \<open>P\<close> is what the caller knows of the data of the callback all along.
\<close>

definition stopped :: "('u \<Rightarrow> bool) \<Rightarrow> 'u on_finded_callback \<Rightarrow> node_key list \<Rightarrow> 'u \<Rightarrow> 'u \<Rightarrow> bool" where
  "stopped P func ks u u' \<longleftrightarrow> P u' \<and> (\<exists>ks'. subseq ks' ks \<and> u' = fold (\<lambda>k u. snd (func k u)) ks' u \<and>
     (\<exists>k\<in>set ks'. \<exists>v. P v \<and> fst (func k v) = RET_NG))"

definition visits :: "('u \<Rightarrow> bool) \<Rightarrow> 'u on_finded_callback \<Rightarrow> node_key list \<Rightarrow> 'u \<Rightarrow> 'u \<Rightarrow> bool" where
  "visits P func ks u u' \<longleftrightarrow> P u' \<and> u' = fold (\<lambda>k u. snd (func k u)) ks u \<or> stopped P func ks u u'"

lemma stopped_P: "stopped P func ks u u' \<Longrightarrow> P u'"
  by (simp add: stopped_def)

lemma visits_P: "visits P func ks u u' \<Longrightarrow> P u'"
  by (auto simp: visits_def stopped_def)

lemma visits_Nil: "P u \<Longrightarrow> visits P func [] u u"
  by (simp add: visits_def)

lemma stopped_append: "stopped P func A u u' \<Longrightarrow> stopped P func (A @ B) u u'"
proof -
  assume "stopped P func A u u'"
  then obtain ks' where k: "P u'" "subseq ks' A" "u' = fold (\<lambda>k u. snd (func k u)) ks' u"
    "\<exists>k\<in>set ks'. \<exists>v. P v \<and> fst (func k v) = RET_NG"
    unfolding stopped_def by blast
  have "subseq (ks' @ []) (A @ B)" using k(2) by (rule list_emb_append_mono) simp
  then show ?thesis unfolding stopped_def using k by (intro conjI exI [of _ ks']) simp_all
qed

lemma visits_stopped: "visits P func A u u1 \<Longrightarrow> stopped P func B u1 u2 \<Longrightarrow> stopped P func (A @ B) u u2"
proof -
  assume a: "visits P func A u u1" and b: "stopped P func B u1 u2"
  obtain ks1 where k1: "subseq ks1 A" "u1 = fold (\<lambda>k u. snd (func k u)) ks1 u"
    using a unfolding visits_def stopped_def by blast
  obtain ks2 where k2: "subseq ks2 B" "u2 = fold (\<lambda>k u. snd (func k u)) ks2 u1" "\<exists>k\<in>set ks2. \<exists>v. P v \<and> fst (func k v) = RET_NG"
    using b unfolding stopped_def by blast
  have "subseq (ks1 @ ks2) (A @ B)" using k1(1) k2(1) by (rule list_emb_append_mono)
  moreover have "u2 = fold (\<lambda>k u. snd (func k u)) (ks1 @ ks2) u" using k1(2) k2(2) by simp
  ultimately show ?thesis using stopped_P [OF b] k2(3) unfolding stopped_def
    by (intro conjI exI [of _ "ks1 @ ks2"]) auto
qed

lemma visits_append: "visits P func A u u1 \<Longrightarrow> visits P func B u1 u2 \<Longrightarrow> visits P func (A @ B) u u2"
proof -
  assume a: "visits P func A u u1" and b: "visits P func B u1 u2"
  show ?thesis
  proof (cases "stopped P func B u1 u2")
    case True
    then show ?thesis using visits_stopped [OF a] by (simp add: visits_def)
  next
    case False
    then have u2: "P u2" "u2 = fold (\<lambda>k u. snd (func k u)) B u1" using b unfolding visits_def by blast+
    show ?thesis
    proof (cases "stopped P func A u u1")
      case True
      then obtain ks where k: "subseq ks A" "u1 = fold (\<lambda>k u. snd (func k u)) ks u" "\<exists>k\<in>set ks. \<exists>v. P v \<and> fst (func k v) = RET_NG"
        unfolding stopped_def by blast
      have "subseq (ks @ B) (A @ B)" using k(1) by (intro list_emb_append_mono) simp_all
      then have "stopped P func (A @ B) u u2"
        unfolding stopped_def using u2 k(2,3) by (intro conjI exI [of _ "ks @ B"]) auto
      then show ?thesis by (simp add: visits_def)
    next
      case nostop: False
      then show ?thesis using a u2 by (simp add: visits_def)
    qed
  qed
qed

lemma stops_here: "P u \<Longrightarrow> P u' \<Longrightarrow> func k u = (RET_NG, u') \<Longrightarrow> stopped P func (k # ks) u u'"
  unfolding stopped_def by (intro conjI exI [of _ "[k]"]) auto

lemma visits_one: "P (snd (func k u)) \<Longrightarrow> visits P func [k] u (snd (func k u))"
  by (simp add: visits_def)

lemma set_weave: "length ts = Suc (length ks) \<Longrightarrow> set (weave ts ks) = (\<Union>t\<in>set ts. set t) \<union> set ks"
proof (induction ks arbitrary: ts)
  case Nil
  then show ?case by (auto simp: length_Suc_conv)
next
  case (Cons k ks)
  then show ?case by (cases ts) auto
qed

text \<open>The loop of a node: \<open>g p\<close> are the keys visited for the position \<open>p\<close>.\<close>

lemma ofold_visits:
  assumes "\<forall>p\<in>set ps. \<forall>u. P u \<longrightarrow> (\<exists>r. f p u = Some r \<and>
      (case r of Inl u' \<Rightarrow> visits P func (g p) u u' | Inr u' \<Rightarrow> stopped P func (g p) u u'))"
  shows "P u \<Longrightarrow> \<exists>r. ofold f ps u = Some r \<and>
    (case r of Inl u' \<Rightarrow> visits P func (concat (map g ps)) u u' | Inr u' \<Rightarrow> stopped P func (concat (map g ps)) u u')"
  using assms
proof (induction ps arbitrary: u)
  case Nil
  then show ?case by (simp add: visits_Nil)
next
  case (Cons p ps)
  obtain r where r: "f p u = Some r"
    "case r of Inl u' \<Rightarrow> visits P func (g p) u u' | Inr u' \<Rightarrow> stopped P func (g p) u u'"
    using Cons.prems by (meson list.set_intros(1))
  show ?case
  proof (cases r)
    case (Inr u1)
    then show ?thesis using r stopped_append by fastforce
  next
    case (Inl u1)
    then have v: "visits P func (g p) u u1" using r by simp
    obtain r2 where r2: "ofold f ps u1 = Some r2"
      "case r2 of Inl u' \<Rightarrow> visits P func (concat (map g ps)) u1 u' | Inr u' \<Rightarrow> stopped P func (concat (map g ps)) u1 u'"
      using Cons.IH [OF visits_P [OF v]] Cons.prems(2) by auto
    then show ?thesis using r(1) Inl visits_append [OF v] visits_stopped [OF v] by (cases r2) auto
  qed
qed

lemma hash_search_visits:
  "shape lo h' t \<Longrightarrow> rep cid m t \<Longrightarrow> P u \<Longrightarrow>
    (\<forall>k\<in>set (inorder t). keyhash k = h \<longrightarrow> (\<forall>u. P u \<longrightarrow> P (snd (func k u)))) \<Longrightarrow>
    \<exists>rc u'. search_item_only_keyhash_recurcive m h func (root_of cid t) u = Some (rc, u') \<and>
      visits P func (hash_visit h t) u u'"
proof (induction h' arbitrary: lo t u)
  case 0
  then show ?case by (subst search_item_only_keyhash_recurcive.simps) (simp add: visits_Nil)
next
  case (Suc h')
  obtain b ks ts where t: "t = Node b ks ts" and n: "length ts = Suc (length ks)" "\<forall>t\<in>set ts. shape 2 h' t"
    using shapeE [OF Suc.prems(1)] by metis
  note rn = rep_node [OF Suc.prems(2) [unfolded t] n(1) refl]
  let ?pos = "length (takeWhile (\<lambda>k. keyhash k < h) ks)" and ?n = "length ks"
  have pos: "hash_pos m (user_addr b) h = ?pos"
    using hash_pos_take [of ks ?n "node_keys m (user_addr b)" 0 h] rn(4,11) by (simp add: hash_pos_def)
  have posn: "?pos \<le> ?n" by (rule length_takeWhile_le)
  have sub: "set ks \<subseteq> set (inorder t)" "i \<le> ?n \<Longrightarrow> set (inorder (ts ! i)) \<subseteq> set (inorder t)" for i
    using n(1) set_weave [of "map inorder ts" ks] unfolding t by auto
  have cl: "P (snd (func (ks ! p) u))" if "p < ?n" "keyhash (ks ! p) = h" "P u" for p u
    using Suc.prems(4) sub(1) that nth_mem [of p ks] by blast
  have ch: "\<exists>rc u'. search_item_only_keyhash_recurcive m h func (childsi m (user_addr b) i) u = Some (rc, u') \<and>
      visits P func (hash_visit h (ts ! i)) u u'" if "i \<le> ?n" "P u" for i u
    unfolding rn(10) [OF that(1)]
    by (rule Suc.IH [of 2]) (use n rn(12) that sub(2) [OF that(1)] Suc.prems(4) in auto)
  let ?body = "\<lambda>p. (if h = keyhash (ks ! p) then [ks ! p] else []) @ (if ?pos \<noteq> p then hash_visit h (ts ! p) else [])"
  let ?f = "\<lambda>p u.
        let (result, u) = (if h = keyhash (node_keys m (user_addr b) p)
                           then func (node_keys m (user_addr b) p) u else (RET_OK, u)) in
        if h = keyhash (node_keys m (user_addr b) p) \<and> result = RET_NG then Some (Inr u)
        else if ?pos \<noteq> p
        then do { (_, u) \<leftarrow> search_item_only_keyhash_recurcive m h func (childsi m (user_addr b) p) u; Some (Inl u) }
        else Some (Inl u)"
  have loop: "P u \<Longrightarrow> \<exists>r. ofold ?f [?pos..<?n] u = Some r \<and> (case r of Inl u' \<Rightarrow> visits P func (concat (map ?body [?pos..<?n])) u u'
      | Inr u' \<Rightarrow> stopped P func (concat (map ?body [?pos..<?n])) u u')" for u
  proof (rule ofold_visits, intro ballI allI impI)
    fix p v
    assume p: "p \<in> set [?pos..<?n]" and v: "P v"
    have k: "node_keys m (user_addr b) p = ks ! p" "p < ?n" "p \<le> ?n" using p rn(11) [of p] by auto
    obtain rc v1 where f1: "(if h = keyhash (ks ! p) then func (ks ! p) v else (RET_OK, v)) = (rc, v1)" by fastforce
    have v1: "P v1" using f1 cl [OF k(2) _ v] v by (cases "h = keyhash (ks ! p)") auto
    have one: "visits P func (if h = keyhash (ks ! p) then [ks ! p] else []) v v1"
      using f1 v v1 visits_one [of P func "ks ! p" v] visits_Nil [of P v func] by (cases "h = keyhash (ks ! p)") auto
    show "\<exists>r. ?f p v = Some r \<and> (case r of Inl u' \<Rightarrow> visits P func (?body p) v u' | Inr u' \<Rightarrow> stopped P func (?body p) v u')"
    proof (cases "h = keyhash (ks ! p) \<and> rc = RET_NG")
      case True
      then have "?f p v = Some (Inr v1)" using f1 k(1) by simp
      moreover have "stopped P func (?body p) v v1" using True f1 stops_here [of P v v1 func "ks ! p"] v v1 by simp
      ultimately show ?thesis by (intro exI [of _ "Inr v1"]) simp
    next
      case False
      show ?thesis
      proof (cases "?pos = p")
        case True
        then have "?f p v = Some (Inl v1)" using f1 k(1) False by auto
        moreover have "visits P func (?body p) v v1" using one True by simp
        ultimately show ?thesis by (intro exI [of _ "Inl v1"]) simp
      next
        case pp: False
        obtain rc2 v2 where s: "search_item_only_keyhash_recurcive m h func (childsi m (user_addr b) p) v1 = Some (rc2, v2)"
          "visits P func (hash_visit h (ts ! p)) v1 v2"
          using ch [OF k(3) v1] by auto
        have "?f p v = Some (Inl v2)" using f1 k(1) False pp s(1) by auto
        moreover have "visits P func (?body p) v v2" using visits_append [OF one s(2)] pp by simp
        ultimately show ?thesis by (intro exI [of _ "Inl v2"]) simp
      qed
    qed
  qed
  have v: "hash_visit h t = (if ?pos = 0 \<and> ?n > 0 \<and> keyhash (ks ! 0) > h then hash_visit h (ts ! 0)
      else concat (map ?body [?pos..<?n]) @ (if ?n \<noteq> ?pos then hash_visit h (ts ! ?n) else []) @ hash_visit h (ts ! ?pos))"
  proof -
    have me: "map (\<lambda>p. (if h = keyhash (ks ! p) then [ks ! p] else []) @
             (if ?pos \<noteq> p \<and> p < length ts then hash_visit h (ts ! p) else [])) [?pos..<?n] = map ?body [?pos..<?n]"
      using n(1) by (intro map_cong) auto
    have c: "(length ts \<noteq> Suc ?n) = False" "(?pos < length ts) = True" using n(1) posn by simp_all
    show ?thesis unfolding t hash_visit.simps(2) Let_def by (simp only: me c if_True if_False)
  qed
  show ?case
  proof (cases "?pos = 0 \<and> ?n > 0 \<and> keyhash (ks ! 0) > h")
    case True
    then show ?thesis unfolding v using ch [of 0 u] rn(11) [of 0] Suc.prems(3) unfolding t root_of_simps
      by (subst search_item_only_keyhash_recurcive.simps) (simp add: rn(1,2,4) pos)
  next
    case False
    have k0: "?n > 0 \<Longrightarrow> keyhash (node_keys m (user_addr b) 0) = keyhash (ks ! 0)" using rn(11) [of 0] by simp
    obtain r where r: "ofold ?f [?pos..<?n] u = Some r" "case r of Inl u' \<Rightarrow> visits P func (concat (map ?body [?pos..<?n])) u u'
      | Inr u' \<Rightarrow> stopped P func (concat (map ?body [?pos..<?n])) u u'"
      using loop [OF Suc.prems(3)] by blast
    have e: "search_item_only_keyhash_recurcive m h func (noff_of cid b) u =
      (case r of
            Inr u \<Rightarrow> Some (RET_OK, u)
          | Inl u \<Rightarrow> do {
              (_, u) \<leftarrow> (if ?n \<noteq> ?pos
                then search_item_only_keyhash_recurcive m h func (childsi m (user_addr b) ?n) u
                else Some (RET_NG, u));
              search_item_only_keyhash_recurcive m h func (childsi m (user_addr b) ?pos) u })"
      using False k0 by (subst search_item_only_keyhash_recurcive.simps)
        (simp only: rn(1,2,4) pos Let_def r(1) [unfolded Let_def] if_False Option.bind.simps cong: conj_cong)
    show ?thesis
    proof (cases r)
      case (Inr u1)
      then show ?thesis unfolding v if_not_P [OF False] using e r(2) stopped_append unfolding t root_of_simps
        by (fastforce simp: visits_def)
    next
      case (Inl u1)
      then have v1: "visits P func (concat (map ?body [?pos..<?n])) u u1" using r(2) by simp
      obtain rc2 u2 where s2: "(if ?n \<noteq> ?pos then search_item_only_keyhash_recurcive m h func (childsi m (user_addr b) ?n) u1
          else Some (RET_NG, u1)) = Some (rc2, u2)"
        "visits P func (if ?n \<noteq> ?pos then hash_visit h (ts ! ?n) else []) u1 u2"
        using ch [of ?n u1] visits_P [OF v1] visits_Nil [of P u1 func] by (cases "?n \<noteq> ?pos") auto
      obtain rc3 u3 where s3: "search_item_only_keyhash_recurcive m h func (childsi m (user_addr b) ?pos) u2 = Some (rc3, u3)"
        "visits P func (hash_visit h (ts ! ?pos)) u2 u3"
        using ch [OF posn visits_P [OF s2(2)]] by auto
      have "search_item_only_keyhash_recurcive m h func (noff_of cid b) u = Some (rc3, u3)"
        unfolding e Inl using s2(1) s3(1) by simp
      moreover have "visits P func (hash_visit h t) u u3"
        unfolding v if_not_P [OF False] by (rule visits_append [OF v1 visits_append [OF s2(2) s3(2)]])
      ultimately show ?thesis unfolding t root_of_simps by blast
    qed
  qed
qed

end
