(* ===== verification/Smmr_Buffer.thy ===== *)
theory Smmr_Buffer
  imports Smmr_Base
begin

text \<open>
  The growing buffer of \<open>smmr_pagedbuffer.c\<close>: a heap block of \<open>allocated_size\<close> bytes of which the
  first \<open>end_offset\<close> hold data. \<open>size_t\<close> is 64 bits wide and its arithmetic wraps. \<open>malloc\<close> and
  \<open>realloc\<close> are calls of the C library: a parameter \<open>realloc\<close> maps the old block and the new size to
  the new block, \<open>None\<close> for NULL. A \<open>memcpy\<close> that leaves its block is undefined in C; the functions
  here return \<open>None\<close> for it.
\<close>

record paged_buffer =
  data :: bytes
  allocated_size :: u64
  end_offset :: u64

text \<open>\<open>malloc\<close> does not fail here: the code asserts it.\<close>

definition pagedbuffer_create :: "int \<times> paged_buffer option" where
  "pagedbuffer_create = (RET_OK, Some \<lparr>data = replicate 4096 0, allocated_size = 4096, end_offset = 0\<rparr>)"

definition pagedbuffer_remove :: "paged_buffer option \<Rightarrow> int \<times> paged_buffer option" where
  "pagedbuffer_remove phdl = (RET_OK, None)"

definition pagedbuffer_current_size :: "paged_buffer \<Rightarrow> u64" where
  "pagedbuffer_current_size phdl = end_offset phdl"

definition pagedbuffer_ptr :: "paged_buffer \<Rightarrow> bytes" where
  "pagedbuffer_ptr phdl = data phdl"

text \<open>The copy, when \<open>malloc\<close> gives a block for it.\<close>

definition pagedbuffer_dup :: "bool \<Rightarrow> paged_buffer \<Rightarrow> bytes option" where
  "pagedbuffer_dup malloc_ok phdl = (if malloc_ok then Some (take (unat (end_offset phdl)) (data phdl)) else None)"

text \<open>The new size: doubled until it is enough, \<open>None\<close> when doubling wraps around.\<close>

function grown :: "u64 \<Rightarrow> u64 \<Rightarrow> u64 option" where
  "grown tmp_size need_size =
     (if tmp_size < need_size then
        let tmp_size = (if tmp_size = 0 then 4096 else tmp_size); chk_size = push_bit 1 tmp_size in
        if chk_size < tmp_size then None else grown chk_size need_size
      else Some tmp_size)"
  by pat_completeness auto

text \<open>\<open>memcpy\<close> to the offset \<open>at\<close> of a block.\<close>

definition copy_to :: "nat \<Rightarrow> bytes \<Rightarrow> bytes \<Rightarrow> bytes option" where
  "copy_to at bs block =
     (if at + length bs \<le> length block then Some (take at block @ bs @ drop (at + length bs) block) else None)"

definition pagedbuffer_append ::
  "(bytes \<Rightarrow> u64 \<Rightarrow> bytes option) \<Rightarrow> bytes \<Rightarrow> paged_buffer \<Rightarrow> (int \<times> paged_buffer) option" where
  "pagedbuffer_append realloc bs phdl =
     (let len = of_nat (length bs); need_size = end_offset phdl + len;
          put = (\<lambda>phdl. map_option (\<lambda>d. (RET_OK, phdl\<lparr>data := d, end_offset := end_offset phdl + len\<rparr>))
            (copy_to (unat (end_offset phdl)) bs (data phdl))) in
      if need_size > allocated_size phdl then
        (case grown (allocated_size phdl) need_size of
           None \<Rightarrow> Some (RET_NG, phdl)
         | Some tmp_size \<Rightarrow>
             (case realloc (data phdl) tmp_size of
                None \<Rightarrow> Some (RET_NG, phdl)
              | Some p \<Rightarrow> put (phdl\<lparr>data := p, allocated_size := tmp_size\<rparr>)))
      else put phdl)"

text \<open>
  \<open>vsnprintf(bf,sizeof(bf) -1,...)\<close> keeps the first 1022 bytes of the formatted text; \<open>strlen\<close> stops
  at the first zero.
\<close>

definition formatted_text :: "bytes \<Rightarrow> bytes" where
  "formatted_text txt = takeWhile (\<lambda>b. b \<noteq> 0) (take 1022 txt)"

definition pagedbuffer_append_text ::
  "(bytes \<Rightarrow> u64 \<Rightarrow> bytes option) \<Rightarrow> bytes \<Rightarrow> paged_buffer \<Rightarrow> paged_buffer option" where
  "pagedbuffer_append_text realloc txt phdl = map_option snd (pagedbuffer_append realloc (formatted_text txt) phdl)"

definition pagedbuffer_append_textn ::
  "(bytes \<Rightarrow> u64 \<Rightarrow> bytes option) \<Rightarrow> bytes \<Rightarrow> paged_buffer \<Rightarrow> paged_buffer option" where
  "pagedbuffer_append_textn realloc txt phdl =
     (case pagedbuffer_append realloc (formatted_text txt) phdl of
        None \<Rightarrow> None
      | Some (_, phdl) \<Rightarrow> map_option snd (pagedbuffer_append realloc [0x3c, 0x62, 0x72, 0x3e] phdl))"

section \<open>Growing\<close>

lemma double_mod: "(x :: nat) < 2 * P \<Longrightarrow> x * 2 mod (2 * P) = (if x < P then 2 * x else 2 * x - 2 * P)"
  by (simp add: le_mod_geq right_diff_distrib')

lemma double_word:
  fixes a :: u64
  shows "push_bit 1 a < a \<longleftrightarrow> 2 ^ 63 \<le> unat a"
    and "\<not> push_bit 1 a < a \<Longrightarrow> unat (push_bit 1 a) = 2 * unat a"
proof -
  define P :: nat where "P = 2 ^ 63"
  have l: "unat a < 2 * P" using unsigned_less [of a] by (simp add: P_def)
  have "unat (push_bit 1 a) = unat a * 2 mod (2 * P)"
    by (simp add: push_bit_eq_mult unat_word_ariths(2) P_def)
  then have d: "unat (push_bit 1 a) = (if unat a < P then 2 * unat a else 2 * unat a - 2 * P)"
    by (simp only: double_mod [OF l])
  have "0 < P" by (simp add: P_def)
  then show "push_bit 1 a < a \<longleftrightarrow> 2 ^ 63 \<le> unat a" "\<not> push_bit 1 a < a \<Longrightarrow> unat (push_bit 1 a) = 2 * unat a"
    using l unfolding word_less_nat_alt d P_def [symmetric] by (auto split: if_splits)
qed

termination grown
proof (relation "measure (\<lambda>(tmp, need). 2 ^ 64 - unat tmp)")
  fix tmp need tmp' chk :: u64
  assume a: "tmp < need" "tmp' = (if tmp = 0 then 4096 else tmp)" "chk = push_bit 1 tmp'" "\<not> chk < tmp'"
  have "unat chk = 2 * unat tmp'" using double_word(2) [of tmp'] a(3,4) by simp
  moreover have "unat tmp \<le> unat tmp'" "0 < unat tmp'" using a(2) by (auto simp: unat_gt_0)
  ultimately have "unat tmp < unat chk" by simp
  moreover have "unat chk < 2 ^ 64" using unsigned_less [of chk] by simp
  ultimately show "((chk, need), tmp, need) \<in> measure (\<lambda>(tmp, need). 2 ^ 64 - unat tmp)" by simp
qed simp

declare grown.simps [simp del]

lemma grown_bounds:
  "grown tmp need = Some r \<Longrightarrow> need \<le> r \<and> tmp \<le> r \<and> (tmp < need \<and> 4096 \<le> tmp \<longrightarrow> unat r < 2 * unat need)"
proof (induction tmp need rule: grown.induct)
  case (1 tmp need)
  show ?case
  proof (cases "tmp < need")
    case False
    then show ?thesis using 1(2) by (subst (asm) grown.simps) auto
  next
    case True
    let ?t = "if tmp = 0 then 4096 else tmp"
    have c: "\<not> push_bit 1 ?t < ?t" and g: "grown (push_bit 1 ?t) need = Some r"
      using 1(2) True by (subst (asm) grown.simps, simp add: Let_def split: if_splits)+
    have IH: "need \<le> r \<and> push_bit 1 ?t \<le> r \<and> (push_bit 1 ?t < need \<and> 4096 \<le> push_bit 1 ?t \<longrightarrow> unat r < 2 * unat need)"
      by (rule 1(1) [OF True refl refl c g])
    have d: "unat (push_bit 1 ?t) = 2 * unat ?t" by (rule double_word(2) [OF c])
    have le: "tmp \<le> push_bit 1 ?t" using d unfolding word_le_nat_alt by simp
    have "unat r < 2 * unat need" if "4096 \<le> tmp"
    proof (cases "push_bit 1 ?t < need")
      case True
      have "4096 \<le> push_bit 1 ?t" using le that by (rule order_trans [rotated])
      then show ?thesis using IH True by blast
    next
      case False
      then have "grown (push_bit 1 ?t) need = Some (push_bit 1 ?t)" by (subst grown.simps) simp
      then have "r = push_bit 1 ?t" using g by simp
      moreover have "?t = tmp" using that by auto
      ultimately have "unat r = 2 * unat tmp" using d by simp
      then show ?thesis using True by (simp add: word_less_nat_alt)
    qed
    then show ?thesis using IH le by (auto intro: order_trans)
  qed
qed

lemma grown_some:
  "0 < tmp \<Longrightarrow> unat need \<le> 2 ^ 63 \<Longrightarrow> \<exists>r. grown tmp need = Some r"
proof (induction tmp need rule: grown.induct)
  case (1 tmp need)
  show ?case
  proof (cases "tmp < need")
    case False
    then show ?thesis by (subst grown.simps) simp
  next
    case True
    have t: "(if tmp = 0 then 4096 else tmp) = tmp" using 1(2) by auto
    have "unat tmp < 2 ^ 63" using True 1(3) by (simp add: word_less_nat_alt)
    then have c: "\<not> push_bit 1 tmp < tmp" using double_word(1) [of tmp] by simp
    have "0 < unat (push_bit 1 tmp)" using double_word(2) [OF c] 1(2) by (simp add: word_less_nat_alt)
    then have "\<exists>r. grown (push_bit 1 tmp) need = Some r"
      using 1(1) [OF True t [symmetric] refl] c 1(3) by (simp add: word_less_nat_alt)
    then show ?thesis using True t c by (subst grown.simps) (simp add: Let_def)
  qed
qed

section \<open>Appending\<close>

definition buffer_ok :: "paged_buffer \<Rightarrow> bool" where
  "buffer_ok b \<longleftrightarrow> length (data b) = unat (allocated_size b) \<and> 0 < allocated_size b \<and> end_offset b \<le> allocated_size b"

definition contents :: "paged_buffer \<Rightarrow> bytes" where
  "contents b = take (unat (end_offset b)) (data b)"

text \<open>What the C library documents of \<open>realloc\<close>: the new block has the size and starts with the old bytes.\<close>

definition realloc_ok :: "(bytes \<Rightarrow> u64 \<Rightarrow> bytes option) \<Rightarrow> bool" where
  "realloc_ok realloc \<longleftrightarrow> (\<forall>d n p. realloc d n = Some p \<longrightarrow> length p = unat n \<and>
     (length d \<le> unat n \<longrightarrow> take (length d) p = d))"

lemma copy_to_end:
  assumes "n + length bs \<le> length block"
  shows "\<exists>d. copy_to n bs block = Some d \<and> length d = length block \<and> take (n + length bs) d = take n block @ bs"
  using assms by (simp add: copy_to_def)

lemma buffer_append_effect:
  assumes b: "buffer_ok b" and r: "realloc_ok realloc" and l: "unat (end_offset b) + length bs < 2 ^ 64"
  obtains "pagedbuffer_append realloc bs b = Some (RET_NG, b)"
      "unat (allocated_size b) < unat (end_offset b) + length bs"
      "(\<exists>n. realloc (data b) n = None) \<or> 2 ^ 63 < unat (end_offset b) + length bs"
  | b' where "pagedbuffer_append realloc bs b = Some (RET_OK, b')" "buffer_ok b'" "contents b' = contents b @ bs"
      "allocated_size b \<le> allocated_size b'"
      "4096 \<le> allocated_size b \<Longrightarrow> unat (allocated_size b') \<le> max (unat (allocated_size b)) (2 * length (contents b'))"
proof -
  note fail = that(1) and good = that(2)
  let ?len = "of_nat (length bs) :: u64" and ?e = "unat (end_offset b)"
  let ?need = "end_offset b + ?len"
  have ul: "unat ?len = length bs" using l by (intro unat_of_nat_small) simp
  have un: "unat ?need = ?e + length bs" using l ul by (simp add: unat_word_ariths(1))
  have d: "length (data b) = unat (allocated_size b)" "?e \<le> unat (allocated_size b)"
    using b by (simp_all add: buffer_ok_def word_le_nat_alt)
  have put: thesis
    if a: "pagedbuffer_append realloc bs b =
        map_option (\<lambda>d. (RET_OK, b\<lparr>allocated_size := n, data := d, end_offset := ?need\<rparr>)) (copy_to ?e bs p)"
      and p: "length p = unat n" "take ?e p = take ?e (data b)" and n: "?e + length bs \<le> unat n" "allocated_size b \<le> n"
      and g: "4096 \<le> allocated_size b \<Longrightarrow> unat n \<le> max (unat (allocated_size b)) (2 * (?e + length bs))" for n p
  proof -
    obtain d' where d': "copy_to ?e bs p = Some d'" "length d' = length p" "take (?e + length bs) d' = take ?e p @ bs"
      using copy_to_end [of ?e bs p] n(1) p(1) by auto
    let ?b = "b\<lparr>allocated_size := n, data := d', end_offset := ?need\<rparr>"
    have "0 < n" using b n(2) by (auto simp: buffer_ok_def)
    then have "buffer_ok ?b" using d'(2) p(1) n(1) un by (simp add: buffer_ok_def word_le_nat_alt)
    moreover have c: "contents ?b = contents b @ bs" using d'(3) p(2) un by (simp add: contents_def)
    moreover have "length (contents ?b) = ?e + length bs" unfolding c using d by (simp add: contents_def)
    ultimately show thesis using good [of ?b] a d'(1) n(2) g by simp
  qed
  show thesis
  proof (cases "?need > allocated_size b")
    case False
    then have le: "?e + length bs \<le> unat (allocated_size b)" using un by (simp add: word_less_nat_alt)
    have "pagedbuffer_append realloc bs b =
        map_option (\<lambda>d. (RET_OK, b\<lparr>allocated_size := allocated_size b, data := d, end_offset := ?need\<rparr>)) (copy_to ?e bs (data b))"
      using False by (simp add: pagedbuffer_append_def Let_def)
    then show thesis by (rule put) (use d le in simp_all)
  next
    case True
    then have lt: "unat (allocated_size b) < ?e + length bs" using un by (simp add: word_less_nat_alt)
    show thesis
    proof (cases "grown (allocated_size b) ?need")
      case None
      then have "2 ^ 63 < ?e + length bs"
        using grown_some [of "allocated_size b" ?need] b un by (force simp: buffer_ok_def)
      then show thesis using fail True None lt by (simp add: pagedbuffer_append_def Let_def)
    next
      case (Some n)
      note gb = grown_bounds [OF Some]
      have n: "?e + length bs \<le> unat n" using gb un by (simp add: word_le_nat_alt)
      show thesis
      proof (cases "realloc (data b) n")
        case None
        then show thesis using fail True Some lt by (auto simp: pagedbuffer_append_def Let_def)
      next
        case p: (Some p)
        have pp: "length p = unat n" "take (length (data b)) p = data b"
          using r p n lt d(1) unfolding realloc_ok_def by (auto dest!: spec [of _ "data b"])
        have "take ?e (take (length (data b)) p) = take ?e p" using d by (simp add: min_def)
        then have pe: "take ?e p = take ?e (data b)" unfolding pp(2) by simp
        have "pagedbuffer_append realloc bs b =
            map_option (\<lambda>d. (RET_OK, b\<lparr>allocated_size := n, data := d, end_offset := ?need\<rparr>)) (copy_to ?e bs p)"
          using True Some p by (simp add: pagedbuffer_append_def Let_def)
        then show thesis
          by (rule put) (use pp pe n gb True un in \<open>auto simp: max_def\<close>)
      qed
    qed
  qed
qed

section \<open>Properties\<close>

text \<open>C33. \<open>pagedbuffer_append\<close> returns, and stays inside its block. Either it returns \<open>RET_OK\<close> and the
  contents are the old contents with the new bytes behind them, in a block that is never smaller and
  at most twice as long as the contents need; or it returns \<open>RET_NG\<close>, the buffer is as it was, and
  there was no room: \<open>realloc\<close> failed, or more than \<open>2^63\<close> bytes were asked for. The copy of
  \<open>pagedbuffer_dup\<close> is the contents.\<close>

theorem append_appends:
  assumes "buffer_ok b" "realloc_ok realloc" "unat (end_offset b) + length bs < 2 ^ 64" "4096 \<le> allocated_size b"
  shows "\<exists>rc b'. pagedbuffer_append realloc bs b = Some (rc, b') \<and> buffer_ok b' \<and>
    (if rc = RET_OK then contents b' = contents b @ bs \<and> allocated_size b \<le> allocated_size b' \<and>
       unat (allocated_size b') \<le> max (unat (allocated_size b)) (2 * length (contents b'))
     else rc = RET_NG \<and> b' = b \<and> unat (allocated_size b) < unat (end_offset b) + length bs \<and>
       ((\<exists>n. realloc (data b) n = None) \<or> 2 ^ 63 < unat (end_offset b) + length bs)) \<and>
    pagedbuffer_dup True b' = Some (contents b')"
  by (rule buffer_append_effect [OF assms(1-3)])
    (use assms(1,4) in \<open>simp_all add: pagedbuffer_dup_def contents_def [symmetric]\<close>)

definition sample_realloc :: "bytes \<Rightarrow> u64 \<Rightarrow> bytes option" where
  "sample_realloc d n = Some (take (unat n) d @ replicate (unat n - length d) 0)"

lemma sample_realloc_ok: "realloc_ok sample_realloc"
  by (auto simp: realloc_ok_def sample_realloc_def)

definition new_buffer :: paged_buffer where
  "new_buffer = the (snd pagedbuffer_create)"

lemma new_buffer_ok: "buffer_ok new_buffer" "4096 \<le> allocated_size new_buffer" "end_offset new_buffer = 0"
  by (simp_all add: new_buffer_def pagedbuffer_create_def buffer_ok_def)

theorem append_appends_witness:
  "\<exists>b'. pagedbuffer_append sample_realloc (replicate 5000 7) new_buffer = Some (RET_OK, b') \<and>
    contents b' = replicate 5000 7 \<and> unat (allocated_size b') \<le> 10000"
proof -
  have "\<exists>rc b'. pagedbuffer_append sample_realloc (replicate 5000 7) new_buffer = Some (rc, b') \<and> buffer_ok b' \<and>
    (if rc = RET_OK then contents b' = contents new_buffer @ replicate 5000 7 \<and> allocated_size new_buffer \<le> allocated_size b' \<and>
       unat (allocated_size b') \<le> max (unat (allocated_size new_buffer)) (2 * length (contents b'))
     else rc = RET_NG \<and> b' = new_buffer \<and> unat (allocated_size new_buffer) < unat (end_offset new_buffer) + length (replicate 5000 (7 :: u8)) \<and>
       ((\<exists>n. sample_realloc (data new_buffer) n = None) \<or> 2 ^ 63 < unat (end_offset new_buffer) + length (replicate 5000 (7 :: u8)))) \<and>
    pagedbuffer_dup True b' = Some (contents b')"
    by (rule append_appends [OF new_buffer_ok(1) sample_realloc_ok _ new_buffer_ok(2)]) (simp add: new_buffer_ok)
  moreover have "contents new_buffer = []" by (simp add: contents_def new_buffer_ok)
  moreover have "unat (allocated_size new_buffer) = 4096" by (simp add: new_buffer_def pagedbuffer_create_def)
  ultimately show ?thesis by (auto simp: new_buffer_ok sample_realloc_def split: if_splits)
qed

end
