(* ===== verification/Smmr_Database.thy ===== *)
theory Smmr_Database
  imports Smmr_Tree
begin

text \<open>
  The store of the key-value database (\<open>smmr_database.c\<close>): items (a 24 byte head, the key, the value)
  in 128 data files of 128 MB that are mapped into memory, found through the index of
  \<open>smmr_tree.c\<close>. A data file starts with a header of 131200 bytes (\<open>struct db_table_header\<close>) with a
  bitmap of its pages of 128 bytes; page \<open>p\<close> is at the header's size plus \<open>128 * p\<close>.

  A mapped file is a byte memory as everywhere; here every \<open>memcpy\<close> into it is checked against its
  size, and \<open>None\<close> is a write outside the mapping. The results of the locks of the data files
  (\<open>dlock\<close>, by file), of the categories, and of \<open>time(0)\<close> (\<open>now\<close>) are parameters. A key and a value
  are byte lists with their lengths; \<open>malloc\<close> does not fail. \<open>data_pointer\<close> is \<open>None\<close> for a file that is
  not mapped. The shared memory object of the mutexes is left out.
\<close>

section \<open>Layout\<close>

abbreviation IPC_DATAFILE_MAX :: nat where "IPC_DATAFILE_MAX \<equiv> 128"
abbreviation IPC_DATAFILE_TTLSIZE :: nat where "IPC_DATAFILE_TTLSIZE \<equiv> 134217728"
abbreviation IPC_DATAFILE_PAGECNT :: nat where "IPC_DATAFILE_PAGECNT \<equiv> 1047551"
abbreviation IPC_DATAFILE_BMPSIZE :: nat where "IPC_DATAFILE_BMPSIZE \<equiv> 131072"
abbreviation SIZEOF_DB_HEADER :: nat where "SIZEOF_DB_HEADER \<equiv> 131200"
abbreviation SIZEOF_DATAITM :: nat where "SIZEOF_DATAITM \<equiv> 24"
abbreviation DATAITEM_SIGNATURE_ID :: u32 where "DATAITEM_SIGNATURE_ID \<equiv> 0xDEADC1DE"
abbreviation REMOVE_RESERVED_COUNT :: nat where "REMOVE_RESERVED_COUNT \<equiv> 32"
abbreviation BITMAP :: nat where "BITMAP \<equiv> 128"

definition used_length :: "mem \<Rightarrow> u64" where "used_length m = ld64 m 16"
definition used_count :: "mem \<Rightarrow> u64" where "used_count m = ld64 m 24"
definition remain_length :: "mem \<Rightarrow> u64" where "remain_length m = ld64 m 40"
definition set_used_length :: "u64 \<Rightarrow> mem \<Rightarrow> mem" where "set_used_length = st64 16"
definition set_used_count :: "u64 \<Rightarrow> mem \<Rightarrow> mem" where "set_used_count = st64 24"
definition set_remain_length :: "u64 \<Rightarrow> mem \<Rightarrow> mem" where "set_remain_length = st64 40"
definition set_last_updated :: "u64 \<Rightarrow> mem \<Rightarrow> mem" where "set_last_updated = st64 48"

definition i_signature :: "mem \<Rightarrow> nat \<Rightarrow> u32" where "i_signature m a = ld32 m a"
definition i_length :: "mem \<Rightarrow> nat \<Rightarrow> u32" where "i_length m a = ld32 m (a + 4)"
definition i_expire :: "mem \<Rightarrow> nat \<Rightarrow> u32" where "i_expire m a = ld32 m (a + 12)"
definition i_keylen :: "mem \<Rightarrow> nat \<Rightarrow> u32" where "i_keylen m a = ld32 m (a + 16)"
definition i_vallen :: "mem \<Rightarrow> nat \<Rightarrow> u32" where "i_vallen m a = ld32 m (a + 20)"

text \<open>\<open>struct datafiles_on_process\<close>, one element per file.\<close>

record datafile =
  filefd :: int
  data_pointer :: "mem option"

text \<open>\<open>memcpy\<close> into a mapped file.\<close>

definition file_copy :: "nat \<Rightarrow> bytes \<Rightarrow> mem \<Rightarrow> mem option" where
  "file_copy off bs m = (if off + length bs \<le> IPC_DATAFILE_TTLSIZE then Some (st_bytes off bs m) else None)"

definition align_page :: "u32 \<Rightarrow> u32" where
  "align_page len = (if len mod 128 = 0 then len else (len div 128 + 1) * 128)"

text \<open>\<open>curitm\<close>: the head of a new item.\<close>

definition item_length :: "bytes \<Rightarrow> bytes \<Rightarrow> u32" where
  "item_length key val = of_nat (length key) + of_nat (length val) + of_nat SIZEOF_DATAITM"

definition curitm :: "u32 \<Rightarrow> bytes \<Rightarrow> bytes \<Rightarrow> bytes" where
  "curitm expire key val = to_le 4 DATAITEM_SIGNATURE_ID @ to_le 4 (item_length key val) @ to_le 4 (0 :: u32) @
     to_le 4 expire @ to_le 4 (of_nat (length key) :: u32) @ to_le 4 (of_nat (length val) :: u32)"

text \<open>The order in which the files are tried: from the one that the hash of the key names.\<close>

fun distid_from :: "nat \<Rightarrow> nat \<Rightarrow> nat list" where
  "distid_from 0 m = []"
| "distid_from (Suc n) m = m # distid_from n (if m + 1 \<ge> IPC_DATAFILE_MAX then 0 else m + 1)"

definition distid :: "bytes \<Rightarrow> nat list" where
  "distid key = distid_from IPC_DATAFILE_MAX (unat (safe_hash key mod of_nat IPC_DATAFILE_MAX))"

record find_container =
  hashedid :: u32
  datafiles :: "datafile list"
  resultnode :: node_key
  remove_reserved :: "node_key list"
  flag :: int
  key :: bytes
  val :: "bytes option"
  expire :: u32

definition ISEMPTY_KEY :: "node_key \<Rightarrow> bool" where
  "ISEMPTY_KEY k \<longleftrightarrow> keyhash k = 0 \<and> data_field k = 0 \<and> data_offset k = 0"

definition put_datafile :: "nat \<Rightarrow> mem \<Rightarrow> datafile list \<Rightarrow> datafile list" where
  "put_datafile d m fs = fs[d := (fs ! d)\<lparr>data_pointer := Some m\<rparr>]"

text \<open>The loops over the pages of an item.\<close>

definition mark_used :: "nat \<Rightarrow> nat \<Rightarrow> mem \<Rightarrow> mem" where
  "mark_used bitmap_pageno cnt m = fold (PAGEBIT_ON BITMAP) [bitmap_pageno..<bitmap_pageno + cnt] m"

definition mark_free :: "nat \<Rightarrow> nat \<Rightarrow> mem \<Rightarrow> mem" where
  "mark_free bitmap_pageno cnt m = fold (PAGEBIT_OFF BITMAP) [bitmap_pageno..<bitmap_pageno + cnt] m"

definition pageno :: "nat \<Rightarrow> nat" where
  "pageno off = (if off mod 128 = 0 then off div 128 else off div 128 + 1)"

section \<open>A new item on free pages\<close>

text \<open>
  The search for \<open>shift_size\<close> free pages in a row; bit 0 is never looked at. The result is the offset
  of the first one behind the header, 0 for none.
\<close>

fun free_run :: "mem \<Rightarrow> u32 \<Rightarrow> u32 \<Rightarrow> nat list \<Rightarrow> u32" where
  "free_run m shift_size findbits [] = 0"
| "free_run m shift_size findbits (p # ps) =
     (if \<not> ISPAGEBIT m BITMAP (p + 1) then
        (if findbits + 1 \<ge> shift_size then ((of_nat p + 1) - (shift_size - 1)) * 128
         else free_run m shift_size (findbits + 1) ps)
      else free_run m shift_size 0 ps)"

text \<open>Head, key and value from the offset \<open>off\<close>.\<close>

definition copy_item :: "nat \<Rightarrow> find_container \<Rightarrow> mem \<Rightarrow> mem option" where
  "copy_item off c m =
     (let v = the (val c); head = curitm (expire c) (key c) v in
      do {
        m \<leftarrow> file_copy off head m;
        m \<leftarrow> file_copy (off + length head) (key c) m;
        file_copy (off + length head + length (key c)) v m
      })"

definition take_remain :: "u64 \<Rightarrow> mem \<Rightarrow> mem" where
  "take_remain n m = set_remain_length (if remain_length m > n then remain_length m - n else 0) m"

text \<open>What is done in a file where the run at \<open>finded_offset\<close> was found: the file and the offset.\<close>

definition insert_at ::
  "u64 \<Rightarrow> u32 \<Rightarrow> find_container \<Rightarrow> mem \<Rightarrow> (mem \<times> u32) option" where
  "insert_at now finded_offset c m =
     (let aligned_size = align_page (item_length (key c) (the (val c)));
          m = mark_used (pageno (unat finded_offset)) (unat (aligned_size div 128)) m;
          offset_bk = finded_offset + of_nat SIZEOF_DB_HEADER;
          last = offset_bk + aligned_size in
      do {
        m \<leftarrow> copy_item (unat offset_bk) c m;
        let m = set_last_updated now m;
        let m = (if ucast last > used_length m
                 then set_used_count (used_count m + 1) (set_used_length (ucast last) m) else m);
        Some (take_remain (ucast (last - offset_bk)) m, offset_bk)
      })"

fun freepage_loop ::
  "(nat \<Rightarrow> int) \<Rightarrow> u64 \<Rightarrow> nat list \<Rightarrow> find_container \<Rightarrow> (int \<times> find_container) option" where
  "freepage_loop dlock now [] c = Some (RET_NG, c)"
| "freepage_loop dlock now (d # ds) c =
     (if isvalid_lock (dlock d) \<noteq> RET_OK then Some (RET_NG, c)
      else
        (case data_pointer (datafiles c ! d) of
           None \<Rightarrow> freepage_loop dlock now ds c
         | Some m \<Rightarrow>
             let aligned_size = align_page (item_length (key c) (the (val c)));
                 shift_size = aligned_size div 128 in
             if remain_length m \<le> ucast aligned_size then freepage_loop dlock now ds c
             else
               let finded_offset = free_run m shift_size 0 [0..<IPC_DATAFILE_PAGECNT - 1];
                   m = (if shift_size = 1 \<and> finded_offset = 0 then set_remain_length 0 m else m) in
               if finded_offset \<noteq> 0 then do {
                 (m, offset_bk) \<leftarrow> insert_at now finded_offset c m;
                 Some (RET_OK, c\<lparr>datafiles := put_datafile d m (datafiles c),
                   resultnode := node_key (hashedid c) (of_nat d) (ucast offset_bk)\<rparr>)
               }
               else freepage_loop dlock now ds (c\<lparr>datafiles := put_datafile d m (datafiles c)\<rparr>)))"

definition insert_to_datafile_at_freepage ::
  "(nat \<Rightarrow> int) \<Rightarrow> u64 \<Rightarrow> find_container \<Rightarrow> (int \<times> find_container) option" where
  "insert_to_datafile_at_freepage dlock now c = freepage_loop dlock now (distid (key c)) c"

section \<open>A new item at the end of a file\<close>

definition insert_at_end :: "u64 \<Rightarrow> find_container \<Rightarrow> mem \<Rightarrow> (mem \<times> u32) option" where
  "insert_at_end now c m =
     (let aligned_size = align_page (item_length (key c) (the (val c)));
          m = mark_used (pageno (unat (used_length m))) (unat (aligned_size div 128)) m;
          offset_bk = ucast (used_length m) :: u32 in
      do {
        m \<leftarrow> copy_item (unat (used_length m)) c m;
        let m = set_used_length (used_length m + ucast aligned_size) m;
        let m = set_last_updated now (set_used_count (used_count m + 1) m);
        Some (take_remain (used_length m - ucast offset_bk) m, offset_bk)
      })"

fun end_loop ::
  "(nat \<Rightarrow> int) \<Rightarrow> u64 \<Rightarrow> nat list \<Rightarrow> find_container \<Rightarrow> (int \<times> find_container) option" where
  "end_loop dlock now [] c = Some (RET_NG, c)"
| "end_loop dlock now (d # ds) c =
     (if isvalid_lock (dlock d) \<noteq> RET_OK then Some (RET_NG, c)
      else
        (case data_pointer (datafiles c ! d) of
           None \<Rightarrow> end_loop dlock now ds c
         | Some m \<Rightarrow>
             if remain_length m > ucast (align_page (item_length (key c) (the (val c)))) then do {
               (m, offset_bk) \<leftarrow> insert_at_end now c m;
               Some (RET_OK, c\<lparr>datafiles := put_datafile d m (datafiles c),
                 resultnode := node_key (hashedid c) (of_nat d) (ucast offset_bk)\<rparr>)
             }
             else end_loop dlock now ds c))"

definition insert_to_datafile ::
  "(nat \<Rightarrow> int) \<Rightarrow> u64 \<Rightarrow> find_container \<Rightarrow> (int \<times> find_container) option" where
  "insert_to_datafile dlock now c = end_loop dlock now (distid (key c)) c"

section \<open>Giving the pages of an item back\<close>

text \<open>The check of an item's head.\<close>

definition item_valid :: "mem \<Rightarrow> nat \<Rightarrow> bool" where
  "item_valid m a \<longleftrightarrow> i_signature m a = DATAITEM_SIGNATURE_ID \<and>
     (ucast (i_keylen m a + i_vallen m a) + of_nat SIZEOF_DATAITM :: u64) = ucast (i_length m a)"

definition free_item :: "nat \<Rightarrow> mem \<Rightarrow> mem" where
  "free_item a m =
     (let aligned_size = align_page (i_length m a);
          m = mark_free (pageno (a - SIZEOF_DB_HEADER)) (unat (aligned_size div 128)) m
      in set_remain_length (remain_length m + ucast (aligned_size * 128)) m)"

text \<open>
  \<open>change_free_to_datafile\<close>. For a file that is not mapped the result here is \<open>RET_NG\<close>; the source adds the
  offset before it compares the pointer with \<open>INVALID_SOCKET\<close> and so follows an invalid pointer (its
  callers have just read the item through the same mapping).
\<close>

definition change_free_to_datafile ::
  "(nat \<Rightarrow> int) \<Rightarrow> datafile list \<Rightarrow> node_key \<Rightarrow> bool \<Rightarrow> int \<times> datafile list" where
  "change_free_to_datafile dlock fs node nolock =
     (let d = unat (data_field node); a = unat (data_offset node) in
      if d \<ge> IPC_DATAFILE_MAX \<or> a \<ge> IPC_DATAFILE_TTLSIZE \<or> a \<le> SIZEOF_DB_HEADER then (RET_NG, fs)
      else if \<not> nolock \<and> isvalid_lock (dlock d) \<noteq> RET_OK then (RET_NG, fs)
      else
        (case data_pointer (fs ! d) of
           None \<Rightarrow> (RET_NG, fs)
         | Some m \<Rightarrow>
             if \<not> item_valid m a then (RET_NG, fs)
             else (RET_OK, put_datafile d (free_item a m) fs)))"

section \<open>Search\<close>

definition reserve_remove :: "node_key \<Rightarrow> node_key list \<Rightarrow> node_key list" where
  "reserve_remove node ks =
     (case find (\<lambda>n. ISEMPTY_KEY (ks ! n)) [0..<REMOVE_RESERVED_COUNT] of
        None \<Rightarrow> ks | Some n \<Rightarrow> ks[n := node])"

definition findindex_callback_for_search ::
  "(nat \<Rightarrow> int) \<Rightarrow> u32 \<Rightarrow> node_key \<Rightarrow> find_container \<Rightarrow> int \<times> find_container" where
  "findindex_callback_for_search dlock curtime node c =
     (let d = unat (data_field node); a = unat (data_offset node); df = datafiles c ! d in
      if d > IPC_DATAFILE_MAX \<or> filefd df = - 1 \<or> filefd df = 0 \<or> isvalid_lock (dlock d) \<noteq> RET_OK
      then (RET_NG, c\<lparr>flag := RET_NG\<rparr>)
      else
        (case data_pointer df of
           None \<Rightarrow> (RET_NG, c\<lparr>flag := RET_NG\<rparr>)
         | Some m \<Rightarrow>
             if \<not> item_valid m a \<or> i_keylen m a = 0 \<or> i_vallen m a = 0
             then (RET_NG, c\<lparr>flag := RET_NG\<rparr>)
             else if i_expire m a \<noteq> 0 \<and> i_expire m a < curtime
             then (RET_WARN, c\<lparr>remove_reserved := reserve_remove node (remove_reserved c),
               datafiles := snd (change_free_to_datafile dlock (datafiles c) node True)\<rparr>)
             else if of_nat (length (key c)) \<noteq> i_keylen m a then (RET_OK, c)
             else if ld_bytes m (a + SIZEOF_DATAITM) (length (key c)) = key c
             then (RET_NG, c\<lparr>val := Some (ld_bytes m (a + SIZEOF_DATAITM + unat (i_keylen m a)) (unat (i_vallen m a))),
               flag := RET_OK\<rparr>)
             else (RET_OK, c)))"

text \<open>The removals from the index that the callback has asked for; \<open>rlock n\<close> is the lock of the \<open>n\<close>-th.\<close>

fun remove_all_reserved ::
  "(nat \<Rightarrow> int) \<Rightarrow> nat \<Rightarrow> node_key list \<Rightarrow> tree_instance \<Rightarrow> tree_instance option" where
  "remove_all_reserved rlock n [] inst = Some inst"
| "remove_all_reserved rlock n (k # ks) inst =
     (if ISEMPTY_KEY k then Some inst
      else do { (_, inst) \<leftarrow> remove_tree_safe (rlock n) k inst; remove_all_reserved rlock (Suc n) ks inst })"

definition new_container :: "datafile list \<Rightarrow> int \<Rightarrow> bytes \<Rightarrow> bytes option \<Rightarrow> u32 \<Rightarrow> find_container" where
  "new_container fs fl k v ex = \<lparr>hashedid = safe_hash k, datafiles = fs, resultnode = node_key 0 0 0,
     remove_reserved = replicate REMOVE_RESERVED_COUNT (node_key 0 0 0), flag = fl, key = k, val = v, expire = ex\<rparr>"

text \<open>The result: code, value, index and data files. The caller's \<open>*val\<close> has to be NULL.\<close>

definition search ::
  "int \<Rightarrow> (nat \<Rightarrow> int) \<Rightarrow> (nat \<Rightarrow> int) \<Rightarrow> u32 \<Rightarrow> tree_instance \<Rightarrow> datafile list \<Rightarrow> bytes \<Rightarrow> bytes option \<Rightarrow>
     (int \<times> bytes option \<times> tree_instance \<times> datafile list) option" where
  "search lock rlock dlock curtime inst fs k v =
     (if v \<noteq> None then Some (RET_NG, v, inst, fs)
      else do {
        (_, c, inst) \<leftarrow> find_tree_only_keyhash_safe lock (safe_hash k)
          (findindex_callback_for_search dlock curtime) (new_container fs RET_NG k None 0) inst;
        let (ret, v) = (if val c \<noteq> None \<and> val c \<noteq> Some [] \<and> flag c = RET_OK then (RET_OK, val c) else (RET_NG, None));
        inst \<leftarrow> remove_all_reserved rlock 0 (remove_reserved c) inst;
        Some (ret, v, inst, datafiles c)
      })"

section \<open>Store\<close>

text \<open>
  The callback of \<open>store\<close>. Its last statement sets the flag to \<open>RET_MOREDATA\<close> on every way through
  the lock, also after an item has been overwritten or found too small. Overwriting in place is not
  checked against the size of the file, as in the source: the new item fits the pages of the old one.
\<close>

definition findindex_callback_for_update_insert ::
  "(nat \<Rightarrow> int) \<Rightarrow> u32 \<Rightarrow> node_key \<Rightarrow> find_container \<Rightarrow> int \<times> find_container" where
  "findindex_callback_for_update_insert dlock curtime node c =
     (let d = unat (data_field node); a = unat (data_offset node); df = datafiles c ! d in
      if d > IPC_DATAFILE_MAX \<or> filefd df = - 1 \<or> filefd df = 0 \<or> data_pointer df = None
      then (RET_NG, c\<lparr>flag := RET_NG\<rparr>)
      else if isvalid_lock (dlock d) \<noteq> RET_OK then (RET_NG, c\<lparr>flag := RET_MOREDATA\<rparr>)
      else
        let m = the (data_pointer df) in
        if \<not> item_valid m a \<or> i_keylen m a = 0 \<or> i_vallen m a = 0 then (RET_NG, c\<lparr>flag := RET_MOREDATA\<rparr>)
        else if i_expire m a \<noteq> 0 \<and> i_expire m a < curtime then (RET_OK, c\<lparr>flag := RET_MOREDATA\<rparr>)
        else if of_nat (length (key c)) \<noteq> i_keylen m a then (RET_OK, c\<lparr>flag := RET_MOREDATA\<rparr>)
        else if ld_bytes m (a + SIZEOF_DATAITM) (length (key c)) = key c then
          let v = the (val c); vallen = of_nat (length v) in
          if align_page (i_length m a) \<ge> align_page (item_length (key c) v) then
            let m' = st_bytes (a + SIZEOF_DATAITM + unat (i_keylen m a)) v m;
                m' = (if i_vallen m a \<noteq> vallen
                      then st32 (a + 4) (i_keylen m a + vallen + of_nat SIZEOF_DATAITM) (st32 (a + 20) vallen m')
                      else m')
            in (RET_NG, c\<lparr>datafiles := put_datafile d m' (datafiles c), flag := RET_MOREDATA\<rparr>)
          else (RET_NG, c\<lparr>resultnode := node, flag := RET_MOREDATA\<rparr>)
        else (RET_OK, c\<lparr>flag := RET_MOREDATA\<rparr>))"

definition insert_somewhere ::
  "(nat \<Rightarrow> int) \<Rightarrow> u64 \<Rightarrow> find_container \<Rightarrow> (int \<times> find_container) option" where
  "insert_somewhere dlock now c =
     do {
       (r, c) \<leftarrow> insert_to_datafile_at_freepage dlock now c;
       if r = RET_OK then Some (RET_OK, c) else insert_to_datafile dlock now c
     }"

text \<open>The new item and its key in the index; the code is that of \<open>store\<close>.\<close>

definition insert_and_index ::
  "int \<Rightarrow> (nat \<Rightarrow> int) \<Rightarrow> u64 \<Rightarrow> find_container \<Rightarrow> tree_instance \<Rightarrow> (int \<times> find_container \<times> tree_instance) option" where
  "insert_and_index alock dlock now c inst =
     do {
       (r, c) \<leftarrow> insert_somewhere dlock now c;
       if r \<noteq> RET_OK then Some (RET_NG, c, inst)
       else do {
         (r, inst) \<leftarrow> add_tree_safe alock (ucast now) (resultnode c) inst;
         Some (if r = RET_OK then RET_OK else RET_NG, c, inst)
       }
     }"

definition store ::
  "int \<Rightarrow> int \<Rightarrow> int \<Rightarrow> (nat \<Rightarrow> int) \<Rightarrow> u64 \<Rightarrow> tree_instance \<Rightarrow> datafile list \<Rightarrow> bytes \<Rightarrow> bytes \<Rightarrow> u32 \<Rightarrow>
     (int \<times> tree_instance \<times> datafile list) option" where
  "store lock rlock alock dlock now inst fs k v ex =
     (if k = [] \<or> v = [] then Some (RET_NG, inst, fs)
      else do {
        (_, c, inst) \<leftarrow> find_tree_only_keyhash_safe lock (safe_hash k)
          (findindex_callback_for_update_insert dlock (ucast now)) (new_container fs RET_MOREDATA k (Some v) ex) inst;
        if flag c = RET_WARN then do {
          (r, inst) \<leftarrow> remove_tree_safe rlock (resultnode c) inst;
          if r \<noteq> RET_OK then Some (RET_NG, inst, datafiles c)
          else
            let (r, fs) = change_free_to_datafile dlock (datafiles c) (resultnode c) False in
            if r \<noteq> RET_OK then Some (RET_NG, inst, fs)
            else do {
              (r, c, inst) \<leftarrow> insert_and_index alock dlock now (c\<lparr>datafiles := fs\<rparr>) inst;
              Some (r, inst, datafiles c)
            }
        }
        else if flag c = RET_MOREDATA then do {
          (r, c, inst) \<leftarrow> insert_and_index alock dlock now c inst;
          Some (r, inst, datafiles c)
        }
        else Some (RET_NG, inst, datafiles c)
      })"

section \<open>A new data file\<close>

definition init_datafile :: "u64 \<Rightarrow> bytes \<Rightarrow> mem \<Rightarrow> mem" where
  "init_datafile now name m =
     (if ld32 m 56 = DATAITEM_SIGNATURE_ID then m
      else memzero BITMAP IPC_DATAFILE_BMPSIZE (st_bytes 64 (take 62 name @ [0]) (set_last_updated now
        (set_remain_length (of_nat (IPC_DATAFILE_TTLSIZE - SIZEOF_DB_HEADER))
        (st64 32 (of_nat IPC_DATAFILE_TTLSIZE) (set_used_count 0 (set_used_length (of_nat SIZEOF_DB_HEADER)
        (st64 8 (of_nat SIZEOF_DB_HEADER) (st64 0 (of_nat SIZEOF_DB_HEADER) (st32 56 DATAITEM_SIGNATURE_ID m))))))))))"

text \<open>
  The files of a process. What \<open>is_exists\<close>, \<open>open\<close> and \<open>mmap\<close> say of file \<open>n\<close> are the parameters \<open>sizes\<close>
  (its size, if it exists), \<open>fd\<close> (-1 is an error) and \<open>mapping\<close> (its bytes, if the mapping is made).
\<close>

definition no_datafile :: datafile where
  "no_datafile = \<lparr>filefd = - 1, data_pointer = None\<rparr>"

definition init_datafiles_from_file ::
  "(nat \<Rightarrow> nat option) \<Rightarrow> (nat \<Rightarrow> int) \<Rightarrow> (nat \<Rightarrow> mem option) \<Rightarrow> u64 \<Rightarrow> (nat \<Rightarrow> bytes) \<Rightarrow> datafile list" where
  "init_datafiles_from_file sizes fd mapping now name =
     map (\<lambda>n. if sizes n = Some IPC_DATAFILE_TTLSIZE \<and> fd n \<noteq> - 1 then
                (case mapping n of
                   None \<Rightarrow> no_datafile
                 | Some m \<Rightarrow> \<lparr>filefd = fd n, data_pointer = Some (init_datafile now (name n) m)\<rparr>)
              else no_datafile) [0..<IPC_DATAFILE_MAX]"

end
