(* ===== verification/Database_File.thy ===== *)
theory Database_File
  imports Smmr_Database
begin

text \<open>
  One data file of the database: the search for free pages finds the first run that is long enough,
  a new item goes to pages that no other item has, and giving an item back frees exactly its pages.
\<close>

section \<open>Sizes\<close>

abbreviation item_size :: "bytes \<Rightarrow> bytes \<Rightarrow> nat" where
  "item_size k v \<equiv> SIZEOF_DATAITM + length k + length v"

definition npages :: "nat \<Rightarrow> nat" where
  "npages n = (n + 127) div 128"

lemma npages_bounds: "n \<le> 128 * npages n" "128 * npages n < n + 128" "0 < n \<Longrightarrow> 1 \<le> npages n"
  unfolding npages_def by linarith+

lemma npages_exact: "n mod 128 = 0 \<Longrightarrow> 128 * npages n = n"
proof -
  assume "n mod 128 = 0"
  then obtain k where k: "n = 128 * k" by auto
  have "(128 * k + 127) div 128 = k" by simp
  then show ?thesis unfolding k npages_def by simp
qed

lemma npages_rounded: "n mod 128 \<noteq> 0 \<Longrightarrow> 128 * npages n = (n div 128 + 1) * 128"
proof -
  assume r: "n mod 128 \<noteq> 0"
  let ?k = "n div 128" and ?r = "n mod 128"
  have n: "n + 127 = (?r + 127) + 128 * ?k" using div_mult_mod_eq [of n 128] by simp
  have "?r < 128" by simp
  then have "(?r + 127) div 128 = 1" by (intro div_nat_eqI) (use r in simp_all)
  then have "(n + 127) div 128 = ?k + 1" unfolding n div_mult_self2 [OF zero_neq_numeral [symmetric]] by (simp only:)
  then show ?thesis unfolding npages_def by (simp only: mult.commute)
qed

lemma unat_item_length:
  assumes "item_size k v \<le> 2 ^ 26"
  shows "unat (item_length k v) = item_size k v"
proof -
  have e: "item_length k v = of_nat (item_size k v)" by (simp add: item_length_def)
  show ?thesis unfolding e by (rule unat_of_nat_small) (use assms in simp)
qed

lemma unat_align_page:
  assumes "unat n \<le> 2 ^ 26"
  shows "unat (align_page n) = 128 * npages (unat n)" "unat (align_page n div 128) = npages (unat n)"
proof -
  have m: "unat (n mod 128) = unat n mod 128" "unat (n div 128) = unat n div 128"
    by (simp_all add: unat_mod_distrib unat_div_distrib)
  have z: "n mod 128 = 0 \<longleftrightarrow> unat n mod 128 = 0" unfolding m(1) [symmetric] by (simp add: unat_eq_0)
  have "unat (n div 128 + 1) = unat n div 128 + 1"
    using assms m(2) by (simp add: unat_word_ariths(1))
  moreover have "(unat n div 128 + 1) * 128 < 2 ^ 32" using assms by simp
  ultimately have "unat ((n div 128 + 1) * 128) = (unat n div 128 + 1) * 128"
    unfolding unat_word_ariths(2) by simp
  then show a: "unat (align_page n) = 128 * npages (unat n)"
    unfolding align_page_def z using npages_exact npages_rounded by (cases "unat n mod 128 = 0") simp_all
  then show "unat (align_page n div 128) = npages (unat n)" by (simp add: unat_div_distrib)
qed

section \<open>The search for free pages\<close>

definition free_pages :: "mem \<Rightarrow> nat \<Rightarrow> nat \<Rightarrow> bool" where
  "free_pages m p s \<longleftrightarrow> (\<forall>q. p \<le> q \<and> q < p + s \<longrightarrow> \<not> ISPAGEBIT m BITMAP q)"

definition found_run :: "mem \<Rightarrow> nat \<Rightarrow> nat \<Rightarrow> u32 \<Rightarrow> bool" where
  "found_run m n s r \<longleftrightarrow> r = 0 \<and> (\<forall>q\<ge>1. q + s \<le> n \<longrightarrow> \<not> free_pages m q s) \<or>
     (\<exists>p. r = of_nat (128 * p) \<and> 1 \<le> p \<and> p + s \<le> n \<and> free_pages m p s \<and> (\<forall>q\<ge>1. free_pages m q s \<longrightarrow> p \<le> q))"

text \<open>
  Before the round for \<open>j\<close> the last \<open>fb\<close> pages up to page \<open>j\<close> are free, and no run that is long enough
  starts before them.
\<close>

definition run_before :: "mem \<Rightarrow> nat \<Rightarrow> nat \<Rightarrow> nat \<Rightarrow> bool" where
  "run_before m s j fb \<longleftrightarrow> fb < s \<and> fb \<le> j \<and> free_pages m (j + 1 - fb) fb \<and>
     (\<forall>q\<ge>1. free_pages m q s \<longrightarrow> j + 1 - fb \<le> q)"

lemma run_before_used:
  assumes "run_before m s j fb" "ISPAGEBIT m BITMAP (j + 1)"
  shows "run_before m s (Suc j) 0"
proof -
  have "Suc j + 1 \<le> q" if q: "q \<ge> 1" "free_pages m q s" for q
  proof -
    have "j + 1 - fb \<le> q" using assms(1) q unfolding run_before_def by blast
    moreover have "\<not> (q \<le> j + 1 \<and> j + 1 < q + s)" using q(2) assms(2) unfolding free_pages_def by blast
    moreover have "fb < s" "fb \<le> j" using assms(1) by (simp_all add: run_before_def)
    ultimately show ?thesis by linarith
  qed
  then show ?thesis using assms(1) by (simp add: run_before_def free_pages_def)
qed

lemma free_pages_more:
  assumes "run_before m s j fb" "\<not> ISPAGEBIT m BITMAP (j + 1)"
  shows "free_pages m (j + 1 - fb) (fb + 1)"
  unfolding free_pages_def
proof (intro allI impI)
  fix q
  assume q: "j + 1 - fb \<le> q \<and> q < j + 1 - fb + (fb + 1)"
  have "fb \<le> j" "free_pages m (j + 1 - fb) fb" using assms(1) by (simp_all add: run_before_def)
  then show "\<not> ISPAGEBIT m BITMAP q"
    using q assms(2) unfolding free_pages_def by (cases "q = j + 1") auto
qed

lemma free_run_from:
  assumes "j \<le> n" "n < 2 ^ 24" "0 < s" "s < 2 ^ 24" "run_before m s j fb"
  shows "found_run m (n + 1) s (free_run m (of_nat s) (of_nat fb) [j..<n])"
  using assms(1,5)
proof (induction "n - j" arbitrary: j fb)
  case 0
  then have "j = n" "fb < s" "fb \<le> j" and q: "\<forall>q\<ge>1. free_pages m q s \<longrightarrow> j + 1 - fb \<le> q"
    by (simp_all add: run_before_def)
  then have "\<forall>q\<ge>1. q + s \<le> n + 1 \<longrightarrow> \<not> free_pages m q s" by fastforce
  then show ?case using \<open>j = n\<close> by (simp add: found_run_def)
next
  case (Suc x)
  then have j: "j < n" and x: "x = n - Suc j" by simp_all
  have u: "[j..<n] = j # [Suc j..<n]" using j by (rule upt_conv_Cons)
  note rb = Suc.prems(2)
  have fb: "fb < s" "fb \<le> j" and mn: "\<forall>q\<ge>1. free_pages m q s \<longrightarrow> j + 1 - fb \<le> q"
    using rb by (simp_all add: run_before_def)
  show ?case
  proof (cases "ISPAGEBIT m BITMAP (j + 1)")
    case True
    have e: "free_run m (of_nat s) (of_nat fb) [j..<n] = free_run m (of_nat s) (of_nat 0) [Suc j..<n]"
      unfolding u using True by simp
    show ?thesis unfolding e by (rule Suc.hyps(1) [OF x]) (use j run_before_used [OF rb True] in simp_all)
  next
    case False
    note fr = free_pages_more [OF rb False]
    have w: "(of_nat fb + 1 \<ge> (of_nat s :: u32)) \<longleftrightarrow> s \<le> fb + 1"
    proof -
      have "unat (of_nat (fb + 1) :: u32) = fb + 1" by (rule unat_of_nat_small) (use fb assms(4) in simp)
      moreover have "unat (of_nat s :: u32) = s" by (rule unat_of_nat_small) (use assms(4) in simp)
      moreover have "(of_nat fb + 1 :: u32) = of_nat (fb + 1)" by simp
      ultimately show ?thesis by (simp only: word_le_nat_alt)
    qed
    show ?thesis
    proof (cases "s \<le> fb + 1")
      case True
      then have s: "s = fb + 1" using fb by simp
      let ?p = "j + 1 - fb"
      have "((of_nat j + 1) - (of_nat s - 1)) = (of_nat ?p :: u32)"
        using fb s by (simp add: of_nat_diff)
      then have "free_run m (of_nat s) (of_nat fb) [j..<n] = of_nat ?p * 128"
        unfolding u using False w True by simp
      then have e: "free_run m (of_nat s) (of_nat fb) [j..<n] = of_nat (128 * ?p)" by (simp add: mult.commute)
      have "1 \<le> ?p" "?p + s \<le> n + 1" "free_pages m ?p s" using fb s j fr by auto
      then show ?thesis unfolding found_run_def e using mn by blast
    next
      case go: False
      have e: "free_run m (of_nat s) (of_nat fb) [j..<n] = free_run m (of_nat s) (of_nat (fb + 1)) [Suc j..<n]"
        unfolding u using False w go by (simp add: add.commute)
      have "run_before m s (Suc j) (fb + 1)" using fr mn fb go by (simp add: run_before_def)
      then show ?thesis unfolding e by (intro Suc.hyps(1) [OF x]) (use j in simp_all)
    qed
  qed
qed

lemma free_run_spec:
  assumes "0 < s" "s < 2 ^ 24"
  shows "found_run m IPC_DATAFILE_PAGECNT s (free_run m (of_nat s) 0 [0..<IPC_DATAFILE_PAGECNT - 1])"
proof -
  have "found_run m (IPC_DATAFILE_PAGECNT - 1 + 1) s (free_run m (of_nat s) (of_nat 0) [0..<IPC_DATAFILE_PAGECNT - 1])"
    by (rule free_run_from) (use assms in \<open>simp_all add: run_before_def free_pages_def\<close>)
  then show ?thesis by simp
qed

section \<open>Marking pages\<close>

lemma fold_bit_on:
  "ISPAGEBIT (fold (PAGEBIT_ON BITMAP) ps m) BITMAP q \<longleftrightarrow> q \<in> set ps \<or> ISPAGEBIT m BITMAP q"
  by (induction ps arbitrary: m) (auto simp: ISPAGEBIT_ON)

lemma fold_bit_off:
  "ISPAGEBIT (fold (PAGEBIT_OFF BITMAP) ps m) BITMAP q \<longleftrightarrow> q \<notin> set ps \<and> ISPAGEBIT m BITMAP q"
  by (induction ps arbitrary: m) (auto simp: ISPAGEBIT_OFF)

lemma fold_bit_outside:
  assumes "\<forall>p\<in>set ps. p < 2 ^ 20" "i < BITMAP \<or> SIZEOF_DB_HEADER \<le> i"
  shows "fold (PAGEBIT_ON BITMAP) ps m i = m i \<and> fold (PAGEBIT_OFF BITMAP) ps m i = m i"
  using assms
proof (induction ps arbitrary: m)
  case (Cons p ps)
  have "i \<noteq> BITMAP + p div 8" using Cons.prems by auto
  then show ?case using Cons by (simp add: PAGEBIT_outside)
qed simp

lemma mark_bits:
  "ISPAGEBIT (mark_used p s m) BITMAP q \<longleftrightarrow> p \<le> q \<and> q < p + s \<or> ISPAGEBIT m BITMAP q"
  "ISPAGEBIT (mark_free p s m) BITMAP q \<longleftrightarrow> \<not> (p \<le> q \<and> q < p + s) \<and> ISPAGEBIT m BITMAP q"
  by (auto simp: mark_used_def mark_free_def fold_bit_on fold_bit_off)

lemma mark_outside:
  assumes "p + s \<le> IPC_DATAFILE_PAGECNT" "i < BITMAP \<or> SIZEOF_DB_HEADER \<le> i"
  shows "mark_used p s m i = m i" "mark_free p s m i = m i"
  using fold_bit_outside [of "[p..<p + s]" i m] assms by (simp_all add: mark_used_def mark_free_def)

text \<open>The fields of the header before the bitmap, and the bitmap.\<close>

lemma header_bits:
  "\<forall>i\<ge>BITMAP. i < SIZEOF_DB_HEADER \<longrightarrow> m' i = m i \<Longrightarrow> q < 2 ^ 20 \<Longrightarrow> ISPAGEBIT m' BITMAP q = ISPAGEBIT m BITMAP q"
  by (rule ISPAGEBIT_cong) simp

lemma ld64_cong: "(\<And>i. a \<le> i \<Longrightarrow> i < a + 8 \<Longrightarrow> m i = m' i) \<Longrightarrow> ld64 m a = ld64 m' a"
  unfolding ld64_def by (metis ld_bytes_cong)

lemma st64_outside: "i < a \<or> a + 8 \<le> i \<Longrightarrow> st64 a v m i = m i"
  by (simp add: st64_def st_bytes_outside)

section \<open>An item in the file\<close>

definition item_at :: "mem \<Rightarrow> nat \<Rightarrow> u32 \<Rightarrow> bytes \<Rightarrow> bytes \<Rightarrow> bool" where
  "item_at m a ex k v \<longleftrightarrow> ld_bytes m a (item_size k v) = curitm ex k v @ k @ v"

lemma length_curitm [simp]: "length (curitm ex k v) = SIZEOF_DATAITM"
  by (simp add: curitm_def)

lemma ld_bytes_append: "ld_bytes m a (n + k) = ld_bytes m a n @ ld_bytes m (a + n) k"
  by (rule nth_equalityI) (auto simp: nth_append add.assoc)

lemma item_fields:
  assumes "item_at m a ex k v" "item_size k v \<le> 2 ^ 26"
  shows "i_signature m a = DATAITEM_SIGNATURE_ID" "unat (i_length m a) = item_size k v" "i_expire m a = ex"
    "unat (i_keylen m a) = length k" "unat (i_vallen m a) = length v"
    "ld_bytes m (a + SIZEOF_DATAITM) (length k) = k" "ld_bytes m (a + SIZEOF_DATAITM + length k) (length v) = v"
    "item_valid m a"
proof -
  have e: "ld_bytes m a SIZEOF_DATAITM @ ld_bytes m (a + SIZEOF_DATAITM) (length k) @
      ld_bytes m (a + SIZEOF_DATAITM + length k) (length v) = curitm ex k v @ k @ v"
    using assms(1) unfolding item_at_def by (simp only: ld_bytes_append append.assoc add.assoc)
  then have h: "ld_bytes m a SIZEOF_DATAITM = curitm ex k v" by (auto dest: append_eq_append_conv [THEN iffD1, rotated])
  then show kv: "ld_bytes m (a + SIZEOF_DATAITM) (length k) = k" "ld_bytes m (a + SIZEOF_DATAITM + length k) (length v) = v"
    using e by auto
  have w: "ld_bytes m (a + j) 4 = take 4 (drop j (curitm ex k v))" if "j + 4 \<le> SIZEOF_DATAITM" for j
  proof -
    have "take 4 (drop j (ld_bytes m a SIZEOF_DATAITM)) = ld_bytes m (a + j) 4"
      by (rule nth_equalityI) (use that in \<open>auto simp: add.assoc\<close>)
    then show ?thesis using h by simp
  qed
  show s: "i_signature m a = DATAITEM_SIGNATURE_ID" using w [of 0] by (simp add: i_signature_def ld32_def curitm_def)
  have l: "i_length m a = item_length k v" using w [of 4] by (simp add: i_length_def ld32_def curitm_def)
  then show ul: "unat (i_length m a) = item_size k v" using unat_item_length [OF assms(2)] by simp
  show "i_expire m a = ex" using w [of 12] by (simp add: i_expire_def ld32_def curitm_def)
  have kl: "i_keylen m a = of_nat (length k)" using w [of 16] by (simp add: i_keylen_def ld32_def curitm_def)
  have vl: "i_vallen m a = of_nat (length v)" using w [of 20] by (simp add: i_vallen_def ld32_def curitm_def)
  show uk: "unat (i_keylen m a) = length k" unfolding kl by (rule unat_of_nat_small) (use assms(2) in simp)
  show uv: "unat (i_vallen m a) = length v" unfolding vl by (rule unat_of_nat_small) (use assms(2) in simp)
  have "unat (i_keylen m a + i_vallen m a) = length k + length v"
    using uk uv assms(2) by (simp add: unat_word_ariths(1))
  then have "ucast (i_keylen m a + i_vallen m a) = (of_nat (length k + length v) :: u64)"
    by (metis of_nat_unat)
  moreover have "ucast (i_length m a) = (of_nat (item_size k v) :: u64)" using ul by (metis of_nat_unat)
  ultimately show "item_valid m a" using s by (simp add: item_valid_def)
qed

lemma item_at_cong:
  assumes "item_at m a ex k v" "\<And>i. a \<le> i \<Longrightarrow> i < a + item_size k v \<Longrightarrow> m' i = m i"
  shows "item_at m' a ex k v"
  using assms ld_bytes_cong [of a "item_size k v" m m'] unfolding item_at_def by metis

lemma copy_item_effect:
  assumes "val c = Some v" "off + item_size (key c) v \<le> IPC_DATAFILE_TTLSIZE"
  obtains m' where "copy_item off c m = Some m'" "item_at m' off (expire c) (key c) v"
    "\<And>i. i < off \<or> off + item_size (key c) v \<le> i \<Longrightarrow> m' i = m i"
proof -
  let ?h = "curitm (expire c) (key c) v" and ?k = "key c"
  let ?m1 = "st_bytes off ?h m"
  let ?m2 = "st_bytes (off + SIZEOF_DATAITM) ?k ?m1"
  let ?m3 = "st_bytes (off + SIZEOF_DATAITM + length ?k) v ?m2"
  have e: "copy_item off c m = Some ?m3"
    using assms by (simp add: copy_item_def file_copy_def Let_def)
  have "item_at ?m3 off (expire c) ?k v"
    unfolding item_at_def
  proof (rule nth_equalityI)
    fix i
    assume "i < length (ld_bytes ?m3 off (item_size ?k v))"
    then have "i < item_size ?k v" by simp
    then show "ld_bytes ?m3 off (item_size ?k v) ! i = (?h @ ?k @ v) ! i"
      by (auto simp: st_bytes_def nth_append)
  qed simp
  moreover have "?m3 i = m i" if "i < off \<or> off + item_size ?k v \<le> i" for i
    using that by (auto simp: st_bytes_outside)
  ultimately show ?thesis using that e by blast
qed

section \<open>A new item on the pages of a run\<close>

text \<open>Everything but the fields at the start of the header.\<close>

definition same_above :: "nat \<Rightarrow> mem \<Rightarrow> mem \<Rightarrow> bool" where
  "same_above n m m' \<longleftrightarrow> (\<forall>i\<ge>n. m' i = m i)"

lemma set_header [simp]:
  "56 \<le> i \<Longrightarrow> set_used_length x m i = m i" "56 \<le> i \<Longrightarrow> set_used_count x m i = m i"
  "56 \<le> i \<Longrightarrow> set_remain_length x m i = m i" "56 \<le> i \<Longrightarrow> set_last_updated x m i = m i"
  by (simp_all add: set_used_length_def set_used_count_def set_remain_length_def set_last_updated_def st64_outside)

lemma remain_same [simp]:
  "remain_length (set_used_length x m) = remain_length m" "remain_length (set_used_count x m) = remain_length m"
  "remain_length (set_last_updated x m) = remain_length m" "remain_length (set_remain_length x m) = x"
  by (simp_all add: remain_length_def set_used_length_def set_used_count_def set_remain_length_def set_last_updated_def
    ld64_st64_other ld64_st64_same)

lemma take_remain_effect:
  "56 \<le> i \<Longrightarrow> take_remain n m i = m i" "remain_length (take_remain n m) = (if remain_length m > n then remain_length m - n else 0)"
  by (simp_all add: take_remain_def)

lemma insert_at_effect:
  assumes v: "val c = Some v" and sz: "item_size (key c) v \<le> 2 ^ 26"
    and p: "1 \<le> p" "p + npages (item_size (key c) v) \<le> IPC_DATAFILE_PAGECNT"
  defines "s \<equiv> npages (item_size (key c) v)" and "off \<equiv> SIZEOF_DB_HEADER + 128 * p"
  obtains m' where "insert_at now (of_nat (128 * p)) c m = Some (m', of_nat off)"
    "item_at m' off (expire c) (key c) v"
    "\<forall>i\<ge>SIZEOF_DB_HEADER. i < off \<or> off + 128 * s \<le> i \<longrightarrow> m' i = m i"
    "\<forall>q<IPC_DATAFILE_PAGECNT. ISPAGEBIT m' BITMAP q \<longleftrightarrow> p \<le> q \<and> q < p + s \<or> ISPAGEBIT m BITMAP q"
    "remain_length m' = (if remain_length m > of_nat (128 * s) then remain_length m - of_nat (128 * s) else 0)"
    "ld32 m' 56 = ld32 m 56"
proof -
  let ?sz = "item_size (key c) v"
  let ?al = "align_page (item_length (key c) v)"
  have al: "unat ?al = 128 * s" "unat (?al div 128) = s"
    using unat_align_page [of "item_length (key c) v"] unat_item_length [OF sz] sz by (simp_all add: s_def)
  have fit: "off + 128 * s \<le> IPC_DATAFILE_TTLSIZE" using p(2) by (simp add: off_def s_def)
  have uf: "unat (of_nat (128 * p) :: u32) = 128 * p" by (rule unat_of_nat_small) (use p(2) in simp)
  have uo: "unat (of_nat off :: u32) = off" by (rule unat_of_nat_small) (use fit in simp)
  have o: "(of_nat (128 * p) + of_nat SIZEOF_DB_HEADER :: u32) = of_nat off" by (simp add: off_def)
  have pn: "pageno (128 * p) = p" by (simp add: pageno_def)
  let ?m1 = "mark_used p s m"
  have szs: "?sz \<le> 128 * s" using npages_bounds(1) [of ?sz] by (simp add: s_def)
  have fit2: "off + ?sz \<le> IPC_DATAFILE_TTLSIZE" using fit szs by simp
  obtain m2 where m2: "copy_item off c ?m1 = Some m2" "item_at m2 off (expire c) (key c) v"
    "\<And>i. i < off \<or> off + ?sz \<le> i \<Longrightarrow> m2 i = ?m1 i"
    using copy_item_effect [OF v fit2, of ?m1] by metis
  let ?last = "of_nat off + ?al :: u32"
  let ?m3 = "set_last_updated now m2"
  let ?m4 = "if ucast ?last > used_length ?m3 then set_used_count (used_count ?m3 + 1) (set_used_length (ucast ?last) ?m3) else ?m3"
  let ?m5 = "take_remain (ucast ?al) ?m4"
  have ial: "?last - of_nat off = ?al" by simp
  have ins: "insert_at now (of_nat (128 * p)) c m = Some (?m5, of_nat off)"
    unfolding insert_at_def Let_def v option.sel o uf uo pn al(2) m2(1) ial by (simp add: Let_def)
  have hi: "?m5 i = m2 i" if "56 \<le> i" for i using that by (simp add: take_remain_effect)
  have it: "item_at ?m5 off (expire c) (key c) v"
    by (rule item_at_cong [OF m2(2)]) (use hi in \<open>simp add: off_def\<close>)
  have p': "p + s \<le> IPC_DATAFILE_PAGECNT" using p(2) by (simp add: s_def)
  have out: "?m5 i = m i" if "SIZEOF_DB_HEADER \<le> i" "i < off \<or> off + 128 * s \<le> i" for i
    using hi [of i] m2(3) [of i] mark_outside(1) [OF p', of i m] that szs by auto
  have bits: "ISPAGEBIT ?m5 BITMAP q \<longleftrightarrow> p \<le> q \<and> q < p + s \<or> ISPAGEBIT m BITMAP q" if "q < IPC_DATAFILE_PAGECNT" for q
  proof -
    have "ISPAGEBIT ?m5 BITMAP q = ISPAGEBIT ?m1 BITMAP q"
      by (rule header_bits) (use hi m2(3) that in \<open>auto simp: off_def\<close>)
    then show ?thesis by (simp add: mark_bits)
  qed
  have "remain_length m2 = remain_length m"
    unfolding remain_length_def
  proof (rule ld64_cong)
    fix i :: nat
    assume "40 \<le> i" "i < 40 + 8"
    then show "m2 i = m i" using m2(3) [of i] mark_outside(1) [OF p', of i m] by (simp add: off_def)
  qed
  moreover have "ucast ?al = (of_nat (128 * s) :: u64)" using al(1) by (metis of_nat_unat)
  ultimately have rm: "remain_length ?m5 = (if remain_length m > of_nat (128 * s) then remain_length m - of_nat (128 * s) else 0)"
    by (simp add: take_remain_effect)
  have sg: "ld32 ?m5 56 = ld32 m 56"
    by (rule ld32_cong) (use hi m2(3) mark_outside(1) [OF p', of _ m] in \<open>simp add: off_def\<close>)
  show ?thesis by (rule that [OF ins it _ _ rm sg]) (use out bits in blast)+
qed

section \<open>The items of a file\<close>

text \<open>
  The items by their offsets: well-formed, on pages inside the file that are marked as used and that
  no other item has.
\<close>

type_synonym items = "nat \<rightharpoonup> u32 \<times> bytes \<times> bytes"

fun item_pages :: "nat \<Rightarrow> u32 \<times> bytes \<times> bytes \<Rightarrow> nat set" where
  "item_pages a (ex, k, v) = {(a - SIZEOF_DB_HEADER) div 128..<(a - SIZEOF_DB_HEADER) div 128 + npages (item_size k v)}"

fun item_ok :: "mem \<Rightarrow> nat \<Rightarrow> u32 \<times> bytes \<times> bytes \<Rightarrow> bool" where
  "item_ok m a (ex, k, v) \<longleftrightarrow> k \<noteq> [] \<and> v \<noteq> [] \<and> item_size k v \<le> 2 ^ 26 \<and> item_at m a ex k v \<and>
     (\<exists>p\<ge>1. a = SIZEOF_DB_HEADER + 128 * p \<and> p + npages (item_size k v) \<le> IPC_DATAFILE_PAGECNT) \<and>
     (\<forall>q\<in>item_pages a (ex, k, v). ISPAGEBIT m BITMAP q)"

declare item_pages.simps [simp del] item_ok.simps [simp del]

definition file_ok :: "mem \<Rightarrow> items \<Rightarrow> bool" where
  "file_ok m F \<longleftrightarrow> ld32 m 56 = DATAITEM_SIGNATURE_ID \<and> (\<forall>a x. F a = Some x \<longrightarrow> item_ok m a x) \<and>
     (\<forall>a b x y. F a = Some x \<longrightarrow> F b = Some y \<longrightarrow> a \<noteq> b \<longrightarrow> item_pages a x \<inter> item_pages b y = {})"

lemma file_ok_item: "file_ok m F \<Longrightarrow> F a = Some x \<Longrightarrow> item_ok m a x"
  unfolding file_ok_def by blast

lemma file_ok_apart:
  "file_ok m F \<Longrightarrow> F a = Some x \<Longrightarrow> F b = Some y \<Longrightarrow> a \<noteq> b \<Longrightarrow> item_pages a x \<inter> item_pages b y = {}"
  unfolding file_ok_def by blast

lemma file_ok_signed: "file_ok m F \<Longrightarrow> ld32 m 56 = DATAITEM_SIGNATURE_ID"
  unfolding file_ok_def by blast

lemma file_ok_empty: "ld32 m 56 = DATAITEM_SIGNATURE_ID \<Longrightarrow> file_ok m Map.empty"
  by (simp add: file_ok_def)

text \<open>An item keeps its place when its bytes stay and its pages stay used.\<close>

lemma item_okE:
  assumes "item_ok m a x"
  obtains ex k v p where "x = (ex, k, v)" "k \<noteq> []" "v \<noteq> []" "item_size k v \<le> 2 ^ 26" "item_at m a ex k v"
    "1 \<le> p" "a = SIZEOF_DB_HEADER + 128 * p" "p + npages (item_size k v) \<le> IPC_DATAFILE_PAGECNT"
    "item_pages a x = {p..<p + npages (item_size k v)}" "\<forall>q\<in>item_pages a x. ISPAGEBIT m BITMAP q"
proof -
  obtain ex k v where x: "x = (ex, k, v)" by (cases x) auto
  then obtain p where p: "1 \<le> p" "a = SIZEOF_DB_HEADER + 128 * p" "p + npages (item_size k v) \<le> IPC_DATAFILE_PAGECNT"
    using assms by (auto simp: item_ok.simps)
  have "item_pages a x = {p..<p + npages (item_size k v)}" unfolding x using p(2) by (simp add: item_pages.simps)
  then show ?thesis using that [OF x _ _ _ _ p] assms x by (simp add: item_ok.simps)
qed

lemma item_okI:
  assumes "k \<noteq> []" "v \<noteq> []" "item_size k v \<le> 2 ^ 26" "item_at m a ex k v"
    "1 \<le> p" "a = SIZEOF_DB_HEADER + 128 * p" "p + npages (item_size k v) \<le> IPC_DATAFILE_PAGECNT"
    "\<forall>q\<in>{p..<p + npages (item_size k v)}. ISPAGEBIT m BITMAP q"
  shows "item_ok m a (ex, k, v)" "item_pages a (ex, k, v) = {p..<p + npages (item_size k v)}"
proof -
  show pg: "item_pages a (ex, k, v) = {p..<p + npages (item_size k v)}" using assms(6) by (simp add: item_pages.simps)
  show "item_ok m a (ex, k, v)" unfolding item_ok.simps pg using assms by blast
qed

lemma item_ok_keeps:
  assumes "item_ok m a x" "\<forall>q\<in>item_pages a x. q < IPC_DATAFILE_PAGECNT \<longrightarrow> ISPAGEBIT m' BITMAP q"
    and "\<And>q i. q \<in> item_pages a x \<Longrightarrow> SIZEOF_DB_HEADER + 128 * q \<le> i \<Longrightarrow> i < SIZEOF_DB_HEADER + 128 * q + 128 \<Longrightarrow> m' i = m i"
  shows "item_ok m' a x"
proof (rule item_okE [OF assms(1)])
  fix ex k v p
  assume x: "x = (ex, k, v)" "k \<noteq> []" "v \<noteq> []" "item_size k v \<le> 2 ^ 26" "item_at m a ex k v"
    and p: "1 \<le> p" "a = SIZEOF_DB_HEADER + 128 * p" "p + npages (item_size k v) \<le> IPC_DATAFILE_PAGECNT"
    and pg: "item_pages a x = {p..<p + npages (item_size k v)}"
  have "m' i = m i" if i: "a \<le> i" "i < a + item_size k v" for i
  proof -
    define j where "j = i - a"
    have j: "i = SIZEOF_DB_HEADER + 128 * p + j" "j < 128 * npages (item_size k v)"
      using i p(2) npages_bounds(1) [of "item_size k v"] by (simp_all add: j_def)
    have "j div 128 < npages (item_size k v)" using j(2) by (simp add: less_mult_imp_div_less mult.commute)
    then have "p + j div 128 \<in> item_pages a x" unfolding pg by simp
    moreover have "SIZEOF_DB_HEADER + 128 * (p + j div 128) \<le> i" "i < SIZEOF_DB_HEADER + 128 * (p + j div 128) + 128"
    proof -
      define q where "q = j div 128"
      have "j = 128 * q + j mod 128" "j mod 128 < 128" by (simp_all add: q_def)
      then show "SIZEOF_DB_HEADER + 128 * (p + j div 128) \<le> i" "i < SIZEOF_DB_HEADER + 128 * (p + j div 128) + 128"
        unfolding j(1) q_def [symmetric] by simp_all
    qed
    ultimately show ?thesis by (rule assms(3))
  qed
  then have "item_at m' a ex k v" using x(5) item_at_cong [of m a ex k v m'] by blast
  moreover have "\<forall>q\<in>{p..<p + npages (item_size k v)}. ISPAGEBIT m' BITMAP q" using assms(2) pg p(3) by auto
  ultimately show ?thesis unfolding x(1) using x p by (intro item_okI(1)) simp_all
qed

lemma file_ok_insert:
  assumes f: "file_ok m F" and x: "k \<noteq> []" "v \<noteq> []" "item_size k v \<le> 2 ^ 26"
    and p: "1 \<le> p" "p + s \<le> IPC_DATAFILE_PAGECNT" "free_pages m p s" "s = npages (item_size k v)" "off = SIZEOF_DB_HEADER + 128 * p"
    and m': "item_at m' off ex k v" "\<forall>i\<ge>SIZEOF_DB_HEADER. i < off \<or> off + 128 * s \<le> i \<longrightarrow> m' i = m i"
      "\<forall>q<IPC_DATAFILE_PAGECNT. ISPAGEBIT m' BITMAP q \<longleftrightarrow> p \<le> q \<and> q < p + s \<or> ISPAGEBIT m BITMAP q"
    and sg: "ld32 m' 56 = ld32 m 56"
  shows "file_ok m' (F(off \<mapsto> (ex, k, v)))" "F off = None"
proof -
  have new: "item_ok m' off (ex, k, v)" "item_pages off (ex, k, v) = {p..<p + s}"
    unfolding p(4) by (rule item_okI [OF x m'(1) p(1,5)]; use p m'(3) in auto)+
  have apart: "item_pages a y \<inter> {p..<p + s} = {}" if "F a = Some y" for a y
    using file_ok_item [OF f that] p(3) by (auto elim!: item_okE simp: free_pages_def)
  have s: "1 \<le> s" using npages_bounds(3) [of "item_size k v"] p(4) by simp
  show none: "F off = None"
  proof (rule ccontr)
    assume "F off \<noteq> None"
    then obtain y where y: "F off = Some y" by auto
    show False
    proof (rule item_okE [OF file_ok_item [OF f y]])
      fix ex' k' v' p'
      assume "off = SIZEOF_DB_HEADER + 128 * p'" "item_pages off y = {p'..<p' + npages (item_size k' v')}"
      then have "p \<in> item_pages off y" using p(5) npages_bounds(3) [of "item_size k' v'"] by simp
      then show False using apart [OF y] s by auto
    qed
  qed
  have old: "item_ok m' a y" if y: "F a = Some y" for a y
  proof (rule item_ok_keeps [OF file_ok_item [OF f y]])
    have "\<forall>q\<in>item_pages a y. ISPAGEBIT m BITMAP q" using file_ok_item [OF f y] by (auto elim: item_okE)
    then show "\<forall>q\<in>item_pages a y. q < IPC_DATAFILE_PAGECNT \<longrightarrow> ISPAGEBIT m' BITMAP q" using m'(3) by blast
    fix q i
    assume q: "q \<in> item_pages a y" "SIZEOF_DB_HEADER + 128 * q \<le> i" "i < SIZEOF_DB_HEADER + 128 * q + 128"
    then have "q < p \<or> p + s \<le> q" using apart [OF y] by auto
    then have "i < off \<or> off + 128 * s \<le> i" using q(2,3) p(5) by auto
    then show "m' i = m i" using m'(2) q(2) by auto
  qed
  show "file_ok m' (F(off \<mapsto> (ex, k, v)))"
    unfolding file_ok_def
  proof (intro conjI allI impI)
    show "ld32 m' 56 = DATAITEM_SIGNATURE_ID" using sg file_ok_signed [OF f] by simp
    show "item_ok m' a y" if "(F(off \<mapsto> (ex, k, v))) a = Some y" for a y
      using that new(1) old [of a y] unfolding fun_upd_apply by (cases "a = off") simp_all
    fix a b y z
    assume g: "(F(off \<mapsto> (ex, k, v))) a = Some y" "(F(off \<mapsto> (ex, k, v))) b = Some z" "a \<noteq> b"
    consider "a = off" "F b = Some z" "y = (ex, k, v)" | "b = off" "F a = Some y" "z = (ex, k, v)" | "F a = Some y" "F b = Some z"
      using g unfolding fun_upd_apply by (cases "a = off"; cases "b = off") (simp_all del: split_paired_All)
    then show "item_pages a y \<inter> item_pages b z = {}"
      by cases (use new(2) apart file_ok_apart [OF f] g(3) in \<open>auto simp: Int_commute\<close>)
  qed
qed

section \<open>Giving an item back\<close>

lemma free_item_above:
  assumes "item_ok m0 a (ex, k, v)" "item_at m a ex k v"
  shows "\<forall>i\<ge>SIZEOF_DB_HEADER. free_item a m i = m i"
    "\<exists>r. free_item a m = set_remain_length r (mark_free (pageno (a - SIZEOF_DB_HEADER)) (npages (item_size k v)) m)"
proof -
  obtain p where p: "item_size k v \<le> 2 ^ 26" "a = SIZEOF_DB_HEADER + 128 * p" "p + npages (item_size k v) \<le> IPC_DATAFILE_PAGECNT"
    by (rule item_okE [OF assms(1)]) auto
  have al: "unat (align_page (i_length m a) div 128) = npages (item_size k v)"
    using unat_align_page(2) [of "i_length m a"] item_fields(2) [OF assms(2) p(1)] p(1) by simp
  have pn: "pageno (a - SIZEOF_DB_HEADER) = p" unfolding p(2) by (simp add: pageno_def)
  show e: "\<exists>r. free_item a m = set_remain_length r (mark_free (pageno (a - SIZEOF_DB_HEADER)) (npages (item_size k v)) m)"
    unfolding free_item_def Let_def al by blast
  show "\<forall>i\<ge>SIZEOF_DB_HEADER. free_item a m i = m i" using e mark_outside(2) [OF p(3)] unfolding pn by auto
qed

lemma free_item_effect:
  assumes f: "file_ok m F" and a: "F a = Some x"
  shows "file_ok (free_item a m) (F(a := None))"
    "\<forall>i\<ge>SIZEOF_DB_HEADER. free_item a m i = m i"
    "\<forall>q<IPC_DATAFILE_PAGECNT. ISPAGEBIT (free_item a m) BITMAP q \<longleftrightarrow> q \<notin> item_pages a x \<and> ISPAGEBIT m BITMAP q"
proof -
  note ok = file_ok_item [OF f a]
  obtain ex k v p where x: "x = (ex, k, v)" "item_size k v \<le> 2 ^ 26" "item_at m a ex k v"
    and p: "1 \<le> p" "a = SIZEOF_DB_HEADER + 128 * p" "p + npages (item_size k v) \<le> IPC_DATAFILE_PAGECNT"
    and pg: "item_pages a x = {p..<p + npages (item_size k v)}"
    by (rule item_okE [OF ok])
  let ?s = "npages (item_size k v)"
  note above = free_item_above [OF ok [unfolded x(1)] x(3)]
  have pn: "pageno (a - SIZEOF_DB_HEADER) = p" unfolding p(2) by (simp add: pageno_def)
  obtain r where e: "free_item a m = set_remain_length r (mark_free p ?s m)" using above(2) unfolding pn by blast
  show out: "\<forall>i\<ge>SIZEOF_DB_HEADER. free_item a m i = m i" by (fact above(1))
  show bits: "\<forall>q<IPC_DATAFILE_PAGECNT. ISPAGEBIT (free_item a m) BITMAP q \<longleftrightarrow> q \<notin> item_pages a x \<and> ISPAGEBIT m BITMAP q"
  proof (intro allI impI)
    fix q
    assume "q < IPC_DATAFILE_PAGECNT"
    then have "ISPAGEBIT (free_item a m) BITMAP q = ISPAGEBIT (mark_free p ?s m) BITMAP q"
      unfolding e by (intro header_bits) simp_all
    then show "ISPAGEBIT (free_item a m) BITMAP q \<longleftrightarrow> q \<notin> item_pages a x \<and> ISPAGEBIT m BITMAP q"
      unfolding pg by (auto simp: mark_bits)
  qed
  show "file_ok (free_item a m) (F(a := None))"
    unfolding file_ok_def
  proof (intro conjI allI impI)
    have "ld32 (free_item a m) 56 = ld32 m 56"
      unfolding e by (rule ld32_cong) (simp add: mark_outside(2) [OF p(3)])
    then show "ld32 (free_item a m) 56 = DATAITEM_SIGNATURE_ID" using file_ok_signed [OF f] by simp
    fix b y
    assume "(F(a := None)) b = Some y"
    then have b: "F b = Some y" "b \<noteq> a" by (auto split: if_splits)
    then have "item_pages b y \<inter> item_pages a x = {}" using f a unfolding file_ok_def by blast
    moreover have "\<forall>q\<in>item_pages b y. ISPAGEBIT m BITMAP q" using file_ok_item [OF f b(1)] by (auto elim: item_okE)
    ultimately have "\<forall>q\<in>item_pages b y. q < IPC_DATAFILE_PAGECNT \<longrightarrow> ISPAGEBIT (free_item a m) BITMAP q"
      using bits by blast
    then show "item_ok (free_item a m) b y"
      by (rule item_ok_keeps [OF file_ok_item [OF f b(1)]]) (use out in simp)
    fix c z
    assume c: "(F(a := None)) c = Some z" "b \<noteq> c"
    then have "F c = Some z" by (auto split: if_splits)
    then show "item_pages b y \<inter> item_pages c z = {}" using file_ok_apart [OF f b(1)] c(2) by blast
  qed
qed

end
