(* ===== verification/Database_Search.thy ===== *)
theory Database_Search
  imports Database_File Tree_Visit
begin

text \<open>
  The database as a map from keys to values. The index has one key for every item of the data files;
  \<open>search\<close> looks an item up by its key, skips the items whose time is over and gives them back.
\<close>

section \<open>The keys with a hash\<close>

lemma find_hash_visits:
  assumes i: "index_ok f inst" and h: "h \<noteq> 0" and P: "P u"
    and ok: "\<And>k u. k \<in> index_keys f \<Longrightarrow> keyhash k = h \<Longrightarrow> P u \<Longrightarrow> P (snd (func k u))"
  obtains rc u' ks where "find_tree_only_keyhash_safe 0 h func u inst = Some (rc, u', inst\<lparr>curid := unat h mod 4\<rparr>)"
    "distinct ks" "set ks = {k \<in> index_keys f. keyhash k = h}" "visits P func ks u u'"
proof -
  note result = that
  note c = index_category [OF i h]
  let ?t = "snd (f (unat h mod 4))"
  obtain h' where t: "shape 1 h' ?t" "sorted_wrt (<) (inorder ?t)"
    "rep (cat_id (categories inst ! (unat h mod 4))) (mem (tree_of inst (unat h mod 4))) ?t"
    "rooti (tree_of inst (unat h mod 4)) = root_of (cat_id (categories inst ! (unat h mod 4))) ?t"
    by (rule index_tree [OF i c(2)])
  have m: "mset (hash_visit h ?t) = mset (filter (\<lambda>k. h = keyhash k) (inorder ?t))"
    using hash_visit_keys [OF t(1,2)] by (simp add: with_hash_def)
  have "distinct (inorder ?t)" using t(2) by (simp add: strict_sorted_iff)
  then have d: "distinct (hash_visit h ?t)"
    using m by (metis distinct_filter mset_eq_imp_distinct_iff)
  have mem: "k \<in> set (inorder ?t) \<longleftrightarrow> k \<in> index_keys f" if "keyhash k = h" for k
    using index_keys_at [OF i, of k] h that by simp
  then have st: "set (hash_visit h ?t) = {k \<in> index_keys f. keyhash k = h}"
    using mset_eq_setD [OF m] by auto
  have "\<forall>k\<in>set (inorder ?t). keyhash k = h \<longrightarrow> (\<forall>u. P u \<longrightarrow> P (snd (func k u)))"
    using ok mem by blast
  from hash_search_visits [OF t(1,3) P this] obtain rc u' where
    s: "search_item_only_keyhash_recurcive (mem (tree_of inst (unat h mod 4))) h func
      (root_of (cat_id (categories inst ! (unat h mod 4))) ?t) u = Some (rc, u')" "visits P func (hash_visit h ?t) u u'" by blast
  have "find_tree_only_keyhash_safe 0 h func u inst = Some (RET_OK OR rc, u', inst\<lparr>curid := unat h mod 4\<rparr>)"
    using c(1) s(1) by (simp add: find_tree_only_keyhash_safe_def Let_def t(4))
  then show ?thesis using result d st s(2) by blast
qed

section \<open>A consistent database\<close>

definition mapped :: "datafile list \<Rightarrow> nat \<Rightarrow> mem \<Rightarrow> bool" where
  "mapped fs d m \<longleftrightarrow> filefd (fs ! d) \<noteq> - 1 \<and> filefd (fs ! d) \<noteq> 0 \<and> data_pointer (fs ! d) = Some m"

text \<open>Every file is mapped and well-formed; \<open>F d\<close> are the items of file \<open>d\<close>.\<close>

definition files_ok :: "datafile list \<Rightarrow> (nat \<Rightarrow> items) \<Rightarrow> bool" where
  "files_ok fs F \<longleftrightarrow> length fs = IPC_DATAFILE_MAX \<and> (\<forall>d<IPC_DATAFILE_MAX. \<exists>m. mapped fs d m \<and> file_ok m (F d))"

definition stored :: "(nat \<Rightarrow> items) \<Rightarrow> nat \<Rightarrow> nat \<Rightarrow> u32 \<Rightarrow> bytes \<Rightarrow> bytes \<Rightarrow> bool" where
  "stored F d a ex k v \<longleftrightarrow> d < IPC_DATAFILE_MAX \<and> F d a = Some (ex, k, v)"

definition item_node :: "nat \<Rightarrow> nat \<Rightarrow> bytes \<Rightarrow> node_key" where
  "item_node d a k = node_key (safe_hash k) (of_nat d) (of_nat a)"

definition db_ok :: "(nat \<Rightarrow> blk \<times> ntree) \<Rightarrow> tree_instance \<Rightarrow> datafile list \<Rightarrow> (nat \<Rightarrow> items) \<Rightarrow> bool" where
  "db_ok f inst fs F \<longleftrightarrow> index_ok f inst \<and> files_ok fs F \<and>
     (\<forall>d a ex k v. stored F d a ex k v \<longrightarrow> a < 2 ^ 24) \<and>
     (\<forall>n. n \<in> index_keys f \<longleftrightarrow> (\<exists>d a ex k v. stored F d a ex k v \<and> n = item_node d a k))"

definition live_at :: "u32 \<Rightarrow> u32 \<Rightarrow> bool" where
  "live_at t ex \<longleftrightarrow> ex = 0 \<or> t \<le> ex"

text \<open>The map that the items form at the time \<open>t\<close>; that there is one says that a key is stored once.\<close>

definition db_map :: "u32 \<Rightarrow> (nat \<Rightarrow> items) \<Rightarrow> (bytes \<rightharpoonup> bytes) \<Rightarrow> bool" where
  "db_map t F M \<longleftrightarrow> (\<forall>k v. M k = Some v \<longleftrightarrow> (\<exists>d a ex. stored F d a ex k v \<and> live_at t ex))"

text \<open>The items whose time is over and that have the hash \<open>h\<close>, and the items without some of them.\<close>

definition over :: "u32 \<Rightarrow> (nat \<Rightarrow> items) \<Rightarrow> u32 \<Rightarrow> node_key set" where
  "over t F h = {n. \<exists>d a ex k v. stored F d a ex k v \<and> \<not> live_at t ex \<and> n = item_node d a k \<and> safe_hash k = h}"

definition without :: "node_key set \<Rightarrow> (nat \<Rightarrow> items) \<Rightarrow> nat \<Rightarrow> items" where
  "without K F d a = (case F d a of None \<Rightarrow> None | Some (ex, k, v) \<Rightarrow> if item_node d a k \<in> K then None else Some (ex, k, v))"

lemma stored_without: "stored (without K F) d a ex k v \<longleftrightarrow> stored F d a ex k v \<and> item_node d a k \<notin> K"
  by (auto simp: stored_def without_def split: option.splits)

lemma item_node_eq:
  assumes "d < IPC_DATAFILE_MAX" "d' < IPC_DATAFILE_MAX" "a < 2 ^ 24" "a' < 2 ^ 24" "item_node d a k = item_node d' a' k'"
  shows "d = d'" "a = a'"
proof -
  have e: "(of_nat d :: u8) = of_nat d'" "(of_nat a :: u24) = of_nat a'" using assms(5) by (simp_all add: item_node_def)
  have "unat (of_nat d :: u8) = d" "unat (of_nat d' :: u8) = d'" "unat (of_nat a :: u24) = a" "unat (of_nat a' :: u24) = a'"
    by (rule unat_of_nat_small; use assms in simp)+
  then show "d = d'" "a = a'" using e by metis+
qed

lemma item_node_sel:
  assumes "d < IPC_DATAFILE_MAX" "a < 2 ^ 24"
  shows "keyhash (item_node d a k) = safe_hash k" "unat (data_field (item_node d a k)) = d" "unat (data_offset (item_node d a k)) = a"
  using unat_of_nat_small [of d, where 'a = 8] unat_of_nat_small [of a, where 'a = 24] assms by (simp_all add: item_node_def)

lemma files_okE:
  assumes "files_ok fs F" "d < IPC_DATAFILE_MAX"
  obtains m where "filefd (fs ! d) \<noteq> - 1" "filefd (fs ! d) \<noteq> 0" "data_pointer (fs ! d) = Some m" "file_ok m (F d)"
  using assms unfolding files_ok_def mapped_def by blast

text \<open>The files differ in their headers only.\<close>

definition same_items :: "datafile list \<Rightarrow> datafile list \<Rightarrow> bool" where
  "same_items fs fs' \<longleftrightarrow> length fs' = length fs \<and> (\<forall>d<length fs. filefd (fs' ! d) = filefd (fs ! d) \<and>
     (\<forall>m. data_pointer (fs ! d) = Some m \<longrightarrow> (\<exists>m'. data_pointer (fs' ! d) = Some m' \<and> same_above SIZEOF_DB_HEADER m m')))"

lemma same_items_refl [simp]: "same_items fs fs"
  by (simp add: same_items_def same_above_def)

lemma same_items_put:
  assumes "same_items fs fs'" "d < length fs" "data_pointer (fs' ! d) = Some m" "same_above SIZEOF_DB_HEADER m m'"
  shows "same_items fs (put_datafile d m' fs')"
  using assms unfolding same_items_def put_datafile_def same_above_def
  by (fastforce simp: nth_list_update)

lemma files_ok_put:
  assumes "files_ok fs F" "d < IPC_DATAFILE_MAX" "file_ok m (F' d)" "\<And>d'. d' \<noteq> d \<Longrightarrow> F' d' = F d'"
  shows "files_ok (put_datafile d m fs) F'"
  unfolding files_ok_def
proof (intro conjI allI impI)
  show "length (put_datafile d m fs) = IPC_DATAFILE_MAX" using assms(1) by (simp add: files_ok_def put_datafile_def)
  fix d'
  assume "d' < IPC_DATAFILE_MAX"
  then show "\<exists>m'. mapped (put_datafile d m fs) d' m' \<and> file_ok m' (F' d')"
    using assms unfolding files_ok_def mapped_def put_datafile_def by (cases "d' = d") auto
qed

lemma same_item:
  assumes "item_ok m a (ex, k, v)" "same_above SIZEOF_DB_HEADER m m'"
  shows "item_at m' a ex k v" "SIZEOF_DB_HEADER < a" "a < IPC_DATAFILE_TTLSIZE" "k \<noteq> []" "v \<noteq> []" "item_size k v \<le> 2 ^ 26"
proof -
  obtain p where p: "k \<noteq> []" "v \<noteq> []" "item_size k v \<le> 2 ^ 26" "item_at m a ex k v" "1 \<le> p"
    "a = SIZEOF_DB_HEADER + 128 * p" "p + npages (item_size k v) \<le> IPC_DATAFILE_PAGECNT"
    by (rule item_okE [OF assms(1)]) auto
  show "item_at m' a ex k v" using item_at_cong [OF p(4)] assms(2) p(6) by (simp add: same_above_def)
  show "SIZEOF_DB_HEADER < a" "a < IPC_DATAFILE_TTLSIZE" "k \<noteq> []" "v \<noteq> []" "item_size k v \<le> 2 ^ 26"
    using p npages_bounds(3) [of "item_size k v"] by simp_all
qed

section \<open>The callback of the search\<close>

lemma stored_item:
  assumes "files_ok fs F" "stored F d a ex k v" "a < 2 ^ 24" "same_items fs fs'"
  obtains m where "d < IPC_DATAFILE_MAX" "filefd (fs' ! d) \<noteq> - 1" "filefd (fs' ! d) \<noteq> 0" "data_pointer (fs' ! d) = Some m"
    "item_at m a ex k v" "SIZEOF_DB_HEADER < a" "a < IPC_DATAFILE_TTLSIZE" "k \<noteq> []" "v \<noteq> []" "item_size k v \<le> 2 ^ 26"
proof -
  have d: "d < IPC_DATAFILE_MAX" "F d a = Some (ex, k, v)" using assms(2) by (simp_all add: stored_def)
  obtain m where m: "filefd (fs ! d) \<noteq> - 1" "filefd (fs ! d) \<noteq> 0" "data_pointer (fs ! d) = Some m" "file_ok m (F d)"
    by (rule files_okE [OF assms(1) d(1)])
  have l: "d < length fs" using assms(1) d(1) by (simp add: files_ok_def)
  obtain m' where m': "filefd (fs' ! d) = filefd (fs ! d)" "data_pointer (fs' ! d) = Some m'" "same_above SIZEOF_DB_HEADER m m'"
    using assms(4) l m(3) unfolding same_items_def by blast
  show ?thesis
    using that [OF d(1) _ _ m'(2)] m(1,2) m'(1) same_item [OF file_ok_item [OF m(4) d(2)] m'(3)] by simp
qed

lemma search_callback:
  assumes "files_ok fs F" "stored F d a ex k' v'" "a < 2 ^ 24" "same_items fs (datafiles c)"
    and "\<And>d. dlock d = 0" "length (key c) < 2 ^ 32"
  shows "findindex_callback_for_search dlock t (item_node d a k') c =
    (if \<not> live_at t ex
     then (RET_WARN, c\<lparr>remove_reserved := reserve_remove (item_node d a k') (remove_reserved c),
       datafiles := put_datafile d (free_item a (the (data_pointer (datafiles c ! d)))) (datafiles c)\<rparr>)
     else if k' = key c then (RET_NG, c\<lparr>val := Some v', flag := RET_OK\<rparr>)
     else (RET_OK, c))"
proof -
  obtain m where m: "d < IPC_DATAFILE_MAX" "filefd (datafiles c ! d) \<noteq> - 1" "filefd (datafiles c ! d) \<noteq> 0"
    "data_pointer (datafiles c ! d) = Some m" "item_at m a ex k' v'" "SIZEOF_DB_HEADER < a" "a < IPC_DATAFILE_TTLSIZE"
    "k' \<noteq> []" "v' \<noteq> []" "item_size k' v' \<le> 2 ^ 26"
    by (rule stored_item [OF assms(1-4)])
  note n = item_node_sel [OF m(1) assms(3), of k']
  note fd = item_fields [OF m(5,10)]
  have nz: "i_keylen m a \<noteq> 0" "i_vallen m a \<noteq> 0" using fd(4,5) m(8,9) by auto
  have ex: "\<not> live_at t ex \<longleftrightarrow> i_expire m a \<noteq> 0 \<and> i_expire m a < t"
    by (auto simp: live_at_def fd(3))
  have "unat (of_nat (length (key c)) :: u32) = length (key c)" by (rule unat_of_nat_small) (use assms(6) in simp)
  then have len: "(of_nat (length (key c)) \<noteq> i_keylen m a) \<longleftrightarrow> length (key c) \<noteq> length k'"
    using fd(4) by (metis word_unat_eq_iff)
  have cf: "change_free_to_datafile dlock (datafiles c) (item_node d a k') True =
      (RET_OK, put_datafile d (free_item a m) (datafiles c))"
    using m fd(8) by (simp add: change_free_to_datafile_def n)
  have key: "ld_bytes m (a + SIZEOF_DATAITM) (length (key c)) = key c \<longleftrightarrow> k' = key c" if "length (key c) = length k'"
    using fd(6) that by simp
  have g: "\<not> d > IPC_DATAFILE_MAX" "isvalid_lock (dlock d) = RET_OK" "item_valid m a"
    using m(1) assms(5) fd(8) by simp_all
  have val: "ld_bytes m (a + SIZEOF_DATAITM + unat (i_keylen m a)) (unat (i_vallen m a)) = v'" using fd(4,5,7) by simp
  note start = findindex_callback_for_search_def [of dlock t "item_node d a k'" c, unfolded n Let_def m(4) option.case val cf]
  consider "\<not> live_at t ex" | "live_at t ex" "length (key c) \<noteq> length k'" | "live_at t ex" "length (key c) = length k'"
    by blast
  then show ?thesis
  proof cases
    case 1
    then show ?thesis using ex unfolding start by (simp only: g nz m(2,3,4) simp_thms if_True if_False snd_conv option.sel)
  next
    case 2
    then have "k' \<noteq> key c" by auto
    then show ?thesis using 2 ex len unfolding start by (simp only: g nz m(2,3,4) simp_thms if_True if_False)
  next
    case 3
    show ?thesis using 3 ex len unfolding start key [OF 3(2)]
      by (simp only: g nz m(2,3,4) simp_thms if_True if_False)
  qed
qed

section \<open>The run of the callback over the keys\<close>

text \<open>What the callback has collected: \<open>R\<close> are the keys to be removed.\<close>

abbreviation no_key :: node_key where "no_key \<equiv> node_key 0 0 0"

definition reserves :: "node_key list \<Rightarrow> find_container \<Rightarrow> bool" where
  "reserves R c \<longleftrightarrow> length R \<le> REMOVE_RESERVED_COUNT \<and> (\<forall>n\<in>set R. \<not> ISEMPTY_KEY n) \<and>
     remove_reserved c = R @ replicate (REMOVE_RESERVED_COUNT - length R) no_key"

lemma reserve_remove_next:
  assumes "reserves R c" "length R < REMOVE_RESERVED_COUNT" "\<not> ISEMPTY_KEY n"
  shows "reserves (R @ [n]) (c\<lparr>remove_reserved := reserve_remove n (remove_reserved c)\<rparr>)"
proof -
  let ?ks = "R @ replicate (REMOVE_RESERVED_COUNT - length R) no_key"
  have "find (\<lambda>j. ISEMPTY_KEY (?ks ! j)) [0..<REMOVE_RESERVED_COUNT] = Some (length R)"
    unfolding find_Some_iff
  proof (intro exI [of _ "length R"] conjI allI impI)
    show "ISEMPTY_KEY (?ks ! ([0..<REMOVE_RESERVED_COUNT] ! length R))"
      using assms(2) by (simp add: nth_append ISEMPTY_KEY_def)
    show "\<not> ISEMPTY_KEY (?ks ! ([0..<REMOVE_RESERVED_COUNT] ! j))" if "j < length R" for j
      using assms(1,2) that by (simp add: nth_append reserves_def)
  qed (use assms(2) in simp_all)
  moreover have "?ks[length R := n] = (R @ [n]) @ replicate (REMOVE_RESERVED_COUNT - length (R @ [n])) no_key"
    using assms(2) by (intro nth_equalityI) (auto simp: nth_list_update nth_append)
  ultimately show ?thesis using assms by (simp add: reserves_def reserve_remove_def)
qed

text \<open>
  The state after the keys \<open>xs\<close>: the items in \<open>xs\<close> whose time is over are gone, and the value is that
  of the item in \<open>xs\<close> that holds the key, if there is one.
\<close>

definition found_in :: "node_key list \<Rightarrow> (nat \<Rightarrow> items) \<Rightarrow> bytes \<Rightarrow> u32 \<Rightarrow> bool" where
  "found_in xs F k t \<longleftrightarrow> (\<exists>d a ex v. stored F d a ex k v \<and> live_at t ex \<and> item_node d a k \<in> set xs)"

definition searched ::
  "datafile list \<Rightarrow> (nat \<Rightarrow> items) \<Rightarrow> (bytes \<rightharpoonup> bytes) \<Rightarrow> bytes \<Rightarrow> u32 \<Rightarrow> node_key list \<Rightarrow> find_container \<Rightarrow> bool" where
  "searched fs F M k t xs c \<longleftrightarrow> key c = k \<and> same_items fs (datafiles c) \<and>
     files_ok (datafiles c) (without (set xs \<inter> over t F (safe_hash k)) F) \<and>
     reserves (filter (\<lambda>n. n \<in> over t F (safe_hash k)) xs) c \<and>
     (set xs \<inter> over t F (safe_hash k) = {} \<longrightarrow> datafiles c = fs) \<and>
     val c = (if found_in xs F k t then M k else None) \<and> flag c = (if found_in xs F k t then RET_OK else RET_NG)"

lemma files_ok_free:
  assumes "files_ok fs (without K F)" "stored F d a ex k v" "item_node d a k \<notin> K" "a < 2 ^ 24"
    "\<forall>d a ex k v. stored F d a ex k v \<longrightarrow> a < 2 ^ 24" "data_pointer (fs ! d) = Some m"
  shows "files_ok (put_datafile d (free_item a m) fs) (without (insert (item_node d a k) K) F)"
    "same_above SIZEOF_DB_HEADER m (free_item a m)"
proof -
  have d: "d < IPC_DATAFILE_MAX" "F d a = Some (ex, k, v)" "without K F d a = Some (ex, k, v)"
    using assms(2,3) by (simp_all add: stored_def without_def)
  have m: "file_ok m (without K F d)" using files_okE [OF assms(1) d(1)] assms(6) by (metis option.inject)
  note fi = free_item_effect [OF m d(3)]
  show "same_above SIZEOF_DB_HEADER m (free_item a m)" using fi(2) by (simp add: same_above_def)
  have only: "item_node d' a' k' = item_node d a k \<longleftrightarrow> d' = d \<and> a' = a" if "d' < IPC_DATAFILE_MAX" "F d' a' = Some (ex', k', v')" for d' a' ex' k' v'
  proof -
    have "stored F d' a' ex' k' v'" using that by (simp add: stored_def)
    then have "a' < 2 ^ 24" using assms(5) by blast
    then show ?thesis using item_node_eq [OF that(1) d(1) _ assms(4)] that d(2) by auto
  qed
  have same: "without (insert (item_node d a k) K) F d' = (if d' = d then (without K F d)(a := None) else without K F d')"
    if "d' < IPC_DATAFILE_MAX" for d'
  proof (rule ext)
    fix a'
    show "without (insert (item_node d a k) K) F d' a' = (if d' = d then (without K F d)(a := None) else without K F d') a'"
      using only [OF that] by (cases "F d' a'") (auto simp: without_def)
  qed
  show "files_ok (put_datafile d (free_item a m) fs) (without (insert (item_node d a k) K) F)"
    unfolding files_ok_def
  proof (intro conjI allI impI)
    show "length (put_datafile d (free_item a m) fs) = IPC_DATAFILE_MAX" using assms(1) by (simp add: files_ok_def put_datafile_def)
    fix d'
    assume d': "d' < IPC_DATAFILE_MAX"
    then show "\<exists>m'. mapped (put_datafile d (free_item a m) fs) d' m' \<and> file_ok m' (without (insert (item_node d a k) K) F d')"
      using assms(1) fi(1) unfolding files_ok_def mapped_def put_datafile_def same [OF d'] by (cases "d' = d") auto
  qed
qed

lemma searched_step:
  assumes db: "files_ok fs F" "\<forall>d a ex k v. stored F d a ex k v \<longrightarrow> a < 2 ^ 24" "db_map t F M"
    and dl: "\<And>d. dlock d = 0" and k: "length k < 2 ^ 32" "safe_hash k \<noteq> 0"
    and s: "searched fs F M k t xs c" and n: "stored F d a ex k' v'" "n = item_node d a k'" "safe_hash k' = safe_hash k" "n \<notin> set xs"
    and room: "length (filter (\<lambda>n. n \<in> over t F (safe_hash k)) (xs @ [n])) \<le> REMOVE_RESERVED_COUNT"
  shows "searched fs F M k t (xs @ [n]) (snd (findindex_callback_for_search dlock t n c))"
proof -
  have a: "a < 2 ^ 24" "d < IPC_DATAFILE_MAX" using db(2) n(1) by (blast, simp add: stored_def)
  have c: "key c = k" "same_items fs (datafiles c)" "files_ok (datafiles c) (without (set xs \<inter> over t F (safe_hash k)) F)"
    "reserves (filter (\<lambda>n. n \<in> over t F (safe_hash k)) xs) c" "val c = (if found_in xs F k t then M k else None)"
    "flag c = (if found_in xs F k t then RET_OK else RET_NG)" "set xs \<inter> over t F (safe_hash k) = {} \<longrightarrow> datafiles c = fs"
    using s by (simp_all add: searched_def)
  note cb = search_callback [where dlock = dlock and t = t and c = c, OF db(1) n(1) a(1) c(2) dl, unfolded c(1), OF k(1)]
  have only: "d' = d \<and> a' = a \<and> k'' = k' \<and> ex' = ex \<and> v'' = v'"
    if "stored F d' a' ex' k'' v''" "item_node d' a' k'' = item_node d a k'" for d' a' ex' k'' v''
  proof -
    have "d' < IPC_DATAFILE_MAX" "a' < 2 ^ 24" using that(1) db(2) by (simp add: stored_def, blast)
    from item_node_eq [OF this(1) a(2) this(2) a(1) that(2)] show ?thesis using that(1) n(1) by (simp add: stored_def)
  qed
  have over: "n \<in> over t F (safe_hash k) \<longleftrightarrow> \<not> live_at t ex"
    unfolding over_def mem_Collect_eq n(2) using only n(1,3) by metis
  have found: "found_in (xs @ [n]) F k t \<longleftrightarrow> found_in xs F k t \<or> live_at t ex \<and> k' = k"
  proof -
    have "(\<exists>d2 a2 ex2 v2. stored F d2 a2 ex2 k v2 \<and> live_at t ex2 \<and> item_node d2 a2 k = item_node d a k') \<longleftrightarrow> live_at t ex \<and> k' = k"
      using only n(1) by metis
    then show ?thesis unfolding found_in_def n(2) set_append by (simp, blast)
  qed
  show ?thesis
  proof (cases "live_at t ex")
    case False
    obtain m where m: "data_pointer (datafiles c ! d) = Some m" using files_okE [OF c(3) a(2)] by blast
    let ?c = "c\<lparr>remove_reserved := reserve_remove n (remove_reserved c), datafiles := put_datafile d (free_item a m) (datafiles c)\<rparr>"
    have e: "snd (findindex_callback_for_search dlock t n c) = ?c" using cb False m by (simp add: n(2))
    have nin: "item_node d a k' \<notin> set xs \<inter> over t F (safe_hash k)" using n(2,4) by blast
    note fo = files_ok_free [OF c(3) n(1) nin a(1) db(2) m]
    have sets: "set (xs @ [n]) \<inter> over t F (safe_hash k) = insert (item_node d a k') (set xs \<inter> over t F (safe_hash k))"
      using over False by (auto simp: n(2))
    have "d < length fs" using db(1) a(2) by (simp add: files_ok_def)
    note si = same_items_put [OF c(2) this m fo(2)]
    have ne: "\<not> ISEMPTY_KEY n" using k(2) n(3) by (simp add: ISEMPTY_KEY_def n(2) item_node_def)
    have "reserves (filter (\<lambda>n. n \<in> over t F (safe_hash k)) xs @ [n]) (c\<lparr>remove_reserved := reserve_remove n (remove_reserved c)\<rparr>)"
      by (rule reserve_remove_next [OF c(4) _ ne]) (use room over False in simp)
    then have "reserves (filter (\<lambda>n. n \<in> over t F (safe_hash k)) (xs @ [n])) ?c" using over False by (simp add: reserves_def)
    then show ?thesis unfolding e searched_def sets using c(1,5,6) fo(1) si found False by simp
  next
    case live: True
    then have nov: "n \<notin> over t F (safe_hash k)" using over by simp
    then have sets: "set (xs @ [n]) \<inter> over t F (safe_hash k) = set xs \<inter> over t F (safe_hash k)"
      "filter (\<lambda>n. n \<in> over t F (safe_hash k)) (xs @ [n]) = filter (\<lambda>n. n \<in> over t F (safe_hash k)) xs" by auto
    show ?thesis
    proof (cases "k' = k")
      case True
      have "M k = Some v'" using db(3) n(1) live True unfolding db_map_def by blast
      then show ?thesis using cb live True c sets found unfolding searched_def n(2) by (simp add: reserves_def)
    next
      case False
      then show ?thesis using cb live c sets found unfolding searched_def n(2) by simp
    qed
  qed
qed

lemma without_empty [simp]: "without {} F = F"
  by (intro ext) (auto simp: without_def split: option.splits)

lemma searched_fold:
  assumes db: "files_ok fs F" "\<forall>d a ex k v. stored F d a ex k v \<longrightarrow> a < 2 ^ 24" "db_map t F M"
    and dl: "\<And>d. dlock d = 0" and k: "length k < 2 ^ 32" "safe_hash k \<noteq> 0"
    and ks: "distinct ks" "\<forall>n\<in>set ks. \<exists>d a ex k' v'. stored F d a ex k' v' \<and> n = item_node d a k' \<and> safe_hash k' = safe_hash k"
    and room: "length (filter (\<lambda>n. n \<in> over t F (safe_hash k)) ks) \<le> REMOVE_RESERVED_COUNT"
  shows "searched fs F M k t ks
    (fold (\<lambda>n c. snd (findindex_callback_for_search dlock t n c)) ks (new_container fs RET_NG k None 0))"
  using ks room
proof (induction ks rule: rev_induct)
  case Nil
  then show ?case using db(1) by (simp add: searched_def new_container_def reserves_def found_in_def)
next
  case (snoc n ks)
  from snoc.prems(2) obtain d a ex k' v' where n: "stored F d a ex k' v'" "n = item_node d a k'" "safe_hash k' = safe_hash k"
    by fastforce
  have "searched fs F M k t ks (fold (\<lambda>n c. snd (findindex_callback_for_search dlock t n c)) ks (new_container fs RET_NG k None 0))"
    by (rule snoc.IH) (use snoc.prems in auto)
  from searched_step [where dlock = dlock, OF db dl k this n _ snoc.prems(3)] show ?case using snoc.prems(1) by simp
qed

text \<open>The search sees all the keys with the hash, or the item that it looks for.\<close>

lemma search_callback_keeps:
  assumes db: "files_ok fs F" "\<forall>d a ex k v. stored F d a ex k v \<longrightarrow> a < 2 ^ 24"
    and dl: "\<And>d. dlock d = 0" and k: "length k < 2 ^ 32"
    and n: "stored F d a ex k' v'" and c: "key c = k \<and> same_items fs (datafiles c)"
  shows "key (snd (findindex_callback_for_search dlock t (item_node d a k') c)) = k \<and>
    same_items fs (datafiles (snd (findindex_callback_for_search dlock t (item_node d a k') c)))"
proof -
  have a: "a < 2 ^ 24" using db(2) n by blast
  obtain m where m: "d < IPC_DATAFILE_MAX" "data_pointer (datafiles c ! d) = Some m" "item_at m a ex k' v'"
    by (rule stored_item [OF db(1) n a conjunct2 [OF c]])
  obtain m0 where m0: "file_ok m0 (F d)" by (rule files_okE [OF db(1) m(1)])
  have "F d a = Some (ex, k', v')" using n by (simp add: stored_def)
  then have "same_above SIZEOF_DB_HEADER m (free_item a m)"
    using free_item_above [OF file_ok_item [OF m0] m(3)] by (simp add: same_above_def)
  moreover have "d < length fs" using db(1) m(1) by (simp add: files_ok_def)
  ultimately have "same_items fs (put_datafile d (free_item a m) (datafiles c))"
    using same_items_put [OF conjunct2 [OF c] _ m(2)] by blast
  then show ?thesis
    using search_callback [where dlock = dlock and t = t, OF db(1) n a conjunct2 [OF c] dl] c k m(2) by auto
qed

lemma subseq_set: "subseq xs ys \<Longrightarrow> set xs \<subseteq> set ys"
  by (auto dest: list_emb_set)

lemma subseq_distinct: "subseq xs ys \<Longrightarrow> distinct ys \<Longrightarrow> distinct xs"
  by (induction rule: list_emb.induct) (auto dest: list_emb_set)

lemma over_node:
  "n \<in> over t F h \<Longrightarrow> keyhash n = h"
  by (auto simp: over_def item_node_def)

lemma search_visits:
  assumes db: "db_ok f inst fs F" "db_map t F M" and dl: "\<And>d. dlock d = 0"
    and k: "length k < 2 ^ 32" "safe_hash k \<noteq> 0" and few: "card (over t F (safe_hash k)) \<le> REMOVE_RESERVED_COUNT"
  obtains rc c ks where
    "find_tree_only_keyhash_safe 0 (safe_hash k) (findindex_callback_for_search dlock t) (new_container fs RET_NG k None 0) inst =
      Some (rc, c, inst\<lparr>curid := unat (safe_hash k) mod 4\<rparr>)"
    "searched fs F M k t ks c" "found_in ks F k t \<longleftrightarrow> M k \<noteq> None" "M k = None \<longrightarrow> over t F (safe_hash k) \<subseteq> set ks"
proof -
  note result = that
  let ?h = "safe_hash k" and ?c0 = "new_container fs RET_NG k None 0" and ?func = "findindex_callback_for_search dlock t"
  let ?P = "\<lambda>c. key c = k \<and> same_items fs (datafiles c)"
  have d: "index_ok f inst" "files_ok fs F" "\<forall>d a ex k v. stored F d a ex k v \<longrightarrow> a < 2 ^ 24"
    "\<And>n. n \<in> index_keys f \<longleftrightarrow> (\<exists>d a ex k v. stored F d a ex k v \<and> n = item_node d a k)"
    using db(1) unfolding db_ok_def by blast+
  have hash: "keyhash (item_node d a k) = safe_hash k" for d a k by (simp add: item_node_def)
  have P0: "?P ?c0" by (simp add: new_container_def)
  have keeps: "?P (snd (?func n c))" if "n \<in> index_keys f" "keyhash n = ?h" "?P c" for n c
  proof -
    from that(1) obtain d a ex k' v' where n: "stored F d a ex k' v'" "n = item_node d a k'" unfolding d(4) by blast
    show ?thesis unfolding n(2) by (rule search_callback_keeps [OF d(2,3) dl k(1) n(1) that(3)])
  qed
  obtain rc c ks0 where s: "find_tree_only_keyhash_safe 0 ?h ?func ?c0 inst = Some (rc, c, inst\<lparr>curid := unat ?h mod 4\<rparr>)"
    "distinct ks0" "set ks0 = {n \<in> index_keys f. keyhash n = ?h}" "visits ?P ?func ks0 ?c0 c"
    by (rule find_hash_visits [where func = ?func and P = ?P and u = ?c0, OF d(1) k(2) P0]) (rule keeps)
  have mine: "\<exists>d a ex k' v'. stored F d a ex k' v' \<and> n = item_node d a k' \<and> safe_hash k' = ?h" if "n \<in> set ks0" for n
  proof -
    from that have n: "n \<in> index_keys f" "keyhash n = ?h" using s(3) by blast+
    from n(1) obtain d a ex k' v' where "stored F d a ex k' v'" "n = item_node d a k'" unfolding d(4) by blast
    moreover have "safe_hash k' = ?h" using n(2) hash calculation(2) by metis
    ultimately show ?thesis by blast
  qed
  have match: "\<exists>d a ex v. stored F d a ex k v \<and> live_at t ex \<and> n = item_node d a k"
    if n: "n \<in> set ks0" and u: "?P u" and ng: "fst (?func n u) = RET_NG" for n u
  proof -
    from mine [OF n] obtain d a ex k' v' where i: "stored F d a ex k' v'" "n = item_node d a k'" by blast
    have "a < 2 ^ 24" using d(3) i(1) by blast
    note cb = search_callback [where dlock = dlock and t = t, OF d(2) i(1) this conjunct2 [OF u] dl]
    have "live_at t ex \<and> k' = k" using cb ng u k(1) unfolding i(2) by (cases "live_at t ex"; cases "k' = k") simp_all
    then show ?thesis using i by blast
  qed
  have all: "found_in ks0 F k t" if "M k \<noteq> None"
  proof -
    from that obtain d a ex v where i: "stored F d a ex k v" "live_at t ex" using db(2) unfolding db_map_def by blast
    have "item_node d a k \<in> index_keys f" unfolding d(4) using i(1) by blast
    then have "item_node d a k \<in> set ks0" using s(3) hash by simp
    then show ?thesis unfolding found_in_def using i by blast
  qed
  let ?run = "\<lambda>xs. fold (\<lambda>n c. snd (?func n c)) xs ?c0"
  obtain xs where xs: "subseq xs ks0" "c = ?run xs" "xs = ks0 \<or> found_in xs F k t"
  proof (cases "c = ?run ks0")
    case True
    then show ?thesis using that by blast
  next
    case False
    then obtain ys n u where y: "subseq ys ks0" "c = ?run ys" "n \<in> set ys" "?P u" "fst (?func n u) = RET_NG"
      using s(4) unfolding visits_def stopped_def by blast
    have "n \<in> set ks0" using y(1,3) using subseq_set by blast
    from match [OF this y(4,5)] have "found_in ys F k t" using y(3) unfolding found_in_def by blast
    then show ?thesis using that y(1,2) by blast
  qed
  have sub: "set xs \<subseteq> set ks0" "distinct xs"
    using xs(1) s(2) subseq_set subseq_distinct by blast+
  have "over t F ?h \<subseteq> index_keys f"
  proof
    fix n
    assume "n \<in> over t F ?h"
    then show "n \<in> index_keys f" unfolding over_def d(4) by blast
  qed
  then have fin: "finite (over t F ?h)" using index_finite finite_subset by blast
  have "length (filter (\<lambda>n. n \<in> over t F ?h) xs) = card (set (filter (\<lambda>n. n \<in> over t F ?h) xs))"
    using sub(2) by (intro distinct_card [symmetric] distinct_filter)
  also have "\<dots> \<le> card (over t F ?h)" using fin by (intro card_mono) auto
  finally have room: "length (filter (\<lambda>n. n \<in> over t F ?h) xs) \<le> REMOVE_RESERVED_COUNT" using few by simp
  have xm: "\<forall>n\<in>set xs. \<exists>d a ex k' v'. stored F d a ex k' v' \<and> n = item_node d a k' \<and> safe_hash k' = ?h"
    using sub(1) mine by blast
  have se: "searched fs F M k t xs c"
    unfolding xs(2) by (rule searched_fold [OF d(2,3) db(2) dl k sub(2) xm room])
  have fm: "found_in xs F k t \<longleftrightarrow> M k \<noteq> None"
  proof
    show "M k \<noteq> None" if "found_in xs F k t"
      using that db(2) unfolding found_in_def db_map_def by (metis option.distinct(1))
    show "found_in xs F k t" if "M k \<noteq> None" using xs(3) all [OF that] by blast
  qed
  have "over t F ?h \<subseteq> set xs" if "M k = None"
  proof -
    have "xs = ks0" using xs(3) fm that by simp
    then show ?thesis using s(3) \<open>over t F ?h \<subseteq> index_keys f\<close> over_node by blast
  qed
  then have "M k = None \<longrightarrow> over t F ?h \<subseteq> set xs" by blast
  from result [OF s(1) se fm this] show ?thesis .
qed

section \<open>The removals\<close>

lemma remove_all_effect:
  assumes "index_ok f inst" "room_for N f inst" "\<forall>n\<in>set R. \<not> ISEMPTY_KEY n \<and> keyhash n \<noteq> 0"
  shows "\<exists>f' inst'. remove_all_reserved (\<lambda>_. 0) j (R @ replicate i no_key) inst = Some inst' \<and>
    index_ok f' inst' \<and> index_keys f' = index_keys f - set R \<and> room_for N f' inst'"
  using assms
proof (induction R arbitrary: f inst j)
  case Nil
  then show ?case by (cases i) (auto simp: ISEMPTY_KEY_def)
next
  case (Cons n R)
  have n: "keyhash n \<noteq> 0" "\<not> ISEMPTY_KEY n" using Cons.prems(3) by simp_all
  obtain f1 inst1 where r: "remove_tree_safe 0 n inst = Some (RET_OK, inst1)" "index_ok f1 inst1"
    "index_keys f1 = index_keys f - {n}" "room_for N f1 inst1"
    by (rule remove_tree_effect [OF Cons.prems(1) n(1) Cons.prems(2)])
  obtain f' inst' where "remove_all_reserved (\<lambda>_. 0) (Suc j) (R @ replicate i no_key) inst1 = Some inst'"
    "index_ok f' inst'" "index_keys f' = index_keys f1 - set R" "room_for N f' inst'"
    using Cons.IH [OF r(2,4)] Cons.prems(3) by fastforce
  then show ?case using n(2) r(1,3) by auto
qed

section \<open>Search\<close>

lemma db_ok_without:
  assumes db: "db_ok f inst fs F" and i: "index_ok f' inst'" "index_keys f' = index_keys f - K"
    and fs: "files_ok fs' (without K F)"
  shows "db_ok f' inst' fs' (without K F)"
proof -
  have d: "\<forall>d a ex k v. stored F d a ex k v \<longrightarrow> a < 2 ^ 24"
    "\<And>n. n \<in> index_keys f \<longleftrightarrow> (\<exists>d a ex k v. stored F d a ex k v \<and> n = item_node d a k)"
    using db unfolding db_ok_def by blast+
  have "n \<in> index_keys f' \<longleftrightarrow> (\<exists>d a ex k v. stored (without K F) d a ex k v \<and> n = item_node d a k)" for n
    unfolding i(2) Diff_iff d(2) stored_without by blast
  then show ?thesis unfolding db_ok_def using i(1) fs d(1) stored_without by blast
qed

lemma db_map_without:
  "db_map t F M \<Longrightarrow> K \<subseteq> over t F h \<Longrightarrow> \<forall>d a ex k v. stored F d a ex k v \<longrightarrow> a < 2 ^ 24 \<Longrightarrow> db_map t (without K F) M"
proof -
  assume m: "db_map t F M" and K: "K \<subseteq> over t F h" and small: "\<forall>d a ex k v. stored F d a ex k v \<longrightarrow> a < 2 ^ 24"
  have "item_node d a k \<notin> K" if s: "stored F d a ex k v" and l: "live_at t ex" for d a ex k v
  proof
    assume "item_node d a k \<in> K"
    then obtain d' a' ex' k' v' where o: "stored F d' a' ex' k' v'" "\<not> live_at t ex'" "item_node d a k = item_node d' a' k'"
      using K unfolding over_def by blast
    have "d < IPC_DATAFILE_MAX" "d' < IPC_DATAFILE_MAX" "a < 2 ^ 24" "a' < 2 ^ 24"
      using s o(1) small by (simp_all add: stored_def) blast+
    from item_node_eq [OF this o(3)] show False using s o(1,2) l by (auto simp: stored_def)
  qed
  then show ?thesis using m unfolding db_map_def stored_without by blast
qed

lemma search_effect:
  assumes db: "db_ok f inst fs F" "db_map t F M" and room: "room_for N f inst"
    and k: "k \<noteq> []" "length k < 2 ^ 32" "safe_hash k \<noteq> 0" and few: "card (over t F (safe_hash k)) \<le> REMOVE_RESERVED_COUNT"
  obtains f' inst' fs' K where
    "search 0 (\<lambda>_. 0) (\<lambda>_. 0) t inst fs k None = Some (if M k = None then RET_NG else RET_OK, M k, inst', fs')"
    "db_ok f' inst' fs' (without K F)" "db_map t (without K F) M" "room_for N f' inst'"
    "K \<subseteq> over t F (safe_hash k)" "K = {} \<longrightarrow> fs' = fs" "M k = None \<longrightarrow> K = over t F (safe_hash k)"
proof -
  note result = that
  let ?h = "safe_hash k"
  have small: "\<forall>d a ex k v. stored F d a ex k v \<longrightarrow> a < 2 ^ 24" and ix: "index_ok f inst" and fo: "files_ok fs F"
    using db(1) unfolding db_ok_def by blast+
  obtain rc c ks where s: "find_tree_only_keyhash_safe 0 ?h (findindex_callback_for_search (\<lambda>_. 0) t)
      (new_container fs RET_NG k None 0) inst = Some (rc, c, inst\<lparr>curid := unat ?h mod 4\<rparr>)"
    "searched fs F M k t ks c" "found_in ks F k t \<longleftrightarrow> M k \<noteq> None" "M k = None \<longrightarrow> over t F ?h \<subseteq> set ks"
    by (rule search_visits [where dlock = "\<lambda>_. 0", OF db refl k(2,3) few])
  let ?K = "set ks \<inter> over t F ?h" and ?R = "filter (\<lambda>n. n \<in> over t F ?h) ks"
  have c: "files_ok (datafiles c) (without ?K F)" "reserves ?R c" "val c = M k" "flag c = (if M k = None then RET_NG else RET_OK)"
    using s(2,3) unfolding searched_def by auto
  have R: "\<forall>n\<in>set ?R. \<not> ISEMPTY_KEY n \<and> keyhash n \<noteq> 0" using over_node k(3) by (auto simp: ISEMPTY_KEY_def)
  have ix1: "index_ok f (inst\<lparr>curid := unat ?h mod 4\<rparr>)" "room_for N f (inst\<lparr>curid := unat ?h mod 4\<rparr>)"
    using ix room by (simp_all add: index_ok_def room_for_def)
  obtain f' inst' where r: "remove_all_reserved (\<lambda>_. 0) 0 (remove_reserved c) (inst\<lparr>curid := unat ?h mod 4\<rparr>) = Some inst'"
    "index_ok f' inst'" "index_keys f' = index_keys f - set ?R" "room_for N f' inst'"
    using remove_all_effect [OF ix1 R] c(2) unfolding reserves_def by metis
  have sR: "set ?R = ?K" by auto
  have kept: "?K = {} \<longrightarrow> datafiles c = fs" using s(2) unfolding searched_def by blast
  have ne: "M k \<noteq> Some []"
  proof
    assume "M k = Some []"
    then obtain d a ex where st: "stored F d a ex k []" using db(2) unfolding db_map_def by blast
    then have "a < 2 ^ 24" using small by blast
    from stored_item [OF fo st this same_items_refl] show False by auto
  qed
  show ?thesis
  proof (rule result)
    show "search 0 (\<lambda>_. 0) (\<lambda>_. 0) t inst fs k None = Some (if M k = None then RET_NG else RET_OK, M k, inst', datafiles c)"
      using s(1) r(1) c(3,4) ne by (cases "M k") (simp_all add: search_def Let_def)
    show "db_ok f' inst' (datafiles c) (without ?K F)" by (rule db_ok_without [OF db(1) r(2) r(3) [unfolded sR] c(1)])
    show "db_map t (without ?K F) M" by (rule db_map_without [OF db(2) _ small]) blast
    show "M k = None \<longrightarrow> ?K = over t F ?h" using s(4) by blast
    show "?K = {} \<longrightarrow> datafiles c = fs" by (fact kept)
  qed (use r(4) in auto)
qed

end
