(* ===== verification/Database_Store.thy ===== *)
theory Database_Store
  imports Database_Search
begin

text \<open>
  \<open>store\<close> of a key that the database does not hold: the item goes to the first free run of the file
  that the hash names, the index gets its key, and the map of the database gets the value.
\<close>

section \<open>The callback of the store\<close>

text \<open>On an item with another key, or one whose time is over, it goes on and changes nothing else.\<close>

lemma update_callback:
  assumes "files_ok fs F" "stored F d a ex k' v'" "a < 2 ^ 24" "datafiles c = fs"
    and "dlock d = 0" "length (key c) < 2 ^ 32" "k' \<noteq> key c \<or> \<not> live_at t ex"
  shows "findindex_callback_for_update_insert dlock t (item_node d a k') c = (RET_OK, c\<lparr>flag := RET_MOREDATA\<rparr>)"
proof -
  obtain m where m: "d < IPC_DATAFILE_MAX" "filefd (datafiles c ! d) \<noteq> - 1" "filefd (datafiles c ! d) \<noteq> 0"
    "data_pointer (datafiles c ! d) = Some m" "item_at m a ex k' v'" "SIZEOF_DB_HEADER < a" "a < IPC_DATAFILE_TTLSIZE"
    "k' \<noteq> []" "v' \<noteq> []" "item_size k' v' \<le> 2 ^ 26"
    by (rule stored_item [OF assms(1-3) same_items_refl, folded assms(4)])
  note n = item_node_sel [OF m(1) assms(3), of k']
  note fd = item_fields [OF m(5,10)]
  have nz: "i_keylen m a \<noteq> 0" "i_vallen m a \<noteq> 0" using fd(4,5) m(8,9) by auto
  have ex: "\<not> live_at t ex \<longleftrightarrow> i_expire m a \<noteq> 0 \<and> i_expire m a < t" by (auto simp: live_at_def fd(3))
  have "unat (of_nat (length (key c)) :: u32) = length (key c)" by (rule unat_of_nat_small) (use assms(6) in simp)
  then have len: "(of_nat (length (key c)) \<noteq> i_keylen m a) \<longleftrightarrow> length (key c) \<noteq> length k'"
    using fd(4) by (metis word_unat_eq_iff)
  have key: "ld_bytes m (a + SIZEOF_DATAITM) (length (key c)) = key c \<longleftrightarrow> k' = key c" if "length (key c) = length k'"
    using fd(6) that by simp
  have g: "\<not> d > IPC_DATAFILE_MAX" "isvalid_lock (dlock d) = RET_OK" "item_valid m a" "data_pointer (datafiles c ! d) \<noteq> None"
    using m(1,4) assms(5) fd(8) by simp_all
  note start = findindex_callback_for_update_insert_def [of dlock t "item_node d a k'" c, unfolded n Let_def m(4) option.sel]
  consider "\<not> live_at t ex" | "live_at t ex" "length (key c) \<noteq> length k'" | "live_at t ex" "length (key c) = length k'" "k' \<noteq> key c"
    using assms(7) by blast
  then show ?thesis
  proof cases
    case 1
    then show ?thesis using ex unfolding start by (simp only: g nz m(2,3) simp_thms option.distinct if_True if_False)
  next
    case 2
    then show ?thesis using ex len unfolding start by (simp only: g nz m(2,3) simp_thms option.distinct if_True if_False)
  next
    case 3
    then show ?thesis using ex len key unfolding start
      by (simp only: g nz m(2,3) simp_thms option.distinct if_True if_False refl)
  qed
qed

lemma update_visits_nothing:
  assumes db: "db_ok f inst fs F" "db_map t F M" and k: "length k < 2 ^ 32" "safe_hash k \<noteq> 0" "M k = None"
  shows "\<exists>rc. find_tree_only_keyhash_safe 0 (safe_hash k) (findindex_callback_for_update_insert (\<lambda>_. 0) t)
    (new_container fs RET_MOREDATA k v ex) inst =
      Some (rc, new_container fs RET_MOREDATA k v ex, inst\<lparr>curid := unat (safe_hash k) mod 4\<rparr>)"
proof -
  let ?c = "new_container fs RET_MOREDATA k v ex" and ?func = "findindex_callback_for_update_insert (\<lambda>_. 0) t"
  have d: "index_ok f inst" "files_ok fs F" "\<forall>d a ex k v. stored F d a ex k v \<longrightarrow> a < 2 ^ 24"
    "\<And>n. n \<in> index_keys f \<longleftrightarrow> (\<exists>d a ex k v. stored F d a ex k v \<and> n = item_node d a k)"
    using db(1) unfolding db_ok_def by blast+
  have same: "?c\<lparr>flag := RET_MOREDATA\<rparr> = ?c" and c: "datafiles ?c = fs" "key ?c = k" by (simp_all add: new_container_def)
  have keeps: "snd (?func n u) = ?c" if "n \<in> index_keys f" "keyhash n = safe_hash k" "u = ?c" for n u
  proof -
    from that(1) obtain d a ex' k' v' where n: "stored F d a ex' k' v'" "n = item_node d a k'" unfolding d(4) by blast
    have "a < 2 ^ 24" using d(3) n(1) by blast
    moreover have "k' \<noteq> k \<or> \<not> live_at t ex'" using db(2) n(1) k(3) unfolding db_map_def by (metis option.distinct(1))
    ultimately show ?thesis unfolding n(2) that(3)
      using update_callback [OF d(2) n(1) _ c(1), of "\<lambda>_. 0" t] k(1) c(2) same by simp
  qed
  show ?thesis
    by (rule find_hash_visits [where func = ?func and P = "\<lambda>u. u = ?c" and u = ?c, OF d(1) k(2) refl])
      (use keeps in \<open>auto dest: visits_P\<close>)
qed

section \<open>Room in a file\<close>

text \<open>\<open>n\<close> free pages in a row that the 24 bits of an offset reach, and as much in the header's count.\<close>

definition file_room :: "nat \<Rightarrow> mem \<Rightarrow> bool" where
  "file_room n m \<longleftrightarrow> remain_length m > of_nat (128 * n) \<and> (\<exists>p\<ge>1. p + n \<le> 130000 \<and> free_pages m p n)"

definition db_room :: "nat \<Rightarrow> datafile list \<Rightarrow> bool" where
  "db_room n fs \<longleftrightarrow> (\<forall>d<IPC_DATAFILE_MAX. \<forall>m. data_pointer (fs ! d) = Some m \<longrightarrow> file_room n m)"

lemma of_nat_less_mono: "a \<le> b \<Longrightarrow> b < 2 ^ 64 \<Longrightarrow> (of_nat a :: u64) \<le> of_nat b"
  using unat_of_nat_small [of a, where 'a = 64] unat_of_nat_small [of b, where 'a = 64] by (simp add: word_le_nat_alt)

lemma file_room_mono: "file_room n m \<Longrightarrow> k \<le> n \<Longrightarrow> file_room k m"
  using of_nat_less_mono [of "128 * k" "128 * n"] unfolding file_room_def free_pages_def
  by (elim conjE exE, intro conjI) (fastforce intro: le_less_trans, auto)

lemma file_room_insert:
  assumes r: "file_room (s + n) m" and p: "1 \<le> p" "\<forall>q\<ge>1. free_pages m q s \<longrightarrow> p \<le> q" "0 < s"
    and m': "\<forall>q<IPC_DATAFILE_PAGECNT. ISPAGEBIT m' BITMAP q \<longleftrightarrow> p \<le> q \<and> q < p + s \<or> ISPAGEBIT m BITMAP q"
      "remain_length m' = (if remain_length m > of_nat (128 * s) then remain_length m - of_nat (128 * s) else 0)"
  shows "file_room n m'"
proof -
  obtain L where L: "L \<ge> 1" "L + (s + n) \<le> 130000" "free_pages m L (s + n)" and rl: "remain_length m > of_nat (128 * (s + n))"
    using r unfolding file_room_def by blast
  have "free_pages m L s" using L(3) by (simp add: free_pages_def)
  then have pL: "p \<le> L" using p(2) L(1) by blast
  have "free_pages m' (L + s) n"
    unfolding free_pages_def
  proof (intro allI impI)
    fix q
    assume q: "L + s \<le> q \<and> q < L + s + n"
    have "q < IPC_DATAFILE_PAGECNT" using q L(2) by simp
    then show "\<not> ISPAGEBIT m' BITMAP q" using m'(1) q pL L(3) unfolding free_pages_def by auto
  qed
  moreover have "remain_length m' > of_nat (128 * n)"
  proof -
    have u: "unat (of_nat (128 * (s + n)) :: u64) = 128 * (s + n)" "unat (of_nat (128 * s) :: u64) = 128 * s"
      "unat (of_nat (128 * n) :: u64) = 128 * n" by (rule unat_of_nat_small; use L(2) in simp)+
    then have "unat (remain_length m) > 128 * (s + n)" using rl unfolding word_less_nat_alt by simp
    moreover from this have g: "remain_length m > of_nat (128 * s)" unfolding word_less_nat_alt u by simp
    moreover from this have "unat (remain_length m - of_nat (128 * s)) = unat (remain_length m) - 128 * s"
      using unat_sub [OF less_imp_le [OF g]] u(2) by simp
    ultimately show ?thesis unfolding m'(2) word_less_nat_alt u by simp
  qed
  ultimately show ?thesis unfolding file_room_def using L(1,2) by (intro conjI exI [of _ "L + s"]) auto
qed

section \<open>A new item\<close>

definition home :: "bytes \<Rightarrow> nat" where
  "home k = unat (safe_hash k mod 128)"

lemma home_bound: "home k < IPC_DATAFILE_MAX"
  by (simp add: home_def unat_mod_distrib)

lemma distid_home: "\<exists>ds. distid k = home k # ds"
  using distid_from.simps(2) [of 127 "home k"] by (simp add: distid_def home_def)

lemma freepage_effect:
  assumes fo: "files_ok (datafiles c) F" and h: "hashedid c = safe_hash (key c)"
    and v: "val c = Some v" "v \<noteq> []" "key c \<noteq> []" "item_size (key c) v \<le> 2 ^ 26"
    and m: "data_pointer (datafiles c ! home (key c)) = Some m" and room: "file_room (npages (item_size (key c) v) + n) m"
    and dl: "dlock (home (key c)) = 0"
  obtains p m' where
    "insert_to_datafile_at_freepage dlock now c = Some (RET_OK, c\<lparr>datafiles := put_datafile (home (key c)) m' (datafiles c),
      resultnode := item_node (home (key c)) (SIZEOF_DB_HEADER + 128 * p) (key c)\<rparr>)"
    "1 \<le> p" "p + npages (item_size (key c) v) \<le> 130000" "free_pages m p (npages (item_size (key c) v))"
    "F (home (key c)) (SIZEOF_DB_HEADER + 128 * p) = None"
    "\<forall>i\<ge>SIZEOF_DB_HEADER. i < SIZEOF_DB_HEADER + 128 * p \<or> SIZEOF_DB_HEADER + 128 * p + 128 * npages (item_size (key c) v) \<le> i \<longrightarrow> m' i = m i"
    "files_ok (put_datafile (home (key c)) m' (datafiles c))
      (F(home (key c) := (F (home (key c)))(SIZEOF_DB_HEADER + 128 * p \<mapsto> (expire c, key c, v))))"
    "file_room n m'"
proof -
  note result = that
  let ?d = "home (key c)" and ?s = "npages (item_size (key c) v)"
  have szs: "0 < ?s" "?s \<le> 130000" using npages_bounds(3) [of "item_size (key c) v"] room by (auto simp: file_room_def)
  have fm: "file_ok m (F ?d)" by (rule files_okE [OF fo home_bound [of "key c"]]) (use m in simp)
  have al: "unat (align_page (item_length (key c) v)) = 128 * ?s" "unat (align_page (item_length (key c) v) div 128) = ?s"
    using unat_align_page [of "item_length (key c) v"] unat_item_length [OF v(4)] v(4) by simp_all
  have sh: "align_page (item_length (key c) v) div 128 = of_nat ?s" by (simp add: al(2) [symmetric])
  have ra: "file_room ?s m" by (rule file_room_mono [OF room]) simp
  then obtain L where L: "L \<ge> 1" "L + ?s \<le> 130000" "free_pages m L ?s" and rl: "remain_length m > of_nat (128 * ?s)"
    unfolding file_room_def by blast
  have "ucast (align_page (item_length (key c) v)) = (of_nat (128 * ?s) :: u64)" using al(1) by (metis of_nat_unat)
  then have nofull: "\<not> remain_length m \<le> ucast (align_page (item_length (key c) v))" using rl by simp
  let ?r = "free_run m (of_nat ?s) 0 [0..<IPC_DATAFILE_PAGECNT - 1]"
  have "found_run m IPC_DATAFILE_PAGECNT ?s ?r" by (rule free_run_spec) (use szs in simp_all)
  moreover have "\<not> (\<forall>q\<ge>1. q + ?s \<le> IPC_DATAFILE_PAGECNT \<longrightarrow> \<not> free_pages m q ?s)" using L by fastforce
  ultimately obtain p where p: "?r = of_nat (128 * p)" "1 \<le> p" "p + ?s \<le> IPC_DATAFILE_PAGECNT" "free_pages m p ?s"
    "\<forall>q\<ge>1. free_pages m q ?s \<longrightarrow> p \<le> q"
    unfolding found_run_def by blast
  have pL: "p \<le> L" using p(5) L(1,3) by blast
  have "unat (of_nat (128 * p) :: u32) = 128 * p" by (rule unat_of_nat_small) (use p(3) in simp)
  then have nz: "(of_nat (128 * p) :: u32) \<noteq> 0" using p(2) by (metis mult_is_0 not_one_le_zero numeral_neq_zero unat_0)
  let ?off = "SIZEOF_DB_HEADER + 128 * p"
  obtain m' where m': "insert_at now (of_nat (128 * p)) c m = Some (m', of_nat ?off)"
    "item_at m' ?off (expire c) (key c) v"
    "\<forall>i\<ge>SIZEOF_DB_HEADER. i < ?off \<or> ?off + 128 * ?s \<le> i \<longrightarrow> m' i = m i"
    "\<forall>q<IPC_DATAFILE_PAGECNT. ISPAGEBIT m' BITMAP q \<longleftrightarrow> p \<le> q \<and> q < p + ?s \<or> ISPAGEBIT m BITMAP q"
    "remain_length m' = (if remain_length m > of_nat (128 * ?s) then remain_length m - of_nat (128 * ?s) else 0)"
    "ld32 m' 56 = ld32 m 56"
    by (rule insert_at_effect [OF v(1,4) p(2,3), of now])
  have node: "node_key (hashedid c) (of_nat ?d) (ucast (of_nat ?off :: u32)) = item_node ?d ?off (key c)"
  proof -
    have "unat (of_nat ?off :: u32) = ?off" by (rule unat_of_nat_small) (use p(3) in simp)
    then have "ucast (of_nat ?off :: u32) = (of_nat ?off :: u24)" by (metis of_nat_unat)
    then show ?thesis unfolding item_node_def h by (rule arg_cong)
  qed
  obtain ds where ds: "distid (key c) = ?d # ds" using distid_home by blast
  have ins: "insert_to_datafile_at_freepage dlock now c = Some (RET_OK, c\<lparr>datafiles := put_datafile ?d m' (datafiles c),
      resultnode := item_node ?d ?off (key c)\<rparr>)"
    unfolding insert_to_datafile_at_freepage_def ds freepage_loop.simps m option.case Let_def v(1) option.sel sh p(1)
    by (simp add: dl nofull nz m'(1) node del: of_nat_mult of_nat_add)
  note fi = file_ok_insert [OF fm v(3,2,4) p(2,3,4) refl refl m'(2-4,6)]
  have "files_ok (put_datafile ?d m' (datafiles c)) (F(?d := (F ?d)(?off \<mapsto> (expire c, key c, v))))"
    by (rule files_ok_put [OF fo home_bound]) (use fi(1) in simp_all)
  moreover have "file_room n m'" by (rule file_room_insert [OF room p(2,5) szs(1) m'(4,5)])
  moreover have "p + ?s \<le> 130000" using pL L(2) by simp
  ultimately show ?thesis using result [OF ins p(2) _ p(4) fi(2) m'(3)] by blast
qed

section \<open>Store\<close>

abbreviation with_item :: "(nat \<Rightarrow> items) \<Rightarrow> nat \<Rightarrow> nat \<Rightarrow> u32 \<Rightarrow> bytes \<Rightarrow> bytes \<Rightarrow> nat \<Rightarrow> items" where
  "with_item F d a ex k v \<equiv> F(d := (F d)(a \<mapsto> (ex, k, v)))"

lemma stored_with_item:
  assumes "F d a = None" "d < IPC_DATAFILE_MAX"
  shows "stored (with_item F d a ex k v) d' a' ex' k' v' \<longleftrightarrow>
    stored F d' a' ex' k' v' \<or> d' = d \<and> a' = a \<and> ex' = ex \<and> k' = k \<and> v' = v"
  using assms by (auto simp: stored_def)

lemma db_map_with_item:
  assumes "db_map t F M" "M k = None" "F d a = None" "d < IPC_DATAFILE_MAX"
  shows "db_map t (with_item F d a ex k v) (if live_at t ex then M(k \<mapsto> v) else M)"
proof -
  have no: "\<not> (stored F d' a' ex' k v' \<and> live_at t ex')" for d' a' ex' v'
    using assms(1,2) unfolding db_map_def by (metis option.distinct(1))
  have old: "M k' = Some v' \<longleftrightarrow> (\<exists>d a ex. stored F d a ex k' v' \<and> live_at t ex)" for k' v'
    using assms(1) unfolding db_map_def by blast
  show ?thesis
    unfolding db_map_def stored_with_item [where F = F and d = d and a = a, OF assms(3,4)]
  proof (intro allI)
    fix k' v'
    show "(if live_at t ex then M(k \<mapsto> v) else M) k' = Some v' \<longleftrightarrow>
      (\<exists>d' a' ex'. (stored F d' a' ex' k' v' \<or> d' = d \<and> a' = a \<and> ex' = ex \<and> k' = k \<and> v' = v) \<and> live_at t ex')"
    proof (cases "live_at t ex \<and> k' = k")
      case True
      then have k: "live_at t ex" "k' = k" by simp_all
      have "(\<exists>d' a' ex'. (stored F d' a' ex' k v' \<or> d' = d \<and> a' = a \<and> ex' = ex \<and> k = k \<and> v' = v) \<and> live_at t ex') \<longleftrightarrow> v = v'"
        using no k(1) by blast
      moreover have "(if live_at t ex then M(k \<mapsto> v) else M) k = Some v' \<longleftrightarrow> v = v'" using k(1) by simp
      ultimately show ?thesis unfolding k(2) by (rule trans [OF _ sym, rotated])
    next
      case False
      then have "(if live_at t ex then M(k \<mapsto> v) else M) k' = M k'" by auto
      moreover have "(stored F d' a' ex' k' v' \<or> d' = d \<and> a' = a \<and> ex' = ex \<and> k' = k \<and> v' = v) \<and> live_at t ex' \<longleftrightarrow>
        stored F d' a' ex' k' v' \<and> live_at t ex'" for d' a' ex'
        using False by blast
      ultimately show ?thesis by (simp only: old)
    qed
  qed
qed

lemma room_for_mono: "room_for N f inst \<Longrightarrow> k \<le> N \<Longrightarrow> room_for k f inst"
  unfolding room_for_def by (meson Suc_le_mono add_le_mono1 le_less_trans mult_le_mono1 nat_add_left_cancel_le order_trans)

lemma add_item_db:
  assumes db: "db_ok f inst fs F" and new: "F d a = None" "d < IPC_DATAFILE_MAX" "a < 2 ^ 24"
    and fo: "files_ok fs' (with_item F d a ex k v)" and i: "index_ok f' inst'" "index_keys f' = insert (item_node d a k) (index_keys f)"
  shows "db_ok f' inst' fs' (with_item F d a ex k v)"
proof -
  have d: "\<forall>d a ex k v. stored F d a ex k v \<longrightarrow> a < 2 ^ 24"
    "\<And>n. n \<in> index_keys f \<longleftrightarrow> (\<exists>d a ex k v. stored F d a ex k v \<and> n = item_node d a k)"
    using db unfolding db_ok_def by blast+
  show ?thesis unfolding db_ok_def
  proof (intro conjI allI impI)
    show "a' < 2 ^ 24" if "stored (with_item F d a ex k v) d' a' ex' k' v'" for d' a' ex' k' v'
      using that d(1) new(3) unfolding stored_with_item [where F = F and d = d and a = a, OF new(1,2)] by blast
    show "n \<in> index_keys f' \<longleftrightarrow> (\<exists>d' a' ex' k' v'. stored (with_item F d a ex k v) d' a' ex' k' v' \<and> n = item_node d' a' k')" for n
      unfolding i(2) insert_iff d(2) stored_with_item [where F = F and d = d and a = a, OF new(1,2)] by blast
  qed (use i(1) fo in blast)+
qed

lemma store_effect:
  assumes db: "db_ok f inst fs F" "db_map (ucast now) F M" and room: "room_for (Suc N) f inst" "db_room (npages (item_size k v) + n) fs"
    and kv: "k \<noteq> []" "v \<noteq> []" "item_size k v \<le> 2 ^ 26" "safe_hash k \<noteq> 0" "M k = None"
  obtains f' inst' fs' a where
    "store 0 0 0 (\<lambda>_. 0) now inst fs k v ex = Some (RET_OK, inst', fs')"
    "F (home k) a = None" "db_ok f' inst' fs' (with_item F (home k) a ex k v)" "room_for N f' inst'" "db_room n fs'"
proof -
  note result = that
  let ?c = "new_container fs RET_MOREDATA k (Some v) ex" and ?i = "inst\<lparr>curid := unat (safe_hash k) mod 4\<rparr>"
  have c: "datafiles ?c = fs" "key ?c = k" "val ?c = Some v" "hashedid ?c = safe_hash k" "expire ?c = ex" "flag ?c = RET_MOREDATA"
    by (simp_all add: new_container_def)
  have d: "index_ok f inst" "files_ok fs F" using db(1) unfolding db_ok_def by blast+
  have lk: "length k < 2 ^ 32" using kv(3) by simp
  obtain rc where s: "find_tree_only_keyhash_safe 0 (safe_hash k) (findindex_callback_for_update_insert (\<lambda>_. 0) (ucast now)) ?c inst =
      Some (rc, ?c, ?i)"
    using update_visits_nothing [OF db lk kv(4,5), of "Some v" ex] by blast
  obtain m where m: "data_pointer (fs ! home k) = Some m" by (rule files_okE [OF d(2) home_bound [of k]])
  have rm: "file_room (npages (item_size k v) + n) m" using room(2) m home_bound [of k] unfolding db_room_def by blast
  obtain p m' where p: "insert_to_datafile_at_freepage (\<lambda>_. 0) now ?c = Some (RET_OK, ?c\<lparr>datafiles := put_datafile (home k) m' fs,
      resultnode := item_node (home k) (SIZEOF_DB_HEADER + 128 * p) k\<rparr>)"
    "p + npages (item_size k v) \<le> 130000" "F (home k) (SIZEOF_DB_HEADER + 128 * p) = None"
    "files_ok (put_datafile (home k) m' fs) (with_item F (home k) (SIZEOF_DB_HEADER + 128 * p) ex k v)" "file_room n m'"
    by (rule freepage_effect [where c = ?c and dlock = "\<lambda>_. 0" and now = now and n = n and F = F and v = v and m = m, unfolded c,
          OF d(2) refl refl kv(2,1,3) m rm refl])
  let ?a = "SIZEOF_DB_HEADER + 128 * p"
  have ix1: "index_ok f ?i" "room_for (Suc N) f ?i" using d(1) room(1) by (simp_all add: index_ok_def room_for_def)
  have kh: "keyhash (item_node (home k) ?a k) \<noteq> 0" using kv(4) by (simp add: item_node_def)
  obtain f' inst' where a: "add_tree_safe 0 (ucast now) (item_node (home k) ?a k) ?i = Some (RET_OK, inst')" "index_ok f' inst'"
    "index_keys f' = insert (item_node (home k) ?a k) (index_keys f)" "room_for N f' inst'"
    by (rule add_tree_effect [OF ix1(1) kh ix1(2)])
  have st: "store 0 0 0 (\<lambda>_. 0) now inst fs k v ex = Some (RET_OK, inst', put_datafile (home k) m' fs)"
    unfolding store_def s using kv(1,2) p(1) a(1)
    by (simp add: c insert_and_index_def insert_somewhere_def)
  have small: "?a < 2 ^ 24" using p(2) by simp
  have "db_room n (put_datafile (home k) m' fs)"
    unfolding db_room_def
  proof (intro allI impI)
    fix d x
    assume x: "d < IPC_DATAFILE_MAX" "data_pointer (put_datafile (home k) m' fs ! d) = Some x"
    have l: "length fs = IPC_DATAFILE_MAX" using d(2) by (simp add: files_ok_def)
    show "file_room n x"
    proof (cases "d = home k")
      case True
      then show ?thesis using x l p(5) by (simp add: put_datafile_def)
    next
      case False
      then have "data_pointer (fs ! d) = Some x" using x(2) by (simp add: put_datafile_def)
      then show ?thesis using room(2) x(1) file_room_mono [of "npages (item_size k v) + n" x n] unfolding db_room_def by simp
    qed
  qed
  then show ?thesis
    using result [OF st p(3) add_item_db [OF db(1) p(3) home_bound small p(4) a(2,3)] a(4)] by blast
qed

section \<open>New data files\<close>

lemma ld64_st_bytes_other: "a + 8 \<le> b \<or> b + length bs \<le> a \<Longrightarrow> ld64 (st_bytes b bs m) a = ld64 m a"
  unfolding ld64_def by (metis ld_st_bytes_other)

lemma init_datafile_empty:
  assumes "ld32 m 56 \<noteq> DATAITEM_SIGNATURE_ID"
  shows "file_ok (init_datafile now name m) Map.empty" "file_room 129999 (init_datafile now name m)"
proof -
  let ?m = "init_datafile now name m"
  have "ld32 ?m 56 = ld32 (st32 56 DATAITEM_SIGNATURE_ID m) 56"
    unfolding init_datafile_def if_not_P [OF assms]
    by (rule ld32_cong) (simp add: memzero_outside set_last_updated_def set_remain_length_def set_used_count_def
      set_used_length_def st64_outside st_bytes_outside)
  then show "file_ok ?m Map.empty" by (intro file_ok_empty) (simp add: ld32_st32_same)
  have "?m i = 0" if "BITMAP \<le> i" "i < SIZEOF_DB_HEADER" for i
    using assms that by (simp add: init_datafile_def memzero_def)
  then have "\<not> ISPAGEBIT ?m BITMAP q" if "q < 130000" for q
    using that by (simp add: ISPAGEBIT_def)
  then have "free_pages ?m 1 129999" by (simp add: free_pages_def)
  moreover have "remain_length ?m = of_nat (IPC_DATAFILE_TTLSIZE - SIZEOF_DB_HEADER)"
  proof -
    have "remain_length ?m = remain_length (st_bytes 64 (take 62 name @ [0]) (set_last_updated now
        (set_remain_length (of_nat (IPC_DATAFILE_TTLSIZE - SIZEOF_DB_HEADER))
        (st64 32 (of_nat IPC_DATAFILE_TTLSIZE) (set_used_count 0 (set_used_length (of_nat SIZEOF_DB_HEADER)
        (st64 8 (of_nat SIZEOF_DB_HEADER) (st64 0 (of_nat SIZEOF_DB_HEADER) (st32 56 DATAITEM_SIGNATURE_ID m)))))))))"
      unfolding remain_length_def init_datafile_def if_not_P [OF assms]
      by (rule ld64_cong) (simp add: memzero_outside)
    also have "\<dots> = of_nat (IPC_DATAFILE_TTLSIZE - SIZEOF_DB_HEADER)"
      by (simp add: remain_length_def ld64_st_bytes_other set_last_updated_def set_remain_length_def ld64_st64_other ld64_st64_same)
    finally show ?thesis .
  qed
  ultimately show "file_room 129999 ?m" unfolding file_room_def by (intro conjI exI [of _ 1]) simp_all
qed

end
