(* ===== verification/Database_Map.thy ===== *)
theory Database_Map
  imports Database_Store Tree_Set
begin

text \<open>
  The database as a map. The interface \<open>kv_map\<close> says what storing a new key and looking a key up
  promise; a client's run of them is a run on a map. \<open>store\<close> and \<open>search\<close> provide it.
\<close>

section \<open>The interface\<close>

datatype ('k, 'v) kv_op = Put 'k 'v | Get 'k

fun op_valid :: "('k \<Rightarrow> 'v \<Rightarrow> bool) \<Rightarrow> ('k \<Rightarrow> bool) \<Rightarrow> ('k, 'v) kv_op \<Rightarrow> bool" where
  "op_valid vp vg (Put k v) = vp k v"
| "op_valid vp vg (Get k) = vg k"

text \<open>What a run needs, whether it stores a key only once, and what it answers.\<close>

fun run_size :: "('k \<Rightarrow> 'v \<Rightarrow> nat) \<Rightarrow> ('k, 'v) kv_op list \<Rightarrow> nat" where
  "run_size sz [] = 0"
| "run_size sz (Put k v # ops) = sz k v + run_size sz ops"
| "run_size sz (Get k # ops) = run_size sz ops"

fun puts :: "('k, 'v) kv_op list \<Rightarrow> 'k list" where
  "puts [] = []"
| "puts (Put k v # ops) = k # puts ops"
| "puts (Get k # ops) = puts ops"

fun map_run :: "('k, 'v) kv_op list \<Rightarrow> ('k \<rightharpoonup> 'v) \<Rightarrow> 'v option list \<times> ('k \<rightharpoonup> 'v)" where
  "map_run [] M = ([], M)"
| "map_run (Put k v # ops) M = map_run ops (M(k \<mapsto> v))"
| "map_run (Get k # ops) M = (let (rs, M') = map_run ops M in (M k # rs, M'))"

fun kv_run ::
  "('k \<Rightarrow> 'v \<Rightarrow> 's \<Rightarrow> 's option) \<Rightarrow> ('k \<Rightarrow> 's \<Rightarrow> ('v option \<times> 's) option) \<Rightarrow>
     ('k, 'v) kv_op list \<Rightarrow> 's \<Rightarrow> ('v option list \<times> 's) option" where
  "kv_run put get [] s = Some ([], s)"
| "kv_run put get (Put k v # ops) s = do { s \<leftarrow> put k v s; kv_run put get ops s }"
| "kv_run put get (Get k # ops) s =
     do { (r, s) \<leftarrow> get k s; (rs, s) \<leftarrow> kv_run put get ops s; Some (r # rs, s) }"

text \<open>\<open>inv n s M\<close>: the state \<open>s\<close> holds the map \<open>M\<close> and has room for items of the size \<open>n\<close>.\<close>

locale kv_map =
  fixes inv :: "nat \<Rightarrow> 's \<Rightarrow> ('k \<rightharpoonup> 'v) \<Rightarrow> bool" and size :: "'k \<Rightarrow> 'v \<Rightarrow> nat"
    and vput :: "'k \<Rightarrow> 'v \<Rightarrow> bool" and vget :: "'k \<Rightarrow> bool"
    and put :: "'k \<Rightarrow> 'v \<Rightarrow> 's \<Rightarrow> 's option" and get :: "'k \<Rightarrow> 's \<Rightarrow> ('v option \<times> 's) option"
  assumes put: "inv (size k v + n) s M \<Longrightarrow> vput k v \<Longrightarrow> M k = None \<Longrightarrow> \<exists>s'. put k v s = Some s' \<and> inv n s' (M(k \<mapsto> v))"
    and get: "inv n s M \<Longrightarrow> vget k \<Longrightarrow> \<exists>s'. get k s = Some (M k, s') \<and> inv n s' M"
begin

lemma run_is_map_run:
  "inv (run_size size ops + n) s M \<Longrightarrow> \<forall>p\<in>set ops. op_valid vput vget p \<Longrightarrow> distinct (puts ops) \<Longrightarrow>
    \<forall>k\<in>set (puts ops). M k = None \<Longrightarrow>
    \<exists>s'. kv_run put get ops s = Some (fst (map_run ops M), s') \<and> inv n s' (snd (map_run ops M))"
proof (induction ops arbitrary: s M)
  case (Cons p ops)
  show ?case
  proof (cases p)
    case (Put k v)
    then obtain s1 where "put k v s = Some s1" "inv (run_size size ops + n) s1 (M(k \<mapsto> v))"
      using Cons.prems put [of k v "run_size size ops + n" s M] by (auto simp: add.assoc)
    moreover have "\<forall>k'\<in>set (puts ops). (M(k \<mapsto> v)) k' = None" using Cons.prems(3,4) Put by auto
    ultimately show ?thesis using Put Cons.IH [of s1 "M(k \<mapsto> v)"] Cons.prems(2,3) by (simp del: fun_upd_apply)
  next
    case (Get k)
    then obtain s1 where "get k s = Some (M k, s1)" "inv (run_size size ops + n) s1 M"
      using Cons.prems get [of "run_size size ops + n" s M k] by auto
    then show ?thesis using Get Cons.IH [of s1 M] Cons.prems(2-4) by (auto simp: Let_def split: prod.splits)
  qed
qed simp

end

section \<open>The database provides it\<close>

text \<open>Items without an end of their time; all locks are granted.\<close>

type_synonym db_state = "tree_instance \<times> datafile list"

definition db_put :: "u64 \<Rightarrow> bytes \<Rightarrow> bytes \<Rightarrow> db_state \<Rightarrow> db_state option" where
  "db_put now k v s =
     (let (inst, fs) = s in
      do { (r, s) \<leftarrow> store 0 0 0 (\<lambda>_. 0) now inst fs k v 0; if r = RET_OK then Some s else None })"

definition db_get :: "u32 \<Rightarrow> bytes \<Rightarrow> db_state \<Rightarrow> (bytes option \<times> db_state) option" where
  "db_get t k s =
     (let (inst, fs) = s in
      do { (r, v, s) \<leftarrow> search 0 (\<lambda>_. 0) (\<lambda>_. 0) t inst fs k None; Some (v, s) })"

definition pages_of :: "bytes \<Rightarrow> bytes \<Rightarrow> nat" where
  "pages_of k v = npages (item_size k v)"

definition key_valid :: "bytes \<Rightarrow> bool" where
  "key_valid k \<longleftrightarrow> k \<noteq> [] \<and> length k < 2 ^ 32 \<and> safe_hash k \<noteq> 0"

definition item_valid_for :: "bytes \<Rightarrow> bytes \<Rightarrow> bool" where
  "item_valid_for k v \<longleftrightarrow> key_valid k \<and> v \<noteq> [] \<and> item_size k v \<le> 2 ^ 26"

definition db_holds :: "nat \<Rightarrow> db_state \<Rightarrow> (bytes \<rightharpoonup> bytes) \<Rightarrow> bool" where
  "db_holds n s M \<longleftrightarrow> (\<exists>f F. db_ok f (fst s) (snd s) F \<and> room_for n f (fst s) \<and> db_room n (snd s) \<and>
     (\<forall>d a ex k v. stored F d a ex k v \<longrightarrow> ex = 0) \<and> db_map 0 F M)"

text \<open>Without ends the time does not matter.\<close>

lemma endless_map: "\<forall>d a ex k v. stored F d a ex k v \<longrightarrow> ex = 0 \<Longrightarrow> db_map t F M \<longleftrightarrow> db_map 0 F M"
  unfolding db_map_def live_at_def by metis

lemma endless_over: "\<forall>d a ex k v. stored F d a ex k v \<longrightarrow> ex = 0 \<Longrightarrow> over t F h = {}"
  unfolding over_def live_at_def by blast

lemma db_put_law:
  assumes "db_holds (pages_of k v + n) s M" "item_valid_for k v" "M k = None"
  shows "\<exists>s'. db_put now k v s = Some s' \<and> db_holds n s' (M(k \<mapsto> v))"
proof -
  obtain inst fs where s: "s = (inst, fs)" by (cases s)
  obtain f F where d: "db_ok f inst fs F" "room_for (pages_of k v + n) f inst" "db_room (pages_of k v + n) fs"
    "\<forall>d a ex k v. stored F d a ex k v \<longrightarrow> ex = 0" "db_map 0 F M"
    using assms(1) unfolding db_holds_def s by auto
  have kv: "k \<noteq> []" "v \<noteq> []" "item_size k v \<le> 2 ^ 26" "safe_hash k \<noteq> 0"
    using assms(2) by (simp_all add: item_valid_for_def key_valid_def)
  have "1 \<le> pages_of k v" using npages_bounds(3) [of "item_size k v"] by (simp add: pages_of_def)
  then have r: "room_for (Suc n) f inst" by (intro room_for_mono [OF d(2)]) simp
  have m: "db_map (ucast now) F M" using endless_map [OF d(4)] d(5) by blast
  obtain f' inst' fs' a where st: "store 0 0 0 (\<lambda>_. 0) now inst fs k v 0 = Some (RET_OK, inst', fs')"
    "F (home k) a = None" "db_ok f' inst' fs' (with_item F (home k) a 0 k v)" "room_for n f' inst'" "db_room n fs'"
    by (rule store_effect [OF d(1) m r d(3) [unfolded pages_of_def] kv assms(3)])
  have "db_map 0 (with_item F (home k) a 0 k v) (M(k \<mapsto> v))"
    using db_map_with_item [OF d(5) assms(3) st(2) home_bound, of 0 v] by (simp add: live_at_def)
  moreover have "\<forall>d a' ex k' v'. stored (with_item F (home k) a 0 k v) d a' ex k' v' \<longrightarrow> ex = 0"
    unfolding stored_with_item [where F = F and d = "home k" and a = a, OF st(2) home_bound] using d(4) by blast
  ultimately show ?thesis using st(1,3-5) unfolding s db_put_def db_holds_def by auto
qed

lemma db_get_law:
  assumes "db_holds n s M" "key_valid k"
  shows "\<exists>s'. db_get t k s = Some (M k, s') \<and> db_holds n s' M"
proof -
  obtain inst fs where s: "s = (inst, fs)" by (cases s)
  obtain f F where d: "db_ok f inst fs F" "room_for n f inst" "db_room n fs"
    "\<forall>d a ex k v. stored F d a ex k v \<longrightarrow> ex = 0" "db_map 0 F M"
    using assms(1) unfolding db_holds_def s by auto
  have k: "k \<noteq> []" "length k < 2 ^ 32" "safe_hash k \<noteq> 0" using assms(2) by (simp_all add: key_valid_def)
  have m: "db_map t F M" using endless_map [OF d(4)] d(5) by blast
  have few: "card (over t F (safe_hash k)) \<le> REMOVE_RESERVED_COUNT" unfolding endless_over [OF d(4)] by simp
  obtain f' inst' fs' K where r: "search 0 (\<lambda>_. 0) (\<lambda>_. 0) t inst fs k None = Some (if M k = None then RET_NG else RET_OK, M k, inst', fs')"
    "db_ok f' inst' fs' (without K F)" "room_for n f' inst'" "K \<subseteq> over t F (safe_hash k)" "K = {} \<longrightarrow> fs' = fs"
    by (rule search_effect [OF d(1) m d(2) k few])
  have K: "K = {}" using r(4) unfolding endless_over [OF d(4)] by simp
  have "db_holds n (inst', fs') M"
    using r(2,3,5) d(3-5) unfolding db_holds_def K by auto
  then show ?thesis using r(1) unfolding s db_get_def by simp
qed

interpretation database:
  kv_map db_holds pages_of item_valid_for key_valid "db_put now" "db_get t"
  by unfold_locales (rule db_put_law db_get_law; assumption)+

section \<open>A new database\<close>

lemma new_files:
  assumes "\<forall>n<IPC_DATAFILE_MAX. sizes n = Some IPC_DATAFILE_TTLSIZE \<and> 0 < fd n \<and>
    (\<exists>m. mapping n = Some m \<and> ld32 m 56 \<noteq> DATAITEM_SIGNATURE_ID)"
  shows "files_ok (init_datafiles_from_file sizes fd mapping now name) (\<lambda>_. Map.empty)"
    "db_room 129999 (init_datafiles_from_file sizes fd mapping now name)"
proof -
  let ?fs = "init_datafiles_from_file sizes fd mapping now name"
  have at: "\<exists>m. ?fs ! d = \<lparr>filefd = fd d, data_pointer = Some (init_datafile now (name d) m)\<rparr> \<and>
      ld32 m 56 \<noteq> DATAITEM_SIGNATURE_ID \<and> 0 < fd d" if d: "d < IPC_DATAFILE_MAX" for d
  proof -
    obtain m where "sizes d = Some IPC_DATAFILE_TTLSIZE" "0 < fd d" "mapping d = Some m" "ld32 m 56 \<noteq> DATAITEM_SIGNATURE_ID"
      using assms [THEN spec, THEN mp, OF d] by blast
    then show ?thesis using d by (intro exI [of _ m]) (simp add: init_datafiles_from_file_def)
  qed
  have "length ?fs = IPC_DATAFILE_MAX" by (simp add: init_datafiles_from_file_def)
  then show "files_ok ?fs (\<lambda>_. Map.empty)"
    unfolding files_ok_def mapped_def using at init_datafile_empty(1) by fastforce
  show "db_room 129999 ?fs"
    unfolding db_room_def
  proof (intro allI impI)
    fix d m
    assume d: "d < IPC_DATAFILE_MAX" "data_pointer (?fs ! d) = Some m"
    then obtain m0 where "m = init_datafile now (name d) m0" "ld32 m0 56 \<noteq> DATAITEM_SIGNATURE_ID" using at [OF d(1)] by auto
    then show "file_room 129999 m" using init_datafile_empty(2) by blast
  qed
qed

lemma new_database:
  assumes "index_ok f inst" "index_keys f = {}" "files_ok fs (\<lambda>_. Map.empty)"
  shows "db_ok f inst fs (\<lambda>_. Map.empty)" "db_map t (\<lambda>_. Map.empty) Map.empty"
  using assms by (simp_all add: db_ok_def db_map_def stored_def)

lemma db_room_mono: "db_room n fs \<Longrightarrow> k \<le> n \<Longrightarrow> db_room k fs"
  unfolding db_room_def using file_room_mono by blast

text \<open>A concrete one: 128 files of zeros.\<close>

definition zero_files :: "datafile list" where
  "zero_files = init_datafiles_from_file (\<lambda>_. Some IPC_DATAFILE_TTLSIZE) (\<lambda>_. 3) (\<lambda>_. Some empty_file) 0 (\<lambda>_. [])"

lemma zero_files_ok: "files_ok zero_files (\<lambda>_. Map.empty)" "db_room 129999 zero_files"
proof -
  have a: "\<forall>n<IPC_DATAFILE_MAX. (\<lambda>_. Some IPC_DATAFILE_TTLSIZE) n = Some IPC_DATAFILE_TTLSIZE \<and> (0 :: int) < (\<lambda>_. 3) n \<and>
    (\<exists>m. (\<lambda>_. Some empty_file) n = Some m \<and> ld32 m 56 \<noteq> DATAITEM_SIGNATURE_ID)" by (simp add: ld32_empty)
  show "files_ok zero_files (\<lambda>_. Map.empty)" "db_room 129999 zero_files"
    unfolding zero_files_def by (rule new_files [OF a])+
qed

lemma zero_database:
  obtains f inst where "create_tree_unsafe 0 0 new_categories = Inr inst" "db_ok f inst zero_files (\<lambda>_. Map.empty)"
    "room_for (Suc 99999) f inst"
proof (rule new_index)
  fix f inst
  assume i: "create_tree_unsafe 0 0 new_categories = Inr inst" "index_ok f inst" "index_keys f = {}" "room_for (Suc 99999) f inst"
  show ?thesis by (rule that [OF i(1) new_database(1) [OF i(2,3) zero_files_ok(1)] i(4)])
qed

section \<open>Properties\<close>

text \<open>C34. An item on free pages. When the file that the hash of the key names has a run of free pages that is
  long enough, \<open>insert_to_datafile_at_freepage\<close> returns \<open>RET_OK\<close>: the item lies on a run of pages that
  were free, inside the file and in reach of the index's offsets; no byte behind the header changes
  outside these pages, no other file changes, and every item of the files stays what and where it was.\<close>

theorem insert_freepage_safe:
  assumes "files_ok (datafiles c) F" "hashedid c = safe_hash (key c)" "val c = Some v" "v \<noteq> []" "key c \<noteq> []"
    and "item_size (key c) v \<le> 2 ^ 26" "data_pointer (datafiles c ! home (key c)) = Some m"
    and "file_room (npages (item_size (key c) v)) m" "dlock (home (key c)) = 0"
  shows "\<exists>p m'. insert_to_datafile_at_freepage dlock now c = Some (RET_OK, c\<lparr>datafiles := put_datafile (home (key c)) m' (datafiles c),
      resultnode := item_node (home (key c)) (SIZEOF_DB_HEADER + 128 * p) (key c)\<rparr>) \<and>
    1 \<le> p \<and> p + npages (item_size (key c) v) \<le> 130000 \<and> free_pages m p (npages (item_size (key c) v)) \<and>
    (\<forall>i\<ge>SIZEOF_DB_HEADER. i < SIZEOF_DB_HEADER + 128 * p \<or>
      SIZEOF_DB_HEADER + 128 * p + 128 * npages (item_size (key c) v) \<le> i \<longrightarrow> m' i = m i) \<and>
    files_ok (put_datafile (home (key c)) m' (datafiles c))
      (with_item F (home (key c)) (SIZEOF_DB_HEADER + 128 * p) (expire c) (key c) v)"
proof -
  have r: "file_room (npages (item_size (key c) v) + 0) m" using assms(8) by simp
  show ?thesis
    by (rule freepage_effect [where dlock = dlock and now = now, OF assms(1-7) r assms(9)]) blast
qed

theorem insert_freepage_safe_witness:
  "\<exists>p fs. insert_to_datafile_at_freepage (\<lambda>_. 0) 5 (new_container zero_files RET_MOREDATA [1] (Some [2]) 0) =
      Some (RET_OK, (new_container zero_files RET_MOREDATA [1] (Some [2]) 0)\<lparr>datafiles := fs,
        resultnode := item_node (home [1]) (SIZEOF_DB_HEADER + 128 * p) [1]\<rparr>) \<and>
    files_ok fs (with_item (\<lambda>_. Map.empty) (home [1]) (SIZEOF_DB_HEADER + 128 * p) 0 [1] [2])"
proof -
  let ?c = "new_container zero_files RET_MOREDATA [1] (Some [2]) 0"
  have c: "datafiles ?c = zero_files" "hashedid ?c = safe_hash (key ?c)" "val ?c = Some [2]" "key ?c = [1]" "expire ?c = 0"
    by (simp_all add: new_container_def)
  obtain m where m: "data_pointer (zero_files ! home [1]) = Some m" by (rule files_okE [OF zero_files_ok(1) home_bound [of "[1]"]])
  have "npages (item_size [1] [2]) \<le> 129999" by (simp add: npages_def)
  then have "file_room (npages (item_size [1] [2])) m"
    using db_room_mono [OF zero_files_ok(2)] home_bound [of "[1]"] m unfolding db_room_def by blast
  then show ?thesis
    using insert_freepage_safe [where c = ?c and F = "\<lambda>_. Map.empty" and v = "[2]" and m = m and dlock = "\<lambda>_. 0" and now = 5, unfolded c]
      m zero_files_ok(1) by auto
qed

text \<open>C35. Giving an item back. \<open>change_free_to_datafile\<close> on the key of an item returns \<open>RET_OK\<close>, frees exactly
  the pages of the item in the bitmap of its file, changes nothing behind the header, and the other
  items stay well-formed on pages of their own; without the lock it returns \<open>RET_NG\<close> and changes nothing.\<close>

theorem change_free_exact:
  assumes "files_ok fs F" "stored F d a ex k v" "a < 2 ^ 24" "nolock \<or> dlock d = 0" "data_pointer (fs ! d) = Some m" "dlock' d \<noteq> 0"
  shows "\<exists>m'. change_free_to_datafile dlock fs (item_node d a k) nolock = (RET_OK, put_datafile d m' fs) \<and>
    files_ok (put_datafile d m' fs) (F(d := (F d)(a := None))) \<and> (\<forall>i\<ge>SIZEOF_DB_HEADER. m' i = m i) \<and>
    (\<forall>q<IPC_DATAFILE_PAGECNT. ISPAGEBIT m' BITMAP q \<longleftrightarrow> q \<notin> item_pages a (ex, k, v) \<and> ISPAGEBIT m BITMAP q) \<and>
    change_free_to_datafile dlock' fs (item_node d a k) False = (RET_NG, fs)"
proof -
  obtain m1 where it: "d < IPC_DATAFILE_MAX" "data_pointer (fs ! d) = Some m1" "item_at m1 a ex k v" "SIZEOF_DB_HEADER < a"
    "a < IPC_DATAFILE_TTLSIZE" "item_size k v \<le> 2 ^ 26"
    by (rule stored_item [OF assms(1-3) same_items_refl])
  have m1: "m1 = m" using it(2) assms(5) by simp
  have Fd: "F d a = Some (ex, k, v)" using assms(2) by (simp add: stored_def)
  have fm: "file_ok m (F d)" by (rule files_okE [OF assms(1) it(1)]) (use assms(5) in simp)
  note n = item_node_sel [OF it(1) assms(3), of k]
  note iv = item_fields(8) [OF it(3,6), unfolded m1]
  note fi = free_item_effect [OF fm Fd]
  have "change_free_to_datafile dlock fs (item_node d a k) nolock = (RET_OK, put_datafile d (free_item a m) fs)"
    using it(1,4,5) assms(4,5) iv by (auto simp: change_free_to_datafile_def n Let_def)
  moreover have "change_free_to_datafile dlock' fs (item_node d a k) False = (RET_NG, fs)"
    using it(1,4,5) assms(6) by (simp add: change_free_to_datafile_def n Let_def)
  moreover have "files_ok (put_datafile d (free_item a m) fs) (F(d := (F d)(a := None)))"
    by (rule files_ok_put [OF assms(1) it(1)]) (use fi(1) in simp_all)
  ultimately show ?thesis using fi(2,3) by blast
qed

text \<open>A database with one item.\<close>

lemma one_item:
  assumes "db_ok f0 i0 zero_files (\<lambda>_. Map.empty)" "room_for (Suc 99999) f0 i0"
  obtains f inst fs a where
    "store 0 0 0 (\<lambda>_. 0) 5 i0 zero_files [1] [2] 0 = Some (RET_OK, inst, fs)" "db_ok f inst fs (with_item (\<lambda>_. Map.empty) (home [1]) a 0 [1] [2])"
    "db_map 5 (with_item (\<lambda>_. Map.empty) (home [1]) a 0 [1] [2]) (Map.empty([1] \<mapsto> [2]))" "room_for 99999 f inst"
proof -
  note result = that
  have h: "safe_hash [1] \<noteq> 0" by (simp add: safe_hash_def hash_step_def)
  have r: "db_room (npages (item_size [1] [2]) + 129998) zero_files" using zero_files_ok(2) by (simp add: npages_def)
  have m: "db_map (ucast (5 :: u64)) (\<lambda>_. Map.empty) Map.empty" by (simp add: db_map_def stored_def)
  obtain f inst fs a where s: "store 0 0 0 (\<lambda>_. 0) 5 i0 zero_files [1] [2] 0 = Some (RET_OK, inst, fs)"
    "db_ok f inst fs (with_item (\<lambda>_. Map.empty) (home [1]) a 0 [1] [2])" "room_for 99999 f inst"
    by (rule store_effect [OF assms(1) m assms(2) r, of 0]) (use h in simp_all)
  have "db_map 5 (with_item (\<lambda>_. Map.empty) (home [1]) a 0 [1] [2]) (Map.empty([1] \<mapsto> [2]))"
    using db_map_with_item [where k = "[1]" and d = "home [1]" and a = a and ex = 0 and v = "[2]", OF m] home_bound [of "[1]"] by (simp add: live_at_def)
  then show ?thesis using result s by blast
qed

theorem change_free_exact_witness:
  "\<exists>i0 inst fs n fs'. create_tree_unsafe 0 0 new_categories = Inr i0 \<and>
    store 0 0 0 (\<lambda>_. 0) 5 i0 zero_files [1] [2] 0 = Some (RET_OK, inst, fs) \<and>
    change_free_to_datafile (\<lambda>_. 0) fs n False = (RET_OK, fs') \<and> change_free_to_datafile (\<lambda>_. 22) fs n False = (RET_NG, fs)"
proof -
  obtain f0 i0 where i: "create_tree_unsafe 0 0 new_categories = Inr i0" "db_ok f0 i0 zero_files (\<lambda>_. Map.empty)"
    "room_for (Suc 99999) f0 i0" by (rule zero_database)
  obtain f inst fs a where s: "store 0 0 0 (\<lambda>_. 0) 5 i0 zero_files [1] [2] 0 = Some (RET_OK, inst, fs)"
    "db_ok f inst fs (with_item (\<lambda>_. Map.empty) (home [1]) a 0 [1] [2])" by (rule one_item [OF i(2,3)])
  have st: "stored (with_item (\<lambda>_. Map.empty) (home [1]) a 0 [1] [2]) (home [1]) a 0 [1] [2]"
    using home_bound [of "[1]"] by (simp add: stored_def)
  then have a: "a < 2 ^ 24" and fo: "files_ok fs (with_item (\<lambda>_. Map.empty) (home [1]) a 0 [1] [2])"
    using s(2) unfolding db_ok_def by blast+
  obtain m where m: "data_pointer (fs ! home [1]) = Some m" by (rule files_okE [OF fo home_bound])
  from change_free_exact [OF fo st a _ m, of False "\<lambda>_. 0" "\<lambda>_. 22"] i(1) s(1) show ?thesis by auto
qed

text \<open>C36. \<open>search\<close> is the look-up in the map of the database. On a consistent database, whose live items have
  different keys, it returns the value of the key, or \<open>RET_NG\<close> when there is none; other keys with the
  same hash do not matter. Of the items whose time is over and that it meets (at most 32 have the
  hash), it removes both the pages and the keys in the index, all of them when the key is not found;
  the database stays consistent and the map stays.\<close>

theorem search_is_lookup:
  assumes "db_ok f inst fs F" "db_map t F M" "room_for N f inst" "k \<noteq> []" "length k < 2 ^ 32" "safe_hash k \<noteq> 0"
    and "card (over t F (safe_hash k)) \<le> REMOVE_RESERVED_COUNT"
  shows "\<exists>f' inst' fs' K.
    search 0 (\<lambda>_. 0) (\<lambda>_. 0) t inst fs k None = Some (if M k = None then RET_NG else RET_OK, M k, inst', fs') \<and>
    db_ok f' inst' fs' (without K F) \<and> db_map t (without K F) M \<and> room_for N f' inst' \<and>
    K \<subseteq> over t F (safe_hash k) \<and> (M k = None \<longrightarrow> K = over t F (safe_hash k))"
  by (rule search_effect [OF assms]) (intro exI conjI, assumption+)

theorem search_is_lookup_witness:
  "\<exists>i0 inst fs inst' fs'. create_tree_unsafe 0 0 new_categories = Inr i0 \<and>
    store 0 0 0 (\<lambda>_. 0) 5 i0 zero_files [1] [2] 0 = Some (RET_OK, inst, fs) \<and>
    search 0 (\<lambda>_. 0) (\<lambda>_. 0) 5 inst fs [1] None = Some (RET_OK, Some [2], inst', fs')"
proof -
  obtain f0 i0 where i: "create_tree_unsafe 0 0 new_categories = Inr i0" "db_ok f0 i0 zero_files (\<lambda>_. Map.empty)"
    "room_for (Suc 99999) f0 i0" by (rule zero_database)
  obtain f inst fs a where s: "store 0 0 0 (\<lambda>_. 0) 5 i0 zero_files [1] [2] 0 = Some (RET_OK, inst, fs)"
    "db_ok f inst fs (with_item (\<lambda>_. Map.empty) (home [1]) a 0 [1] [2])"
    "db_map 5 (with_item (\<lambda>_. Map.empty) (home [1]) a 0 [1] [2]) (Map.empty([1] \<mapsto> [2]))" "room_for 99999 f inst"
    by (rule one_item [OF i(2,3)])
  have h: "safe_hash [1] \<noteq> 0" by (simp add: safe_hash_def hash_step_def)
  have "over 5 (with_item (\<lambda>_. Map.empty) (home [1]) a 0 [1] [2]) (safe_hash [1]) = {}"
    by (rule endless_over) (auto simp: stored_def split: if_splits)
  from search_is_lookup [OF s(2-4), of "[1]"] this h i(1) s(1) show ?thesis by auto
qed

text \<open>C37. \<open>store\<close> of a key that the database does not hold (its items with the same hash, live or not, are passed
  over) returns \<open>RET_OK\<close> when there is room: the item is in the data file, its key in the index, the
  database is consistent, and its map has the value at the key, unless its time is over already.\<close>

theorem store_new_key:
  assumes "db_ok f inst fs F" "db_map (ucast now) F M" "room_for (Suc N) f inst" "db_room (npages (item_size k v) + n) fs"
    and "k \<noteq> []" "v \<noteq> []" "item_size k v \<le> 2 ^ 26" "safe_hash k \<noteq> 0" "M k = None"
  shows "\<exists>f' inst' fs' a. store 0 0 0 (\<lambda>_. 0) now inst fs k v ex = Some (RET_OK, inst', fs') \<and>
    F (home k) a = None \<and> db_ok f' inst' fs' (with_item F (home k) a ex k v) \<and>
    db_map (ucast now) (with_item F (home k) a ex k v) (if live_at (ucast now) ex then M(k \<mapsto> v) else M) \<and>
    room_for N f' inst' \<and> db_room n fs'"
proof (rule store_effect [OF assms, of ex])
  fix f' inst' fs' a
  assume s: "store 0 0 0 (\<lambda>_. 0) now inst fs k v ex = Some (RET_OK, inst', fs')" "F (home k) a = None"
    "db_ok f' inst' fs' (with_item F (home k) a ex k v)" "room_for N f' inst'" "db_room n fs'"
  from s db_map_with_item [OF assms(2,9) s(2) home_bound, of ex v] show ?thesis by blast
qed

theorem store_new_key_witness:
  "\<exists>i0 f inst fs F. create_tree_unsafe 0 0 new_categories = Inr i0 \<and>
    store 0 0 0 (\<lambda>_. 0) 7 i0 zero_files [3] [4, 5] 9 = Some (RET_OK, inst, fs) \<and> db_ok f inst fs F \<and> db_map 7 F (Map.empty([3] \<mapsto> [4, 5]))"
proof -
  obtain f0 i0 where i: "create_tree_unsafe 0 0 new_categories = Inr i0" "db_ok f0 i0 zero_files (\<lambda>_. Map.empty)"
    "room_for (Suc 99999) f0 i0" by (rule zero_database)
  have h: "safe_hash [3] \<noteq> 0" by (simp add: safe_hash_def hash_step_def)
  have r: "db_room (npages (item_size [3] [4, 5]) + 129998) zero_files" using zero_files_ok(2) by (simp add: npages_def)
  have m: "db_map (ucast (7 :: u64)) (\<lambda>_. Map.empty) Map.empty" by (simp add: db_map_def stored_def)
  from store_new_key [OF i(2) m i(3) r, of 9] i(1) h show ?thesis by (auto simp: live_at_def)
qed

text \<open>C38. The database is a map. On categories that have just been formatted and 128 new data files,
  \<open>create_tree_unsafe\<close> and \<open>init_datafiles_from_file\<close> make an empty database, and any run of stores of
  different keys (together at most 100000 pages, without an end of their time) and searches, at whatever
  times, returns and answers every search as a map would.\<close>

theorem database_is_a_map:
  assumes "length cats = CATEGORY_CNT" "\<forall>j<CATEGORY_CNT. category_on_process.filefd (cats ! j) \<noteq> INVALID_SOCKET \<and>
      category_on_process.data_pointer (cats ! j) = Some (formatted j t0)"
    and "\<forall>n<IPC_DATAFILE_MAX. sizes n = Some IPC_DATAFILE_TTLSIZE \<and> 0 < fd n \<and>
      (\<exists>m. mapping n = Some m \<and> ld32 m 56 \<noteq> DATAITEM_SIGNATURE_ID)"
    and "\<forall>p\<in>set ops. op_valid item_valid_for key_valid p" "distinct (puts ops)" "run_size pages_of ops \<le> 100000"
  shows "\<exists>inst s'. create_tree_unsafe 0 t1 cats = Inr inst \<and>
    kv_run (db_put now) (db_get t) ops (inst, init_datafiles_from_file sizes fd mapping t2 name) =
      Some (fst (map_run ops Map.empty), s') \<and>
    db_holds 0 s' (snd (map_run ops Map.empty))"
proof -
  obtain f inst where i: "create_tree_unsafe 0 t1 cats = Inr inst" "index_ok f inst" "index_keys f = {}" "room_for 100000 f inst"
    by (rule create_tree_on_formatted [OF assms(1,2)])
  note fs = new_files [OF assms(3), of t2 name]
  note db = new_database [OF i(2,3) fs(1)]
  have "db_holds (run_size pages_of ops + 0) (inst, init_datafiles_from_file sizes fd mapping t2 name) Map.empty"
    unfolding db_holds_def using db(1) db(2) [of 0] room_for_mono [OF i(4)] db_room_mono [OF fs(2)] assms(6)
    by (intro exI [of _ f] exI [of _ "\<lambda>_. Map.empty"]) (simp add: stored_def)
  from database.run_is_map_run [OF this assms(4,5)] i(1) show ?thesis by auto
qed

theorem database_is_a_map_witness:
  "\<exists>inst s'. create_tree_unsafe 0 0 new_categories = Inr inst \<and>
    kv_run (db_put 5) (db_get 6) [Get [1], Put [1] [2], Put [3] [4, 5], Get [1], Get [3]] (inst, zero_files) =
      Some ([None, Some [2], Some [4, 5]], s')"
proof -
  have h: "safe_hash [1] \<noteq> 0" "safe_hash [3] \<noteq> 0" by (simp_all add: safe_hash_def hash_step_def)
  have f: "\<forall>n<IPC_DATAFILE_MAX. (\<lambda>_. Some IPC_DATAFILE_TTLSIZE) n = Some IPC_DATAFILE_TTLSIZE \<and> (0 :: int) < (\<lambda>_. 3) n \<and>
    (\<exists>m. (\<lambda>_. Some empty_file) n = Some m \<and> ld32 m 56 \<noteq> DATAITEM_SIGNATURE_ID)" by (simp add: ld32_empty)
  from database_is_a_map [OF new_categories_ok f, of "[Get [1], Put [1] [2], Put [3] [4, 5], Get [1], Get [3]]" 0 5 6 0 "\<lambda>_. []"] h
  show ?thesis by (auto simp: zero_files_def item_valid_for_def key_valid_def pages_of_def npages_def)
qed

end
