(* ===== verification/Session_Store.thy ===== *)
theory Session_Store
  imports Database_Map Session_Map
begin

text \<open>
  The session table of the C daemon on the database: the parameter \<open>kv_ops\<close> of the table is
  instantiated with \<open>store\<close> and \<open>search\<close>. The table that \<open>initialize_bfd_session_table\<close> stores is the one
  that the daemon reads back.
\<close>

definition db_ops :: "u64 \<Rightarrow> db_state kv_ops" where
  "db_ops now = \<lparr>kv_store = (\<lambda>k v (inst, fs). store 0 0 0 (\<lambda>_. 0) now inst fs k v 0),
     kv_search = (\<lambda>held k (inst, fs). do {
       (r, v, s) \<leftarrow> search 0 (\<lambda>_. 0) (\<lambda>_. 0) (ucast now) inst fs k (if held then Some [] else None);
       Some (if r = RET_OK then v else None, s) })\<rparr>"

lemma kv_store_put: "db_put now k v s = Some s' \<Longrightarrow> kv_store (db_ops now) k v s = Some (RET_OK, s')"
  by (cases s) (auto simp: db_put_def db_ops_def split: if_splits bind_splits)

lemma kv_search_law:
  assumes "db_holds n s M" "key_valid k"
  shows "\<exists>s'. kv_search (db_ops now) False k s = Some (M k, s') \<and> db_holds n s' M"
proof -
  obtain s' where g: "db_get (ucast now) k s = Some (M k, s')" "db_holds n s' M" using db_get_law [OF assms] by blast
  have "kv_search (db_ops now) False k s = Some (M k, s')"
    using g(1) unfolding db_get_def db_ops_def search_def
    by (cases s) (auto simp: Let_def split: bind_splits if_splits prod.splits, (metis option.inject)+)
  then show ?thesis using g(2) by blast
qed

section \<open>The stores of the initialization\<close>

definition init_puts :: "nat list \<Rightarrow> (bytes, bytes) kv_op list" where
  "init_puts ns = map (\<lambda>n. Put (group_key n) (encode_keylist zero_keylist)) ns"

lemma init_keylists_run:
  "kv_run (db_put now) get (init_puts ns) s = Some (rs, s') \<Longrightarrow> init_keylists (db_ops now) ns s = Some (0, s')"
proof (induction ns arbitrary: s)
  case (Cons n ns)
  from Cons.prems obtain s1 where s1: "db_put now (group_key n) (encode_keylist zero_keylist) s = Some s1"
    "kv_run (db_put now) get (init_puts ns) s1 = Some (rs, s')"
    by (auto simp: init_puts_def split: bind_splits)
  then show ?case using Cons.IH [OF s1(2)] kv_store_put [OF s1(1)] by simp
qed (simp add: init_puts_def)

lemma initialize_run:
  assumes "kv_run (db_put now) get (Put (to_le 4 SESSION_KEYS_MANGE) (encode_manage zero_manage) # init_puts [0..<SESSION_KEYS_MAX]) s =
    Some (rs, s')"
  shows "initialize_bfd_session_table (db_ops now) s = Some (0, s')"
proof -
  obtain s1 where s1: "db_put now (to_le 4 SESSION_KEYS_MANGE) (encode_manage zero_manage) s = Some s1"
    "kv_run (db_put now) get (init_puts [0..<SESSION_KEYS_MAX]) s1 = Some (rs, s')"
    using assms by (auto split: bind_splits)
  show ?thesis unfolding initialize_bfd_session_table_def using kv_store_put [OF s1(1)] init_keylists_run [OF s1(2)] by simp
qed

lemma table_hashes: "\<forall>n\<in>set [0..<SESSION_KEYS_MAX]. safe_hash (group_key n) \<noteq> 0" "safe_hash (to_le 4 SESSION_KEYS_MANGE) \<noteq> 0"
  by code_simp+

text \<open>The map that the initialization leaves: the summary and the 32 lists, all empty.\<close>

definition table_map :: "nat list \<Rightarrow> (bytes \<rightharpoonup> bytes) \<Rightarrow> bytes \<rightharpoonup> bytes" where
  "table_map ns M = snd (map_run (init_puts ns) M)"

lemma table_map_at:
  "(\<forall>n\<in>set ns. n < 32) \<Longrightarrow> table_map ns M k = (if \<exists>n\<in>set ns. k = group_key n then Some (encode_keylist zero_keylist) else M k)"
proof (induction ns arbitrary: M)
  case (Cons n ns)
  have "table_map (n # ns) M = table_map ns (M(group_key n \<mapsto> encode_keylist zero_keylist))"
    by (simp add: table_map_def init_puts_def)
  then show ?case using Cons by auto
qed (simp add: table_map_def init_puts_def)

lemma init_puts_facts:
  "puts (init_puts ns) = map group_key ns" "run_size pages_of (init_puts ns) = 9 * length ns"
  "fst (map_run (init_puts ns) M) = []"
proof -
  have "pages_of (group_key n) (encode_keylist zero_keylist) = 9" for n
    by (simp add: pages_of_def npages_def length_encode_keylist zero_keylist_def)
  then show "run_size pages_of (init_puts ns) = 9 * length ns"
    by (induction ns) (simp_all add: init_puts_def)
  show "puts (init_puts ns) = map group_key ns" by (induction ns) (simp_all add: init_puts_def)
  show "fst (map_run (init_puts ns) M) = []" by (induction ns arbitrary: M) (simp_all add: init_puts_def)
qed

text \<open>On a database without items and with room for 290 pages the initialization succeeds, and what the
  daemon reads back afterwards is the empty table.\<close>

definition empty_table :: "bytes \<rightharpoonup> bytes" where
  "empty_table k =
     (if k = manage_key then Some (encode_manage zero_manage)
      else if k \<in> group_key ` {..<SESSION_KEYS_MAX} then Some (encode_keylist zero_keylist) else None)"

lemma empty_table_eq: "empty_table = table_map [0..<SESSION_KEYS_MAX] [manage_key \<mapsto> encode_manage zero_manage]"
proof (rule ext)
  fix k
  have "(\<exists>n\<in>set [0..<SESSION_KEYS_MAX]. k = group_key n) \<longleftrightarrow> k \<in> group_key ` {..<SESSION_KEYS_MAX}" by auto
  moreover have "manage_key \<notin> group_key ` {..<SESSION_KEYS_MAX}" using group_key_manage by fastforce
  ultimately show "empty_table k = table_map [0..<SESSION_KEYS_MAX] [manage_key \<mapsto> encode_manage zero_manage] k"
    unfolding empty_table_def by (subst table_map_at) auto
qed

lemma empty_table_reads:
  assumes "db_holds 290 s Map.empty" "c_addrlen \<noteq> 0" "safe_hash (encode_sess_key (sess_key c_addr)) \<noteq> 0"
  shows "\<exists>s'. initialize_bfd_session_table (db_ops now) s = Some (0, s') \<and> db_holds 0 s' empty_table \<and>
    (\<exists>s1. get_sess_manage (db_ops t) s' = Some (Some zero_manage, s1)) \<and>
    (\<forall>n<SESSION_KEYS_MAX. \<exists>s1. get_sess_manage_keylist (db_ops t) (SESSION_KEYS_BASE + of_nat n) s' = Some (Some zero_keylist, s1)) \<and>
    (\<exists>s1. find_session (db_ops t) c_addr c_addrlen s' = Some (None, s1)) \<and>
    (\<exists>s1. iterate_all_session (db_ops t) itr s' w = Some (s1, w))"
proof -
  let ?mk = "to_le 4 SESSION_KEYS_MANGE :: bytes" and ?mv = "encode_manage zero_manage"
  let ?ops = "Put ?mk ?mv # init_puts [0..<SESSION_KEYS_MAX]" and ?M = "table_map [0..<SESSION_KEYS_MAX] [?mk \<mapsto> ?mv]"
  have lm: "length ?mv = SIZEOF_MANAGE" "length (encode_keylist zero_keylist) = SIZEOF_KEYLIST"
    by (simp_all add: length_encode_manage length_encode_keylist zero_manage_def zero_keylist_def)
  have "pages_of ?mk ?mv = 2" using lm(1) by (simp add: pages_of_def npages_def)
  then have size: "run_size pages_of ?ops = 290" by (simp add: init_puts_facts(2))
  have valid: "\<forall>p\<in>set ?ops. op_valid item_valid_for key_valid p"
    using table_hashes lm by (auto simp: init_puts_def item_valid_for_def key_valid_def simp flip: length_0_conv)
  have dist: "distinct (puts ?ops)"
    using group_key_manage group_key_inj by (auto simp: init_puts_facts(1) distinct_map inj_on_def dest: sym)
  obtain s' where s': "kv_run (db_put now) (db_get 0) ?ops s = Some (fst (map_run ?ops Map.empty), s')"
    "db_holds 0 s' (snd (map_run ?ops Map.empty))"
    using database.run_is_map_run [of ?ops 0 s Map.empty now 0] assms(1) size valid dist by auto
  have init: "initialize_bfd_session_table (db_ops now) s = Some (0, s')" by (rule initialize_run [OF s'(1)])
  have holds: "db_holds 0 s' ?M" using s'(2) by (simp add: table_map_def)
  have M: "?M k = (if \<exists>n\<in>set [0..<32]. k = group_key n then Some (encode_keylist zero_keylist) else [?mk \<mapsto> ?mv] k)" for k
    by (rule table_map_at) simp
  have read: "\<exists>s1. kv_search (db_ops t) False k s' = Some (?M k, s1)" if "key_valid k" for k
    using kv_search_law [OF holds that] by blast
  have lists: "?M (group_key n) = Some (encode_keylist zero_keylist)" "key_valid (group_key n)" if n: "n < 32" for n
  proof -
    have "\<exists>j\<in>set [0..<32]. group_key n = group_key j" using n by (intro bexI [of _ n]) simp_all
    then show "?M (group_key n) = Some (encode_keylist zero_keylist)" unfolding M by (rule if_P)
    show "key_valid (group_key n)" using n table_hashes(1) by (simp add: key_valid_def flip: length_0_conv)
  qed
  have manage: "?M ?mk = Some ?mv" "key_valid ?mk"
  proof -
    have "\<not> (\<exists>j\<in>set [0..<32]. ?mk = group_key j)" using group_key_manage by (auto dest: sym)
    then have "?M ?mk = [?mk \<mapsto> ?mv] ?mk" unfolding M by (rule if_not_P)
    then show "?M ?mk = Some ?mv" by simp
    show "key_valid ?mk" using table_hashes(2) by (simp add: key_valid_def flip: length_0_conv)
  qed
  have peer: "?M (encode_sess_key (sess_key c_addr)) = None" "key_valid (encode_sess_key (sess_key c_addr))"
  proof -
    show "?M (encode_sess_key (sess_key c_addr)) = None" unfolding M using sess_key_keys by simp
    show "key_valid (encode_sess_key (sess_key c_addr))" using assms(3) by (simp add: key_valid_def flip: length_0_conv)
  qed
  have mng: "\<exists>s1. get_sess_manage (db_ops t) s' = Some (Some zero_manage, s1)"
    using read [OF manage(2)] manage(1) lm(1) by (auto simp: get_sess_manage_def decode_encode_manage zero_manage_def)
  have "\<exists>s1. get_sess_manage_keylist (db_ops t) (SESSION_KEYS_BASE + of_nat n) s' = Some (Some zero_keylist, s1)" if "n < SESSION_KEYS_MAX" for n
    using read [OF lists(2) [OF that]] lists(1) [OF that] lm(2)
    by (auto simp: get_sess_manage_keylist_def decode_encode_keylist zero_keylist_def)
  moreover have "\<exists>s1. find_session (db_ops t) c_addr c_addrlen s' = Some (None, s1)"
    using read [OF peer(2)] peer(1) assms(2) by (auto simp: find_session_def)
  moreover have "iterate_groups (db_ops t) itr zero_manage ns rs x w = Some (x, w)" for ns rs x
    by (induction ns) (simp_all add: zero_manage_def)
  then have "\<exists>s1. iterate_all_session (db_ops t) itr s' w = Some (s1, w)"
    using mng by (auto simp: iterate_all_session_def)
  ultimately show ?thesis using init mng holds unfolding empty_table_eq by blast
qed

end
