(* ===== verification/Smmr_Files.thy ===== *)
theory Smmr_Files
  imports Smmr_Store Smmr_Categories
begin

text \<open>
  The files and the shared memory objects of the library: their names (\<open>smmr.c\<close>), the creation of a
  file (\<open>_create_file\<close> of \<open>smmr.inl\<close>), and the area of the categories (\<open>smmr_categories.c\<close>): creating
  it, mapping the category files into a process, sharing and removing it. What a system call returns
  is a parameter; a pointer to a shared memory object is NULL, \<open>INVALID_SOCKET\<close> or an object, and a
  function that would follow one of the first two has the result \<open>None\<close>.
\<close>

section \<open>Names\<close>

text \<open>\<open>snprintf(buf,n,...)\<close> keeps the first \<open>n - 1\<close> bytes of the text.\<close>

definition snprintf :: "nat \<Rightarrow> bytes \<Rightarrow> bytes" where
  "snprintf n txt = take (n - 1) txt"

fun decimal :: "nat \<Rightarrow> bytes" where
  "decimal n = (if n < 10 then [of_nat (48 + n)] else decimal (n div 10) @ [of_nat (48 + n mod 10)])"

declare decimal.simps [simp del]

text \<open>\<open>"%02d"\<close>.\<close>

definition decimal2 :: "nat \<Rightarrow> bytes" where
  "decimal2 n = (if n < 10 then 48 # decimal n else decimal n)"

definition of_string :: "string \<Rightarrow> bytes" where
  "of_string s = map of_char s"

text \<open>\<open>global_prefix\<close> is an array of 128 bytes; the text in it ends at its first zero.\<close>

definition set_prefix :: "bytes option \<Rightarrow> bytes \<Rightarrow> bytes" where
  "set_prefix prefix global_prefix =
     (case prefix of
        None \<Rightarrow> replicate 128 0
      | Some p \<Rightarrow> let n = min (length p) 127 in take n p @ drop n global_prefix)"

definition get_prefix :: "bytes \<Rightarrow> bytes" where
  "get_prefix global_prefix = takeWhile (\<lambda>b. b \<noteq> 0) global_prefix"

definition get_category_shmnm :: "bytes \<Rightarrow> bytes" where
  "get_category_shmnm global_prefix =
     (if global_prefix ! 0 \<noteq> 0
      then snprintf 127 (of_string ''/ipc_categories_smmr'' @ of_string ''-'' @ get_prefix global_prefix)
      else snprintf 127 (of_string ''/ipc_categories_smmr''))"

definition get_datafile_shmnm :: "bytes \<Rightarrow> bytes" where
  "get_datafile_shmnm global_prefix =
     (if global_prefix ! 0 \<noteq> 0
      then snprintf 127 (of_string ''/ipc_datafiles_smmr'' @ of_string ''-'' @ get_prefix global_prefix)
      else snprintf 127 (of_string ''/ipc_datafiles_smmr''))"

section \<open>Files\<close>

record stored_file =
  file_size :: nat
  content :: mem

type_synonym disk = "bytes \<Rightarrow> stored_file option"

record file_calls =
  create_open :: int
  create_seek :: int
  create_write :: int
  file_open :: int
  file_mmap :: bool

definition create_file :: "file_calls \<Rightarrow> bytes \<Rightarrow> nat \<Rightarrow> disk \<Rightarrow> int \<times> disk" where
  "create_file sys path init_size disk =
     (if disk path \<noteq> None then (RET_OK, disk)
      else if create_open sys = INVALID_SOCKET then (RET_NG, disk)
      else if create_seek sys = - 1 \<or> create_write sys = - 1 then (RET_NG, disk(path := None))
      else (RET_OK, disk(path \<mapsto> \<lparr>file_size = init_size, content = empty_file\<rparr>)))"

text \<open>\<open>open\<close> and \<open>mmap\<close>: the descriptor and the mapped bytes. A file that is not there cannot be opened.\<close>

definition open_and_map :: "file_calls \<Rightarrow> bytes \<Rightarrow> disk \<Rightarrow> (int \<times> mem) option" where
  "open_and_map sys path disk =
     (if file_open sys = INVALID_SOCKET then None
      else
        (case disk path of
           None \<Rightarrow> None
         | Some f \<Rightarrow> if file_mmap sys then Some (file_open sys, content f) else None))"

section \<open>The area of the categories\<close>

abbreviation (input) CATEGORY_PATHLEN :: nat where "CATEGORY_PATHLEN \<equiv> 128"
abbreviation (input) CATEGORY_MMAPIDX :: nat where "CATEGORY_MMAPIDX \<equiv> 0"
abbreviation (input) CATEGORY_SIZE_IDX :: nat where "CATEGORY_SIZE_IDX \<equiv> 134217728"

datatype 'a shm_ptr = Null_ptr | Invalid_ptr | Mapped 'a

record ipcshm_category =
  shm_filesize :: u32
  category_status :: u32
  category_shmnm :: bytes
  category_path :: bytes

record ipcshm_categories =
  shm_category :: "ipcshm_category list"
  category_shmid :: int

record shm_calls =
  shm_open :: int
  shm_ftruncate :: int
  shm_mmap :: bool

definition category_size :: "nat \<Rightarrow> nat" where
  "category_size n = (if n = CATEGORY_MMAPIDX then CATEGORY_SIZE_IDX else CATEGORY_SIZE)"

definition new_category :: "bytes \<Rightarrow> bytes \<Rightarrow> nat \<Rightarrow> ipcshm_category" where
  "new_category basedir name n =
     \<lparr>shm_filesize = of_nat (category_size n), category_status = 0,
      category_shmnm = snprintf (CATEGORY_PATHLEN - 1) (name @ of_string ''.'' @ decimal2 n),
      category_path = snprintf (CATEGORY_PATHLEN - 1) (basedir @ name @ of_string ''.'' @ decimal2 n)\<rparr>"

definition create_categories_area ::
  "shm_calls \<Rightarrow> bytes \<Rightarrow> bytes \<Rightarrow> ipcshm_categories shm_ptr \<Rightarrow> category_on_process list \<Rightarrow>
     int \<times> ipcshm_categories shm_ptr \<times> category_on_process list" where
  "create_categories_area sys name basedir ipc cats =
     (if ipc \<noteq> Invalid_ptr then (RET_NG, ipc, cats)
      else if shm_open sys < 0 then (RET_NG, ipc, cats)
      else if shm_ftruncate sys = - 1 then (RET_NG, ipc, cats)
      else if \<not> shm_mmap sys then (RET_NG, ipc, cats)
      else (RET_OK,
        Mapped \<lparr>shm_category = map (new_category basedir name) [0..<CATEGORY_CNT], category_shmid = shm_open sys\<rparr>,
        map (\<lambda>n. \<lparr>cat_id = of_nat n, filesize = 0, filefd = INVALID_SOCKET, data_pointer = None\<rparr>) [0..<CATEGORY_CNT]))"

text \<open>The files are created, opened and mapped one after the other; the first failure ends the loop.\<close>

fun init_categories ::
  "bool \<Rightarrow> (nat \<Rightarrow> file_calls) \<Rightarrow> ipcshm_categories \<Rightarrow> nat list \<Rightarrow> disk \<times> category_on_process list \<Rightarrow>
     int \<times> disk \<times> category_on_process list" where
  "init_categories child sys ipc [] (disk, cats) = (RET_OK, disk, cats)"
| "init_categories child sys ipc (n # ns) (disk, cats) =
     (let path = category_path (shm_category ipc ! n);
          (created, disk) = (if child then (RET_OK, disk) else create_file (sys n) path (category_size n) disk)
      in if created \<noteq> RET_OK then (RET_NG, disk, cats)
      else
        (case open_and_map (sys n) path disk of
           None \<Rightarrow> (RET_NG, disk, cats)
         | Some (fd, m) \<Rightarrow>
             init_categories child sys ipc ns (disk, cats[n := \<lparr>cat_id = of_nat n,
               filesize = of_nat (category_size n), filefd = fd, data_pointer = Some m\<rparr>])))"

definition init_categories_from_file ::
  "int \<Rightarrow> bool \<Rightarrow> (nat \<Rightarrow> file_calls) \<Rightarrow> ipcshm_categories shm_ptr \<Rightarrow> disk \<times> category_on_process list \<Rightarrow>
     (int \<times> disk \<times> category_on_process list) option" where
  "init_categories_from_file lock child sys ipc s =
     (case ipc of
        Null_ptr \<Rightarrow> Some (RET_NG, s)
      | Invalid_ptr \<Rightarrow> None
      | Mapped a \<Rightarrow>
          Some (if isvalid_lock lock = RET_OK then init_categories child sys a [0..<CATEGORY_CNT] s
                else (RET_OK, s)))"

text \<open>Another process: \<open>shared\<close> is the object that the parent has created. The lock is not checked.\<close>

fun childinit_categories ::
  "(nat \<Rightarrow> file_calls) \<Rightarrow> ipcshm_categories \<Rightarrow> disk \<Rightarrow> nat list \<Rightarrow> category_on_process list \<Rightarrow>
     int \<times> category_on_process list" where
  "childinit_categories sys ipc disk [] cats = (RET_OK, cats)"
| "childinit_categories sys ipc disk (n # ns) cats =
     (let c = shm_category ipc ! n in
      (case open_and_map (sys n) (category_path c) disk of
         None \<Rightarrow> (RET_NG, cats)
       | Some (fd, m) \<Rightarrow>
           childinit_categories sys ipc disk ns (cats[n := \<lparr>cat_id = of_nat n, filesize = shm_filesize c,
             filefd = fd, data_pointer = Some m\<rparr>])))"

definition childinit_categories_area ::
  "shm_calls \<Rightarrow> (nat \<Rightarrow> file_calls) \<Rightarrow> ipcshm_categories \<Rightarrow> disk \<Rightarrow> ipcshm_categories shm_ptr \<Rightarrow>
     category_on_process list \<Rightarrow> int \<times> ipcshm_categories shm_ptr \<times> category_on_process list" where
  "childinit_categories_area sys fsys shared disk ipc cats =
     (if ipc \<noteq> Invalid_ptr then (RET_NG, ipc, cats)
      else if shm_open sys < 0 then (RET_NG, ipc, cats)
      else if \<not> shm_mmap sys then (RET_NG, ipc, cats)
      else
        let a = shared\<lparr>category_shmid := shm_open sys\<rparr>;
            (retcd, cats) = childinit_categories fsys a disk [0..<CATEGORY_CNT] cats
        in (retcd, Mapped a, cats))"

text \<open>
  Detaching: the descriptors that are closed, the mappings that are removed (the index and the bytes
  that are then in the file), and the table after that.
\<close>

definition detach_categories ::
  "category_on_process list \<Rightarrow> int list \<times> (nat \<times> mem) list \<times> category_on_process list" where
  "detach_categories cats =
     (filter (\<lambda>fd. fd \<noteq> INVALID_SOCKET) (map filefd cats),
      List.map_filter (\<lambda>(n, c). map_option (Pair n) (data_pointer c)) (enumerate 0 cats),
      map (\<lambda>c. c\<lparr>filefd := INVALID_SOCKET, data_pointer := None\<rparr>) cats)"

definition remove_categories_area ::
  "ipcshm_categories shm_ptr \<Rightarrow> category_on_process list \<Rightarrow>
     int \<times> int list \<times> (nat \<times> mem) list \<times> ipcshm_categories shm_ptr \<times> category_on_process list" where
  "remove_categories_area ipc cats =
     (if ipc = Invalid_ptr then (RET_NG, [], [], ipc, cats)
      else
        let (closed, unmapped, cats) = detach_categories cats in
        (RET_OK, closed @ (case ipc of Mapped a \<Rightarrow> [category_shmid a] | _ \<Rightarrow> []), unmapped, Invalid_ptr, cats))"

text \<open>The test joins its two conditions by \<open>||\<close>, so that it holds whatever the pointer is.\<close>

definition childuninit_categories_area ::
  "ipcshm_categories shm_ptr \<Rightarrow> category_on_process list \<Rightarrow>
     (int \<times> int list \<times> (nat \<times> mem) list \<times> ipcshm_categories shm_ptr \<times> category_on_process list) option" where
  "childuninit_categories_area ipc cats =
     (case ipc of
        Mapped a \<Rightarrow>
          (let (closed, unmapped, cats) = detach_categories cats in
           Some (RET_OK, closed @ [category_shmid a], unmapped, Invalid_ptr, cats))
      | _ \<Rightarrow> None)"

text \<open>The files after the mappings are gone.\<close>

definition write_back :: "ipcshm_categories \<Rightarrow> (nat \<times> mem) list \<Rightarrow> disk \<Rightarrow> disk" where
  "write_back a unmapped disk =
     fold (\<lambda>(n, m) disk. let p = category_path (shm_category a ! n) in
       disk(p := map_option (content_update (\<lambda>_. m)) (disk p))) unmapped disk"

text \<open>\<open>rebuild_pages_area\<close> with its check of the table.\<close>

definition rebuild_categories :: "u32 \<Rightarrow> category_on_process list \<Rightarrow> int \<times> category_on_process list" where
  "rebuild_categories now cats =
     (if \<exists>c\<in>set cats. data_pointer c = None then (RET_NG, cats)
      else (RET_OK, map2 (\<lambda>c m. c\<lparr>data_pointer := Some m\<rparr>) cats
        (rebuild_pages_area now (map (\<lambda>c. (unat (filesize c), the (data_pointer c))) cats))))"

section \<open>Names of files\<close>

definition undecimal :: "bytes \<Rightarrow> nat" where
  "undecimal bs = foldl (\<lambda>a b. 10 * a + (unat b - 48)) 0 bs"

lemma unat_digit: "d < 10 \<Longrightarrow> unat (of_nat (48 + d) :: u8) = 48 + d"
  by (rule unat_of_nat_small) simp

lemma undecimal_decimal: "undecimal (decimal n) = n"
proof (induction n rule: decimal.induct)
  case (1 n)
  show ?case
  proof (cases "n < 10")
    case True
    then show ?thesis by (simp add: decimal.simps [of n] undecimal_def unat_digit del: of_nat_add)
  next
    case False
    have "unat (of_nat (48 + n mod 10) :: u8) = 48 + n mod 10" by (rule unat_digit) simp
    then have "undecimal (decimal n) = 10 * undecimal (decimal (n div 10)) + n mod 10"
      using False by (simp add: decimal.simps [of n] undecimal_def del: of_nat_add)
    then show ?thesis using 1 False by simp
  qed
qed

lemma decimal2_eq: "decimal2 n = decimal2 k \<longleftrightarrow> n = k"
proof -
  have "undecimal (decimal2 n) = n" for n using undecimal_decimal [of n] by (simp add: decimal2_def undecimal_def)
  then show ?thesis by metis
qed

lemma length_decimal2: "n < 1000 \<Longrightarrow> length (decimal2 n) \<le> 3"
  by (simp add: decimal2_def decimal.simps [of n] decimal.simps [of "n div 10"] decimal.simps [of "n div 10 div 10"])

lemma length_of_string [simp]: "length (of_string s) = length s"
  by (simp add: of_string_def)

lemma category_path_whole:
  assumes "length basedir + length name \<le> 120" "n < CATEGORY_CNT"
  shows "category_path (new_category basedir name n) = basedir @ name @ of_string ''.'' @ decimal2 n"
  unfolding new_category_def snprintf_def ipcshm_category.simps
  by (rule take_all) (use assms length_decimal2 [of n] in simp)

lemma category_paths_differ:
  assumes "length basedir + length name \<le> 120" "n < CATEGORY_CNT" "k < CATEGORY_CNT"
  shows "category_path (new_category basedir name n) = category_path (new_category basedir name k) \<longleftrightarrow> n = k"
  using assms by (simp add: category_path_whole decimal2_eq)

section \<open>Starting on files\<close>

text \<open>All calls succeed.\<close>

definition files_served :: "(nat \<Rightarrow> file_calls) \<Rightarrow> bool" where
  "files_served sys \<longleftrightarrow> (\<forall>n. create_open (sys n) \<noteq> INVALID_SOCKET \<and> create_seek (sys n) \<noteq> - 1 \<and>
     create_write (sys n) \<noteq> - 1 \<and> 0 < file_open (sys n) \<and> file_mmap (sys n))"

definition disk_content :: "disk \<Rightarrow> bytes \<Rightarrow> mem" where
  "disk_content disk p = (case disk p of None \<Rightarrow> empty_file | Some f \<Rightarrow> content f)"

definition with_files :: "ipcshm_categories \<Rightarrow> nat list \<Rightarrow> disk \<Rightarrow> disk" where
  "with_files a ns disk p =
     (if disk p = None \<and> p \<in> (\<lambda>n. category_path (shm_category a ! n)) ` set ns
      then Some \<lparr>file_size = CATEGORY_SIZE, content = empty_file\<rparr> else disk p)"

definition opened_category :: "(nat \<Rightarrow> file_calls) \<Rightarrow> ipcshm_categories \<Rightarrow> disk \<Rightarrow> nat \<Rightarrow> category_on_process" where
  "opened_category sys a disk n = \<lparr>cat_id = of_nat n, filesize = of_nat CATEGORY_SIZE, filefd = file_open (sys n),
     data_pointer = Some (disk_content disk (category_path (shm_category a ! n)))\<rparr>"

lemma init_categories_ok:
  assumes "files_served sys"
  shows "init_categories False sys a ns (disk, cats) =
    (RET_OK, with_files a ns disk, fold (\<lambda>n cats. cats[n := opened_category sys a disk n]) ns cats)"
proof (induction ns arbitrary: disk cats)
  case Nil
  show ?case by (simp add: with_files_def fun_eq_iff)
next
  case (Cons n ns)
  let ?p = "category_path (shm_category a ! n)"
  let ?d = "if disk ?p = None then disk(?p \<mapsto> \<lparr>file_size = CATEGORY_SIZE, content = empty_file\<rparr>) else disk"
  have s: "create_open (sys n) \<noteq> INVALID_SOCKET" "create_seek (sys n) \<noteq> - 1" "create_write (sys n) \<noteq> - 1"
    "file_open (sys n) \<noteq> INVALID_SOCKET" "file_mmap (sys n)"
    using assms [unfolded files_served_def, THEN spec, of n] by auto
  have c: "create_file (sys n) ?p (category_size n) disk = (RET_OK, ?d)"
    using s by (simp add: create_file_def category_size_def)
  have dc: "disk_content ?d = disk_content disk" by (auto simp: disk_content_def fun_eq_iff)
  have o: "open_and_map (sys n) ?p ?d = Some (file_open (sys n), disk_content disk ?p)"
    using s by (auto simp: open_and_map_def disk_content_def)
  have "with_files a ns ?d = with_files a (n # ns) disk"
    by (rule ext) (auto simp: with_files_def)
  moreover have "opened_category sys a ?d = opened_category sys a disk"
    by (simp add: opened_category_def fun_eq_iff dc)
  moreover have "\<lparr>cat_id = of_nat n, filesize = of_nat (category_size n), filefd = file_open (sys n),
      data_pointer = Some (disk_content disk ?p)\<rparr> = opened_category sys a disk n"
    by (simp add: opened_category_def category_size_def)
  ultimately show ?case
    using Cons.IH [of ?d] c o by (simp add: Let_def)
qed

lemma fold_updates: "length cats = k \<Longrightarrow> fold (\<lambda>n cats. cats[n := g n]) [0..<k] cats = map g [0..<k]"
proof -
  have "\<lbrakk>length cats = k; j \<le> k\<rbrakk> \<Longrightarrow> fold (\<lambda>n cats. cats[n := g n]) [0..<j] cats = map g [0..<j] @ drop j cats" for j
  proof (induction j)
    case (Suc j)
    then have "fold (\<lambda>n cats. cats[n := g n]) [0..<j] cats = map g [0..<j] @ drop j cats" by simp
    then show ?case using Suc.prems by (simp add: list_update_append Cons_nth_drop_Suc [symmetric])
  qed simp
  then show "length cats = k \<Longrightarrow> fold (\<lambda>n cats. cats[n := g n]) [0..<k] cats = map g [0..<k]" by simp
qed

lemma rebuild_categories_ok:
  assumes "length cats = CATEGORY_CNT" "\<forall>n<CATEGORY_CNT. data_pointer (cats ! n) = Some (g n) \<and> filesize (cats ! n) = of_nat CATEGORY_SIZE"
  obtains cats' where "rebuild_categories now cats = (RET_OK, cats')" "length cats' = CATEGORY_CNT"
    "\<And>n. n < CATEGORY_CNT \<Longrightarrow> cats' ! n = (cats ! n)\<lparr>data_pointer :=
      Some (fold (rebuild_page now) [1..<PAGE_CNT] (init_sys n CATEGORY_SIZE (g n)))\<rparr>"
proof -
  let ?l = "map (\<lambda>c. (unat (filesize c), the (data_pointer c))) cats"
  let ?cats = "map2 (\<lambda>c m. c\<lparr>data_pointer := Some m\<rparr>) cats (rebuild_pages_area now ?l)"
  have len: "length (rebuild_pages_area now ?l) = CATEGORY_CNT" using assms(1) by (simp add: rebuild_pages_area_def)
  have "\<not> (\<exists>c\<in>set cats. data_pointer c = None)" using assms by (auto simp: in_set_conv_nth)
  then have "rebuild_categories now cats = (RET_OK, ?cats)" by (simp add: rebuild_categories_def)
  moreover have "?cats ! n = (cats ! n)\<lparr>data_pointer :=
      Some (fold (rebuild_page now) [1..<PAGE_CNT] (init_sys n CATEGORY_SIZE (g n)))\<rparr>" if n: "n < CATEGORY_CNT" for n
  proof -
    have "?l ! n = (CATEGORY_SIZE, g n)" using assms n by simp
    then have "rebuild_pages_area now ?l ! n = fold (rebuild_page now) [1..<PAGE_CNT] (init_sys n CATEGORY_SIZE (g n))"
      using assms(1) n by (intro rebuild_pages_area_nth) simp_all
    then show ?thesis using assms(1) len n by simp
  qed
  moreover have "length ?cats = CATEGORY_CNT" using assms(1) len by simp
  ultimately show ?thesis using that [of ?cats] by blast
qed

end
