(* ===== verification/Database_Area.thy ===== *)
theory Database_Area
  imports Database_Map Smmr_Files
begin

text \<open>
  The area of the data files (\<open>smmr_database.c\<close>): creating it, mapping the files into a process,
  removing it. The system calls and the pointers are as in \<open>Smmr_Files\<close>.
\<close>

abbreviation (input) DATAFILE_PATHLEN :: nat where "DATAFILE_PATHLEN \<equiv> 128"

record ipcshm_datafiles =
  shmnm :: "bytes list"
  df_path :: "bytes list"
  shmid :: int

definition datafile_shmnm :: "bytes \<Rightarrow> nat \<Rightarrow> bytes" where
  "datafile_shmnm name n = snprintf (DATAFILE_PATHLEN - 1) (name @ of_string ''.'' @ decimal2 n)"

definition datafile_path :: "bytes \<Rightarrow> bytes \<Rightarrow> nat \<Rightarrow> bytes" where
  "datafile_path basedir name n =
     snprintf (DATAFILE_PATHLEN - 1) (basedir @ of_string ''/'' @ name @ of_string ''.'' @ decimal2 n)"

text \<open>A file that cannot be created is reported and left out.\<close>

definition create_db_area_parent ::
  "shm_calls \<Rightarrow> (nat \<Rightarrow> file_calls) \<Rightarrow> bytes \<Rightarrow> bytes \<Rightarrow> ipcshm_datafiles shm_ptr \<Rightarrow> disk \<Rightarrow>
     int \<times> ipcshm_datafiles shm_ptr \<times> disk" where
  "create_db_area_parent sys fsys name basedir ipc disk =
     (if ipc \<noteq> Invalid_ptr then (RET_NG, ipc, disk)
      else if shm_open sys < 0 then (RET_NG, ipc, disk)
      else if shm_ftruncate sys = - 1 then (RET_NG, ipc, disk)
      else if \<not> shm_mmap sys then (RET_NG, ipc, disk)
      else (RET_OK,
        Mapped \<lparr>shmnm = map (datafile_shmnm name) [0..<IPC_DATAFILE_MAX],
          df_path = map (datafile_path basedir name) [0..<IPC_DATAFILE_MAX], shmid = shm_open sys\<rparr>,
        fold (\<lambda>n disk. snd (create_file (fsys n) (datafile_path basedir name n) IPC_DATAFILE_TTLSIZE disk))
          [0..<IPC_DATAFILE_MAX] disk))"

text \<open>\<open>init_datafiles_from_file\<close> with its check and with the files of the disk.\<close>

definition init_db_area ::
  "(nat \<Rightarrow> file_calls) \<Rightarrow> u64 \<Rightarrow> bytes \<Rightarrow> ipcshm_datafiles shm_ptr \<Rightarrow> disk \<Rightarrow> datafile list \<Rightarrow>
     (int \<times> datafile list) option" where
  "init_db_area fsys now name ipc disk fs =
     (case ipc of
        Null_ptr \<Rightarrow> Some (RET_NG, fs)
      | Invalid_ptr \<Rightarrow> None
      | Mapped a \<Rightarrow>
          let path = (\<lambda>n. df_path a ! n) in
          Some (RET_OK, init_datafiles_from_file (\<lambda>n. map_option file_size (disk (path n))) (\<lambda>n. file_open (fsys n))
            (\<lambda>n. if file_mmap (fsys n) then map_option content (disk (path n)) else None) now
            (\<lambda>n. name @ of_string ''.'' @ decimal2 n)))"

definition remove_db_area_parent ::
  "ipcshm_datafiles shm_ptr \<Rightarrow> datafile list \<Rightarrow>
     int \<times> int list \<times> (nat \<times> mem) list \<times> ipcshm_datafiles shm_ptr \<times> datafile list" where
  "remove_db_area_parent ipc fs =
     (if ipc = Invalid_ptr then (RET_NG, [], [], ipc, fs)
      else (RET_OK, filter (\<lambda>fd. fd \<noteq> - 1 \<and> fd \<noteq> 0) (map datafile.filefd fs),
        List.map_filter (\<lambda>(n, f). map_option (Pair n) (datafile.data_pointer f)) (enumerate 0 fs),
        Invalid_ptr, map (\<lambda>_. no_datafile) fs))"

text \<open>Another process.\<close>

definition childinit_db_area ::
  "shm_calls \<Rightarrow> (nat \<Rightarrow> file_calls) \<Rightarrow> ipcshm_datafiles \<Rightarrow> disk \<Rightarrow> ipcshm_datafiles shm_ptr \<Rightarrow> datafile list \<Rightarrow>
     int \<times> ipcshm_datafiles shm_ptr \<times> datafile list" where
  "childinit_db_area sys fsys shared disk ipc fs =
     (if ipc \<noteq> Invalid_ptr then (RET_NG, ipc, fs)
      else if shm_open sys < 0 then (RET_NG, ipc, fs)
      else if \<not> shm_mmap sys then (RET_NG, ipc, fs)
      else
        let a = shared\<lparr>shmid := shm_open sys\<rparr> in
        (RET_OK, Mapped a,
         map (\<lambda>n. case open_and_map (fsys n) (df_path a ! n) disk of
                    None \<Rightarrow> no_datafile
                  | Some (fd, m) \<Rightarrow> \<lparr>filefd = fd, data_pointer = Some m\<rparr>) [0..<IPC_DATAFILE_MAX]))"

text \<open>NULL is followed here.\<close>

definition childuninit_db_area ::
  "ipcshm_datafiles shm_ptr \<Rightarrow> datafile list \<Rightarrow>
     (int \<times> int list \<times> (nat \<times> mem) list \<times> ipcshm_datafiles shm_ptr \<times> datafile list) option" where
  "childuninit_db_area ipc fs =
     (case ipc of
        Null_ptr \<Rightarrow> None
      | Invalid_ptr \<Rightarrow> Some (RET_OK, [], [], Invalid_ptr, fs)
      | Mapped a \<Rightarrow>
          Some (RET_OK, filter (\<lambda>fd. fd \<noteq> - 1) (map datafile.filefd fs) @ [shmid a],
            List.map_filter (\<lambda>(n, f). map_option (Pair n) (datafile.data_pointer f)) (enumerate 0 fs),
            Invalid_ptr, map (\<lambda>_. no_datafile) fs))"

definition write_back_datafiles :: "ipcshm_datafiles \<Rightarrow> (nat \<times> mem) list \<Rightarrow> disk \<Rightarrow> disk" where
  "write_back_datafiles a unmapped disk =
     fold (\<lambda>(n, m) disk. disk(df_path a ! n := map_option (content_update (\<lambda>_. m)) (disk (df_path a ! n)))) unmapped disk"

section \<open>Names\<close>

lemma datafile_path_whole:
  assumes "length basedir + length name \<le> 120" "n < IPC_DATAFILE_MAX"
  shows "datafile_path basedir name n = basedir @ of_string ''/'' @ name @ of_string ''.'' @ decimal2 n"
  unfolding datafile_path_def snprintf_def
  by (rule take_all) (use assms length_decimal2 [of n] in simp)

lemma datafile_paths_differ:
  assumes "length basedir + length name \<le> 120" "n < IPC_DATAFILE_MAX" "k < IPC_DATAFILE_MAX"
  shows "datafile_path basedir name n = datafile_path basedir name k \<longleftrightarrow> n = k"
  using assms by (simp add: datafile_path_whole decimal2_eq)

section \<open>The files of an earlier run\<close>

lemma old_files:
  assumes "\<forall>n<IPC_DATAFILE_MAX. sizes n = Some IPC_DATAFILE_TTLSIZE \<and> 0 < fd n \<and> (\<exists>m. mapping n = Some m \<and> file_ok m (F n))"
  shows "files_ok (init_datafiles_from_file sizes fd mapping now name) F"
proof -
  let ?fs = "init_datafiles_from_file sizes fd mapping now name"
  have "mapped ?fs d m" if "d < IPC_DATAFILE_MAX" "mapping d = Some m" "file_ok m (F d)" for d m
  proof -
    have "init_datafile now (name d) m = m" using file_ok_signed [OF that(3)] by (simp add: init_datafile_def)
    then show ?thesis using assms that by (auto simp: mapped_def init_datafiles_from_file_def)
  qed
  moreover have "length ?fs = IPC_DATAFILE_MAX" by (simp add: init_datafiles_from_file_def)
  ultimately show ?thesis using assms unfolding files_ok_def by blast
qed

text \<open>The creation of the files, when the calls succeed.\<close>

lemma create_files_fold:
  assumes "files_served sys"
  shows "fold (\<lambda>n disk. snd (create_file (sys n) (path n) sz disk)) ns disk =
    (\<lambda>p. if disk p = None \<and> p \<in> path ` set ns then Some \<lparr>file_size = sz, content = empty_file\<rparr> else disk p)"
proof (induction ns arbitrary: disk)
  case (Cons n ns)
  have "create_open (sys n) \<noteq> INVALID_SOCKET" "create_seek (sys n) \<noteq> - 1" "create_write (sys n) \<noteq> - 1"
    using assms by (auto simp: files_served_def)
  then have c: "snd (create_file (sys n) (path n) sz disk) =
    (if disk (path n) = None then disk(path n \<mapsto> \<lparr>file_size = sz, content = empty_file\<rparr>) else disk)"
    by (simp add: create_file_def)
  show ?case unfolding fold.simps comp_def c Cons.IH by (rule ext) auto
qed simp

lemma map_filter_all:
  assumes "\<forall>n<length xs. p (xs ! n) = Some (m n)"
  shows "List.map_filter (\<lambda>(n, x). map_option (Pair n) (p x)) (enumerate 0 xs) = map (\<lambda>n. (n, m n)) [0..<length xs]"
proof -
  have "List.map_filter (\<lambda>(n, x). map_option (Pair n) (p x)) (zip [0..<k] (take k xs)) = map (\<lambda>n. (n, m n)) [0..<k]"
    if "k \<le> length xs" for k
    using that
  proof (induction k)
    case (Suc k)
    then have "take (Suc k) xs = take k xs @ [xs ! k]" by (simp add: take_Suc_conv_app_nth)
    then show ?case using Suc assms by (simp add: List.map_filter_def)
  qed (simp add: List.map_filter_def)
  from this [of "length xs"] show ?thesis by (simp add: enumerate_eq_zip)
qed

end
