(* ===== verification/Session_Start.thy ===== *)
theory Session_Start
  imports Session_Store Database_Area
begin

text \<open>
  The start of the C daemon's session table: \<open>initialize_bfd_session_table\<close> of \<open>bfdd_session.c\<close> as a whole,
  from the files on the disk, with the static variables of that file as its state; what
  \<open>finalize_bfd_session_table\<close> detaches; and a restart.
\<close>

record session_statics =
  CATEGORIES :: "ipcshm_categories shm_ptr"
  DATAFILES :: "ipcshm_datafiles shm_ptr"
  DATAFILES_INDEX :: "datafile list"
  CATEGORIES_INDEX :: "category_on_process list"
  ROOT :: "tree_instance option"

definition no_session_table :: session_statics where
  "no_session_table = \<lparr>CATEGORIES = Invalid_ptr, DATAFILES = Invalid_ptr,
     DATAFILES_INDEX = replicate IPC_DATAFILE_MAX \<lparr>filefd = 0, data_pointer = None\<rparr>,
     CATEGORIES_INDEX = replicate CATEGORY_CNT \<lparr>cat_id = 0, filesize = 0, filefd = 0, data_pointer = None\<rparr>, ROOT = None\<rparr>"

text \<open>What the system calls return, for the two areas; \<open>all_lock\<close> is the lock on all categories.\<close>

record start_calls =
  cat_shm :: shm_calls
  cat_file :: "nat \<Rightarrow> file_calls"
  db_shm :: shm_calls
  db_file :: "nat \<Rightarrow> file_calls"
  all_lock :: int

definition index_dir :: "nat \<Rightarrow> bytes" where
  "index_dir pid = snprintf 127 (of_string ''/tmp/'' @ decimal pid @ of_string ''/'')"

definition data_dir :: "nat \<Rightarrow> bytes" where
  "data_dir pid = snprintf 127 (of_string ''/tmp/'' @ decimal pid @ of_string ''/db/'')"

text \<open>The steps up to the root of the tree; each failure returns 1 and leaves what is done.\<close>

definition open_categories ::
  "start_calls \<Rightarrow> u64 \<Rightarrow> bytes \<Rightarrow> bytes \<Rightarrow> session_statics \<times> disk \<Rightarrow> (int \<times> session_statics \<times> disk) option" where
  "open_categories sys now pfx dir = (\<lambda>(st, disk).
     (let (rc, ipc, cats) = create_categories_area (cat_shm sys) (get_category_shmnm pfx) dir (CATEGORIES st)
            (CATEGORIES_INDEX st);
          st = st\<lparr>CATEGORIES := ipc, CATEGORIES_INDEX := cats\<rparr>
      in if rc \<noteq> RET_OK then Some (1, st, disk)
      else do {
        (rc, disk, cats) \<leftarrow> init_categories_from_file (all_lock sys) False (cat_file sys) (CATEGORIES st)
          (disk, CATEGORIES_INDEX st);
        let st = st\<lparr>CATEGORIES_INDEX := cats\<rparr>;
        if rc \<noteq> RET_OK then Some (1, st, disk)
        else
          let (rc, cats) = rebuild_categories (ucast now) (CATEGORIES_INDEX st);
              st = st\<lparr>CATEGORIES_INDEX := cats\<rparr>
          in Some (if rc \<noteq> RET_OK then 1 else 0, st, disk)
      }))"

definition open_datafiles ::
  "start_calls \<Rightarrow> u64 \<Rightarrow> bytes \<Rightarrow> bytes \<Rightarrow> session_statics \<times> disk \<Rightarrow> (int \<times> session_statics \<times> disk) option" where
  "open_datafiles sys now pfx dir = (\<lambda>(st, disk).
     (let (rc, ipc, disk) = create_db_area_parent (db_shm sys) (db_file sys) (get_datafile_shmnm pfx) dir (DATAFILES st) disk;
          st = st\<lparr>DATAFILES := ipc\<rparr>
      in if rc \<noteq> RET_OK then Some (1, st, disk)
      else do {
        (rc, fs) \<leftarrow> init_db_area (db_file sys) now (get_datafile_shmnm pfx) (DATAFILES st) disk (DATAFILES_INDEX st);
        Some (if rc \<noteq> RET_OK then 1 else 0, st\<lparr>DATAFILES_INDEX := fs\<rparr>, disk)
      }))"

definition open_session_table ::
  "start_calls \<Rightarrow> u64 \<Rightarrow> bytes \<Rightarrow> nat \<Rightarrow> session_statics \<times> disk \<Rightarrow> (int \<times> session_statics \<times> disk) option" where
  "open_session_table sys now pfx pid s =
     do {
       (rc, s) \<leftarrow> open_categories sys now pfx (index_dir pid) s;
       if rc \<noteq> 0 then Some (1, s)
       else do {
         (rc, st, disk) \<leftarrow> open_datafiles sys now pfx (data_dir pid) s;
         if rc \<noteq> 0 then Some (1, st, disk)
         else
           (case create_tree_unsafe (all_lock sys) (ucast now) (CATEGORIES_INDEX st) of
              Inl cats \<Rightarrow> Some (1, st\<lparr>ROOT := None, CATEGORIES_INDEX := cats\<rparr>, disk)
            | Inr inst \<Rightarrow> Some (0, st\<lparr>ROOT := Some inst, CATEGORIES_INDEX := categories inst\<rparr>, disk))
       }
     }"

text \<open>The whole function: with the stores of the empty table.\<close>

definition start_bfd_session_table ::
  "start_calls \<Rightarrow> u64 \<Rightarrow> bytes \<Rightarrow> nat \<Rightarrow> session_statics \<times> disk \<Rightarrow> (int \<times> session_statics \<times> disk) option" where
  "start_bfd_session_table sys now pfx pid s =
     do {
       (rc, st, disk) \<leftarrow> open_session_table sys now pfx pid s;
       if rc \<noteq> 0 then Some (rc, st, disk)
       else do {
         (rc, inst, fs) \<leftarrow> initialize_bfd_session_table (db_ops now) (the (ROOT st), DATAFILES_INDEX st);
         Some (rc, st\<lparr>ROOT := Some inst, CATEGORIES_INDEX := categories inst, DATAFILES_INDEX := fs\<rparr>, disk)
       }
     }"

text \<open>
  \<open>finalize_bfd_session_table\<close> without the removal of the directories: both areas are detached, errors
  are only reported, and what was mapped is in the files.
\<close>

definition detach_session_table :: "session_statics \<times> disk \<Rightarrow> int \<times> session_statics \<times> disk" where
  "detach_session_table = (\<lambda>(st, disk).
     (let (_, _, unmapped, dipc, fs) = remove_db_area_parent (DATAFILES st) (DATAFILES_INDEX st);
          disk = (case DATAFILES st of Mapped a \<Rightarrow> write_back_datafiles a unmapped disk | _ \<Rightarrow> disk);
          (_, _, unmapped, ipc, cats) = remove_categories_area (CATEGORIES st) (CATEGORIES_INDEX st);
          disk = (case CATEGORIES st of Mapped a \<Rightarrow> write_back a unmapped disk | _ \<Rightarrow> disk)
      in (0, st\<lparr>DATAFILES := dipc, DATAFILES_INDEX := fs, CATEGORIES := ipc, CATEGORIES_INDEX := cats\<rparr>, disk)))"

section \<open>Names\<close>

lemma length_decimal: "n < 10 ^ k \<Longrightarrow> 0 < k \<Longrightarrow> length (decimal n) \<le> k"
proof (induction k arbitrary: n)
  case (Suc k)
  show ?case
  proof (cases "n < 10")
    case True
    then show ?thesis by (simp add: decimal.simps [of n])
  next
    case False
    then have "0 < k" "n div 10 < 10 ^ k" using Suc.prems(1) by (cases k; simp)+
    then show ?thesis using Suc.IH [of "n div 10"] False by (simp add: decimal.simps [of n])
  qed
qed simp

lemma dirs:
  assumes "pid < 2 ^ 32"
  shows "index_dir pid = of_string ''/tmp/'' @ decimal pid @ of_string ''/''"
    "data_dir pid = of_string ''/tmp/'' @ decimal pid @ of_string ''/db/''"
    "length (index_dir pid) \<le> 16" "length (data_dir pid) \<le> 19"
proof -
  have l: "length (decimal pid) \<le> 10" by (rule length_decimal) (use assms in simp_all)
  then show "index_dir pid = of_string ''/tmp/'' @ decimal pid @ of_string ''/''"
    "data_dir pid = of_string ''/tmp/'' @ decimal pid @ of_string ''/db/''"
    by (simp_all add: index_dir_def data_dir_def snprintf_def)
  with l show "length (index_dir pid) \<le> 16" "length (data_dir pid) \<le> 19" by simp_all
qed

lemma names:
  assumes "pfx ! 0 = 0"
  shows "get_category_shmnm pfx = of_string ''/ipc_categories_smmr''" "get_datafile_shmnm pfx = of_string ''/ipc_datafiles_smmr''"
  using assms by (simp_all add: get_category_shmnm_def get_datafile_shmnm_def snprintf_def)

lemma paths_apart:
  assumes "pid < 2 ^ 32" "pfx ! 0 = 0" "n < CATEGORY_CNT" "k < IPC_DATAFILE_MAX"
  shows "category_path (new_category (index_dir pid) (get_category_shmnm pfx) n) \<noteq>
    datafile_path (data_dir pid) (get_datafile_shmnm pfx) k"
proof -
  have l: "length (index_dir pid) + length (get_category_shmnm pfx) \<le> 120"
    "length (data_dir pid) + length (get_datafile_shmnm pfx) \<le> 120"
    using dirs(3,4) [OF assms(1)] by (simp_all add: names [OF assms(2)])
  have "of_string ''/'' @ get_category_shmnm pfx @ x \<noteq> of_string ''/db/'' @ y" for x y
    unfolding names [OF assms(2)] by (simp add: of_string_def)
  then show ?thesis
    using category_path_whole [OF l(1) assms(3)] datafile_path_whole [OF l(2) assms(4)] dirs(1,2) [OF assms(1)]
    by simp
qed

section \<open>Opening\<close>

definition shm_served :: "shm_calls \<Rightarrow> bool" where
  "shm_served sys \<longleftrightarrow> 0 \<le> shm_open sys \<and> shm_ftruncate sys \<noteq> - 1 \<and> shm_mmap sys"

definition calls_served :: "start_calls \<Rightarrow> bool" where
  "calls_served sys \<longleftrightarrow> shm_served (cat_shm sys) \<and> files_served (cat_file sys) \<and> shm_served (db_shm sys) \<and>
     files_served (db_file sys) \<and> all_lock sys = 0"

definition category_area :: "start_calls \<Rightarrow> bytes \<Rightarrow> bytes \<Rightarrow> ipcshm_categories" where
  "category_area sys pfx dir = \<lparr>shm_category = map (new_category dir (get_category_shmnm pfx)) [0..<CATEGORY_CNT],
     category_shmid = shm_open (cat_shm sys)\<rparr>"

definition datafile_area :: "start_calls \<Rightarrow> bytes \<Rightarrow> bytes \<Rightarrow> ipcshm_datafiles" where
  "datafile_area sys pfx dir = \<lparr>shmnm = map (datafile_shmnm (get_datafile_shmnm pfx)) [0..<IPC_DATAFILE_MAX],
     df_path = map (datafile_path dir (get_datafile_shmnm pfx)) [0..<IPC_DATAFILE_MAX], shmid = shm_open (db_shm sys)\<rparr>"

abbreviation cpath :: "bytes \<Rightarrow> bytes \<Rightarrow> nat \<Rightarrow> bytes" where
  "cpath pfx dir n \<equiv> category_path (new_category dir (get_category_shmnm pfx) n)"

abbreviation dpath :: "bytes \<Rightarrow> bytes \<Rightarrow> nat \<Rightarrow> bytes" where
  "dpath pfx dir n \<equiv> datafile_path dir (get_datafile_shmnm pfx) n"

text \<open>The category file after formatting or rebuilding.\<close>

definition rebuilt :: "u32 \<Rightarrow> nat \<Rightarrow> mem \<Rightarrow> mem" where
  "rebuilt now n m = fold (rebuild_page now) [1..<PAGE_CNT] (init_sys n CATEGORY_SIZE m)"

lemma open_categories_ok:
  assumes "calls_served sys" "CATEGORIES st = Invalid_ptr"
  obtains cats where "open_categories sys now pfx dir (st, disk) =
      Some (0, st\<lparr>CATEGORIES := Mapped (category_area sys pfx dir), CATEGORIES_INDEX := cats\<rparr>,
        with_files (category_area sys pfx dir) [0..<CATEGORY_CNT] disk)" "length cats = CATEGORY_CNT"
    "\<And>n. n < CATEGORY_CNT \<Longrightarrow> cats ! n = \<lparr>cat_id = of_nat n, filesize = of_nat CATEGORY_SIZE, filefd = file_open (cat_file sys n),
      data_pointer = Some (rebuilt (ucast now) n (disk_content disk (cpath pfx dir n)))\<rparr>"
proof -
  let ?a = "category_area sys pfx dir"
  let ?cats = "map (opened_category (cat_file sys) ?a disk) [0..<CATEGORY_CNT]"
  have s: "0 \<le> shm_open (cat_shm sys)" "shm_ftruncate (cat_shm sys) \<noteq> - 1" "shm_mmap (cat_shm sys)"
    "files_served (cat_file sys)" "all_lock sys = 0" using assms(1) by (simp_all add: calls_served_def shm_served_def)
  have cr: "create_categories_area (cat_shm sys) (get_category_shmnm pfx) dir (CATEGORIES st) (CATEGORIES_INDEX st) =
    (RET_OK, Mapped ?a, map (\<lambda>n. \<lparr>cat_id = of_nat n, filesize = 0, filefd = INVALID_SOCKET, data_pointer = None\<rparr>) [0..<CATEGORY_CNT])"
    using s(1-3) assms(2) by (simp add: create_categories_area_def category_area_def)
  have ini: "init_categories_from_file (all_lock sys) False (cat_file sys) (Mapped ?a) (disk,
      map (\<lambda>n. \<lparr>cat_id = of_nat n, filesize = 0, filefd = INVALID_SOCKET, data_pointer = None\<rparr>) [0..<CATEGORY_CNT]) =
    Some (RET_OK, with_files ?a [0..<CATEGORY_CNT] disk, ?cats)"
    using s(5) by (simp only: init_categories_from_file_def shm_ptr.case isvalid_lock_OK if_True init_categories_ok [OF s(4)])
      (subst fold_updates, simp_all)
  have path: "category_path (shm_category ?a ! n) = cpath pfx dir n" if "n < CATEGORY_CNT" for n
    using that by (simp add: category_area_def)
  have at: "\<forall>n<CATEGORY_CNT. category_on_process.data_pointer (?cats ! n) = Some (disk_content disk (cpath pfx dir n)) \<and>
      filesize (?cats ! n) = of_nat CATEGORY_SIZE"
    by (simp add: opened_category_def path)
  obtain cats where c: "rebuild_categories (ucast now) ?cats = (RET_OK, cats)" "length cats = CATEGORY_CNT"
    "\<And>n. n < CATEGORY_CNT \<Longrightarrow> cats ! n = category_on_process.data_pointer_update (\<lambda>_.
      Some (fold (rebuild_page (ucast now)) [1..<PAGE_CNT] (init_sys n CATEGORY_SIZE (disk_content disk (cpath pfx dir n))))) (?cats ! n)"
    by (rule rebuild_categories_ok [OF _ at, of "ucast now"]) simp_all
  have "open_categories sys now pfx dir (st, disk) =
      Some (0, st\<lparr>CATEGORIES := Mapped ?a, CATEGORIES_INDEX := cats\<rparr>, with_files ?a [0..<CATEGORY_CNT] disk)"
    unfolding open_categories_def prod.case cr Let_def by (simp add: ini c(1) del: upt_Suc)
  moreover have "cats ! n = \<lparr>cat_id = of_nat n, filesize = of_nat CATEGORY_SIZE, filefd = file_open (cat_file sys n),
      data_pointer = Some (rebuilt (ucast now) n (disk_content disk (cpath pfx dir n)))\<rparr>" if "n < CATEGORY_CNT" for n
    unfolding c(3) [OF that] rebuilt_def using that by (simp add: opened_category_def)
  ultimately show ?thesis using that c(2) by blast
qed

lemma init_datafiles_cong:
  assumes "\<forall>n<IPC_DATAFILE_MAX. sizes n = sizes' n \<and> mapping n = mapping' n"
  shows "init_datafiles_from_file sizes fd mapping now name = init_datafiles_from_file sizes' fd mapping' now name"
  unfolding init_datafiles_from_file_def by (rule map_cong) (use assms in auto)

definition with_datafiles :: "bytes \<Rightarrow> bytes \<Rightarrow> disk \<Rightarrow> disk" where
  "with_datafiles pfx dir disk p = (if disk p = None \<and> p \<in> dpath pfx dir ` set [0..<IPC_DATAFILE_MAX]
     then Some \<lparr>file_size = IPC_DATAFILE_TTLSIZE, content = empty_file\<rparr> else disk p)"

lemma open_datafiles_ok:
  assumes "calls_served sys" "DATAFILES st = Invalid_ptr" "disk' = with_datafiles pfx dir disk"
  shows "open_datafiles sys now pfx dir (st, disk) =
    Some (0, st\<lparr>DATAFILES := Mapped (datafile_area sys pfx dir), DATAFILES_INDEX :=
      init_datafiles_from_file (\<lambda>n. map_option file_size (disk' (dpath pfx dir n))) (\<lambda>n. file_open (db_file sys n))
        (\<lambda>n. map_option content (disk' (dpath pfx dir n))) now (\<lambda>n. get_datafile_shmnm pfx @ of_string ''.'' @ decimal2 n)\<rparr>, disk')"
proof -
  have s: "0 \<le> shm_open (db_shm sys)" "shm_ftruncate (db_shm sys) \<noteq> - 1" "shm_mmap (db_shm sys)"
    "files_served (db_file sys)" using assms(1) by (simp_all add: calls_served_def shm_served_def)
  have cr: "create_db_area_parent (db_shm sys) (db_file sys) (get_datafile_shmnm pfx) dir (DATAFILES st) disk =
    (RET_OK, Mapped (datafile_area sys pfx dir), disk')"
    unfolding create_db_area_parent_def create_files_fold [OF s(4)] assms(3) using s(1-3) assms(2)
    by (simp add: datafile_area_def with_datafiles_def fun_eq_iff del: upt_Suc)
  have mm: "file_mmap (db_file sys n)" for n using s(4) by (simp add: files_served_def)
  have p: "df_path (datafile_area sys pfx dir) ! n = dpath pfx dir n" if "n < IPC_DATAFILE_MAX" for n
    using that by (simp add: datafile_area_def del: upt_Suc)
  have eq: "init_datafiles_from_file (\<lambda>n. map_option file_size (disk' (df_path (datafile_area sys pfx dir) ! n)))
      fd (\<lambda>n. map_option content (disk' (df_path (datafile_area sys pfx dir) ! n))) now name =
    init_datafiles_from_file (\<lambda>n. map_option file_size (disk' (dpath pfx dir n))) fd
      (\<lambda>n. map_option content (disk' (dpath pfx dir n))) now name" for fd name
    by (rule init_datafiles_cong) (simp add: p)
  show ?thesis
    unfolding open_datafiles_def prod.case cr Let_def init_db_area_def
    by (simp add: mm eq)
qed

lemma disk_content_cong: "disk' p = disk p \<Longrightarrow> disk_content disk' p = disk_content disk p"
  by (simp add: disk_content_def)

text \<open>All steps, once the root of the tree is made. Afterwards the files are there.\<close>

definition files_there :: "bytes \<Rightarrow> nat \<Rightarrow> disk \<Rightarrow> disk \<Rightarrow> bool" where
  "files_there pfx pid disk disk' \<longleftrightarrow> (\<forall>n<CATEGORY_CNT. disk' (cpath pfx (index_dir pid) n) \<noteq> None) \<and>
     (\<forall>n<IPC_DATAFILE_MAX. disk' (dpath pfx (data_dir pid) n) =
       Some (case disk (dpath pfx (data_dir pid) n) of
         None \<Rightarrow> \<lparr>file_size = IPC_DATAFILE_TTLSIZE, content = empty_file\<rparr> | Some f \<Rightarrow> f))"

lemma open_session_table_ok:
  assumes c: "calls_served sys" and i: "CATEGORIES st = Invalid_ptr" "DATAFILES st = Invalid_ptr"
    and p: "pid < 2 ^ 32" "pfx ! 0 = 0"
  obtains cats fs disk' where "length cats = CATEGORY_CNT"
    "\<And>n. n < CATEGORY_CNT \<Longrightarrow> cats ! n = \<lparr>cat_id = of_nat n, filesize = of_nat CATEGORY_SIZE, filefd = file_open (cat_file sys n),
      data_pointer = Some (rebuilt (ucast now) n (disk_content disk (cpath pfx (index_dir pid) n)))\<rparr>"
    "fs = init_datafiles_from_file (\<lambda>n. Some (case disk (dpath pfx (data_dir pid) n) of None \<Rightarrow> IPC_DATAFILE_TTLSIZE | Some f \<Rightarrow> file_size f))
      (\<lambda>n. file_open (db_file sys n)) (\<lambda>n. Some (disk_content disk (dpath pfx (data_dir pid) n))) now
      (\<lambda>n. get_datafile_shmnm pfx @ of_string ''.'' @ decimal2 n)"
    "\<And>inst. create_tree_unsafe 0 (ucast now) cats = Inr inst \<Longrightarrow>
      open_session_table sys now pfx pid (st, disk) = Some (0, \<lparr>CATEGORIES = Mapped (category_area sys pfx (index_dir pid)),
        DATAFILES = Mapped (datafile_area sys pfx (data_dir pid)), DATAFILES_INDEX = fs, CATEGORIES_INDEX = categories inst,
        ROOT = Some inst\<rparr>, disk')"
    "files_there pfx pid disk disk'"
    "disk' = with_datafiles pfx (data_dir pid) (with_files (category_area sys pfx (index_dir pid)) [0..<CATEGORY_CNT] disk)"
proof -
  note result = that
  let ?a = "category_area sys pfx (index_dir pid)" and ?d = "\<lambda>n. dpath pfx (data_dir pid) n"
  let ?disk1 = "with_files ?a [0..<CATEGORY_CNT] disk"
  let ?disk2 = "with_datafiles pfx (data_dir pid) ?disk1"
  let ?name = "\<lambda>n. get_datafile_shmnm pfx @ of_string ''.'' @ decimal2 n" and ?fd = "\<lambda>n. file_open (db_file sys n)"
  let ?fs = "init_datafiles_from_file (\<lambda>n. map_option file_size (?disk2 (?d n))) ?fd (\<lambda>n. map_option content (?disk2 (?d n))) now ?name"
  obtain cats where cats: "open_categories sys now pfx (index_dir pid) (st, disk) =
      Some (0, st\<lparr>CATEGORIES := Mapped ?a, CATEGORIES_INDEX := cats\<rparr>, ?disk1)" "length cats = CATEGORY_CNT"
    "\<And>n. n < CATEGORY_CNT \<Longrightarrow> cats ! n = \<lparr>cat_id = of_nat n, filesize = of_nat CATEGORY_SIZE, filefd = file_open (cat_file sys n),
      data_pointer = Some (rebuilt (ucast now) n (disk_content disk (cpath pfx (index_dir pid) n)))\<rparr>"
    by (rule open_categories_ok [OF c i(1), of now pfx "index_dir pid" disk]) (rule that; assumption)
  have at: "?disk2 (?d n) = Some (case disk (?d n) of None \<Rightarrow> \<lparr>file_size = IPC_DATAFILE_TTLSIZE, content = empty_file\<rparr> | Some f \<Rightarrow> f)"
    if n: "n < IPC_DATAFILE_MAX" for n
  proof -
    have ne: "?d n \<noteq> category_path (shm_category ?a ! k)" if "k \<in> set [0..<CATEGORY_CNT]" for k
    proof -
      have "k < CATEGORY_CNT" using that by (simp only: set_upt atLeastLessThan_iff)
      then show ?thesis using not_sym [OF paths_apart [OF p _ n, of k]] by (simp add: category_area_def del: upt_Suc)
    qed
    have out: "?d n \<notin> (\<lambda>k. category_path (shm_category ?a ! k)) ` set [0..<CATEGORY_CNT]"
    proof
      assume "?d n \<in> (\<lambda>k. category_path (shm_category ?a ! k)) ` set [0..<CATEGORY_CNT]"
      then show False by (rule imageE) (rule notE [OF ne]; assumption)
    qed
    have "?disk1 (?d n) = disk (?d n)" unfolding with_files_def using out by (simp only: simp_thms if_False)
    then show ?thesis using n by (auto simp: with_datafiles_def split: option.splits)
  qed
  have fs: "?fs = init_datafiles_from_file (\<lambda>n. Some (case disk (?d n) of None \<Rightarrow> IPC_DATAFILE_TTLSIZE | Some f \<Rightarrow> file_size f))
      ?fd (\<lambda>n. Some (disk_content disk (?d n))) now ?name"
    by (rule init_datafiles_cong) (simp add: at disk_content_def split: option.splits)
  have op: "open_session_table sys now pfx pid (st, disk) = Some (0, \<lparr>CATEGORIES = Mapped ?a,
        DATAFILES = Mapped (datafile_area sys pfx (data_dir pid)), DATAFILES_INDEX = ?fs, CATEGORIES_INDEX = categories inst,
        ROOT = Some inst\<rparr>, ?disk2)" if t: "create_tree_unsafe 0 (ucast now) cats = Inr inst" for inst
  proof -
    have l: "all_lock sys = 0" using c by (simp add: calls_served_def)
    note df = open_datafiles_ok [OF c _ refl, where st = "st\<lparr>CATEGORIES := Mapped ?a, CATEGORIES_INDEX := cats\<rparr>"
      and pfx = pfx and dir = "data_dir pid" and disk = ?disk1 and now = now]
    show ?thesis unfolding open_session_table_def cats(1) using i(2) df t l by simp
  qed
  have "?disk2 (cpath pfx (index_dir pid) n) \<noteq> None" if "n < CATEGORY_CNT" for n
  proof -
    have "cpath pfx (index_dir pid) n \<in> (\<lambda>k. category_path (shm_category ?a ! k)) ` set [0..<CATEGORY_CNT]"
      using that by (intro image_eqI [of _ _ n]) (simp_all add: category_area_def)
    then have "?disk1 (cpath pfx (index_dir pid) n) \<noteq> None" unfolding with_files_def by simp
    then show ?thesis by (simp add: with_datafiles_def)
  qed
  then have "files_there pfx pid disk ?disk2" using at by (simp add: files_there_def)
  from result [OF cats(2,3) fs op this refl] show ?thesis .
qed

lemma create_trees_cat_id:
  "create_trees now ns inst = Inr inst' \<Longrightarrow> set ns \<subseteq> {..<length (categories inst)} \<Longrightarrow>
    map cat_id (categories inst') = map cat_id (categories inst)"
proof (induction ns arbitrary: inst)
  case (Cons n ns)
  then obtain m a m' where m: "category_on_process.data_pointer (categories inst ! n) = Some m"
    "create_tree_itm now (cat_id (categories inst ! n)) m = Some (a, m')"
    by (auto simp: Let_def split: option.splits)
  have "map cat_id (categories inst') = map cat_id ((categories inst)[n := category_on_process.data_pointer_update (\<lambda>_. Some m') (categories inst ! n)])"
    using Cons.IH Cons.prems m by (auto simp: Let_def)
  also have "\<dots> = map cat_id (categories inst)"
    using Cons.prems(2) by (simp add: map_update list_update_same_conv)
  finally show ?case .
qed simp

lemma create_tree_cat_id:
  assumes "create_tree_unsafe 0 now cats = Inr inst" "length cats = CATEGORY_CNT" "n < CATEGORY_CNT"
  shows "cat_id (categories inst ! n) = cat_id (cats ! n)"
proof -
  have e: "map cat_id (categories inst) = map cat_id cats"
    using create_trees_cat_id [OF assms(1) [unfolded create_tree_unsafe_def Let_def isvalid_lock_OK if_P [OF refl]]] assms(2)
    by (simp add: atLeast0LessThan del: upt_Suc)
  then have "length (categories inst) = length cats" by (metis length_map)
  then show ?thesis using arg_cong [OF e, of "\<lambda>xs. xs ! n"] assms(2,3) by simp
qed

lemma create_tree_new_files:
  assumes c: "calls_served sys" and p: "pid < 2 ^ 32" "pfx ! 0 = 0"
    and n: "\<forall>n<CATEGORY_CNT. disk (cpath pfx (index_dir pid) n) = None" "\<forall>n<IPC_DATAFILE_MAX. disk (dpath pfx (data_dir pid) n) = None"
  obtains f inst fs st disk' where "open_session_table sys now pfx pid (no_session_table, disk) = Some (0, st, disk')"
    "ROOT st = Some inst" "DATAFILES_INDEX st = fs" "CATEGORIES_INDEX st = categories inst"
    "CATEGORIES st = Mapped (category_area sys pfx (index_dir pid))" "DATAFILES st = Mapped (datafile_area sys pfx (data_dir pid))"
    "db_ok f inst fs (\<lambda>_. Map.empty)" "room_for 100000 f inst" "db_room 129999 fs" "roots_unique f inst"
    "files_there pfx pid disk disk'" "\<forall>n<CATEGORY_CNT. cat_id (categories inst ! n) = of_nat n"
    "disk' = with_datafiles pfx (data_dir pid) (with_files (category_area sys pfx (index_dir pid)) [0..<CATEGORY_CNT] disk)"
proof -
  note result = that
  have i: "CATEGORIES no_session_table = Invalid_ptr" "DATAFILES no_session_table = Invalid_ptr"
    by (simp_all add: no_session_table_def)
  have e: "disk_content disk (cpath pfx (index_dir pid) k) = empty_file" if "k < CATEGORY_CNT" for k
    using n(1) that by (simp add: disk_content_def)
  have s: "0 < file_open (cat_file sys k)" "0 < file_open (db_file sys k)" for k
    using c by (simp_all add: calls_served_def files_served_def)
  have s': "file_open (cat_file sys k) \<noteq> INVALID_SOCKET" for k using s(1) [of k] by linarith
  obtain cats fs disk' where o: "length cats = CATEGORY_CNT"
    "\<And>n. n < CATEGORY_CNT \<Longrightarrow> cats ! n = \<lparr>cat_id = of_nat n, filesize = of_nat CATEGORY_SIZE, filefd = file_open (cat_file sys n),
      data_pointer = Some (rebuilt (ucast now) n (disk_content disk (cpath pfx (index_dir pid) n)))\<rparr>"
    "fs = init_datafiles_from_file (\<lambda>n. Some (case disk (dpath pfx (data_dir pid) n) of None \<Rightarrow> IPC_DATAFILE_TTLSIZE | Some f \<Rightarrow> file_size f))
      (\<lambda>n. file_open (db_file sys n)) (\<lambda>n. Some (disk_content disk (dpath pfx (data_dir pid) n))) now
      (\<lambda>n. get_datafile_shmnm pfx @ of_string ''.'' @ decimal2 n)"
    "\<And>inst. create_tree_unsafe 0 (ucast now) cats = Inr inst \<Longrightarrow>
      open_session_table sys now pfx pid (no_session_table, disk) = Some (0, \<lparr>CATEGORIES = Mapped (category_area sys pfx (index_dir pid)),
        DATAFILES = Mapped (datafile_area sys pfx (data_dir pid)), DATAFILES_INDEX = fs, CATEGORIES_INDEX = categories inst,
        ROOT = Some inst\<rparr>, disk')"
    "files_there pfx pid disk disk'"
    "disk' = with_datafiles pfx (data_dir pid) (with_files (category_area sys pfx (index_dir pid)) [0..<CATEGORY_CNT] disk)"
    by (rule open_session_table_ok [OF c i p, of now disk]) (rule that; assumption)
  have f: "\<forall>j<CATEGORY_CNT. category_on_process.filefd (cats ! j) \<noteq> INVALID_SOCKET \<and>
      category_on_process.data_pointer (cats ! j) = Some (formatted j (ucast now))"
    using o(2) e s' by (simp add: rebuilt_def formatted_def)
  obtain f inst where t: "create_tree_unsafe 0 (ucast now) cats = Inr inst" "index_ok f inst" "index_keys f = {}"
    "room_for 100000 f inst" "roots_unique f inst"
    by (rule create_tree_on_formatted [OF o(1) f, of "ucast now"]) (rule that; assumption)
  have "\<forall>n<IPC_DATAFILE_MAX. Some (case disk (dpath pfx (data_dir pid) n) of None \<Rightarrow> IPC_DATAFILE_TTLSIZE | Some f \<Rightarrow> file_size f) =
      Some IPC_DATAFILE_TTLSIZE \<and> 0 < file_open (db_file sys n) \<and>
      (\<exists>m. Some (disk_content disk (dpath pfx (data_dir pid) n)) = Some m \<and> ld32 m 56 \<noteq> DATAITEM_SIGNATURE_ID)"
    using n(2) s(2) by (simp add: disk_content_def ld32_empty)
  note new = new_files [OF this, of now "\<lambda>n. get_datafile_shmnm pfx @ of_string ''.'' @ decimal2 n", folded o(3)]
  show ?thesis
    by (rule result [OF o(4) [OF t(1)] _ _ _ _ _ new_database(1) [OF t(2,3) new(1)] t(4) new(2) t(5) o(5)])
       (use o(2,6) create_tree_cat_id [OF t(1) o(1)] in simp_all)
qed

text \<open>On a disk without the files: they are all there afterwards, with their sizes, and no other one is touched.\<close>

definition new_files_made :: "bytes \<Rightarrow> nat \<Rightarrow> disk \<Rightarrow> disk \<Rightarrow> bool" where
  "new_files_made pfx pid disk disk' \<longleftrightarrow>
     (\<forall>n<CATEGORY_CNT. disk' (cpath pfx (index_dir pid) n) = Some \<lparr>file_size = category_size n, content = empty_file\<rparr>) \<and>
     (\<forall>n<IPC_DATAFILE_MAX. disk' (dpath pfx (data_dir pid) n) = Some \<lparr>file_size = IPC_DATAFILE_TTLSIZE, content = empty_file\<rparr>) \<and>
     (\<forall>p. (\<forall>n<CATEGORY_CNT. p \<noteq> cpath pfx (index_dir pid) n) \<and> (\<forall>n<IPC_DATAFILE_MAX. p \<noteq> dpath pfx (data_dir pid) n) \<longrightarrow>
       disk' p = disk p)"

lemma with_files_new:
  assumes n: "\<forall>n<CATEGORY_CNT. disk (cpath pfx (index_dir pid) n) = None" "\<forall>n<IPC_DATAFILE_MAX. disk (dpath pfx (data_dir pid) n) = None"
    and p: "pid < 2 ^ 32" "pfx ! 0 = 0"
  shows "new_files_made pfx pid disk
    (with_datafiles pfx (data_dir pid) (with_files (category_area sys pfx (index_dir pid)) [0..<CATEGORY_CNT] disk))"
    (is "new_files_made _ _ _ ?disk2")
proof -
  let ?a = "category_area sys pfx (index_dir pid)"
  let ?disk1 = "with_files ?a [0..<CATEGORY_CNT] disk"
  have path: "category_path (shm_category ?a ! k) = cpath pfx (index_dir pid) k" if "k < CATEGORY_CNT" for k
    using that by (simp add: category_area_def)
  have img: "q \<in> (\<lambda>k. category_path (shm_category ?a ! k)) ` set [0..<CATEGORY_CNT] \<longleftrightarrow> (\<exists>k<CATEGORY_CNT. q = cpath pfx (index_dir pid) k)" for q
    using path by (auto simp: image_iff)
  have img': "q \<in> dpath pfx (data_dir pid) ` set [0..<IPC_DATAFILE_MAX] \<longleftrightarrow> (\<exists>k<IPC_DATAFILE_MAX. q = dpath pfx (data_dir pid) k)" for q
    by (auto simp: image_iff)
  have d1: "?disk1 q = (if disk q = None \<and> (\<exists>k<CATEGORY_CNT. q = cpath pfx (index_dir pid) k)
      then Some \<lparr>file_size = CATEGORY_SIZE, content = empty_file\<rparr> else disk q)" for q
    unfolding with_files_def img by (rule refl)
  have d2: "?disk2 q = (if ?disk1 q = None \<and> (\<exists>k<IPC_DATAFILE_MAX. q = dpath pfx (data_dir pid) k)
      then Some \<lparr>file_size = IPC_DATAFILE_TTLSIZE, content = empty_file\<rparr> else ?disk1 q)" for q
    unfolding with_datafiles_def img' by (rule refl)
  have "?disk2 (cpath pfx (index_dir pid) k) = Some \<lparr>file_size = category_size k, content = empty_file\<rparr>" if k: "k < CATEGORY_CNT" for k
  proof -
    have "\<exists>j<CATEGORY_CNT. cpath pfx (index_dir pid) k = cpath pfx (index_dir pid) j" using k by blast
    then have "?disk1 (cpath pfx (index_dir pid) k) = Some \<lparr>file_size = CATEGORY_SIZE, content = empty_file\<rparr>"
      unfolding d1 using n(1) k by simp
    then show ?thesis unfolding d2 by (simp add: category_size_def)
  qed
  moreover have "?disk2 (dpath pfx (data_dir pid) k) = Some \<lparr>file_size = IPC_DATAFILE_TTLSIZE, content = empty_file\<rparr>" if k: "k < IPC_DATAFILE_MAX" for k
  proof -
    have "\<not> (\<exists>j<CATEGORY_CNT. dpath pfx (data_dir pid) k = cpath pfx (index_dir pid) j)"
      using paths_apart [OF p _ k] by metis
    then have "?disk1 (dpath pfx (data_dir pid) k) = None" unfolding d1 using n(2) k by simp
    moreover have "\<exists>j<IPC_DATAFILE_MAX. dpath pfx (data_dir pid) k = dpath pfx (data_dir pid) j" using k by blast
    ultimately show ?thesis unfolding d2 by simp
  qed
  moreover have "?disk2 q = disk q" if "\<forall>k<CATEGORY_CNT. q \<noteq> cpath pfx (index_dir pid) k" "\<forall>k<IPC_DATAFILE_MAX. q \<noteq> dpath pfx (data_dir pid) k" for q
  proof -
    have "\<not> (\<exists>k<CATEGORY_CNT. q = cpath pfx (index_dir pid) k)" "\<not> (\<exists>k<IPC_DATAFILE_MAX. q = dpath pfx (data_dir pid) k)"
      using that by blast+
    then show ?thesis unfolding d2 d1 by (simp only: simp_thms if_False)
  qed
  ultimately show ?thesis unfolding new_files_made_def by blast
qed

section \<open>Detaching\<close>

lemma write_back_other:
  "p \<notin> path ` set ns \<Longrightarrow>
    fold (\<lambda>(n, m) disk. disk(path n := map_option (content_update (\<lambda>_. m)) (disk (path n)))) (map (\<lambda>n. (n, g n)) ns) disk p = disk p"
  by (induction ns arbitrary: disk) auto

lemma write_back_at:
  fixes disk :: disk
  assumes "n \<in> set ns" "distinct ns" "inj_on path (set ns)"
  shows "fold (\<lambda>(n, m) disk. disk(path n := map_option (content_update (\<lambda>_. m)) (disk (path n)))) (map (\<lambda>n. (n, g n)) ns) disk (path n) =
    map_option (content_update (\<lambda>_. g n)) (disk (path n))"
  using assms
proof (induction ns arbitrary: disk)
  case (Cons k ns)
  let ?disk = "disk(path k := map_option (content_update (\<lambda>_. g k)) (disk (path k)))"
  have inj: "inj_on path (set ns)" using Cons.prems(3) by simp
  show ?case
  proof (cases "n = k")
    case True
    then have "path n \<notin> path ` set ns" using Cons.prems(2,3) by (auto simp: inj_on_def)
    from write_back_other [OF this, of g ?disk] show ?thesis using True by (simp add: fun_upd_same del: fun_upd_apply)
  next
    case False
    then have n: "n \<in> set ns" using Cons.prems(1) by simp
    have "path n \<noteq> path k" using Cons.prems(3) n False by (auto simp: inj_on_def)
    then have "?disk (path n) = disk (path n)" by simp
    then show ?thesis using Cons.IH [OF n _ inj, of ?disk] Cons.prems(2) by (simp del: fun_upd_apply)
  qed
qed simp

lemma detach_ok:
  fixes disk :: disk
  assumes p: "pid < 2 ^ 32" "pfx ! 0 = 0"
    and st: "CATEGORIES st = Mapped (category_area sys pfx (index_dir pid))" "DATAFILES st = Mapped (datafile_area sys pfx (data_dir pid))"
    and l: "length (CATEGORIES_INDEX st) = CATEGORY_CNT" "length (DATAFILES_INDEX st) = IPC_DATAFILE_MAX"
    and m: "\<forall>n<CATEGORY_CNT. category_on_process.data_pointer (CATEGORIES_INDEX st ! n) = Some (cm n)"
      "\<forall>n<IPC_DATAFILE_MAX. datafile.data_pointer (DATAFILES_INDEX st ! n) = Some (dm n)"
  obtains st' disk' where "detach_session_table (st, disk) = (0, st', disk')" "CATEGORIES st' = Invalid_ptr" "DATAFILES st' = Invalid_ptr"
    "\<And>n. n < CATEGORY_CNT \<Longrightarrow> disk' (cpath pfx (index_dir pid) n) = map_option (content_update (\<lambda>_. cm n)) (disk (cpath pfx (index_dir pid) n))"
    "\<And>n. n < IPC_DATAFILE_MAX \<Longrightarrow> disk' (dpath pfx (data_dir pid) n) = map_option (content_update (\<lambda>_. dm n)) (disk (dpath pfx (data_dir pid) n))"
proof -
  let ?a = "category_area sys pfx (index_dir pid)" and ?b = "datafile_area sys pfx (data_dir pid)"
  let ?c = "\<lambda>n. category_path (shm_category ?a ! n)" and ?d = "\<lambda>n. df_path ?b ! n"
  have len: "length (index_dir pid) + length (get_category_shmnm pfx) \<le> 120"
    "length (data_dir pid) + length (get_datafile_shmnm pfx) \<le> 120"
    using dirs(3,4) [OF p(1)] by (simp_all add: names [OF p(2)])
  have cp: "?c n = cpath pfx (index_dir pid) n" if "n < CATEGORY_CNT" for n using that by (simp add: category_area_def)
  have dp: "?d n = dpath pfx (data_dir pid) n" if "n < IPC_DATAFILE_MAX" for n
    using that by (simp add: datafile_area_def del: upt_Suc)
  have inj: "inj_on ?c (set [0..<CATEGORY_CNT])" "inj_on ?d (set [0..<IPC_DATAFILE_MAX])"
  proof (rule inj_onI)
    fix n k
    assume a: "n \<in> set [0..<CATEGORY_CNT]" "k \<in> set [0..<CATEGORY_CNT]" "?c n = ?c k"
    then have b: "n < CATEGORY_CNT" "k < CATEGORY_CNT" by (simp_all only: set_upt atLeastLessThan_iff)
    show "n = k" using category_paths_differ [OF len(1) b] a(3) by (simp only: cp [OF b(1)] cp [OF b(2)])
  next
    show "inj_on ?d (set [0..<IPC_DATAFILE_MAX])"
    proof (rule inj_onI)
      fix n k
      assume a: "n \<in> set [0..<IPC_DATAFILE_MAX]" "k \<in> set [0..<IPC_DATAFILE_MAX]" "?d n = ?d k"
      then have b: "n < IPC_DATAFILE_MAX" "k < IPC_DATAFILE_MAX" by (simp_all only: set_upt atLeastLessThan_iff)
      show "n = k" using datafile_paths_differ [OF len(2) b] a(3) by (simp only: dp [OF b(1)] dp [OF b(2)])
    qed
  qed
  let ?disk1 = "write_back_datafiles ?b (map (\<lambda>n. (n, dm n)) [0..<IPC_DATAFILE_MAX]) disk"
  let ?disk2 = "write_back ?a (map (\<lambda>n. (n, cm n)) [0..<CATEGORY_CNT]) ?disk1"
  have u: "List.map_filter (\<lambda>(n, c). map_option (Pair n) (category_on_process.data_pointer c)) (enumerate 0 (CATEGORIES_INDEX st)) =
      map (\<lambda>n. (n, cm n)) [0..<CATEGORY_CNT]"
    "List.map_filter (\<lambda>(n, f). map_option (Pair n) (datafile.data_pointer f)) (enumerate 0 (DATAFILES_INDEX st)) =
      map (\<lambda>n. (n, dm n)) [0..<IPC_DATAFILE_MAX]"
    using map_filter_all [of "CATEGORIES_INDEX st" category_on_process.data_pointer cm]
      map_filter_all [of "DATAFILES_INDEX st" datafile.data_pointer dm] l m by (simp_all del: upt_Suc)
  obtain st' where st': "detach_session_table (st, disk) = (0, st', ?disk2)" "CATEGORIES st' = Invalid_ptr" "DATAFILES st' = Invalid_ptr"
    unfolding detach_session_table_def prod.case remove_db_area_parent_def remove_categories_area_def detach_categories_def st u
    by (simp add: Let_def del: upt_Suc)
  have other: "?d n \<notin> ?c ` set [0..<CATEGORY_CNT]" if n: "n < IPC_DATAFILE_MAX" for n
  proof
    assume "?d n \<in> ?c ` set [0..<CATEGORY_CNT]"
    then obtain k where "?d n = ?c k" "k \<in> set [0..<CATEGORY_CNT]" by (rule imageE)
    then show False using paths_apart [OF p _ n, of k] cp [of k] dp [OF n] by (simp del: upt_Suc)
  qed
  have other': "?c n \<notin> ?d ` set [0..<IPC_DATAFILE_MAX]" if n: "n < CATEGORY_CNT" for n
  proof
    assume "?c n \<in> ?d ` set [0..<IPC_DATAFILE_MAX]"
    then obtain k where "?c n = ?d k" "k \<in> set [0..<IPC_DATAFILE_MAX]" by (rule imageE)
    then show False using paths_apart [OF p n, of k] cp [OF n] dp [of k] by (simp del: upt_Suc)
  qed
  have "?disk2 (?c n) = map_option (content_update (\<lambda>_. cm n)) (disk (?c n))" if n: "n < CATEGORY_CNT" for n
  proof -
    have "?disk2 (?c n) = map_option (content_update (\<lambda>_. cm n)) (?disk1 (?c n))"
      unfolding write_back_def Let_def by (rule write_back_at [OF _ _ inj(1)]) (use n in \<open>simp_all del: upt_Suc\<close>)
    also have "?disk1 (?c n) = disk (?c n)"
      unfolding write_back_datafiles_def by (rule write_back_other [OF other' [OF n]])
    finally show ?thesis .
  qed
  moreover have "?disk2 (?d n) = map_option (content_update (\<lambda>_. dm n)) (disk (?d n))" if n: "n < IPC_DATAFILE_MAX" for n
  proof -
    have "?disk2 (?d n) = ?disk1 (?d n)"
      unfolding write_back_def Let_def by (rule write_back_other [OF other [OF n]])
    also have "\<dots> = map_option (content_update (\<lambda>_. dm n)) (disk (?d n))"
      unfolding write_back_datafiles_def by (rule write_back_at [OF _ _ inj(2)]) (use n in \<open>simp_all del: upt_Suc\<close>)
    finally show ?thesis .
  qed
  ultimately show ?thesis using that [OF st'] cp dp by simp
qed

section \<open>The index after a restart\<close>

lemma live_all_blocks: "\<forall>p\<in>{1..<PAGE_CNT}. \<not> is_bit m SYSPAGE_ERR p \<Longrightarrow> live cid m = all_blocks cid m"
  unfolding live_def all_blocks_def by auto

lemma rebuilt_frame:
  assumes "cat_ok cid m" "\<forall>p\<in>{1..<PAGE_CNT}. \<not> is_bit m SYSPAGE_ERR p"
  shows "frame cid {} {} m (rebuilt now n m)" "live cid (rebuilt now n m) = live cid m"
    "\<forall>p\<in>{1..<PAGE_CNT}. \<not> is_bit (rebuilt now n m) SYSPAGE_ERR p"
proof -
  have o: "cat_openable cid m" using assms unfolding cat_openable_def cat_ok_def by blast
  let ?l = "replicate (Suc n) (CATEGORY_SIZE, m)"
  have "keeps_blocks cid m (rebuild_pages_area now ?l ! n)"
    by (rule rebuild_keeps [OF _ _ o]) (simp_all add: nth_replicate del: replicate_Suc)
  then have k: "keeps_blocks cid m (rebuilt now n m)"
    unfolding rebuilt_def
    by (subst (asm) rebuild_pages_area_nth [where fsize = CATEGORY_SIZE and m = m]) (simp_all add: nth_replicate del: replicate_Suc)
  note e = live_all_blocks [OF assms(2), of cid]
  show l: "live cid (rebuilt now n m) = live cid m" and "\<forall>p\<in>{1..<PAGE_CNT}. \<not> is_bit (rebuilt now n m) SYSPAGE_ERR p"
    using k unfolding keeps_blocks_def e by blast+
  show "frame cid {} {} m (rebuilt now n m)"
    using k unfolding keeps_blocks_def frame_def e [symmetric] by blast
qed

lemma tree_ok_frame:
  assumes t: "tree_ok n cid ib t s" and f: "frame cid {} {} (mem s) (mem s')" and s': "category s' = cid" "root_itm s' = root_itm s"
  shows "tree_ok n cid ib t s'"
proof -
  have p: "category s = cid" "itm_blk cid s ib" "rep cid (mem s) t" "dis t" "ib \<notin># locs t" "rooti s = root_of cid t"
    using t by (simp_all add: tree_ok_def tree_in_def tree_pre_def)
  have "itm_blk cid s' ib" by (rule itm_frame(1) [OF f p(2) _ s'(2)]) simp
  moreover have "rooti s' = rooti s" by (rule itm_frame(2) [OF f p(2) _ s'(2)]) simp_all
  moreover have "rep cid (mem s') t" by (rule rep_frame [OF f p(3)]) simp_all
  moreover have "ld32 (mem s') (root_itm s') = ld32 (mem s) (root_itm s)"
    by (rule sig_kept [where W = "{}", OF p(2) _ frame_mono [OF f] s'(2)]) simp_all
  ultimately show ?thesis using t p s' f by (simp add: tree_ok_def tree_in_def tree_pre_def frame_def)
qed

lemma restart_index:
  assumes i: "index_ok f inst" "roots_unique f inst"
    and l: "length cats = CATEGORY_CNT"
    and c: "\<And>n. n < CATEGORY_CNT \<Longrightarrow> cat_id (cats ! n) = cat_id (categories inst ! n) \<and>
      category_on_process.filefd (cats ! n) \<noteq> INVALID_SOCKET \<and>
      category_on_process.data_pointer (cats ! n) = Some (rebuilt now n (mem (tree_of inst n)))"
  obtains inst' where "create_tree_unsafe 0 now' cats = Inr inst'" "index_ok f inst'"
proof -
  let ?inst = "inst\<lparr>categories := cats\<rparr>"
  have t: "tree_ok n (cat_id (categories inst ! n)) (fst (f n)) (snd (f n)) (tree_of inst n)" if "n < CATEGORY_CNT" for n
    using i(1) that by (simp add: index_ok_def)
  have u: "\<forall>p\<in>{1..<PAGE_CNT}. \<not> is_bit (mem (tree_of inst n)) SYSPAGE_ERR p"
    "user_len (mem (tree_of inst n)) (fst (f n)) = SIZEOF_TREE_ITM"
    "\<forall>b\<in>live (cat_id (categories inst ! n)) (mem (tree_of inst n)). user_len (mem (tree_of inst n)) b = SIZEOF_TREE_ITM \<and>
      ld32 (mem (tree_of inst n)) (user_addr b) = SMMR_TREEROOT_ID \<longrightarrow> b = fst (f n)" if "n < CATEGORY_CNT" for n
    using i(2) [unfolded roots_unique_def Let_def, THEN spec, THEN mp, OF that] by blast+
  have ok: "cat_ok (cat_id (categories inst ! n)) (mem (tree_of inst n))" "fst (f n) \<in> live (cat_id (categories inst ! n)) (mem (tree_of inst n))"
    if "n < CATEGORY_CNT" for n
    using t [OF that] by (simp_all add: tree_ok_def tree_in_def tree_pre_def itm_blk_def)
  note r = rebuilt_frame [where now = now, OF ok(1) u(1)]
  have mm: "mem (tree_of ?inst n) = rebuilt now n (mem (tree_of inst n))" if "n < CATEGORY_CNT" for n
    using c [OF that] by simp
  have "index_ok f ?inst"
  proof -
    have "tree_ok n (cat_id (cats ! n)) (fst (f n)) (snd (f n)) (tree_of ?inst n)" if n: "n < CATEGORY_CNT" for n
      using tree_ok_frame [OF t [OF n], of "tree_of ?inst n"] r(1) [OF n n, of n] c [OF n] by simp
    moreover have "categories_attached cats" using l c by (auto simp: categories_attached_def in_set_conv_nth)
    ultimately show ?thesis using i(1) by (simp add: index_ok_def)
  qed
  moreover have "roots_unique f ?inst"
  proof -
    have "(\<forall>p\<in>{1..<PAGE_CNT}. \<not> is_bit (rebuilt now n m) SYSPAGE_ERR p) \<and> user_len (rebuilt now n m) (fst (f n)) = SIZEOF_TREE_ITM \<and>
        (\<forall>b\<in>live cid (rebuilt now n m). user_len (rebuilt now n m) b = SIZEOF_TREE_ITM \<and>
          ld32 (rebuilt now n m) (user_addr b) = SMMR_TREEROOT_ID \<longrightarrow> b = fst (f n))"
      if n: "n < CATEGORY_CNT" and cid: "cid = cat_id (categories inst ! n)" and m: "m = mem (tree_of inst n)" for n cid m
    proof (intro conjI ballI impI)
      have fr: "block (rebuilt now n m) b = block m b" "\<forall>i\<in>block m b. rebuilt now n m i = m i" if "b \<in> live cid m" for b
        using r(1) [OF n n, of n] that unfolding frame_def cid m by simp_all
      show "\<not> is_bit (rebuilt now n m) SYSPAGE_ERR p" if "p \<in> {1..<PAGE_CNT}" for p
        using r(3) [OF n n, of n] that unfolding m by blast
      show "user_len (rebuilt now n m) (fst (f n)) = SIZEOF_TREE_ITM"
        using user_len_block [OF fr(1), of "fst (f n)"] ok(2) [OF n] u(2) [OF n] unfolding cid m by simp
      fix b
      assume b: "b \<in> live cid (rebuilt now n m)" "user_len (rebuilt now n m) b = SIZEOF_TREE_ITM \<and>
        ld32 (rebuilt now n m) (user_addr b) = SMMR_TREEROOT_ID"
      have bl: "b \<in> live cid m" using b(1) r(2) [OF n n, of n] unfolding cid m by simp
      have len: "user_len m b = SIZEOF_TREE_ITM" using user_len_block [OF fr(1) [OF bl, symmetric]] b(2) by simp
      have "ld32 (rebuilt now n m) (user_addr b) = ld32 m (user_addr b)"
        by (rule ld32_cong) (use fr(2) [OF bl] len in \<open>simp add: block_def\<close>)
      then show "b = fst (f n)" using u(3) [OF n] bl len b(2) unfolding cid m by simp
    qed
    then show ?thesis unfolding roots_unique_def Let_def using mm c by simp
  qed
  ultimately obtain inst' where "create_tree_unsafe 0 now' (categories ?inst) = Inr inst'" "index_ok f inst'"
    using create_tree_again [of f ?inst now'] by metis
  then show ?thesis using that by simp
qed

section \<open>Properties\<close>

text \<open>C40. The start of the daemon's session table. From a disk without the files of this process, when the
  system calls succeed, \<open>initialize_bfd_session_table\<close> returns 0. Then the four category files and the
  128 data files are on the disk with their sizes, and no other file has changed; all of them are open
  and mapped, the categories formatted and the data files initialised, and the database in them is
  consistent and holds exactly the empty table: the summary of no sessions and 32 empty key lists. So
  the daemon reads back the empty summary and the empty lists, finds no session for any peer, and has
  nothing to iterate over.\<close>

theorem session_table_starts:
  assumes "calls_served sys" "pid < 2 ^ 32" "pfx ! 0 = 0"
    and "\<forall>n<CATEGORY_CNT. disk (cpath pfx (index_dir pid) n) = None" "\<forall>n<IPC_DATAFILE_MAX. disk (dpath pfx (data_dir pid) n) = None"
    and "c_addrlen \<noteq> 0" "safe_hash (encode_sess_key (sess_key c_addr)) \<noteq> 0"
  shows "\<exists>st disk' s' f F. start_bfd_session_table sys now pfx pid (no_session_table, disk) = Some (0, st, disk') \<and>
    new_files_made pfx pid disk disk' \<and>
    CATEGORIES st = Mapped (category_area sys pfx (index_dir pid)) \<and> DATAFILES st = Mapped (datafile_area sys pfx (data_dir pid)) \<and>
    ROOT st = Some (fst s') \<and> CATEGORIES_INDEX st = categories (fst s') \<and> DATAFILES_INDEX st = snd s' \<and>
    index_ok f (fst s') \<and> files_ok (snd s') F \<and> db_holds 0 s' empty_table \<and>
    (\<exists>s1. get_sess_manage (db_ops t) s' = Some (Some zero_manage, s1)) \<and>
    (\<forall>n<SESSION_KEYS_MAX. \<exists>s1. get_sess_manage_keylist (db_ops t) (SESSION_KEYS_BASE + of_nat n) s' = Some (Some zero_keylist, s1)) \<and>
    (\<exists>s1. find_session (db_ops t) c_addr c_addrlen s' = Some (None, s1)) \<and>
    (\<exists>s1. iterate_all_session (db_ops t) itr s' w = Some (s1, w))"
proof (rule create_tree_new_files [OF assms(1-5), of now])
  fix f inst fs st disk'
  assume o: "open_session_table sys now pfx pid (no_session_table, disk) = Some (0, st, disk')"
    "ROOT st = Some inst" "DATAFILES_INDEX st = fs" "CATEGORIES st = Mapped (category_area sys pfx (index_dir pid))"
    "DATAFILES st = Mapped (datafile_area sys pfx (data_dir pid))"
    and d: "db_ok f inst fs (\<lambda>_. Map.empty)" "room_for 100000 f inst" "db_room 129999 fs"
    and disk': "disk' = with_datafiles pfx (data_dir pid) (with_files (category_area sys pfx (index_dir pid)) [0..<CATEGORY_CNT] disk)"
  have "db_holds 290 (inst, fs) Map.empty"
    unfolding db_holds_def using d(1) room_for_mono [OF d(2)] db_room_mono [OF d(3)]
    by (intro exI [of _ f] exI [of _ "\<lambda>_. Map.empty"]) (simp add: stored_def db_map_def)
  from empty_table_reads [OF this assms(6,7), of now t itr w] obtain s' where
    s': "initialize_bfd_session_table (db_ops now) (inst, fs) = Some (0, s')" "db_holds 0 s' empty_table"
    "\<exists>s1. get_sess_manage (db_ops t) s' = Some (Some zero_manage, s1)"
    "\<forall>n<SESSION_KEYS_MAX. \<exists>s1. get_sess_manage_keylist (db_ops t) (SESSION_KEYS_BASE + of_nat n) s' = Some (Some zero_keylist, s1)"
    "\<exists>s1. find_session (db_ops t) c_addr c_addrlen s' = Some (None, s1)"
    "\<exists>s1. iterate_all_session (db_ops t) itr s' w = Some (s1, w)" by blast
  let ?st = "st\<lparr>ROOT := Some (fst s'), CATEGORIES_INDEX := categories (fst s'), DATAFILES_INDEX := snd s'\<rparr>"
  have st: "start_bfd_session_table sys now pfx pid (no_session_table, disk) = Some (0, ?st, disk')"
    unfolding start_bfd_session_table_def o(1) using s'(1) o(2,3) by (cases s') simp
  have sel: "ROOT ?st = Some (fst s')" "DATAFILES_INDEX ?st = snd s'" "CATEGORIES_INDEX ?st = categories (fst s')"
    "CATEGORIES ?st = Mapped (category_area sys pfx (index_dir pid))" "DATAFILES ?st = Mapped (datafile_area sys pfx (data_dir pid))"
    using o(4,5) by simp_all
  obtain g F where "index_ok g (fst s')" "files_ok (snd s') F" using s'(2) by (auto simp: db_holds_def db_ok_def)
  then show ?thesis
    using st s'(2-6) sel with_files_new [OF assms(4,5,2,3), of sys, folded disk'] by blast
qed

text \<open>Calls that succeed, and an empty disk.\<close>

definition good_calls :: start_calls where
  "good_calls = \<lparr>cat_shm = \<lparr>shm_open = 3, shm_ftruncate = 0, shm_mmap = True\<rparr>,
     cat_file = (\<lambda>_. \<lparr>create_open = 4, create_seek = 0, create_write = 1, file_open = 5, file_mmap = True\<rparr>),
     db_shm = \<lparr>shm_open = 3, shm_ftruncate = 0, shm_mmap = True\<rparr>,
     db_file = (\<lambda>_. \<lparr>create_open = 4, create_seek = 0, create_write = 1, file_open = 5, file_mmap = True\<rparr>), all_lock = 0\<rparr>"

lemma good_calls: "calls_served good_calls" "replicate 128 0 ! 0 = (0 :: u8)"
  by (simp_all add: calls_served_def shm_served_def files_served_def good_calls_def)

theorem session_table_starts_witness:
  "\<exists>st disk s' s1 m. start_bfd_session_table good_calls 5 (replicate 128 0) 4711 (no_session_table, \<lambda>_. None) = Some (0, st, disk) \<and>
    ROOT st = Some (fst s') \<and> new_files_made (replicate 128 0) 4711 (\<lambda>_. None) disk \<and>
    data_pointer (DATAFILES_INDEX st ! 127) = Some m \<and>
    (\<exists>s2. get_sess_manage (db_ops 6) s' = Some (Some zero_manage, s2)) \<and>
    find_session (db_ops 6) \<lparr>sin_family = 2, sin_port = 0xc80e, s_addr = 0x0100007f, sin_zero = 0\<rparr> 16 s' = Some (None, s1)"
proof -
  let ?a = "\<lparr>sin_family = 2, sin_port = 0xc80e, s_addr = 0x0100007f, sin_zero = 0\<rparr> :: sockaddr_in"
  have h: "safe_hash (encode_sess_key (sess_key ?a)) \<noteq> 0" by code_simp
  from session_table_starts [OF good_calls(1) _ good_calls(2) _ _ _ h, of 4711 "\<lambda>_. None" 16 5 6 "\<lambda>_ w. (0, w)" "()"]
  obtain st disk s' F s1 where s: "start_bfd_session_table good_calls 5 (replicate 128 0) 4711 (no_session_table, \<lambda>_. None) = Some (0, st, disk)"
    "ROOT st = Some (fst s')" "new_files_made (replicate 128 0) 4711 (\<lambda>_. None) disk" "DATAFILES_INDEX st = snd s'" "files_ok (snd s') F"
    "\<exists>s2. get_sess_manage (db_ops 6) s' = Some (Some zero_manage, s2)" "find_session (db_ops 6) ?a 16 s' = Some (None, s1)"
    by (simp del: split_paired_Ex) blast
  obtain m where "data_pointer (snd s' ! 127) = Some m" by (rule files_okE [OF s(5), of 127]) simp_all
  with s show ?thesis by (simp del: split_paired_Ex) blast
qed

text \<open>C39. A restart keeps the database. When the session table is detached (\<open>finalize_bfd_session_table\<close>, the
  files being left) and the steps of the start are done again on the same files, the index is
  attached to and not made anew, no category is formatted and no data file is initialised: the
  database is consistent, with the same trees and the same items at the same places.\<close>

theorem database_survives_restart:
  assumes "calls_served sys" "pid < 2 ^ 32" "pfx ! 0 = 0"
    and "CATEGORIES st = Mapped (category_area sys0 pfx (index_dir pid))" "DATAFILES st = Mapped (datafile_area sys0 pfx (data_dir pid))"
    and "CATEGORIES_INDEX st = categories inst" "DATAFILES_INDEX st = fs"
    and "db_ok f inst fs F" "roots_unique f inst" "\<forall>n<CATEGORY_CNT. cat_id (categories inst ! n) = of_nat n"
    and "files_there pfx pid disk0 disk" "\<forall>p x. disk0 p = Some x \<longrightarrow> file_size x = IPC_DATAFILE_TTLSIZE"
  shows "\<exists>st1 disk1 st2 disk2 inst'. detach_session_table (st, disk) = (0, st1, disk1) \<and>
    open_session_table sys now pfx pid (st1, disk1) = Some (0, st2, disk2) \<and>
    ROOT st2 = Some inst' \<and> db_ok f inst' (DATAFILES_INDEX st2) F"
proof -
  have ix: "index_ok f inst" and fo: "files_ok fs F" using assms(8) by (simp_all add: db_ok_def)
  define dm where "dm n = the (data_pointer (fs ! n))" for n
  have dm: "data_pointer (fs ! n) = Some (dm n)" "file_ok (dm n) (F n)" if "n < IPC_DATAFILE_MAX" for n
    by (rule files_okE [OF fo that], simp add: dm_def)+
  have cl: "length (categories inst) = CATEGORY_CNT" "\<forall>n<CATEGORY_CNT. category_on_process.data_pointer (categories inst ! n) = Some (mem (tree_of inst n))"
    using ix by (auto simp: index_ok_def categories_attached_def)
  have lm: "length (CATEGORIES_INDEX st) = CATEGORY_CNT" "length (DATAFILES_INDEX st) = IPC_DATAFILE_MAX"
    "\<forall>n<CATEGORY_CNT. category_on_process.data_pointer (CATEGORIES_INDEX st ! n) = Some (mem (tree_of inst n))"
    "\<forall>n<IPC_DATAFILE_MAX. data_pointer (DATAFILES_INDEX st ! n) = Some (dm n)"
    unfolding assms(6,7) using cl dm(1) fo by (simp_all only: files_ok_def, blast+)
  obtain st1 disk1 where de: "detach_session_table (st, disk) = (0, st1, disk1)" "CATEGORIES st1 = Invalid_ptr" "DATAFILES st1 = Invalid_ptr"
    "\<And>n. n < CATEGORY_CNT \<Longrightarrow> disk1 (cpath pfx (index_dir pid) n) =
      map_option (content_update (\<lambda>_. mem (tree_of inst n))) (disk (cpath pfx (index_dir pid) n))"
    "\<And>n. n < IPC_DATAFILE_MAX \<Longrightarrow> disk1 (dpath pfx (data_dir pid) n) =
      map_option (content_update (\<lambda>_. dm n)) (disk (dpath pfx (data_dir pid) n))"
    by (rule detach_ok [OF assms(2-5) lm, of disk]) (rule that; assumption)
  have cd: "disk_content disk1 (cpath pfx (index_dir pid) n) = mem (tree_of inst n)" if "n < CATEGORY_CNT" for n
    using de(4) [OF that] assms(11) that by (auto simp: disk_content_def files_there_def)
  have dd: "\<exists>x. disk1 (dpath pfx (data_dir pid) n) = Some x \<and> file_size x = IPC_DATAFILE_TTLSIZE \<and> content x = dm n"
    if "n < IPC_DATAFILE_MAX" for n
    using de(5) [OF that] assms(11,12) that by (auto simp: files_there_def split: option.splits)
  have s: "0 < file_open (cat_file sys k)" "0 < file_open (db_file sys k)" for k
    using assms(1) by (simp_all add: calls_served_def files_served_def)
  have s': "file_open (cat_file sys k) \<noteq> INVALID_SOCKET" for k using s(1) [of k] by linarith
  obtain cats fs' disk' where o: "length cats = CATEGORY_CNT"
    "\<And>n. n < CATEGORY_CNT \<Longrightarrow> cats ! n = \<lparr>cat_id = of_nat n, filesize = of_nat CATEGORY_SIZE, filefd = file_open (cat_file sys n),
      data_pointer = Some (rebuilt (ucast now) n (disk_content disk1 (cpath pfx (index_dir pid) n)))\<rparr>"
    "fs' = init_datafiles_from_file (\<lambda>n. Some (case disk1 (dpath pfx (data_dir pid) n) of None \<Rightarrow> IPC_DATAFILE_TTLSIZE | Some f \<Rightarrow> file_size f))
      (\<lambda>n. file_open (db_file sys n)) (\<lambda>n. Some (disk_content disk1 (dpath pfx (data_dir pid) n))) now
      (\<lambda>n. get_datafile_shmnm pfx @ of_string ''.'' @ decimal2 n)"
    "\<And>inst. create_tree_unsafe 0 (ucast now) cats = Inr inst \<Longrightarrow>
      open_session_table sys now pfx pid (st1, disk1) = Some (0, \<lparr>CATEGORIES = Mapped (category_area sys pfx (index_dir pid)),
        DATAFILES = Mapped (datafile_area sys pfx (data_dir pid)), DATAFILES_INDEX = fs', CATEGORIES_INDEX = categories inst,
        ROOT = Some inst\<rparr>, disk')"
    "files_there pfx pid disk1 disk'"
    by (rule open_session_table_ok [OF assms(1) de(2,3) assms(2,3), of now disk1]) (rule that; assumption)
  obtain inst' where t: "create_tree_unsafe 0 (ucast now) cats = Inr inst'" "index_ok f inst'"
    by (rule restart_index [OF ix assms(9) o(1), of "ucast now" "ucast now"]) (use o(2) cd s' assms(10) in simp_all)
  have "files_ok fs' F"
    unfolding o(3) by (rule old_files) (use dd s(2) dm in \<open>fastforce simp: disk_content_def\<close>)
  then have "db_ok f inst' fs' F" using assms(8) t(2) by (simp add: db_ok_def)
  then show ?thesis using de(1) o(4) [OF t(1)] by fastforce
qed

theorem database_survives_restart_witness:
  "\<exists>st disk st1 disk1 st2 disk2 inst' f. open_session_table good_calls 5 (replicate 128 0) 4711 (no_session_table, \<lambda>_. None) = Some (0, st, disk) \<and>
    detach_session_table (st, disk) = (0, st1, disk1) \<and>
    open_session_table good_calls 9 (replicate 128 0) 4711 (st1, disk1) = Some (0, st2, disk2) \<and>
    ROOT st2 = Some inst' \<and> db_ok f inst' (DATAFILES_INDEX st2) (\<lambda>_. Map.empty)"
proof (rule create_tree_new_files [OF good_calls(1) _ good_calls(2), of 4711 "\<lambda>_. None" 5])
  fix f inst fs st disk'
  assume o: "open_session_table good_calls 5 (replicate 128 0) 4711 (no_session_table, \<lambda>_. None) = Some (0, st, disk')"
    "DATAFILES_INDEX st = fs" "CATEGORIES_INDEX st = categories inst"
    "CATEGORIES st = Mapped (category_area good_calls (replicate 128 0) (index_dir 4711))"
    "DATAFILES st = Mapped (datafile_area good_calls (replicate 128 0) (data_dir 4711))"
    and d: "db_ok f inst fs (\<lambda>_. Map.empty)" "roots_unique f inst" "files_there (replicate 128 0) 4711 (\<lambda>_. None) disk'"
    "\<forall>n<CATEGORY_CNT. cat_id (categories inst ! n) = of_nat n"
  from database_survives_restart [OF good_calls(1) _ good_calls(2) o(4,5,3,2) d(1,2,4,3), of 9] o(1)
  show ?thesis by (simp del: split_paired_Ex) blast
qed simp_all

end
