(* ===== verification/Spec2Isabelle.thy ===== *)
theory Spec2Isabelle
  imports Prelude Smmr_Base Bfd_Packet Bfd_Daemon Bfd_Manager Bfd_Reflector Smmr_Store Tree_Set Tree_Visit
    Smmr_Buffer Database_Map Session_Start
begin

text \<open>
  Verification of network-bfd-sample: three programs that speak BFD (RFC 5880), and the library
  \<open>smmr\<close> (key-value store in shared memory) that one of them keeps its sessions in.

  \<^bold>\<open>The parts and how they interact.\<close> The C daemon (\<open>src/bfdd\<close>) receives packets on a socket, updates the
  session of the peer in its session table and answers or sends periodically. The table is stored in
  the database of \<open>smmr\<close> (\<open>src/deps/smmr\<close>): items in data files (\<open>smmr_database.c\<close>), found through an index,
  a B-tree (\<open>smmr_tree.c\<close>) whose nodes are blocks of an allocator (\<open>smmr_memory.c\<close>) in four mapped
  category files (\<open>smmr_categories.c\<close>). The C++ service (\<open>src/bfdd_cpp\<close>) keeps its sessions in a
  \<open>std::map\<close> behind a mutex. The netmap reflector (\<open>src/bfdd_netmap\<close>) has no sessions: it turns each
  BFD frame around in the ring buffers of the interface.

  \<^bold>\<open>BFD.\<close>
  \<^item> \<open>Bfd_Packet\<close>: \<open>struct bfd\<close> of \<open>bfdd.h\<close>, its bit fields, its bytes and the checks of the receivers.
  \<^item> \<open>Bfd_Session\<close>: the table of \<open>bfdd_session.c\<close> over a store that is a parameter (\<open>kv_ops\<close>), with the
    bytes of its structures.
  \<^item> \<open>Bfd_Event\<close>: \<open>recv_bfd_event\<close>, \<open>send_bfd_event\<close>, \<open>iterate_on_session\<close> of \<open>bfdd_event.c\<close> and the loop of
    \<open>bfdd.c\<close>; system calls are parameters or a list of events.
  \<^item> \<open>Session_Map\<close>: the table over a map as the store (\<open>map_ops\<close>): what its operations find, which
    writes they make, and which packets one iteration sends.
  \<^item> \<open>Bfd_Protocol\<close>: the table of RFC 5880, and two ways to join two endpoints. A link loses, repeats and
    reorders packets, and an endpoint may put its packet on it at any time, also when a guard of the
    program would withhold it: this is more than the programs do and is used for safety only (locales
    \<open>bfd_endpoint\<close>, \<open>bfd_fsm\<close>). A round is lossless, at given clock readings, and carries the bytes
    that the programs send after all their guards to receivers with all their checks (locale
    \<open>bfd_peer\<close>): it is used for liveness.
  \<^item> \<open>Bfd_Daemon\<close>: the daemon interprets both (\<open>c_daemon\<close>, \<open>c_peer\<close>): no session is up before both ends
    heard each other; two daemons come up in four rounds when one of them has attached its session,
    and never send anything when neither has, for only a received packet attaches a session. The effect
    of a packet of a known and of a new peer on the table, the packets of one round of sending, and
    distinct discriminators.
  \<^item> \<open>Bfd_Cpp\<close>, \<open>Bfd_Manager\<close>: \<open>BfdSession\<close>, \<open>BfdSessionManager\<close> and \<open>Server\<close>; the critical sections are the
    steps of a relation, their interleavings keep an invariant; the table is an interface
    (\<open>session_table\<close>); a received packet refines an update of a map; also an endpoint of a link
    (\<open>cpp_service\<close>) and of the rounds (\<open>cpp_peer\<close>), with the detection time as the limit between rounds.
  \<^item> \<open>Bfd_Netmap\<close>, \<open>Bfd_Reflector\<close>: \<open>bfdd_netmap.c\<close> and \<open>bfdd_netmap_func.c\<close> on frames as bytes and rings as
    slots with buffer numbers: no buffer is lost or doubled, \<open>move\<close> returns, an answer is a valid
    packet unless it answers an AdminDown packet that names no discriminator, and a session whose
    packets are sent and answered comes up (locale \<open>reflected_peer\<close>).

  \<^bold>\<open>The allocator.\<close> A mapped file is a function from offsets to bytes and every access of a field is a
  load or a store of its bytes, so that aliasing is that of the C code.
  \<^item> \<open>Smmr_Base\<close>, \<open>Smmr_Memory\<close>: \<open>smmr.inl\<close>, and \<open>shmalloc\<close>, \<open>shmfree\<close>, \<open>attach\<close> with all they call.
  \<^item> \<open>Smmr_Page\<close>, \<open>Smmr_Alloc\<close>, \<open>Smmr_Heap\<close>, \<open>Smmr_Room\<close>: the invariant of a page (two doubly linked lists
    and a bucket that tile it), the operations on a page, the blocks of a category, and how many
    allocations are sure to succeed.
  \<^item> \<open>Smmr_Rebuild\<close>, \<open>Smmr_Store\<close>: rebuilding the bitmaps and summaries when a file is opened or inspected;
    the contract of the allocator over the life of a file, as the interface \<open>block_heap\<close> and its
    interpretation.

  \<^bold>\<open>The index.\<close>
  \<^item> \<open>Smmr_Categories\<close>, \<open>Smmr_Tree\<close>: the category of a hash; insertion with splits, removal with borrowing
    and merging, the searches, counting and creation of \<open>smmr_tree.c\<close>. Recursion over the nodes in
    memory is \<open>partial_function (option)\<close>, so that it ends is part of every theorem.
  \<^item> \<open>Btree\<close>, \<open>Btree_Inv\<close>, \<open>Btree_Rem\<close>: the reference algorithm on a datatype with its locations as ghosts:
    balanced, two to four keys in a node, the keys in order.
  \<^item> \<open>Tree_Node\<close>, \<open>Tree_Heap\<close>, \<open>Tree_Insert\<close>, \<open>Tree_Remove\<close>, \<open>Tree_Search\<close>, \<open>Tree_Visit\<close>: the operations on memory
    refine the reference algorithm and change no other block; the search by hash with callbacks that
    may stop it.
  \<^item> \<open>Tree_Index\<close>, \<open>Tree_Create\<close>, \<open>Tree_Set\<close>: the four trees together are a set of keys (\<open>key_set\<close>, interpreted by
    the operations), from the moment the categories are formatted or attached again.

  \<^bold>\<open>The database.\<close>
  \<^item> \<open>Smmr_Database\<close>: \<open>search\<close>, \<open>store\<close>, their callbacks, both ways to insert an item, giving an item
    back, new files; \<open>Smmr_Buffer\<close>: the growing text buffer of \<open>smmr_pagedbuffer.c\<close>.
  \<^item> \<open>Database_File\<close>: one file: the search for free pages is exact, items keep to pages of their own.
  \<^item> \<open>Database_Search\<close>, \<open>Database_Store\<close>: the items and the index together; \<open>search\<close> is a look-up, \<open>store\<close> of a
    new key an update of the map.
  \<^item> \<open>Database_Map\<close>: the interface \<open>kv_map\<close>, interpreted by \<open>store\<close> and \<open>search\<close>, and the properties.
  \<^item> \<open>Smmr_Files\<close>, \<open>Database_Area\<close>: names, creating, mapping, sharing and removing the category files
    and the data files with their shared memory objects; system calls are parameters.
  \<^item> \<open>Session_Store\<close>, \<open>Session_Start\<close>: the session table of the daemon on the database; its start from a
    disk without files, up to the empty table on the files it made; detaching and opening again.

  \<^bold>\<open>Bounds.\<close> Words have the widths of the C types. An index that is built from formatted categories
  has room for 100000 insertions (a tree of at most 10 levels; an insertion allocates at most a node
  more than the height, and every category has 1394348 such blocks). A data file takes 129999 pages of 128 bytes
  before the 24 bits of an offset in the index are used up, although it has 1047550. At most 32 items
  with one hash may be overdue when a search meets them, for that many removals are reserved.
  \<open>room_for\<close>, \<open>file_room\<close> and \<open>db_room\<close> are these bounds as hypotheses; they hold for new files.

  \<^bold>\<open>Storing a key that is there already\<close> is modelled (\<open>findindex_callback_for_update_insert\<close>), but no map law
  holds for it: the callback's flag is overwritten on its last line, so that the old item is changed
  in place or left and a second item is inserted in any case. The laws of \<open>store\<close> are for new keys.
  So \<open>map_ops\<close>, under the properties of the daemon that write a session again, is the store as the
  daemon needs it; the database is shown to be such a map for look-ups and new keys.

  \<^bold>\<open>Not modelled.\<close> System calls and what only wraps them: sockets (\<open>bfdd_socket.c\<close>), the attributes of
  mutexes, \<open>remove_safe\<close> (so the end of the daemon detaches its table, but the deletion of the files
  that follows is left out), signals, threads, netmap itself; text reports (\<open>print\<close>,
  \<open>print_tree_safe\<close>, the memory status); tests and examples. The results of calls are parameters
  where the code depends on them. Processes that change shared memory without taking the lock are out
  of scope, as are crashes in the middle of an operation. A restart is then a detaching and an opening
  on files that were left on the disk.
\<close>

end
